(* ===== verification/Prelude.thy ===== *)
theory Prelude
  imports Main "HOL-Library.Word" "HOL-Library.Monad_Syntax"
begin

text \<open>
  What every component shares. A C function that may run into undefined behaviour (a NULL or
  dangling pointer, an index outside an object, a destroyed lock) returns an \<open>option\<close> here:
  \<open>None\<close> is undefined behaviour, \<open>Some\<close> a defined result; the do-notation of
  \<open>Monad_Syntax\<close> threads it. The generic operations below are the memory accesses
  (\<open>get_at\<close>, \<open>put_at\<close>, \<open>memcpy_to\<close>, \<open>memset_zero\<close>, \<open>realloc_list\<close>), the bounded search loop
  \<open>for (i = 0; i < n; i++) if (P(a[i])) break;\<close> as \<open>loop_find\<close>, and the conversion of an
  \<open>int\<close> to \<open>size_t\<close>. The lemmas on them are in the simpset or in the collections
  \<open>fault_simps\<close> (unfolding and inverting the option monad) and \<open>mem_simps\<close>.
\<close>

named_theorems fault_simps
named_theorems mem_simps

unbundle bit_operations_syntax

subsection \<open>Faults\<close>

text \<open>\<open>None\<close> for undefined behaviour unless the condition holds.\<close>

definition assertm :: "bool \<Rightarrow> unit option" where
  "assertm b = (if b then Some () else None)"

lemma assertm_Some [simp]: "assertm b = Some u \<longleftrightarrow> b"
  by (simp add: assertm_def)

lemma assertm_None [simp]: "assertm b = None \<longleftrightarrow> \<not> b"
  by (simp add: assertm_def)

lemma assertm_True [simp]: "assertm True = Some ()"
  by (simp add: assertm_def)

lemma assertm_False [simp]: "assertm False = None"
  by (simp add: assertm_def)

lemma bind_assertm_eq_Some [fault_simps]:
  "(assertm b \<bind> f) = Some y \<longleftrightarrow> b \<and> f () = Some y"
  by (simp add: assertm_def)

lemma bind_assertm_if: "(assertm b \<bind> f) = (if b then f () else None)"
  by (simp add: assertm_def)

declare bind_eq_Some_conv [fault_simps]

text \<open>
  \<open>post m Q\<close>: if \<open>m\<close> is defined, its result satisfies \<open>Q\<close>; the rules walk through a do-block.
\<close>

definition post :: "'a option \<Rightarrow> ('a \<Rightarrow> bool) \<Rightarrow> bool" where
  "post m Q \<longleftrightarrow> (\<forall>x. m = Some x \<longrightarrow> Q x)"

lemma postI: "(\<And>x. m = Some x \<Longrightarrow> Q x) \<Longrightarrow> post m Q"
  by (simp add: post_def)

lemma postD: "post m Q \<Longrightarrow> m = Some x \<Longrightarrow> Q x"
  by (simp add: post_def)

lemma post_Some [simp]: "post (Some x) Q \<longleftrightarrow> Q x"
  by (simp add: post_def)

lemma post_None [simp]: "post None Q"
  by (simp add: post_def)

lemma post_bind: "post m P \<Longrightarrow> (\<And>x. P x \<Longrightarrow> m = Some x \<Longrightarrow> post (f x) Q) \<Longrightarrow> post (m \<bind> f) Q"
  by (cases m) (auto simp: post_def)

lemma post_pure: "(\<And>x. m = Some x \<Longrightarrow> post (f x) Q) \<Longrightarrow> post (m \<bind> f) Q"
  by (cases m) auto

lemma post_weaken: "post m P \<Longrightarrow> (\<And>x. P x \<Longrightarrow> Q x) \<Longrightarrow> post m Q"
  by (auto simp: post_def)

lemma post_if: "(b \<Longrightarrow> post m Q) \<Longrightarrow> (\<not> b \<Longrightarrow> post n Q) \<Longrightarrow> post (if b then m else n) Q"
  by simp

lemma post_option: "(x = None \<Longrightarrow> post m Q) \<Longrightarrow> (\<And>y. x = Some y \<Longrightarrow> post (f y) Q) \<Longrightarrow>
    post (case x of None \<Rightarrow> m | Some y \<Rightarrow> f y) Q"
  by (cases x) auto

lemma post_prod: "(\<And>a b. x = (a, b) \<Longrightarrow> post (f a b) Q) \<Longrightarrow> post (case x of (a, b) \<Rightarrow> f a b) Q"
  by (cases x) auto

lemma post_list: "(x = [] \<Longrightarrow> post m Q) \<Longrightarrow> (\<And>y ys. x = y # ys \<Longrightarrow> post (f y ys) Q) \<Longrightarrow>
    post (case x of [] \<Rightarrow> m | y # ys \<Rightarrow> f y ys) Q"
  by (cases x) auto

lemma post_Let: "(\<And>x. x = v \<Longrightarrow> post (f x) Q) \<Longrightarrow> post (let x = v in f x) Q"
  by simp

text \<open>A chain of steps in a transitive relation between states.\<close>

lemma post_step:
  assumes "\<And>a b c. R a b \<Longrightarrow> R b c \<Longrightarrow> R a c" "R s s1" "post m (R s1)"
  shows "post m (R s)"
  by (rule post_weaken[OF assms(3)]) (rule assms(1)[OF assms(2)])

lemma post_chain:
  assumes "\<And>a b c. R a b \<Longrightarrow> R b c \<Longrightarrow> R a c" "post m (R s)"
    "\<And>s1. R s s1 \<Longrightarrow> m = Some s1 \<Longrightarrow> post (f s1) (R s1)"
  shows "post (m \<bind> f) (R s)"
  by (rule post_bind[OF assms(2)], rule post_step[of R, OF assms(1)], assumption+, rule assms(3))

lemma post_chain2:
  assumes "\<And>a b c. R a b \<Longrightarrow> R b c \<Longrightarrow> R a c" "post m (\<lambda>(x, s1). R s s1)"
    "\<And>x s1. R s s1 \<Longrightarrow> m = Some (x, s1) \<Longrightarrow> post (f x s1) (R s1)"
  shows "post (m \<bind> (\<lambda>(x, s1). f x s1)) (R s)"
  by (rule post_bind[OF assms(2)], clarify, rule post_step[of R, OF assms(1)], assumption+, rule assms(3))

lemmas post_cases = post_if post_option post_prod post_list post_Let

subsection \<open>Array accesses\<close>

definition get_at :: "'a list \<Rightarrow> nat \<Rightarrow> 'a option" where
  "get_at xs i = (if i < length xs then Some (xs ! i) else None)"

definition put_at :: "'a list \<Rightarrow> nat \<Rightarrow> 'a \<Rightarrow> 'a list option" where
  "put_at xs i v = (if i < length xs then Some (xs[i := v]) else None)"

lemma get_at_Some [simp]: "get_at xs i = Some x \<longleftrightarrow> i < length xs \<and> xs ! i = x"
  by (auto simp: get_at_def)

lemma get_at_in [simp]: "i < length xs \<Longrightarrow> get_at xs i = Some (xs ! i)"
  by (simp add: get_at_def)

lemma get_at_out [simp]: "length xs \<le> i \<Longrightarrow> get_at xs i = None"
  by (simp add: get_at_def)

lemma put_at_Some [simp]: "put_at xs i v = Some ys \<longleftrightarrow> i < length xs \<and> xs[i := v] = ys"
  by (auto simp: put_at_def)

lemma put_at_in [simp]: "i < length xs \<Longrightarrow> put_at xs i v = Some (xs[i := v])"
  by (simp add: put_at_def)

lemma put_at_out [simp]: "length xs \<le> i \<Longrightarrow> put_at xs i v = None"
  by (simp add: put_at_def)

subsection \<open>The search loop over an array\<close>

text \<open>
  \<open>loop_find P n xs\<close> is the value of \<open>i\<close> when the loop
  \<open>for (i = 0; i < n; i++) if (P(xs[i])) break;\<close> ends: the first index below \<open>n\<close> where \<open>P\<close>
  holds, or \<open>n\<close>; \<open>None\<close> if the loop reads past the end of the array.
\<close>

fun loop_find :: "('a \<Rightarrow> bool) \<Rightarrow> nat \<Rightarrow> 'a list \<Rightarrow> nat option" where
  "loop_find P 0 xs = Some 0"
| "loop_find P (Suc n) [] = None"
| "loop_find P (Suc n) (x # xs) =
     (if P x then Some 0 else map_option Suc (loop_find P n xs))"

lemma loop_find_total: "n \<le> length xs \<Longrightarrow> \<exists>i. loop_find P n xs = Some i"
  by (induction P n xs rule: loop_find.induct) auto

lemma loop_find_le: "loop_find P n xs = Some i \<Longrightarrow> i \<le> n"
  by (induction P n xs arbitrary: i rule: loop_find.induct) (auto split: if_splits)

lemma loop_find_before: "loop_find P n xs = Some i \<Longrightarrow> j < i \<Longrightarrow> j < length xs \<and> \<not> P (xs ! j)"
proof (induction P n xs arbitrary: i j rule: loop_find.induct)
  case (3 P n x xs)
  then show ?case by (cases j) (auto split: if_splits)
qed auto

lemma loop_find_hit: "loop_find P n xs = Some i \<Longrightarrow> i < n \<Longrightarrow> i < length xs \<and> P (xs ! i)"
proof (induction P n xs arbitrary: i rule: loop_find.induct)
  case (3 P n x xs)
  then show ?case by (cases i) (auto split: if_splits)
qed auto

lemma loop_find_eqI:
  assumes "i \<le> n" "n \<le> length xs" "\<And>j. j < i \<Longrightarrow> \<not> P (xs ! j)" "i < n \<Longrightarrow> P (xs ! i)"
  shows "loop_find P n xs = Some i"
proof -
  obtain k where k: "loop_find P n xs = Some k" using loop_find_total[OF assms(2)] by blast
  then have "k \<le> n" by (rule loop_find_le)
  have "\<not> k < i" using assms(1,3) loop_find_hit[OF k] by auto
  moreover have "\<not> i < k" using assms(4) loop_find_before[OF k] \<open>k \<le> n\<close> by auto
  ultimately show ?thesis using k by simp
qed

lemma loop_find_none:
  "n \<le> length xs \<Longrightarrow> loop_find P n xs = Some n \<longleftrightarrow> (\<forall>j < n. \<not> P (xs ! j))"
  using loop_find_before loop_find_eqI[of n n xs P] by fastforce

subsection \<open>Buffers\<close>

definition memcpy_to :: "'a list \<Rightarrow> nat \<Rightarrow> 'a list \<Rightarrow> 'a list option" where
  "memcpy_to buf off bs =
     (if off + length bs \<le> length buf
      then Some (take off buf @ bs @ drop (off + length bs) buf) else None)"

definition memset_zero :: "char list \<Rightarrow> nat \<Rightarrow> nat \<Rightarrow> char list option" where
  "memset_zero buf off n = memcpy_to buf off (replicate n (CHR 0x00))"

text \<open>\<open>realloc\<close> keeps the common prefix; the added cells hold \<open>z\<close>.\<close>

definition realloc_list :: "'a list \<Rightarrow> nat \<Rightarrow> 'a \<Rightarrow> 'a list" where
  "realloc_list xs n z = take n xs @ replicate (n - length xs) z"

text \<open>Reading \<open>n\<close> bytes from a pointer into a buffer.\<close>

definition read_bytes :: "'a list \<Rightarrow> nat \<Rightarrow> nat \<Rightarrow> 'a list option" where
  "read_bytes buf off n = (if off + n \<le> length buf then Some (take n (drop off buf)) else None)"

lemma memcpy_to_Some [simp]:
  "memcpy_to buf off bs = Some b \<longleftrightarrow>
     off + length bs \<le> length buf \<and> b = take off buf @ bs @ drop (off + length bs) buf"
  by (auto simp: memcpy_to_def)

lemma memcpy_to_length: "memcpy_to buf off bs = Some b \<Longrightarrow> length b = length buf"
  by auto

lemma memcpy_to_prefix:
  "memcpy_to buf off bs = Some b \<Longrightarrow> take (off + length bs) b = take off buf @ bs"
  by auto

lemma read_bytes_Some [simp]:
  "read_bytes buf off n = Some b \<longleftrightarrow> off + n \<le> length buf \<and> b = take n (drop off buf)"
  by (auto simp: read_bytes_def)

lemma realloc_list_length [simp]: "length (realloc_list xs n z) = n"
  by (simp add: realloc_list_def)

lemma realloc_list_grow: "length xs \<le> n \<Longrightarrow> realloc_list xs n z = xs @ replicate (n - length xs) z"
  by (simp add: realloc_list_def)

lemma take_realloc_list [mem_simps]:
  "k \<le> length xs \<Longrightarrow> k \<le> n \<Longrightarrow> take k (realloc_list xs n z) = take k xs"
  by (simp add: realloc_list_def min_def)

subsection \<open>Integers\<close>

text \<open>
  \<open>int\<close> is 32 bits and \<open>size_t\<close> 64 bits; an \<open>int\<close> compared with a \<open>size_t\<close> is converted
  first, so that -1 becomes the largest \<open>size_t\<close>.
\<close>

definition int_to_size :: "int \<Rightarrow> nat" where
  "int_to_size i = nat (i mod 2 ^ 64)"

lemma int_to_size_nonneg [simp]: "0 \<le> i \<Longrightarrow> i < 2 ^ 64 \<Longrightarrow> int_to_size i = nat i"
  by (simp add: int_to_size_def)

lemma int_to_size_minus1: "int_to_size (-1) = 2 ^ 64 - 1"
  by (simp add: int_to_size_def)

lemma int_to_size_int: "n < 2 ^ 64 \<Longrightarrow> int_to_size (int n) = n"
proof -
  assume "n < 2 ^ 64"
  then have "int n < int (2 ^ 64)" by (simp only: of_nat_less_iff)
  then show ?thesis by simp
qed

text \<open>\<open>n--\<close> on a \<open>size_t\<close>.\<close>

definition size_dec :: "nat \<Rightarrow> nat" where
  "size_dec n = (if n = 0 then 2 ^ 64 - 1 else n - 1)"

definition INT_MAX :: int where
  "INT_MAX = 2147483647"

definition INT_MIN :: int where
  "INT_MIN = -2147483648"

text \<open>Signed addition: overflow is undefined.\<close>

definition int_add :: "int \<Rightarrow> int \<Rightarrow> int option" where
  "int_add a b = (if INT_MIN \<le> a + b \<and> a + b \<le> INT_MAX then Some (a + b) else None)"

lemma int_add_Some [simp]:
  "int_add a b = Some c \<longleftrightarrow> INT_MIN \<le> a + b \<and> a + b \<le> INT_MAX \<and> c = a + b"
  by (auto simp: int_add_def)

text \<open>Unsigned bytes of a \<open>char\<close>.\<close>

abbreviation byte :: "char \<Rightarrow> nat" where
  "byte c \<equiv> of_char c"

subsection \<open>Mutexes\<close>

text \<open>
  A mutex as the thread that runs a critical section sees it: locking a mutex it already holds
  never returns, locking a destroyed one is undefined; both are \<open>None\<close>.
\<close>

datatype mutex = Unlocked | Locked | Destroyed

definition mutex_lock :: "mutex \<Rightarrow> mutex option" where
  "mutex_lock m = (if m = Unlocked then Some Locked else None)"

definition mutex_unlock :: "mutex \<Rightarrow> mutex option" where
  "mutex_unlock m = (if m = Locked then Some Unlocked else None)"

definition mutex_destroy :: "mutex \<Rightarrow> mutex option" where
  "mutex_destroy m = (if m = Unlocked then Some Destroyed else None)"

lemma mutex_simps [simp]:
  "mutex_lock m = Some m' \<longleftrightarrow> m = Unlocked \<and> m' = Locked"
  "mutex_unlock m = Some m' \<longleftrightarrow> m = Locked \<and> m' = Unlocked"
  "mutex_destroy m = Some m' \<longleftrightarrow> m = Unlocked \<and> m' = Destroyed"
  "mutex_lock Unlocked = Some Locked"
  "mutex_unlock Locked = Some Unlocked"
  "mutex_destroy Unlocked = Some Destroyed"
  by (auto simp: mutex_lock_def mutex_unlock_def mutex_destroy_def)

text \<open>\<open>BUFSIZ\<close> of glibc's \<open>stdio.h\<close>.\<close>

definition BUFSIZ :: nat where
  "BUFSIZ = 8192"

lemma BUFSIZ_pos [simp]: "0 < BUFSIZ"
  by (simp add: BUFSIZ_def)

subsection \<open>Strings of C\<close>

text \<open>\<open>strncmp(a, b, n) == 0\<close>, reading as many bytes as the C function does.\<close>

fun strncmp_eq :: "string \<Rightarrow> string \<Rightarrow> nat \<Rightarrow> bool option" where
  "strncmp_eq a b 0 = Some True"
| "strncmp_eq (x # a) (y # b) (Suc n) =
     (if x \<noteq> y then Some False else if x = CHR 0x00 then Some True else strncmp_eq a b n)"
| "strncmp_eq [] b (Suc n) = None"
| "strncmp_eq a [] (Suc n) = None"

text \<open>A string literal of C, with the byte that ends it.\<close>

definition c_str :: "string \<Rightarrow> string" where
  "c_str s = s @ [CHR 0x00]"

subsection \<open>Start of a program\<close>

text \<open>\<open>strtol\<close> in base 10: the value (clamped to a 64-bit \<open>long\<close>), whether it sets \<open>errno\<close>, the rest.\<close>

definition is_digit :: "char \<Rightarrow> bool" where
  "is_digit c \<longleftrightarrow> 48 \<le> byte c \<and> byte c \<le> 57"

fun digits_value :: "string \<Rightarrow> int \<Rightarrow> int \<times> string" where
  "digits_value [] acc = (acc, [])"
| "digits_value (c # cs) acc =
     (if is_digit c then digits_value cs (acc * 10 + (int (byte c) - 48)) else (acc, c # cs))"

definition strtol10 :: "string \<Rightarrow> int \<times> bool \<times> string" where
  "strtol10 s =
     (let s1 = dropWhile (\<lambda>c. c = CHR 0x20 \<or> (9 \<le> byte c \<and> byte c \<le> 13)) s;
          neg = (s1 \<noteq> [] \<and> hd s1 = CHR ''-'');
          s2 = (if s1 \<noteq> [] \<and> (hd s1 = CHR ''-'' \<or> hd s1 = CHR ''+'') then tl s1 else s1) in
      if s2 = [] \<or> \<not> is_digit (hd s2) then (0, False, s)
      else (let (v, rest) = digits_value s2 0;
                w = (if neg then - v else v);
                c = max (- (2 ^ 63)) (min (2 ^ 63 - 1) w) in
            (c, c \<noteq> w, rest)))"

text \<open>The conversion of a \<open>long\<close> to \<open>int\<close>.\<close>

definition int_of_long :: "int \<Rightarrow> int" where
  "int_of_long v = (v + 2 ^ 31) mod 2 ^ 32 - 2 ^ 31"

text \<open>A program's start either goes on or ends with an exit status.\<close>

datatype 'a outcome = Go 'a | Exit int

text \<open>Reading an evaluation that is written with case distinctions.\<close>

lemma case_Some_True: "(case x of Some s \<Rightarrow> P s | None \<Rightarrow> False) \<longleftrightarrow> (\<exists>s. x = Some s \<and> P s)"
  by (cases x) auto

lemma case_Go_True: "(case x of Go s \<Rightarrow> P s | Exit c \<Rightarrow> False) \<longleftrightarrow> (\<exists>s. x = Go s \<and> P s)"
  by (cases x) auto

lemma case_pair_True: "(case x of (a, b) \<Rightarrow> P a b) \<longleftrightarrow> (\<exists>a b. x = (a, b) \<and> P a b)"
  by (cases x) auto

lemmas case_True = case_Some_True case_Go_True case_pair_True

end
