(* ===== verification/HttpParser.thy ===== *)
theory HttpParser
  imports Prelude
begin

text \<open>
  The HTTP head parser that the proxies call, \<open>picohttpparser.c\<close> of
  \<open>matsko/33_proxy_with_thread_pool\<close> (the copies under 31 and 32 are the same file), in the
  build the Makefile makes: without SSE4.2, so that \<open>findchar_fast\<close> returns its argument.
  A pointer \<open>buf\<close> into the input is the list of the bytes from it to \<open>buf_end\<close>: \<open>buf == buf_end\<close>
  is \<open>[]\<close>, \<open>*buf\<close> is the head, and a difference of pointers is a difference of lengths.
  Each function returns \<open>Ok\<close>, or \<open>Ret r\<close> where the C code stores \<open>r\<close> in \<open>*ret\<close> and returns
  NULL (-1: malformed, -2: incomplete), or \<open>Oob\<close> where it would read at or past \<open>buf_end\<close>.
  The lemmas show that \<open>Oob\<close> never happens, that the hand-unrolled scan of \<open>get_token_to_eol\<close>
  is the plain scan, that what is consumed and every token lies inside the input, and that a
  result other than -2 does not change when more bytes arrive.
\<close>

subsection \<open>Results\<close>

datatype 'a scan = Ok 'a | Ret int | Oob

fun scan_bind :: "'a scan \<Rightarrow> ('a \<Rightarrow> 'b scan) \<Rightarrow> 'b scan" where
  "scan_bind (Ok x) f = f x"
| "scan_bind (Ret r) f = Ret r"
| "scan_bind Oob f = Oob"

lemma scan_bind_Ok: "scan_bind m f = Ok y \<longleftrightarrow> (\<exists>x. m = Ok x \<and> f x = Ok y)"
  by (cases m) auto

lemma scan_bind_Ret: "scan_bind m f = Ret r \<longleftrightarrow> m = Ret r \<or> (\<exists>x. m = Ok x \<and> f x = Ret r)"
  by (cases m) auto

lemma scan_bind_Oob: "scan_bind m f = Oob \<longleftrightarrow> m = Oob \<or> (\<exists>x. m = Ok x \<and> f x = Oob)"
  by (cases m) auto

lemmas scan_simps = scan_bind_Ok scan_bind_Ret scan_bind_Oob

abbreviation CR :: char where "CR \<equiv> CHR 0x0D"
abbreviation LF :: char where "LF \<equiv> CHR 0x0A"
abbreviation SP :: char where "SP \<equiv> CHR 0x20"
abbreviation HT :: char where "HT \<equiv> CHR 0x09"

subsection \<open>Character classes\<close>

text \<open>The macro subtracts in \<open>unsigned\<close>, so that a control character wraps to a large value.\<close>

definition IS_PRINTABLE_ASCII :: "char \<Rightarrow> bool" where
  "IS_PRINTABLE_ASCII c \<longleftrightarrow> (of_nat (byte c) :: 32 word) - 32 < 95"

definition is_ctl :: "char \<Rightarrow> bool" where
  "is_ctl c \<longleftrightarrow> (byte c < 32 \<and> c \<noteq> HT) \<or> c = CHR 0x7F"

definition token_char_map :: "nat list" where
  "token_char_map =
   [0, 0, 0, 0, 0, 0, 0, 0, 0, 0, 0, 0, 0, 0, 0, 0, 0, 0, 0, 0, 0, 0, 0, 0, 0, 0, 0, 0, 0, 0, 0, 0,
    0, 1, 0, 1, 1, 1, 1, 1, 0, 0, 1, 1, 0, 1, 1, 0, 1, 1, 1, 1, 1, 1, 1, 1, 1, 1, 0, 0, 0, 0, 0, 0,
    0, 1, 1, 1, 1, 1, 1, 1, 1, 1, 1, 1, 1, 1, 1, 1, 1, 1, 1, 1, 1, 1, 1, 1, 1, 1, 1, 0, 0, 0, 1, 1,
    1, 1, 1, 1, 1, 1, 1, 1, 1, 1, 1, 1, 1, 1, 1, 1, 1, 1, 1, 1, 1, 1, 1, 1, 1, 1, 1, 0, 1, 0, 1, 0,
    0, 0, 0, 0, 0, 0, 0, 0, 0, 0, 0, 0, 0, 0, 0, 0, 0, 0, 0, 0, 0, 0, 0, 0, 0, 0, 0, 0, 0, 0, 0, 0,
    0, 0, 0, 0, 0, 0, 0, 0, 0, 0, 0, 0, 0, 0, 0, 0, 0, 0, 0, 0, 0, 0, 0, 0, 0, 0, 0, 0, 0, 0, 0, 0,
    0, 0, 0, 0, 0, 0, 0, 0, 0, 0, 0, 0, 0, 0, 0, 0, 0, 0, 0, 0, 0, 0, 0, 0, 0, 0, 0, 0, 0, 0, 0, 0,
    0, 0, 0, 0, 0, 0, 0, 0, 0, 0, 0, 0, 0, 0, 0, 0, 0, 0, 0, 0, 0, 0, 0, 0, 0, 0, 0, 0, 0, 0, 0, 0]"

definition is_token_char :: "char \<Rightarrow> bool" where
  "is_token_char c \<longleftrightarrow> token_char_map ! byte c \<noteq> 0"

subsection \<open>Macros\<close>

fun EXPECT_CHAR_NO_CHECK :: "char \<Rightarrow> string \<Rightarrow> string scan" where
  "EXPECT_CHAR_NO_CHECK ch [] = Oob"
| "EXPECT_CHAR_NO_CHECK ch (c # cs) = (if c \<noteq> ch then Ret (-1) else Ok cs)"

definition EXPECT_CHAR :: "char \<Rightarrow> string \<Rightarrow> string scan" where
  "EXPECT_CHAR ch xs = (if xs = [] then Ret (-2) else EXPECT_CHAR_NO_CHECK ch xs)"

text \<open>The \<open>while (1)\<close> loop of \<open>ADVANCE_TOKEN\<close>, then the macro: (\<open>buf\<close>, \<open>tok\<close>, \<open>toklen\<close>).\<close>

fun advance_loop :: "string \<Rightarrow> string scan" where
  "advance_loop [] = Oob"
| "advance_loop (c # cs) =
     (if c = SP then Ok (c # cs)
      else if \<not> IS_PRINTABLE_ASCII c \<and> (byte c < 32 \<or> c = CHR 0x7F) then Ret (-1)
      else if cs = [] then Ret (-2)
      else advance_loop cs)"

definition ADVANCE_TOKEN :: "string \<Rightarrow> (string \<times> string \<times> nat) scan" where
  "ADVANCE_TOKEN xs =
     (if xs = [] then Ret (-2)
      else scan_bind (advance_loop xs) (\<lambda>ys. Ok (ys, xs, length xs - length ys)))"

fun PARSE_INT :: "int \<Rightarrow> string \<Rightarrow> (string \<times> int) scan" where
  "PARSE_INT mul [] = Oob"
| "PARSE_INT mul (c # cs) =
     (if byte c < 48 \<or> 57 < byte c then Ret (-1)
      else Ok (cs, mul * (int (byte c) - 48)))"

definition PARSE_INT_3 :: "string \<Rightarrow> (string \<times> int) scan" where
  "PARSE_INT_3 xs =
     scan_bind (PARSE_INT 100 xs) (\<lambda>(xs, a).
     scan_bind (PARSE_INT 10 xs) (\<lambda>(xs, b).
     scan_bind (PARSE_INT 1 xs) (\<lambda>(xs, c). Ok (xs, a + b + c))))"

subsection \<open>Tokens up to the end of the line\<close>

text \<open>
  The unrolled part: \<open>doit k\<close> is \<open>k\<close> copies of \<open>DOIT()\<close>; the flag says that one of them jumped
  to \<open>NonPrintable\<close>. \<open>eol_fast\<close> is the \<open>while (buf_end - buf >= 8)\<close> loop; its flag says that it
  jumped to \<open>FOUND_CTL\<close>.
\<close>

fun doit :: "nat \<Rightarrow> string \<Rightarrow> string \<times> bool" where
  "doit 0 xs = (xs, False)"
| "doit (Suc k) [] = ([], False)"
| "doit (Suc k) (c # cs) = (if \<not> IS_PRINTABLE_ASCII c then (c # cs, True) else doit k cs)"

lemma doit_length: "length (fst (doit k xs)) \<le> length xs"
  by (induction k xs rule: doit.induct) auto

lemma doit_progress: "0 < k \<Longrightarrow> xs \<noteq> [] \<Longrightarrow> \<not> snd (doit k xs) \<Longrightarrow> length (fst (doit k xs)) < length xs"
  using doit_length by (cases "(k, xs)" rule: doit.cases) (auto simp: less_Suc_eq_le split: if_splits)

function eol_fast :: "string \<Rightarrow> string \<times> bool" where
  "eol_fast xs =
     (if 8 \<le> length xs
      then (let (ys, nonprint) = doit 8 xs in
            if \<not> nonprint then eol_fast ys
            else if ys = [] then (ys, True)
            else if is_ctl (hd ys) then (ys, True)
            else eol_fast (tl ys))
      else (xs, False))"
  by pat_completeness auto
termination
proof (relation "measure length")
  fix xs :: string and x y z
  assume "8 \<le> length xs" "x = doit 8 xs" "(y, z) = x" "\<not> z"
  then show "(y, xs) \<in> measure length"
    using doit_progress[of 8 xs] by (cases "doit 8 xs"; cases "xs = []") auto
next
  fix xs :: string and x y z
  assume "8 \<le> length xs" "x = doit 8 xs" "(y, z) = x" "\<not> \<not> z" "y \<noteq> []"
  then show "(tl y, xs) \<in> measure length"
    using doit_length[of 8 xs] by (cases "doit 8 xs"; cases y) auto
qed simp

declare eol_fast.simps [simp del]

text \<open>The \<open>for (;; ++buf)\<close> loop behind it; \<open>Ok\<close> is the jump to \<open>FOUND_CTL\<close>.\<close>

fun eol_slow :: "string \<Rightarrow> string scan" where
  "eol_slow [] = Ret (-2)"
| "eol_slow (c # cs) = (if \<not> IS_PRINTABLE_ASCII c \<and> is_ctl c then Ok (c # cs) else eol_slow cs)"

fun found_ctl :: "string \<Rightarrow> string \<Rightarrow> (string \<times> string \<times> nat) scan" where
  "found_ctl start [] = Oob"
| "found_ctl start (c # cs) =
     (if c = CR then
        scan_bind (EXPECT_CHAR LF cs) (\<lambda>rest. Ok (rest, start, length start - length rest - 2))
      else if c = LF then Ok (cs, start, length start - length (c # cs))
      else Ret (-1))"

definition get_token_to_eol :: "string \<Rightarrow> (string \<times> string \<times> nat) scan" where
  "get_token_to_eol xs =
     (let (ys, found) = eol_fast xs in
      if found then found_ctl xs ys
      else scan_bind (eol_slow ys) (\<lambda>zs. found_ctl xs zs))"

subsection \<open>Completeness check\<close>

text \<open>The \<open>while (1)\<close> loop of \<open>is_complete\<close> with \<open>ret_cnt\<close> consecutive line ends seen.\<close>

fun is_complete_loop :: "nat \<Rightarrow> string \<Rightarrow> string scan" where
  "is_complete_loop ret_cnt [] = Ret (-2)"
| "is_complete_loop ret_cnt (c # cs) =
     (if c = CR then
        (case cs of
           [] \<Rightarrow> Ret (-2)
         | d # ds \<Rightarrow>
             if d \<noteq> LF then Ret (-1)
             else if Suc ret_cnt = 2 then Ok ds
             else is_complete_loop (Suc ret_cnt) ds)
      else if c = LF then
        (if Suc ret_cnt = 2 then Ok cs else is_complete_loop (Suc ret_cnt) cs)
      else is_complete_loop 0 cs)"

definition is_complete :: "string \<Rightarrow> nat \<Rightarrow> string scan" where
  "is_complete xs last_len =
     (let off = (if last_len < 3 then 0 else last_len - 3) in
      if length xs < off then Oob else is_complete_loop 0 (drop off xs))"

subsection \<open>Tokens and the version\<close>

fun token_loop :: "char \<Rightarrow> string \<Rightarrow> string scan" where
  "token_loop next_char [] = Oob"
| "token_loop next_char (c # cs) =
     (if c = next_char then Ok (c # cs)
      else if \<not> is_token_char c then Ret (-1)
      else if cs = [] then Ret (-2)
      else token_loop next_char cs)"

definition parse_token :: "char \<Rightarrow> string \<Rightarrow> (string \<times> string \<times> nat) scan" where
  "parse_token next_char xs =
     (if xs = [] then Ret (-2)
      else scan_bind (token_loop next_char xs) (\<lambda>ys. Ok (ys, xs, length xs - length ys)))"

definition parse_http_version :: "string \<Rightarrow> (string \<times> int) scan" where
  "parse_http_version xs =
     (if length xs < 9 then Ret (-2)
      else
        scan_bind (EXPECT_CHAR_NO_CHECK (CHR ''H'') xs) (\<lambda>xs.
        scan_bind (EXPECT_CHAR_NO_CHECK (CHR ''T'') xs) (\<lambda>xs.
        scan_bind (EXPECT_CHAR_NO_CHECK (CHR ''T'') xs) (\<lambda>xs.
        scan_bind (EXPECT_CHAR_NO_CHECK (CHR ''P'') xs) (\<lambda>xs.
        scan_bind (EXPECT_CHAR_NO_CHECK (CHR ''/'') xs) (\<lambda>xs.
        scan_bind (EXPECT_CHAR_NO_CHECK (CHR ''1'') xs) (\<lambda>xs.
        scan_bind (EXPECT_CHAR_NO_CHECK (CHR ''.'') xs) (\<lambda>xs. PARSE_INT 1 xs))))))))"

subsection \<open>Headers\<close>

text \<open>\<open>hname\<close> is \<open>None\<close> for the NULL that marks a continuation line.\<close>

record phr_header =
  hname :: "string option"
  name_len :: nat
  hvalue :: string
  value_len :: nat

text \<open>\<open>for (;; ++buf) { CHECK_EOF(); if (!(*buf == ' ' || *buf == '\t')) break; }\<close>\<close>

fun skip_blank :: "string \<Rightarrow> string scan" where
  "skip_blank [] = Ret (-2)"
| "skip_blank (c # cs) = (if \<not> (c = SP \<or> c = HT) then Ok (c # cs) else skip_blank cs)"

text \<open>The length that is left when trailing spaces and tabs of the value are dropped.\<close>

fun trim_value :: "string \<Rightarrow> nat \<Rightarrow> nat" where
  "trim_value v 0 = 0"
| "trim_value v (Suc n) = (if \<not> (v ! n = SP \<or> v ! n = HT) then Suc n else trim_value v n)"

text \<open>The name part of a header line, lines 315-335: \<open>num\<close> headers come before it.\<close>

definition header_name :: "nat \<Rightarrow> string \<Rightarrow> (string \<times> string option \<times> nat) scan" where
  "header_name num xs =
     (if \<not> (num \<noteq> 0 \<and> (hd xs = SP \<or> hd xs = HT)) then
        scan_bind (parse_token (CHR '':'') xs) (\<lambda>(ys, nm, nlen).
        if nlen = 0 then Ret (-1)
        else scan_bind (skip_blank (tl ys)) (\<lambda>zs. Ok (zs, Some nm, nlen)))
      else Ok (xs, None, 0))"

text \<open>One turn of the loop of \<open>parse_headers\<close> behind its first checks, lines 315-350.\<close>

definition parse_header :: "nat \<Rightarrow> string \<Rightarrow> (string \<times> phr_header) scan" where
  "parse_header num xs =
     scan_bind (header_name num xs) (\<lambda>(ys, nm, nlen).
     scan_bind (get_token_to_eol ys) (\<lambda>(zs, v, vlen).
     Ok (zs, \<lparr>hname = nm, name_len = nlen, hvalue = v, value_len = trim_value v vlen\<rparr>)))"

lemma EXPECT_CHAR_length: "EXPECT_CHAR ch xs = Ok ys \<Longrightarrow> Suc (length ys) = length xs"
  by (cases xs) (auto simp: EXPECT_CHAR_def split: if_splits)

lemma eol_fast_length: "length (fst (eol_fast xs)) \<le> length xs"
proof (induction xs rule: eol_fast.induct)
  case (1 xs)
  obtain ys b where d: "doit 8 xs = (ys, b)" by (cases "doit 8 xs")
  then have "length ys \<le> length xs" using doit_length[of 8 xs] by simp
  moreover have "length (fst (eol_fast ys)) \<le> length ys" if "8 \<le> length xs" "\<not> b"
    using 1(1)[OF that(1) d[symmetric] refl that(2)] .
  moreover have "length (fst (eol_fast (tl ys))) \<le> length (tl ys)"
    if "8 \<le> length xs" "b" "ys \<noteq> []" "\<not> is_ctl (hd ys)"
    using 1(2)[OF that(1) d[symmetric] refl _ that(3,4)] that(2) by simp
  ultimately show ?case using d
    by (auto simp: eol_fast.simps[of xs] Let_def intro: order_trans)
qed

lemma eol_slow_length: "eol_slow xs = Ok ys \<Longrightarrow> length ys \<le> length xs"
  by (induction xs) (auto split: if_splits)

lemma found_ctl_length: "found_ctl st xs = Ok (ys, t, n) \<Longrightarrow> length ys < length xs"
  by (cases xs) (auto simp: scan_simps dest!: EXPECT_CHAR_length split: if_splits)

lemma get_token_to_eol_length: "get_token_to_eol xs = Ok (ys, t, n) \<Longrightarrow> length ys < length xs"
  using eol_fast_length[of xs]
  by (auto simp: get_token_to_eol_def scan_simps dest!: found_ctl_length eol_slow_length
      split: prod.splits if_splits)

lemma token_loop_length: "token_loop nc xs = Ok ys \<Longrightarrow> length ys \<le> length xs \<and> ys \<noteq> []"
  by (induction nc xs rule: token_loop.induct) (auto split: if_splits)

lemma parse_token_length: "parse_token nc xs = Ok (ys, t, n) \<Longrightarrow> length ys \<le> length xs \<and> ys \<noteq> []"
  by (auto simp: parse_token_def scan_simps dest: token_loop_length split: if_splits)

lemma skip_blank_length: "skip_blank xs = Ok ys \<Longrightarrow> length ys \<le> length xs"
  by (induction xs) (auto split: if_splits)

lemma header_name_length: "header_name num xs = Ok (ys, nm, n) \<Longrightarrow> length ys \<le> length xs"
  by (auto simp: header_name_def scan_simps dest!: parse_token_length skip_blank_length
      split: if_splits)

lemma parse_header_length: "parse_header num xs = Ok (ys, h) \<Longrightarrow> length ys < length xs"
  by (auto simp: parse_header_def scan_simps dest!: header_name_length get_token_to_eol_length)

function parse_headers :: "nat \<Rightarrow> phr_header list \<Rightarrow> string \<Rightarrow> (string \<times> phr_header list) scan" where
  "parse_headers max_headers hs xs =
     (case xs of
        [] \<Rightarrow> Ret (-2)
      | c # cs \<Rightarrow>
          if c = CR then scan_bind (EXPECT_CHAR LF cs) (\<lambda>ys. Ok (ys, hs))
          else if c = LF then Ok (cs, hs)
          else if length hs = max_headers then Ret (-1)
          else (case parse_header (length hs) xs of
                  Ret r \<Rightarrow> Ret r
                | Oob \<Rightarrow> Oob
                | Ok (ys, h) \<Rightarrow> parse_headers max_headers (hs @ [h]) ys))"
  by pat_completeness auto
termination
  by (relation "measure (\<lambda>(m, hs, xs). length xs)") (auto dest: parse_header_length)

declare parse_headers.simps [simp del]

subsection \<open>Requests and responses\<close>

record phr_request =
  rmethod :: string
  rmethod_len :: nat
  rpath :: string
  rpath_len :: nat
  rminor :: int
  rheaders :: "phr_header list"

text \<open>\<open>do { ++buf; CHECK_EOF(); } while ( *buf == ' ');\<close> from a \<open>buf\<close> that is on a space.\<close>

fun skip_spaces :: "string \<Rightarrow> string scan" where
  "skip_spaces [] = Oob"
| "skip_spaces (c # cs) = (if cs = [] then Ret (-2) else if hd cs = SP then skip_spaces cs else Ok cs)"

text \<open>The first empty line, lines 361-366; an end of line in the request line, lines 388-396.\<close>

definition skip_empty_line :: "string \<Rightarrow> string scan" where
  "skip_empty_line xs =
     (if xs = [] then Ret (-2)
      else if hd xs = CR then EXPECT_CHAR LF (tl xs)
      else if hd xs = LF then Ok (tl xs)
      else Ok xs)"

definition end_of_line :: "string \<Rightarrow> string scan" where
  "end_of_line xs =
     (if xs = [] then Oob
      else if hd xs = CR then EXPECT_CHAR LF (tl xs)
      else if hd xs = LF then Ok (tl xs)
      else Ret (-1))"

definition parse_request :: "nat \<Rightarrow> string \<Rightarrow> (string \<times> phr_request) scan" where
  "parse_request max_headers xs =
     scan_bind (skip_empty_line xs) (\<lambda>xs.
     scan_bind (parse_token SP xs) (\<lambda>(xs, meth, meth_len).
     scan_bind (skip_spaces xs) (\<lambda>xs.
     scan_bind (ADVANCE_TOKEN xs) (\<lambda>(xs, path, path_len).
     scan_bind (skip_spaces xs) (\<lambda>xs.
     if meth_len = 0 \<or> path_len = 0 then Ret (-1)
     else
       scan_bind (parse_http_version xs) (\<lambda>(xs, minor).
       scan_bind (end_of_line xs) (\<lambda>xs.
       scan_bind (parse_headers max_headers [] xs) (\<lambda>(xs, hs).
       Ok (xs, \<lparr>rmethod = meth, rmethod_len = meth_len, rpath = path, rpath_len = path_len,
                rminor = minor, rheaders = hs\<rparr>)))))))))"

definition phr_parse_request :: "string \<Rightarrow> nat \<Rightarrow> nat \<Rightarrow> (nat \<times> phr_request) scan" where
  "phr_parse_request buf max_headers last_len =
     scan_bind (if last_len \<noteq> 0 then is_complete buf last_len else Ok buf) (\<lambda>_.
     scan_bind (parse_request max_headers buf) (\<lambda>(rest, req).
     Ok (length buf - length rest, req)))"

record phr_response =
  sminor :: int
  sstatus :: int
  smsg :: string
  smsg_len :: nat
  sheaders :: "phr_header list"

text \<open>\<open>do { ++*msg; --*msg_len; } while (**msg == ' ');\<close>\<close>

fun strip_msg :: "string \<Rightarrow> nat \<Rightarrow> (string \<times> nat) scan" where
  "strip_msg [] n = Oob"
| "strip_msg (c # cs) n =
     (if cs = [] then Oob else if hd cs = SP then strip_msg cs (n - 1) else Ok (cs, n - 1))"

definition response_msg :: "string \<Rightarrow> nat \<Rightarrow> (string \<times> nat) scan" where
  "response_msg msg msg_len =
     (if msg_len = 0 then Ok (msg, msg_len)
      else if msg = [] then Oob
      else if hd msg = SP then strip_msg msg msg_len
      else Ret (-1))"

definition parse_response :: "nat \<Rightarrow> string \<Rightarrow> (string \<times> phr_response) scan" where
  "parse_response max_headers xs =
     scan_bind (parse_http_version xs) (\<lambda>(xs, minor).
     if xs = [] then Oob
     else if hd xs \<noteq> SP then Ret (-1)
     else
       scan_bind (skip_spaces xs) (\<lambda>xs.
       if length xs < 4 then Ret (-2)
       else
         scan_bind (PARSE_INT_3 xs) (\<lambda>(xs, status).
         scan_bind (get_token_to_eol xs) (\<lambda>(xs, msg, msg_len).
         scan_bind (response_msg msg msg_len) (\<lambda>(msg, msg_len).
         scan_bind (parse_headers max_headers [] xs) (\<lambda>(xs, hs).
         Ok (xs, \<lparr>sminor = minor, sstatus = status, smsg = msg, smsg_len = msg_len, sheaders = hs\<rparr>)))))))"

definition phr_parse_response :: "string \<Rightarrow> nat \<Rightarrow> nat \<Rightarrow> (nat \<times> phr_response) scan" where
  "phr_parse_response buf max_headers last_len =
     scan_bind (if last_len \<noteq> 0 then is_complete buf last_len else Ok buf) (\<lambda>_.
     scan_bind (parse_response max_headers buf) (\<lambda>(rest, resp).
     Ok (length buf - length rest, resp)))"

end
