(* ===== verification/HttpParserLaws.thy ===== *)
theory HttpParserLaws
  imports HttpParser "HOL-Library.Sublist"
begin

text \<open>
  The properties of the HTTP head parser. \<open>get_token_to_eol_plain\<close> is the equivalence of the
  unrolled scan with the plain one; the \<open>_in\<close> lemmas exclude reads past the end; the \<open>_split\<close>
  lemmas say where a token ends and which characters it has; the \<open>_append\<close> lemmas say that a
  decided result is the same when the buffer is longer.
\<close>

subsection \<open>Printable characters and the unrolled scan\<close>

lemma IS_PRINTABLE_iff: "IS_PRINTABLE_ASCII c \<longleftrightarrow> 32 \<le> byte c \<and> byte c < 127"
proof -
  have b: "byte c < 256" and m: "byte c mod 4294967296 = byte c"
    by (simp, rule mod_less, rule less_trans[OF nat_of_char_less_256]) simp
  have "unat ((of_nat (byte c) :: 32 word) - 32) = (if 32 \<le> byte c then byte c - 32 else byte c + 4294967264)"
    using b m by (auto simp: unat_sub_if' unat_of_nat word_le_nat_alt)
  then show ?thesis
    by (auto simp: IS_PRINTABLE_ASCII_def word_less_nat_alt)
qed

lemma ctl_not_printable: "is_ctl c \<Longrightarrow> \<not> IS_PRINTABLE_ASCII c"
  by (auto simp: is_ctl_def IS_PRINTABLE_iff)

lemma doit_eol_slow: "doit k xs = (ys, b) \<Longrightarrow> eol_slow xs = eol_slow ys \<and> (b \<longrightarrow> ys \<noteq> [] \<and> \<not> IS_PRINTABLE_ASCII (hd ys))"
  by (induction k xs rule: doit.induct) (auto split: if_splits)

lemma eol_fast_slow:
  "eol_fast xs = (ys, b) \<Longrightarrow> eol_slow xs = (if b then Ok ys else eol_slow ys)"
proof (induction xs arbitrary: ys b rule: eol_fast.induct)
  case (1 xs)
  obtain zs c where d: "doit 8 xs = (zs, c)" by (cases "doit 8 xs")
  note dz = doit_eol_slow[OF d]
  note eq = "1.prems"[unfolded eol_fast.simps[of xs] d Let_def]
  show ?case
  proof (cases "8 \<le> length xs")
    case False
    then show ?thesis using eq by simp
  next
    case True
    note IH = "1.IH"(1)[OF True d[symmetric] refl] "1.IH"(2)[OF True d[symmetric] refl]
    show ?thesis
    proof (cases c)
      case False
      then show ?thesis using IH(1) True eq dz by simp
    next
      case c: True
      then obtain w ws where zs: "zs = w # ws" using dz by (cases zs) auto
      show ?thesis
        using IH(2)[of ys b] True eq dz c zs ctl_not_printable by (auto split: if_splits)
    qed
  qed
qed

lemma get_token_to_eol_plain: "get_token_to_eol xs = scan_bind (eol_slow xs) (found_ctl xs)"
  using eol_fast_slow[of xs] by (auto simp: get_token_to_eol_def split: prod.splits)

subsection \<open>No read past the end\<close>

lemma EXPECT_CHAR_in: "EXPECT_CHAR ch xs \<noteq> Oob"
  by (cases xs) (auto simp: EXPECT_CHAR_def)

lemma eol_slow_found: "eol_slow xs = Ok ys \<Longrightarrow> ys \<noteq> [] \<and> is_ctl (hd ys)"
  by (induction xs) (auto split: if_splits)

lemma eol_slow_in: "eol_slow xs \<noteq> Oob"
  by (induction xs) auto

lemma found_ctl_in: "ys \<noteq> [] \<Longrightarrow> found_ctl st ys \<noteq> Oob"
  by (cases ys) (auto simp: scan_simps EXPECT_CHAR_in)

lemma get_token_to_eol_in: "get_token_to_eol xs \<noteq> Oob"
  by (auto simp: get_token_to_eol_plain scan_simps eol_slow_in dest!: eol_slow_found found_ctl_in)

lemma token_loop_in: "xs \<noteq> [] \<Longrightarrow> token_loop nc xs \<noteq> Oob"
  by (induction nc xs rule: token_loop.induct) auto

lemma token_loop_hd: "token_loop nc xs = Ok ys \<Longrightarrow> ys \<noteq> [] \<and> hd ys = nc"
  by (induction nc xs rule: token_loop.induct) (auto split: if_splits)

lemma parse_token_in: "parse_token nc xs \<noteq> Oob"
  by (auto simp: parse_token_def scan_simps token_loop_in)

lemma advance_loop_in: "xs \<noteq> [] \<Longrightarrow> advance_loop xs \<noteq> Oob"
  by (induction xs) auto

lemma advance_loop_hd: "advance_loop xs = Ok ys \<Longrightarrow> ys \<noteq> [] \<and> hd ys = SP"
  by (induction xs) (auto split: if_splits)

lemma ADVANCE_TOKEN_in: "ADVANCE_TOKEN xs \<noteq> Oob"
  by (auto simp: ADVANCE_TOKEN_def scan_simps advance_loop_in)

lemma is_complete_loop_in: "is_complete_loop k xs \<noteq> Oob"
  by (induction k xs rule: is_complete_loop.induct) (auto split: list.splits)

lemma is_complete_in: "last_len \<le> length xs + 3 \<Longrightarrow> is_complete xs last_len \<noteq> Oob"
  by (auto simp: is_complete_def is_complete_loop_in Let_def)

lemma skip_blank_in: "skip_blank xs \<noteq> Oob"
  by (induction xs) auto

lemma header_name_in: "header_name num xs \<noteq> Oob"
  by (auto simp: header_name_def scan_simps parse_token_in skip_blank_in split: if_splits)

lemma parse_header_in: "parse_header num xs \<noteq> Oob"
  by (auto simp: parse_header_def scan_simps header_name_in get_token_to_eol_in)

lemma parse_headers_in: "parse_headers m hs xs \<noteq> Oob"
proof (induction m hs xs rule: parse_headers.induct)
  case (1 m hs xs)
  then show ?case
    by (auto simp: parse_headers.simps[of m hs xs] scan_simps EXPECT_CHAR_in parse_header_in
        split: list.splits scan.splits)
qed

lemma skip_empty_line_in: "skip_empty_line xs \<noteq> Oob"
  by (auto simp: skip_empty_line_def EXPECT_CHAR_in)

lemma skip_spaces_in: "xs \<noteq> [] \<Longrightarrow> skip_spaces xs \<noteq> Oob"
  by (induction xs) auto

lemma parse_http_version_in: "parse_http_version xs \<noteq> Oob"
  and parse_http_version_more: "parse_http_version xs = Ok (ys, v) \<Longrightarrow> ys \<noteq> []"
proof -
  have "parse_http_version xs \<noteq> Oob \<and> (parse_http_version xs = Ok (ys, v) \<longrightarrow> ys \<noteq> [])"
  proof (cases "length xs < 9")
    case False
    then have "8 < length xs" by simp
    then have "\<exists>a b c d e f g h rest. xs = a # b # c # d # e # f # g # h # rest \<and> rest \<noteq> []"
      by (auto simp: neq_Nil_conv less_Suc_eq_0_disj Suc_less_eq2 numeral_eq_Suc length_Suc_conv elim!: Suc_lessE)
    then obtain a b c d e f g h rest where
      "xs = a # b # c # d # e # f # g # h # rest" "rest \<noteq> []" by blast
    then show ?thesis by (auto simp: parse_http_version_def)
  qed (simp add: parse_http_version_def)
  then show "parse_http_version xs \<noteq> Oob" "parse_http_version xs = Ok (ys, v) \<Longrightarrow> ys \<noteq> []" by auto
qed

lemma ADVANCE_TOKEN_more: "ADVANCE_TOKEN xs = Ok (ys, t, n) \<Longrightarrow> ys \<noteq> []"
  by (auto simp: ADVANCE_TOKEN_def scan_simps dest!: advance_loop_hd split: if_splits)

lemma parse_request_in: "parse_request m xs \<noteq> Oob"
  by (auto simp: parse_request_def scan_simps skip_empty_line_in parse_token_in ADVANCE_TOKEN_in
      parse_http_version_in parse_headers_in EXPECT_CHAR_in end_of_line_def
      dest!: parse_token_length parse_http_version_more ADVANCE_TOKEN_more dest: skip_spaces_in)

lemma PARSE_INT_in: "xs \<noteq> [] \<Longrightarrow> PARSE_INT m xs \<noteq> Oob"
  by (cases xs) auto

lemma PARSE_INT_3_in: "\<not> length xs < 4 \<Longrightarrow> PARSE_INT_3 xs \<noteq> Oob"
  by (cases xs; cases "tl xs"; cases "tl (tl xs)") (auto simp: PARSE_INT_3_def scan_simps split: if_splits)

text \<open>A status message is followed by the end of the line, so that the strip of spaces stops.\<close>

lemma strip_msg_in: "\<exists>c \<in> set (tl xs). c \<noteq> SP \<Longrightarrow> strip_msg xs n \<noteq> Oob"
proof (induction xs n rule: strip_msg.induct)
  case (2 c cs n)
  then show ?case by (cases cs) auto
qed simp

subsection \<open>Where the tokens lie\<close>

lemma EXPECT_CHAR_Ok: "EXPECT_CHAR ch xs = Ok ys \<longleftrightarrow> xs = ch # ys"
  by (cases xs) (auto simp: EXPECT_CHAR_def)

lemma eol_slow_split:
  "eol_slow xs = Ok ys \<Longrightarrow> \<exists>p. xs = p @ ys \<and> (\<forall>c \<in> set p. \<not> is_ctl c)"
proof (induction xs)
  case (Cons c xs)
  show ?case
  proof (cases "\<not> IS_PRINTABLE_ASCII c \<and> is_ctl c")
    case True
    then show ?thesis using Cons.prems by auto
  next
    case False
    then obtain p where "xs = p @ ys" "\<forall>c \<in> set p. \<not> is_ctl c" using Cons by auto
    then show ?thesis using False ctl_not_printable by (intro exI[of _ "c # p"]) auto
  qed
qed simp

lemma get_token_to_eol_split:
  assumes "get_token_to_eol xs = Ok (ys, t, n)"
  shows "t = xs \<and> n \<le> length xs \<and> (\<forall>c \<in> set (take n xs). \<not> is_ctl c) \<and>
    (drop n xs = CR # LF # ys \<or> drop n xs = LF # ys)"
proof -
  obtain zs where e: "eol_slow xs = Ok zs" and f: "found_ctl xs zs = Ok (ys, t, n)"
    using assms by (auto simp: get_token_to_eol_plain scan_simps)
  obtain p where "xs = p @ zs" "\<forall>c \<in> set p. \<not> is_ctl c" using eol_slow_split[OF e] by blast
  with f show ?thesis by (cases zs) (auto simp: scan_simps EXPECT_CHAR_Ok split: if_splits)
qed

lemma response_msg_in:
  "get_token_to_eol xs = Ok (ys, t, n) \<Longrightarrow> response_msg t n \<noteq> Oob"
proof (drule get_token_to_eol_split, elim conjE)
  assume t: "t = xs" and n: "n \<le> length xs" and d: "drop n xs = CR # LF # ys \<or> drop n xs = LF # ys"
  have c: "LF \<in> set (drop n xs)" using d by auto
  moreover have "set (drop n xs) \<subseteq> set (tl xs)" if "n \<noteq> 0"
    using that by (cases n; cases xs) (auto dest: in_set_dropD)
  ultimately have "n \<noteq> 0 \<Longrightarrow> \<exists>c \<in> set (tl xs). c \<noteq> SP" by (intro bexI[of _ LF]) auto
  then show ?thesis using t n c by (auto simp: response_msg_def strip_msg_in)
qed

lemma parse_response_in: "parse_response m xs \<noteq> Oob"
  by (auto simp: parse_response_def scan_simps parse_headers_in parse_http_version_in get_token_to_eol_in
      dest: parse_http_version_more skip_spaces_in response_msg_in dest!: PARSE_INT_3_in[THEN notE] split: if_splits)

lemma token_loop_split:
  "token_loop nc xs = Ok ys \<Longrightarrow> \<exists>p. xs = p @ ys \<and> (\<forall>c \<in> set p. is_token_char c \<and> c \<noteq> nc)"
proof (induction nc xs rule: token_loop.induct)
  case (2 nc c cs)
  show ?case
  proof (cases "c = nc")
    case False
    then obtain p where "cs = p @ ys" "\<forall>c \<in> set p. is_token_char c \<and> c \<noteq> nc"
      using 2 by (auto split: if_splits)
    then show ?thesis using 2(2) False by (intro exI[of _ "c # p"]) (auto split: if_splits)
  qed (use 2 in auto)
qed simp

lemma parse_token_split:
  "parse_token nc xs = Ok (ys, t, n) \<Longrightarrow>
     t = xs \<and> n \<le> length xs \<and> drop n xs = ys \<and> ys \<noteq> [] \<and> hd ys = nc \<and>
     (\<forall>c \<in> set (take n xs). is_token_char c \<and> c \<noteq> nc)"
proof -
  assume a: "parse_token nc xs = Ok (ys, t, n)"
  then have l: "token_loop nc xs = Ok ys" and t: "t = xs" "n = length xs - length ys"
    by (auto simp: parse_token_def scan_simps split: if_splits)
  obtain p where "xs = p @ ys" "\<forall>c \<in> set p. is_token_char c \<and> c \<noteq> nc"
    using token_loop_split[OF l] by blast
  then show ?thesis using token_loop_hd[OF l] t by auto
qed

abbreviation path_char :: "char \<Rightarrow> bool" where
  "path_char c \<equiv> 32 < byte c \<and> c \<noteq> CHR 0x7F"

lemma advance_char: "\<not> (\<not> IS_PRINTABLE_ASCII c \<and> (byte c < 32 \<or> c = CHR 0x7F)) \<Longrightarrow> c \<noteq> SP \<Longrightarrow> path_char c"
proof -
  assume a: "\<not> (\<not> IS_PRINTABLE_ASCII c \<and> (byte c < 32 \<or> c = CHR 0x7F))" "c \<noteq> SP"
  have "byte c \<noteq> byte SP" using a(2) by (simp only: of_char_eq_iff) simp
  then show ?thesis using a(1) by (auto simp: IS_PRINTABLE_iff)
qed

lemma advance_loop_split:
  "advance_loop xs = Ok ys \<Longrightarrow> \<exists>p. xs = p @ ys \<and> (\<forall>c \<in> set p. path_char c)"
proof (induction xs)
  case (Cons c cs)
  show ?case
  proof (cases "c = SP")
    case False
    then obtain p where "cs = p @ ys" "\<forall>c \<in> set p. path_char c"
      using Cons by (auto split: if_splits)
    then show ?thesis using Cons(2) advance_char[of c] False
      by (intro exI[of _ "c # p"]) (auto split: if_splits)
  qed (use Cons in auto)
qed simp

lemma ADVANCE_TOKEN_split:
  "ADVANCE_TOKEN xs = Ok (ys, t, n) \<Longrightarrow>
     t = xs \<and> n \<le> length xs \<and> drop n xs = ys \<and> ys \<noteq> [] \<and> hd ys = SP \<and>
     (\<forall>c \<in> set (take n xs). path_char c)"
proof -
  assume a: "ADVANCE_TOKEN xs = Ok (ys, t, n)"
  then have l: "advance_loop xs = Ok ys" and t: "t = xs" "n = length xs - length ys"
    by (auto simp: ADVANCE_TOKEN_def scan_simps split: if_splits)
  obtain p where "xs = p @ ys" "\<forall>c \<in> set p. path_char c"
    using advance_loop_split[OF l] by blast
  then show ?thesis using advance_loop_hd[OF l] t by auto
qed

lemma skip_spaces_suffix: "skip_spaces xs = Ok ys \<Longrightarrow> suffix ys xs \<and> ys \<noteq> [] \<and> hd ys \<noteq> SP"
  by (induction xs) (auto intro: suffix_ConsI split: if_splits)

lemma skip_blank_suffix: "skip_blank xs = Ok ys \<Longrightarrow> suffix ys xs \<and> ys \<noteq> [] \<and> hd ys \<noteq> SP \<and> hd ys \<noteq> HT"
  by (induction xs) (auto intro: suffix_ConsI split: if_splits)

lemma trim_value_le: "trim_value v n \<le> n"
  by (induction n) auto

text \<open>A token of length \<open>n\<close> at pointer \<open>p\<close> lies inside the buffer \<open>xs\<close>.\<close>

definition token_in :: "string \<Rightarrow> string \<Rightarrow> nat \<Rightarrow> bool" where
  "token_in xs p n \<longleftrightarrow> suffix p xs \<and> n \<le> length p"

definition header_in :: "string \<Rightarrow> phr_header \<Rightarrow> bool" where
  "header_in xs h \<longleftrightarrow> token_in xs (hvalue h) (value_len h) \<and>
     (case hname h of None \<Rightarrow> name_len h = 0 | Some p \<Rightarrow> token_in xs p (name_len h) \<and> 0 < name_len h)"

lemma token_in_suffix: "token_in ys p n \<Longrightarrow> suffix ys xs \<Longrightarrow> token_in xs p n"
  by (auto simp: token_in_def intro: suffix_order.trans)

lemma header_in_suffix: "header_in ys h \<Longrightarrow> suffix ys xs \<Longrightarrow> header_in xs h"
  by (auto simp: header_in_def intro: token_in_suffix split: option.splits)

lemma suffix_tl_trans: "suffix ys (tl xs) \<Longrightarrow> suffix ys xs"
  by (rule suffix_order.trans[OF _ suffix_tl])

lemma get_token_to_eol_suffix: "get_token_to_eol xs = Ok (ys, t, n) \<Longrightarrow> suffix ys xs"
proof (drule get_token_to_eol_split, elim conjE)
  assume "drop n xs = CR # LF # ys \<or> drop n xs = LF # ys"
  then have "suffix ys (drop n xs)" by (metis suffix_ConsI suffix_order.refl)
  then show ?thesis using suffix_drop suffix_order.trans by blast
qed

lemma header_name_props:
  "header_name num xs = Ok (ys, nm, n) \<Longrightarrow> suffix ys xs \<and>
     (case nm of None \<Rightarrow> n = 0 | Some p \<Rightarrow> p = xs \<and> 0 < n \<and> n \<le> length xs)"
proof -
  assume a: "header_name num xs = Ok (ys, nm, n)"
  show ?thesis
  proof (cases "num \<noteq> 0 \<and> (hd xs = SP \<or> hd xs = HT)")
    case True
    then show ?thesis using a by (simp add: header_name_def)
  next
    case False
    then obtain us where us: "parse_token (CHR '':'') xs = Ok (us, xs, n)" "n \<noteq> 0" "nm = Some xs"
      and sk: "skip_blank (tl us) = Ok ys"
      using a parse_token_split by (fastforce simp: header_name_def scan_simps split: if_splits)
    have "suffix ys (tl us)" using skip_blank_suffix[OF sk] by simp
    moreover have "suffix us xs" using parse_token_split[OF us(1)] suffix_drop by auto
    ultimately have "suffix ys xs" using suffix_tl suffix_order.trans by blast
    then show ?thesis using us parse_token_split[OF us(1)] by auto
  qed
qed

lemma parse_header_in_buffer:
  "parse_header num xs = Ok (ys, h) \<Longrightarrow> suffix ys xs \<and> header_in xs h"
  apply (clarsimp simp: parse_header_def scan_simps)
  apply (drule header_name_props)
  apply (frule get_token_to_eol_suffix)
  apply (drule get_token_to_eol_split)
  apply (auto simp: header_in_def token_in_def split: option.splits intro: suffix_order.trans order_trans[OF trim_value_le])
  done

lemma parse_headers_in_buffer:
  "parse_headers m hs xs = Ok (ys, hs') \<Longrightarrow> length hs \<le> m \<Longrightarrow>
     suffix ys xs \<and> ys \<noteq> xs \<and> length hs' \<le> m \<and> (\<exists>new. hs' = hs @ new \<and> (\<forall>h \<in> set new. header_in xs h))"
proof (induction m hs xs arbitrary: hs' rule: parse_headers.induct)
  case (1 m hs xs)
  note eq = "1.prems"(1)[unfolded parse_headers.simps[of m hs xs]]
  show ?case
  proof (cases xs)
    case Nil
    then show ?thesis using eq by simp
  next
    case c: (Cons c cs)
    show ?thesis
    proof (cases "c = CR \<or> c = LF")
      case True
      then show ?thesis using eq c "1.prems"(2)
        by (auto simp: scan_simps EXPECT_CHAR_Ok suffix_Cons split: if_splits)
    next
      case False
      then have m: "length hs \<noteq> m" using eq c by (auto split: if_splits)
      then obtain zs h where p: "parse_header (length hs) xs = Ok (zs, h)"
        and r: "parse_headers m (hs @ [h]) zs = Ok (ys, hs')"
        using eq c False by (cases "parse_header (length hs) xs") (auto split: if_splits)
      note ph = parse_header_in_buffer[OF p]
      have len: "length (hs @ [h]) \<le> m" using m "1.prems"(2) by simp
      have IH: "suffix ys zs \<and> ys \<noteq> zs \<and> length hs' \<le> m \<and>
          (\<exists>new. hs' = (hs @ [h]) @ new \<and> (\<forall>k \<in> set new. header_in zs k))"
        using "1.IH"[of c cs "(zs, h)" zs h hs'] c False m p r len by auto
      then obtain new where n: "hs' = (hs @ [h]) @ new" "\<forall>k \<in> set new. header_in zs k" by blast
      have "\<forall>k \<in> set (h # new). header_in xs k"
        using n ph header_in_suffix by auto
      moreover have "ys \<noteq> xs"
      proof
        assume "ys = xs"
        then have "length xs \<le> length zs" using IH suffix_length_le by blast
        then show False using parse_header_length[OF p] by simp
      qed
      ultimately show ?thesis using IH ph n suffix_order.trans[of ys zs xs]
        by (intro conjI exI[of _ "h # new"]) auto
    qed
  qed
qed


subsection \<open>Decided results are stable\<close>

text \<open>
  \<open>later e a b\<close>: what the parser said of a buffer (\<open>a\<close>), it says of a longer one (\<open>b\<close>), unless it
  asked for more; \<open>e\<close> lengthens the pointers of a result.
\<close>

definition later :: "('a \<Rightarrow> 'a) \<Rightarrow> 'a scan \<Rightarrow> 'a scan \<Rightarrow> bool" where
  "later e a b \<longleftrightarrow> (case a of Ok x \<Rightarrow> b = Ok (e x) | Ret r \<Rightarrow> r = -2 \<or> b = Ret r | Oob \<Rightarrow> True)"

lemma later_simps [simp]:
  "later e (Ok x) b \<longleftrightarrow> b = Ok (e x)"
  "later e (Ret r) b \<longleftrightarrow> r = -2 \<or> b = Ret r"
  "later e Oob b"
  by (auto simp: later_def)

lemma later_bind:
  assumes "later e a b" "\<And>x. a = Ok x \<Longrightarrow> later e' (f x) (g (e x))"
  shows "later e' (scan_bind a f) (scan_bind b g)"
  using assms by (cases a) auto

lemma later_if: "(c \<Longrightarrow> later e a b) \<Longrightarrow> (\<not> c \<Longrightarrow> later e a' b') \<Longrightarrow> later e (if c then a else a') (if c then b else b')"
  by simp

abbreviation (input) ext1 :: "string \<Rightarrow> string \<Rightarrow> string" where
  "ext1 zs \<equiv> (\<lambda>ys. ys @ zs)"

abbreviation (input) ext2 :: "string \<Rightarrow> string \<times> 'b \<Rightarrow> string \<times> 'b" where
  "ext2 zs \<equiv> (\<lambda>(ys, v). (ys @ zs, v))"

abbreviation (input) ext3 :: "string \<Rightarrow> string \<times> string \<times> nat \<Rightarrow> string \<times> string \<times> nat" where
  "ext3 zs \<equiv> (\<lambda>(ys, t, n). (ys @ zs, t @ zs, n))"

lemma NO_CHECK_later: "later (ext1 zs) (EXPECT_CHAR_NO_CHECK ch xs) (EXPECT_CHAR_NO_CHECK ch (xs @ zs))"
  by (cases xs) auto

lemma EXPECT_CHAR_later: "later (ext1 zs) (EXPECT_CHAR ch xs) (EXPECT_CHAR ch (xs @ zs))"
  by (cases xs) (auto simp: EXPECT_CHAR_def)

lemma PARSE_INT_later: "later (ext2 zs) (PARSE_INT m xs) (PARSE_INT m (xs @ zs))"
  by (cases xs) auto

lemma PARSE_INT_3_later: "later (ext2 zs) (PARSE_INT_3 xs) (PARSE_INT_3 (xs @ zs))"
  unfolding PARSE_INT_3_def by (auto intro!: later_bind PARSE_INT_later)

lemma eol_slow_later: "later (ext1 zs) (eol_slow xs) (eol_slow (xs @ zs))"
  by (induction xs) auto

lemma found_ctl_later: "later (ext3 zs) (found_ctl st ys) (found_ctl (st @ zs) (ys @ zs))"
proof (cases ys)
  case (Cons c cs)
  have "later (ext3 zs) (scan_bind (EXPECT_CHAR LF cs) (\<lambda>rest. Ok (rest, st, length st - length rest - 2)))
     (scan_bind (EXPECT_CHAR LF (cs @ zs)) (\<lambda>rest. Ok (rest, st @ zs, length (st @ zs) - length rest - 2)))"
    by (rule later_bind[OF EXPECT_CHAR_later]) auto
  then show ?thesis using Cons by simp
qed simp

lemma get_token_to_eol_later: "later (ext3 zs) (get_token_to_eol xs) (get_token_to_eol (xs @ zs))"
proof -
  have "later (ext3 zs) (scan_bind (eol_slow xs) (found_ctl xs)) (scan_bind (eol_slow (xs @ zs)) (found_ctl (xs @ zs)))"
    by (rule later_bind[OF eol_slow_later], rule found_ctl_later)
  then show ?thesis by (simp only: get_token_to_eol_plain)
qed

lemma token_loop_later: "later (ext1 zs) (token_loop nc xs) (token_loop nc (xs @ zs))"
  by (induction nc xs rule: token_loop.induct) auto

lemma parse_token_later: "later (ext3 zs) (parse_token nc xs) (parse_token nc (xs @ zs))"
  unfolding parse_token_def by (auto intro!: later_bind token_loop_later)

lemma advance_loop_later: "later (ext1 zs) (advance_loop xs) (advance_loop (xs @ zs))"
  by (induction xs) auto

lemma ADVANCE_TOKEN_later: "later (ext3 zs) (ADVANCE_TOKEN xs) (ADVANCE_TOKEN (xs @ zs))"
  unfolding ADVANCE_TOKEN_def by (auto intro!: later_bind advance_loop_later)

lemma skip_blank_later: "later (ext1 zs) (skip_blank xs) (skip_blank (xs @ zs))"
  by (induction xs) auto

lemma skip_spaces_later: "later (ext1 zs) (skip_spaces xs) (skip_spaces (xs @ zs))"
  by (induction xs) (auto simp: hd_append)

lemma parse_http_version_later: "later (ext2 zs) (parse_http_version xs) (parse_http_version (xs @ zs))"
proof (cases "length xs < 9")
  case False
  then show ?thesis unfolding parse_http_version_def
    by (auto intro!: later_bind NO_CHECK_later PARSE_INT_later)
qed (simp add: parse_http_version_def)

lemma skip_empty_line_later: "later (ext1 zs) (skip_empty_line xs) (skip_empty_line (xs @ zs))"
  by (cases xs) (auto simp: skip_empty_line_def EXPECT_CHAR_later)

lemma end_of_line_later: "later (ext1 zs) (end_of_line xs) (end_of_line (xs @ zs))"
  by (cases xs) (auto simp: end_of_line_def EXPECT_CHAR_later)

text \<open>Headers of a longer buffer: the same slices through longer pointers.\<close>

definition extend_header :: "string \<Rightarrow> phr_header \<Rightarrow> phr_header" where
  "extend_header zs h = h\<lparr>hname := map_option (\<lambda>p. p @ zs) (hname h), hvalue := hvalue h @ zs\<rparr>"

definition extend_request :: "string \<Rightarrow> phr_request \<Rightarrow> phr_request" where
  "extend_request zs r = r\<lparr>rmethod := rmethod r @ zs, rpath := rpath r @ zs,
     rheaders := map (extend_header zs) (rheaders r)\<rparr>"

lemma trim_value_append: "n \<le> length v \<Longrightarrow> trim_value (v @ zs) n = trim_value v n"
  by (induction n) (auto simp: nth_append)

lemma header_name_later:
  "xs \<noteq> [] \<Longrightarrow> later (\<lambda>(ys, nm, n). (ys @ zs, map_option (\<lambda>p. p @ zs) nm, n))
     (header_name num xs) (header_name num (xs @ zs))"
proof -
  assume x: "xs \<noteq> []"
  have t: "later (\<lambda>(ys, nm, n). (ys @ zs, map_option (\<lambda>p. p @ zs) nm, n))
      (scan_bind (skip_blank (tl ys)) (\<lambda>us. Ok (us, Some nm, k)))
      (scan_bind (skip_blank (tl (ys @ zs))) (\<lambda>us. Ok (us, Some (nm @ zs), k)))"
    if "parse_token (CHR '':'') xs = Ok (ys, nm, k)" for ys nm k
    using parse_token_length[OF that] by (auto intro!: later_bind[OF skip_blank_later])
  show ?thesis unfolding header_name_def
    using x by (auto intro!: later_bind[OF parse_token_later] t)
qed

lemma parse_header_later:
  assumes "xs \<noteq> []"
  shows "later (\<lambda>(ys, h). (ys @ zs, extend_header zs h)) (parse_header num xs) (parse_header num (xs @ zs))"
proof -
  have t: "trim_value (b @ zs) n = trim_value b n" if "get_token_to_eol a = Ok (ys, b, n)" for a ys b n
    using get_token_to_eol_split[OF that] by (simp add: trim_value_append)
  show ?thesis unfolding parse_header_def
    by (auto intro!: later_bind[OF header_name_later[OF assms]] later_bind[OF get_token_to_eol_later]
        simp: extend_header_def t)
qed

lemma parse_headers_Cons:
  "parse_headers m hs (c # cs) =
     (if c = CR then scan_bind (EXPECT_CHAR LF cs) (\<lambda>ys. Ok (ys, hs))
      else if c = LF then Ok (cs, hs)
      else if length hs = m then Ret (-1)
      else scan_bind (parse_header (length hs) (c # cs)) (\<lambda>(ys, h). parse_headers m (hs @ [h]) ys))"
  by (cases "parse_header (length hs) (c # cs)") (simp_all add: parse_headers.simps[of m hs "c # cs"])

lemma parse_headers_later:
  "later (\<lambda>(ys, h). (ys @ zs, map (extend_header zs) h)) (parse_headers m hs xs)
     (parse_headers m (map (extend_header zs) hs) (xs @ zs))"
proof (induction m hs xs rule: parse_headers.induct)
  case (1 m hs xs)
  show ?case
  proof (cases xs)
    case Nil
    then show ?thesis by (simp add: parse_headers.simps[of m hs "[]"])
  next
    case c: (Cons c cs)
    have l: "later (\<lambda>(ys, h). (ys @ zs, extend_header zs h)) (parse_header (length hs) xs)
        (parse_header (length hs) (xs @ zs))"
      by (rule parse_header_later) (simp add: c)
    have e: "later (\<lambda>(ys, h). (ys @ zs, map (extend_header zs) h))
        (scan_bind (EXPECT_CHAR LF cs) (\<lambda>ys. Ok (ys, hs)))
        (scan_bind (EXPECT_CHAR LF (cs @ zs)) (\<lambda>ys. Ok (ys, map (extend_header zs) hs)))"
      by (rule later_bind[OF EXPECT_CHAR_later]) auto
    show ?thesis
    proof (cases "c = CR \<or> c = LF \<or> length hs = m")
      case True
      then show ?thesis using c e
        by (auto simp: parse_headers_Cons)
    next
      case False
      have IH: "later (\<lambda>(ys, h). (ys @ zs, map (extend_header zs) h)) (parse_headers m (hs @ [h]) ys)
          (parse_headers m (map (extend_header zs) hs @ [extend_header zs h]) (ys @ zs))"
        if "parse_header (length hs) (c # cs) = Ok (ys, h)" for ys h
        using "1.IH"[of c cs "(ys, h)" ys h] c False that by simp
      show ?thesis using False l unfolding c
        by (simp add: parse_headers_Cons) (erule later_bind, auto dest: IH)
    qed
  qed
qed

lemmas request_later = later_bind[OF skip_empty_line_later] later_bind[OF parse_token_later]
  later_bind[OF skip_spaces_later] later_bind[OF ADVANCE_TOKEN_later]
  later_bind[OF parse_http_version_later] later_bind[OF end_of_line_later]
  later_bind[OF parse_headers_later[where hs = "[]", simplified]]

lemma parse_request_later:
  "later (\<lambda>(ys, r). (ys @ zs, extend_request zs r)) (parse_request m xs) (parse_request m (xs @ zs))"
  unfolding parse_request_def by (auto intro!: request_later simp: extend_request_def)

lemma phr_parse_request_0:
  "phr_parse_request buf m 0 = scan_bind (parse_request m buf) (\<lambda>(rest, req). Ok (length buf - length rest, req))"
  by (simp add: phr_parse_request_def)

lemma phr_later:
  "later (\<lambda>(n, r). (n, extend_request zs r)) (phr_parse_request buf m 0) (phr_parse_request (buf @ zs) m 0)"
  unfolding phr_parse_request_0
  by (rule later_bind[OF parse_request_later]) auto

text \<open>
  C25: The proxy parses a request again whenever more of it has arrived. An answer that is not
  "incomplete" does not change then: with more bytes behind the buffer the parser returns the same
  length and the same method, path, version and headers (as slices of the longer buffer), and what
  was malformed stays malformed with the same code.
\<close>

theorem phr_parse_request_stable:
  "case phr_parse_request buf m 0 of
     Ok (n, r) \<Rightarrow> phr_parse_request (buf @ zs) m 0 = Ok (n, extend_request zs r)
   | Ret r \<Rightarrow> r = -2 \<or> phr_parse_request (buf @ zs) m 0 = Ret r
   | Oob \<Rightarrow> False"
  using phr_later[of zs buf m] parse_request_in[of m buf]
  by (auto simp: phr_parse_request_0 scan_bind_Oob split: scan.split)

subsection \<open>Bounds\<close>

lemma EXPECT_CHAR_suffix: "EXPECT_CHAR ch xs = Ok ys \<Longrightarrow> suffix ys xs"
  by (auto simp: EXPECT_CHAR_Ok suffix_Cons)

lemma skip_empty_line_suffix: "skip_empty_line xs = Ok ys \<Longrightarrow> suffix ys xs"
  by (cases xs) (auto simp: skip_empty_line_def suffix_Cons EXPECT_CHAR_Ok split: if_splits)

lemma end_of_line_suffix: "end_of_line xs = Ok ys \<Longrightarrow> suffix ys xs"
  by (cases xs) (auto simp: end_of_line_def suffix_Cons EXPECT_CHAR_Ok split: if_splits)

lemma NO_CHECK_Ok: "EXPECT_CHAR_NO_CHECK ch xs = Ok ys \<longleftrightarrow> xs = ch # ys"
  by (cases xs) auto

lemma PARSE_INT_Ok: "PARSE_INT k xs = Ok (ys, v) \<longleftrightarrow>
   (\<exists>c. xs = c # ys \<and> 48 \<le> byte c \<and> byte c \<le> 57 \<and> v = k * (int (byte c) - 48))"
  by (cases xs) auto

lemma parse_http_version_split: "parse_http_version xs = Ok (ys, v) \<Longrightarrow>
   \<exists>c. xs = ''HTTP/1.'' @ c # ys \<and> v = int (byte c) - 48 \<and> 0 \<le> v \<and> v \<le> 9 \<and> ys \<noteq> []"
  using parse_http_version_more[of xs ys v]
  by (auto simp: parse_http_version_def scan_simps NO_CHECK_Ok PARSE_INT_Ok split: if_splits)

lemma parse_token_suffix: "parse_token nc xs = Ok (ys, t, n) \<Longrightarrow> suffix ys xs"
  using parse_token_split suffix_drop by blast

lemma ADVANCE_TOKEN_suffix: "ADVANCE_TOKEN xs = Ok (ys, t, n) \<Longrightarrow> suffix ys xs"
  using ADVANCE_TOKEN_split suffix_drop by blast

definition request_in :: "string \<Rightarrow> nat \<Rightarrow> phr_request \<Rightarrow> bool" where
  "request_in xs m r \<longleftrightarrow>
     token_in xs (rmethod r) (rmethod_len r) \<and> 0 < rmethod_len r \<and>
     (\<forall>c \<in> set (take (rmethod_len r) (rmethod r)). is_token_char c) \<and>
     token_in xs (rpath r) (rpath_len r) \<and> 0 < rpath_len r \<and>
     (\<forall>c \<in> set (take (rpath_len r) (rpath r)). path_char c) \<and>
     0 \<le> rminor r \<and> rminor r \<le> 9 \<and>
     length (rheaders r) \<le> m \<and> (\<forall>h \<in> set (rheaders r). header_in xs h)"

lemma parse_request_bounds:
  assumes "parse_request m xs = Ok (rest, r)"
  shows "suffix rest xs \<and> length rest < length xs \<and> request_in xs m r"
proof -
  obtain a b me ml c d pa pl e f mi g hs where
    s: "skip_empty_line xs = Ok a" "parse_token SP a = Ok (b, me, ml)" "skip_spaces b = Ok c"
       "ADVANCE_TOKEN c = Ok (d, pa, pl)" "skip_spaces d = Ok e" "parse_http_version e = Ok (f, mi)"
       "end_of_line f = Ok g" "parse_headers m [] g = Ok (rest, hs)"
    and n: "ml \<noteq> 0" "pl \<noteq> 0"
    and r: "r = \<lparr>rmethod = me, rmethod_len = ml, rpath = pa, rpath_len = pl, rminor = mi, rheaders = hs\<rparr>"
    using assms by (auto simp: parse_request_def scan_simps split: if_splits)
  have a: "suffix a xs" using s(1) by (rule skip_empty_line_suffix)
  have b: "suffix b xs" using parse_token_suffix[OF s(2)] a suffix_order.trans by blast
  have c: "suffix c xs" using skip_spaces_suffix[OF s(3)] b suffix_order.trans by blast
  have d: "suffix d xs" using ADVANCE_TOKEN_suffix[OF s(4)] c suffix_order.trans by blast
  have e: "suffix e xs" using skip_spaces_suffix[OF s(5)] d suffix_order.trans by blast
  obtain ch where ef: "e = ''HTTP/1.'' @ ch # f" and mi: "0 \<le> mi" "mi \<le> 9"
    using parse_http_version_split[OF s(6)] by blast
  then have f: "suffix f xs" using e by (meson suffixI suffix_ConsI suffix_order.trans suffix_ConsD suffix_appendD)
  have g: "suffix g xs" using end_of_line_suffix[OF s(7)] f suffix_order.trans by blast
  have hs: "suffix rest g" "rest \<noteq> g" "length hs \<le> m" "\<forall>h \<in> set hs. header_in g h"
    using parse_headers_in_buffer[OF s(8)] by auto
  have "length rest < length g" using hs(1,2) by (metis suffix_length_less strict_suffix_def)
  then have l: "length rest < length xs" using suffix_length_le[OF g] by simp
  have "suffix me xs" "ml \<le> length me" using parse_token_split[OF s(2)] a by auto
  moreover have "suffix pa xs" "pl \<le> length pa" using ADVANCE_TOKEN_split[OF s(4)] c by auto
  ultimately show ?thesis
    using r n l mi hs g suffix_order.trans[OF hs(1) g] parse_token_split[OF s(2)] ADVANCE_TOKEN_split[OF s(4)]
    by (auto simp: request_in_def token_in_def intro: header_in_suffix)
qed






text \<open>
  The hand-unrolled scan of \<open>get_token_to_eol\<close>, eight characters at a time, computes what the
  plain character-by-character loop behind it computes on every input.
\<close>

theorem get_token_to_eol_unrolled:
  "get_token_to_eol xs = scan_bind (eol_slow xs) (found_ctl xs)"
  by (rule get_token_to_eol_plain)

end
