(* ===== verification/FdTables.thy ===== *)
theory FdTables
  imports Prelude
begin

text \<open>
  The tables of connections of \<open>matsko/33_proxy_with_thread_pool/proxy.c\<close>: an array of clients
  and an array of servers, both indexed by the slot in which a descriptor was put (-1 is a free
  slot), both doubled when full. The C variables \<open>CLIENTS_SIZE\<close> and \<open>SERVERS_SIZE\<close> are always the
  number of allocated elements, here the length of the list. \<open>fd_alloc\<close> is the interface of a table in which a new
  descriptor gets a slot of its own; in an \<open>fd_table\<close> a search also finds the first slot of a descriptor. Pointers to
  cache records are addresses in the heap of \<open>CacheStore\<close>.
\<close>

subsection \<open>The interface\<close>

definition first_index :: "int list \<Rightarrow> int \<Rightarrow> int \<Rightarrow> bool" where
  "first_index fds fd r \<longleftrightarrow> (r = -1 \<and> fd \<notin> set fds) \<or>
     (\<exists>i < length fds. r = int i \<and> fds ! i = fd \<and> (\<forall>j < i. fds ! j \<noteq> fd))"

lemma first_index_unique: "first_index fds fd r \<Longrightarrow> first_index fds fd r' \<Longrightarrow> r = r'"
proof -
  assume a: "first_index fds fd r" "first_index fds fd r'"
  show "r = r'"
  proof (cases "fd \<in> set fds")
    case True
    then obtain i j where "i < length fds" "r = int i" "fds ! i = fd" "\<forall>k < i. fds ! k \<noteq> fd"
        "j < length fds" "r' = int j" "fds ! j = fd" "\<forall>k < j. fds ! k \<noteq> fd"
      using a by (auto simp: first_index_def)
    then show ?thesis by (cases i j rule: linorder_cases) auto
  qed (use a in \<open>auto simp: first_index_def\<close>)
qed

text \<open>One slot took a new descriptor, and slots were only added free.\<close>

definition slot_taken :: "int \<Rightarrow> nat \<Rightarrow> int list \<Rightarrow> int list \<Rightarrow> bool" where
  "slot_taken fd i fds fds' \<longleftrightarrow> i < length fds' \<and> length fds \<le> length fds' \<and> fds' ! i = fd \<and>
     (i < length fds \<longrightarrow> fds ! i = -1) \<and>
     (\<forall>j < length fds'. j \<noteq> i \<longrightarrow> fds' ! j = (if j < length fds then fds ! j else -1))"

locale fd_alloc =
  fixes fds :: "'t \<Rightarrow> int list"
    and ok :: "'t \<Rightarrow> bool"
    and alloc :: "int \<Rightarrow> 't \<Rightarrow> (int \<times> 't) option"
  assumes alloc_slot: "0 \<le> fd \<Longrightarrow> ok t \<Longrightarrow>
      \<exists>i t'. alloc fd t = Some (int i, t') \<and> slot_taken fd i (fds t) (fds t')"
begin

lemma alloc_keeps:
  assumes "0 \<le> fd" "ok t" "alloc fd t = Some (i, t')" "fds t ! j \<noteq> -1" "j < length (fds t)"
  shows "j < length (fds t') \<and> fds t' ! j = fds t ! j \<and> 0 \<le> i \<and> nat i < length (fds t') \<and> fds t' ! nat i = fd \<and> nat i \<noteq> j"
proof -
  obtain k where k: "i = int k" "slot_taken fd k (fds t) (fds t')" using alloc_slot[OF assms(1,2)] assms(3) by auto
  then have "j \<noteq> k" "j < length (fds t')" using assms(4,5) by (auto simp: slot_taken_def)
  then show ?thesis using k assms(5) by (auto simp: slot_taken_def)
qed

end

locale fd_table = fd_alloc fds "\<lambda>t. fds t \<noteq> []" alloc
  for fds :: "'t \<Rightarrow> int list" and alloc :: "int \<Rightarrow> 't \<Rightarrow> (int \<times> 't) option" +
  fixes find :: "int \<Rightarrow> 't \<Rightarrow> int option"
  assumes find_slot: "0 \<le> fd \<Longrightarrow> \<exists>r. find fd t = Some r \<and> first_index (fds t) fd r"
begin

lemma find_alloc:
  assumes "0 \<le> fd" "fds t \<noteq> []" "fd \<notin> set (fds t)" "alloc fd t = Some (i, t')"
  shows "find fd t' = Some i"
proof -
  obtain k where k: "i = int k" "slot_taken fd k (fds t) (fds t')"
    using alloc_slot[OF assms(1,2)] assms(4) by auto
  have n: "fds t ! j \<noteq> fd" if "j < length (fds t)" for j using assms(3) that nth_mem by blast
  have "fds t' ! j \<noteq> fd" if "j < k" for j
    using k(2) that n[of j] assms(1) by (auto simp: slot_taken_def split: if_splits)
  then have "first_index (fds t') fd i" using k by (auto simp: first_index_def slot_taken_def)
  then show ?thesis using find_slot[OF assms(1), of t'] first_index_unique by blast
qed

lemma find_alloc_other:
  assumes "0 \<le> fd" "fds t \<noteq> []" "alloc fd t = Some (i, t')" "0 \<le> fd'" "fd' \<noteq> fd"
  shows "find fd' t' = find fd' t"
proof -
  obtain k where k: "i = int k" "slot_taken fd k (fds t) (fds t')"
    using alloc_slot[OF assms(1,2)] assms(3) by auto
  obtain r where r: "find fd' t = Some r" "first_index (fds t) fd' r"
    using find_slot[OF assms(4)] by blast
  have e: "(j < length (fds t') \<and> fds t' ! j = fd') \<longleftrightarrow> (j < length (fds t) \<and> fds t ! j = fd')" for j
    using k(2) assms(1,4,5) by (cases "j = k"; cases "j < length (fds t)") (auto simp: slot_taken_def)
  have l: "length (fds t) \<le> length (fds t')" using k(2) by (simp add: slot_taken_def)
  have "first_index (fds t') fd' r"
  proof (cases "r = -1")
    case True
    then have "fd' \<notin> set (fds t)" using r(2) by (auto simp: first_index_def)
    then have "fd' \<notin> set (fds t')" using e by (auto simp: in_set_conv_nth)
    then show ?thesis using True by (simp add: first_index_def)
  next
    case False
    then obtain m where m: "r = int m" "m < length (fds t)" "fds t ! m = fd'" "\<forall>j < m. fds t ! j \<noteq> fd'"
      using r(2) by (auto simp: first_index_def)
    have "\<forall>j < m. fds t' ! j \<noteq> fd'" using m e l by (meson order.strict_trans order.strict_trans2)
    then show ?thesis using m e[of m] by (auto simp: first_index_def)
  qed
  then show ?thesis using find_slot[OF assms(4), of t'] r(1) first_index_unique by force
qed

end

subsection \<open>Slots of an array\<close>

text \<open>
  The loops that \<open>findFreeClient\<close> and \<open>findFreeServer\<close> share, and those of \<open>findClientByFd\<close> and
  \<open>findServerByFd\<close>: \<open>get\<close> and \<open>put\<close> access the descriptor of an element, \<open>fresh\<close> is what the
  elements are initialised to.
\<close>

definition grow_table :: "'a \<Rightarrow> 'a list \<Rightarrow> 'a list" where
  "grow_table fresh xs = realloc_list xs (length xs * 2) fresh"

definition table_alloc :: "('a \<Rightarrow> int) \<Rightarrow> (int \<Rightarrow> 'a \<Rightarrow> 'a) \<Rightarrow> 'a \<Rightarrow> int \<Rightarrow> 'a list \<Rightarrow> (int \<times> 'a list) option" where
  "table_alloc get put fresh fd xs =
     (if fd < 0 then Some (-1, xs)
      else do {
        i \<leftarrow> loop_find (\<lambda>x. get x = -1) (length xs) xs;
        if i < length xs then do {
          x \<leftarrow> get_at xs i;
          xs \<leftarrow> put_at xs i (put fd x);
          Some (int i, xs) }
        else do {
          let prev_size = length xs;
          let xs = grow_table fresh xs;
          x \<leftarrow> get_at xs prev_size;
          xs \<leftarrow> put_at xs prev_size (put fd x);
          Some (int prev_size, xs) } })"

definition table_find :: "('a \<Rightarrow> int) \<Rightarrow> int \<Rightarrow> 'a list \<Rightarrow> int option" where
  "table_find get fd xs =
     (if fd < 0 then Some (-1)
      else do {
        i \<leftarrow> loop_find (\<lambda>x. get x = fd) (length xs) xs;
        Some (if i < length xs then int i else -1) })"

lemma table_alloc_slot:
  assumes "0 \<le> fd" "xs \<noteq> []" "\<And>x. get (put fd x) = fd" "get fresh = -1"
  shows "\<exists>i ys. table_alloc get put fresh fd xs = Some (int i, ys) \<and>
    slot_taken fd i (map get xs) (map get ys) \<and>
    (\<exists>x. ys ! i = put fd x \<and> (if i < length xs then x = xs ! i else x = fresh)) \<and>
    (\<forall>j < length ys. j \<noteq> i \<longrightarrow> ys ! j = (if j < length xs then xs ! j else fresh))"
proof -
  obtain i where i: "loop_find (\<lambda>x. get x = -1) (length xs) xs = Some i" using loop_find_total by blast
  show ?thesis
  proof (cases "i < length xs")
    case True
    then show ?thesis using i assms loop_find_hit[OF i]
      by (intro exI[of _ i] exI[of _ "xs[i := put fd (xs ! i)]"])
        (auto simp: table_alloc_def slot_taken_def map_update)
  next
    case False
    let ?ys = "(grow_table fresh xs)[length xs := put fd fresh]"
    have g: "grow_table fresh xs = xs @ replicate (length xs) fresh"
      by (simp add: grow_table_def realloc_list_grow mult_2_right)
    have "i = length xs" using False loop_find_le[OF i] by simp
    moreover have "length xs < length (grow_table fresh xs)" "grow_table fresh xs ! length xs = fresh"
      using assms(2) by (simp_all add: g nth_append)
    ultimately show ?thesis using i assms
      by (intro exI[of _ i] exI[of _ ?ys])
        (auto simp: table_alloc_def slot_taken_def g nth_append nth_list_update Let_def)
  qed
qed

lemma table_alloc_nil: "0 \<le> fd \<Longrightarrow> table_alloc get put fresh fd [] = None"
  by (simp add: table_alloc_def grow_table_def realloc_list_def)

lemma table_find_first:
  assumes "0 \<le> fd"
  shows "\<exists>r. table_find get fd xs = Some r \<and> first_index (map get xs) fd r"
proof -
  obtain i where i: "loop_find (\<lambda>x. get x = fd) (length xs) xs = Some i" using loop_find_total by blast
  then have r: "table_find get fd xs = Some (if i < length xs then int i else -1)"
    using assms by (simp add: table_find_def)
  show ?thesis
  proof (cases "i < length xs")
    case True
    then show ?thesis using r loop_find_hit[OF i True] loop_find_before[OF i]
      by (auto simp: first_index_def)
  next
    case False
    then have "i = length xs" using loop_find_le[OF i] by simp
    then have "\<forall>j < length xs. get (xs ! j) \<noteq> fd" using i loop_find_none[of "length xs" xs] by simp
    then show ?thesis using r False by (auto simp: first_index_def in_set_conv_nth)
  qed
qed

subsection \<open>Clients\<close>

record client =
  crequest :: "string option"
  crecord :: "nat option"
  CREQUEST_SIZE :: nat
  crequest_index :: nat
  cwrite_index :: int
  cthread_fd :: int
  cfd :: int

definition initEmptyClient :: client where
  "initEmptyClient = \<lparr>crequest = None, crecord = None, CREQUEST_SIZE = 0, crequest_index = 0,
     cwrite_index = -1, cthread_fd = -1, cfd = -1\<rparr>"

definition initClients :: "bool \<Rightarrow> nat \<Rightarrow> client list option" where
  "initClients oom n = (if oom then None else Some (replicate n initEmptyClient))"

definition reallocClients :: "client list \<Rightarrow> client list" where
  "reallocClients = grow_table initEmptyClient"

definition findFreeClient :: "int \<Rightarrow> client list \<Rightarrow> (int \<times> client list) option" where
  "findFreeClient = table_alloc cfd (\<lambda>fd c. c\<lparr>cfd := fd\<rparr>) initEmptyClient"

definition findClientByFd :: "int \<Rightarrow> client list \<Rightarrow> int option" where
  "findClientByFd = table_find cfd"

interpretation cl: fd_table "map cfd" findFreeClient findClientByFd
proof unfold_locales
  fix fd :: int and t :: "client list"
  assume "0 \<le> fd"
  then show "\<exists>r. findClientByFd fd t = Some r \<and> first_index (map cfd t) fd r"
    unfolding findClientByFd_def by (rule table_find_first)
  assume "map cfd t \<noteq> []"
  then show "\<exists>i t'. findFreeClient fd t = Some (int i, t') \<and> slot_taken fd i (map cfd t) (map cfd t')"
    using table_alloc_slot[OF \<open>0 \<le> fd\<close>, of t cfd "\<lambda>fd c. c\<lparr>cfd := fd\<rparr>" initEmptyClient]
    by (auto simp: findFreeClient_def initEmptyClient_def)
qed

subsection \<open>Servers\<close>

record server =
  srecord :: "nat option"
  swrite_index :: int
  sfd :: int

definition initEmptyServer :: server where
  "initEmptyServer = \<lparr>srecord = None, swrite_index = -1, sfd = -1\<rparr>"

definition initServers :: "bool \<Rightarrow> nat \<Rightarrow> server list option" where
  "initServers oom n = (if oom then None else Some (replicate n initEmptyServer))"

definition reallocServers :: "server list \<Rightarrow> server list" where
  "reallocServers = grow_table initEmptyServer"

definition findFreeServer :: "int \<Rightarrow> server list \<Rightarrow> (int \<times> server list) option" where
  "findFreeServer = table_alloc sfd (\<lambda>fd s. s\<lparr>sfd := fd\<rparr>) initEmptyServer"

definition findServerByFd :: "int \<Rightarrow> server list \<Rightarrow> int option" where
  "findServerByFd = table_find sfd"

interpretation sv: fd_table "map sfd" findFreeServer findServerByFd
proof unfold_locales
  fix fd :: int and t :: "server list"
  assume "0 \<le> fd"
  then show "\<exists>r. findServerByFd fd t = Some r \<and> first_index (map sfd t) fd r"
    unfolding findServerByFd_def by (rule table_find_first)
  assume "map sfd t \<noteq> []"
  then show "\<exists>i t'. findFreeServer fd t = Some (int i, t') \<and> slot_taken fd i (map sfd t) (map sfd t')"
    using table_alloc_slot[OF \<open>0 \<le> fd\<close>, of t sfd "\<lambda>fd s. s\<lparr>sfd := fd\<rparr>" initEmptyServer]
    by (auto simp: findFreeServer_def initEmptyServer_def)
qed

text \<open>
  A client that is given a slot is found in this slot by its descriptor, and the searches for
  all other descriptors return what they returned before, also when the table had to grow.
\<close>

theorem findFreeClient_found:
  assumes "0 \<le> fd" "cs \<noteq> []" "fd \<notin> set (map cfd cs)"
  shows "\<exists>i cs'. findFreeClient fd cs = Some (i, cs') \<and> findClientByFd fd cs' = Some i \<and>
    (\<forall>fd'. 0 \<le> fd' \<and> fd' \<noteq> fd \<longrightarrow> findClientByFd fd' cs' = findClientByFd fd' cs)"
  using cl.alloc_slot[of fd cs] cl.find_alloc[of fd cs] cl.find_alloc_other[of fd cs] assms by fastforce

lemma findFreeClient_found_witness:
  "\<exists>i cs'. findFreeClient 7 (the (initClients False 2)) = Some (i, cs') \<and> findClientByFd 7 cs' = Some i \<and>
    (\<forall>fd'. 0 \<le> fd' \<and> fd' \<noteq> 7 \<longrightarrow> findClientByFd fd' cs' = findClientByFd fd' (the (initClients False 2)))"
  by (rule findFreeClient_found) (simp_all add: initClients_def initEmptyClient_def)

end
