(* ===== verification/PollTable.thy ===== *)
theory PollTable
  imports Prelude
begin

text \<open>
  The poll table of \<open>matsko/33_proxy_with_thread_pool/proxy.c\<close>: the array given to \<open>poll\<close>,
  whose slots are reused (-1 is a free slot) and whose used part \<open>poll_last_index\<close> shrinks when its
  end becomes free. The C variable \<open>POLL_TABLE_SIZE\<close> is always the number of allocated elements,
  here \<open>length (pfds t)\<close>; \<open>closed\<close> records the calls of \<open>close\<close>, the latest first. The locale
  \<open>poll_map\<close> is what the proxy relies on: the table is a finite map from descriptors to event
  masks. The index is an \<open>int\<close>, and its increment is shown not to overflow: the watched descriptors
  are pairwise different and a slot is only appended when none is free.
\<close>

subsection \<open>The interface\<close>

datatype poll_op = Watch int "16 word" | Unwatch int | Rewatch int "16 word"

fun poll_spec :: "poll_op \<Rightarrow> (int \<Rightarrow> 16 word option) \<Rightarrow> (int \<Rightarrow> 16 word option)" where
  "poll_spec (Watch fd e) m = m(fd \<mapsto> e)"
| "poll_spec (Unwatch fd) m = m(fd := None)"
| "poll_spec (Rewatch fd e) m = (if m fd = None then m else m(fd \<mapsto> e))"

text \<open>
  Descriptors come from the kernel: never negative, below the limit on open files (so never
  \<open>INT_MAX\<close>), and a new one is not in use.
\<close>

definition is_fd :: "int \<Rightarrow> bool" where
  "is_fd fd \<longleftrightarrow> 0 \<le> fd \<and> fd < INT_MAX"

fun poll_allowed :: "poll_op list \<Rightarrow> (int \<Rightarrow> 16 word option) \<Rightarrow> bool" where
  "poll_allowed [] m \<longleftrightarrow> True"
| "poll_allowed (x # xs) m \<longleftrightarrow>
     (case x of Watch fd e \<Rightarrow> is_fd fd \<and> m fd = None | Unwatch fd \<Rightarrow> is_fd fd | Rewatch fd e \<Rightarrow> is_fd fd) \<and>
     poll_allowed xs (poll_spec x m)"

fun run_poll :: "(int \<Rightarrow> 16 word \<Rightarrow> 't \<Rightarrow> 't option) \<Rightarrow> (int \<Rightarrow> 't \<Rightarrow> 't option) \<Rightarrow>
    (int \<Rightarrow> 16 word \<Rightarrow> 't \<Rightarrow> 't option) \<Rightarrow> poll_op list \<Rightarrow> 't \<Rightarrow> 't option" where
  "run_poll add rem chg [] t = Some t"
| "run_poll add rem chg (Watch fd e # xs) t = add fd e t \<bind> run_poll add rem chg xs"
| "run_poll add rem chg (Unwatch fd # xs) t = rem fd t \<bind> run_poll add rem chg xs"
| "run_poll add rem chg (Rewatch fd e # xs) t = chg fd e t \<bind> run_poll add rem chg xs"

locale poll_base =
  fixes inv :: "'t \<Rightarrow> bool"
    and view :: "'t \<Rightarrow> int \<Rightarrow> 16 word option"
    and add :: "int \<Rightarrow> 16 word \<Rightarrow> 't \<Rightarrow> 't option"
    and rem :: "int \<Rightarrow> 't \<Rightarrow> 't option"
  assumes add_view: "inv t \<Longrightarrow> is_fd fd \<Longrightarrow> view t fd = None \<Longrightarrow>
      \<exists>t'. add fd e t = Some t' \<and> inv t' \<and> view t' = (view t)(fd \<mapsto> e)"
    and rem_view: "inv t \<Longrightarrow> is_fd fd \<Longrightarrow>
      \<exists>t'. rem fd t = Some t' \<and> inv t' \<and> view t' = (view t)(fd := None)"
begin

lemma add_rem:
  assumes "inv t" "is_fd fd" "view t fd = None"
  shows "\<exists>t1 t2. add fd e t = Some t1 \<and> rem fd t1 = Some t2 \<and> inv t2 \<and> view t2 = view t"
proof -
  obtain t1 where t1: "add fd e t = Some t1" "inv t1" "view t1 = (view t)(fd \<mapsto> e)" using add_view[OF assms] by blast
  obtain t2 where t2: "rem fd t1 = Some t2" "inv t2" "view t2 = (view t1)(fd := None)" using rem_view[OF t1(2) assms(2)] by blast
  have "view t2 = view t" using t1(3) t2(3) assms(3) by auto
  then show ?thesis using t1 t2 by blast
qed

end

locale poll_map = poll_base inv view add rem
  for inv :: "'t \<Rightarrow> bool" and view :: "'t \<Rightarrow> int \<Rightarrow> 16 word option"
    and add :: "int \<Rightarrow> 16 word \<Rightarrow> 't \<Rightarrow> 't option" and rem :: "int \<Rightarrow> 't \<Rightarrow> 't option" +
  fixes chg :: "int \<Rightarrow> 16 word \<Rightarrow> 't \<Rightarrow> 't option"
  assumes chg_view: "inv t \<Longrightarrow> is_fd fd \<Longrightarrow>
      \<exists>t'. chg fd e t = Some t' \<and> inv t' \<and>
        view t' = (if view t fd = None then view t else (view t)(fd \<mapsto> e))"
begin

lemma run_view:
  "inv t \<Longrightarrow> poll_allowed xs (view t) \<Longrightarrow>
     \<exists>t'. run_poll add rem chg xs t = Some t' \<and> inv t' \<and> view t' = fold poll_spec xs (view t)"
proof (induction xs arbitrary: t)
  case (Cons x xs)
  have "\<exists>t'. (case x of Watch fd e \<Rightarrow> add fd e t | Unwatch fd \<Rightarrow> rem fd t | Rewatch fd e \<Rightarrow> chg fd e t) = Some t' \<and>
      inv t' \<and> view t' = poll_spec x (view t)"
    using Cons.prems add_view rem_view chg_view by (cases x) auto
  then obtain t' where t': "(case x of Watch fd e \<Rightarrow> add fd e t | Unwatch fd \<Rightarrow> rem fd t | Rewatch fd e \<Rightarrow> chg fd e t) = Some t'"
      "inv t'" "view t' = poll_spec x (view t)" by blast
  then show ?case using Cons.IH[of t'] Cons.prems by (cases x) (auto simp del: fun_upd_apply)
qed simp

end

subsection \<open>The table of the code\<close>

definition POLLIN :: "16 word" where "POLLIN = 1"
definition POLLOUT :: "16 word" where "POLLOUT = 4"

record pollfd =
  pfd :: int
  events :: "16 word"
  revents :: "16 word"

record poll_table =
  pfds :: "pollfd list"
  poll_last_index :: int
  closed :: "int list"

abbreviation POLL_TABLE_SIZE :: "poll_table \<Rightarrow> nat" where
  "POLL_TABLE_SIZE t \<equiv> length (pfds t)"

definition free_slot :: pollfd where
  "free_slot = \<lparr>pfd = -1, events = 0, revents = 0\<rparr>"

definition initPollFds :: "bool \<Rightarrow> nat \<Rightarrow> poll_table option" where
  "initPollFds oom n =
     (if oom then None else Some \<lparr>pfds = replicate n free_slot, poll_last_index = 0, closed = []\<rparr>)"

definition reallocPollFds :: "poll_table \<Rightarrow> poll_table" where
  "reallocPollFds t = t\<lparr>pfds := realloc_list (pfds t) (POLL_TABLE_SIZE t * 2) free_slot\<rparr>"

text \<open>The first index below \<open>poll_last_index\<close> that holds \<open>fd\<close>, or \<open>poll_last_index\<close>.\<close>

definition find_slot :: "int \<Rightarrow> poll_table \<Rightarrow> nat option" where
  "find_slot fd t = loop_find (\<lambda>p. pfd p = fd) (nat (poll_last_index t)) (pfds t)"

definition addFdToPollFds :: "int \<Rightarrow> 16 word \<Rightarrow> poll_table \<Rightarrow> poll_table option" where
  "addFdToPollFds fd ev t =
     (if fd < 0 then Some t
      else do {
        i \<leftarrow> find_slot (-1) t;
        if int i < poll_last_index t then do {
          p \<leftarrow> get_at (pfds t) i;
          ps \<leftarrow> put_at (pfds t) i (p\<lparr>pfd := fd, events := ev\<rparr>);
          Some (t\<lparr>pfds := ps\<rparr>) }
        else do {
          let t = (if POLL_TABLE_SIZE t \<le> int_to_size (poll_last_index t) then reallocPollFds t else t);
          assertm (0 \<le> poll_last_index t);
          p \<leftarrow> get_at (pfds t) (nat (poll_last_index t));
          ps \<leftarrow> put_at (pfds t) (nat (poll_last_index t)) (p\<lparr>pfd := fd, events := ev\<rparr>);
          li \<leftarrow> int_add (poll_last_index t) 1;
          Some (t\<lparr>pfds := ps, poll_last_index := li\<rparr>) } })"

text \<open>The second loop of \<open>removeFromPollFds\<close>, with \<open>i\<close> counting down to 1, and lines 89-99.\<close>

fun trim_loop :: "pollfd list \<Rightarrow> nat \<Rightarrow> int \<Rightarrow> int option" where
  "trim_loop ps 0 li = Some li"
| "trim_loop ps (Suc i) li =
     do { p \<leftarrow> get_at ps (Suc i); if pfd p = -1 then trim_loop ps i (li - 1) else Some li }"

definition shrink_table :: "nat \<Rightarrow> poll_table \<Rightarrow> poll_table option" where
  "shrink_table i t = do {
     let t = (if int i = poll_last_index t - 1 then t\<lparr>poll_last_index := poll_last_index t - 1\<rparr> else t);
     li \<leftarrow> trim_loop (pfds t) (nat (poll_last_index t - 1)) (poll_last_index t);
     Some (t\<lparr>poll_last_index := li\<rparr>) }"

definition removeFromPollFds :: "int \<Rightarrow> poll_table \<Rightarrow> poll_table option" where
  "removeFromPollFds fd t =
     (if fd < 0 then Some t
      else do {
        i \<leftarrow> find_slot fd t;
        t \<leftarrow> (if int i < poll_last_index t then do {
                p \<leftarrow> get_at (pfds t) i;
                ps \<leftarrow> put_at (pfds t) i \<lparr>pfd = -1, events = 0, revents = 0\<rparr>;
                Some (t\<lparr>pfds := ps, closed := pfd p # closed t\<rparr>) }
              else Some t);
        shrink_table i t })"

definition changeEventForFd :: "int \<Rightarrow> 16 word \<Rightarrow> poll_table \<Rightarrow> poll_table option" where
  "changeEventForFd fd new_events t =
     (if fd < 0 then Some t
      else do {
        i \<leftarrow> find_slot fd t;
        if int i < poll_last_index t then do {
          p \<leftarrow> get_at (pfds t) i;
          ps \<leftarrow> put_at (pfds t) i (p\<lparr>events := new_events\<rparr>);
          Some (t\<lparr>pfds := ps\<rparr>) }
        else Some t })"

text \<open>\<open>destroyPollFds\<close> closes what is open; the array is freed, so that only \<open>closed\<close> remains.\<close>

fun close_all :: "nat \<Rightarrow> pollfd list \<Rightarrow> int list \<Rightarrow> int list option" where
  "close_all 0 ps cl = Some cl"
| "close_all (Suc n) [] cl = None"
| "close_all (Suc n) (p # ps) cl = close_all n ps (if 0 < pfd p then pfd p # cl else cl)"

definition destroyPollFds :: "poll_table \<Rightarrow> poll_table option" where
  "destroyPollFds t = do {
     cl \<leftarrow> close_all (nat (poll_last_index t)) (pfds t) (closed t);
     Some \<lparr>pfds = [], poll_last_index = -1, closed = cl\<rparr> }"

subsection \<open>The map that a table holds\<close>

fun pfds_map :: "pollfd list \<Rightarrow> int \<Rightarrow> 16 word option" where
  "pfds_map [] = Map.empty"
| "pfds_map (p # ps) = (if pfd p = -1 then pfds_map ps else (pfds_map ps)(pfd p \<mapsto> events p))"

definition used :: "poll_table \<Rightarrow> pollfd list" where
  "used t = take (nat (poll_last_index t)) (pfds t)"

definition watching :: "poll_table \<Rightarrow> int \<Rightarrow> 16 word option" where
  "watching t = pfds_map (used t)"

definition unique_fds :: "pollfd list \<Rightarrow> bool" where
  "unique_fds ps \<longleftrightarrow> distinct (filter (\<lambda>fd. fd \<noteq> -1) (map pfd ps)) \<and>
     (\<forall>p \<in> set ps. pfd p = -1 \<or> is_fd (pfd p))"

definition poll_ok :: "poll_table \<Rightarrow> bool" where
  "poll_ok t \<longleftrightarrow> 0 \<le> poll_last_index t \<and> poll_last_index t \<le> INT_MAX \<and>
     poll_last_index t \<le> int (length (pfds t)) \<and> 0 < length (pfds t) \<and> unique_fds (used t)"

lemma pfds_map_append: "pfds_map (ps @ qs) = pfds_map qs ++ pfds_map ps"
  by (induction ps) (simp_all del: fun_upd_apply)

lemma pfds_map_None: "pfds_map ps fd = None \<longleftrightarrow> fd = -1 \<or> fd \<notin> pfd ` set ps"
  by (induction ps) auto

lemma pfds_map_all_free: "\<forall>p \<in> set ps. pfd p = -1 \<Longrightarrow> pfds_map ps = Map.empty"
  by (induction ps) auto

lemma unique_fds_map: "map pfd ps = map pfd qs \<Longrightarrow> unique_fds ps = unique_fds qs"
proof -
  have e: "unique_fds ps \<longleftrightarrow> distinct (filter (\<lambda>fd. fd \<noteq> -1) (map pfd ps)) \<and> (\<forall>x \<in> set (map pfd ps). x = -1 \<or> is_fd x)" for ps
    by (simp add: unique_fds_def)
  show "map pfd ps = map pfd qs \<Longrightarrow> ?thesis" by (simp only: e)
qed

lemma unique_fds_split:
  "unique_fds (a @ p # b) \<longleftrightarrow> unique_fds (a @ b) \<and>
     (pfd p = -1 \<or> is_fd (pfd p) \<and> pfd p \<notin> pfd ` set (a @ b))"
  by (auto simp: unique_fds_def)

lemma pfds_map_split:
  "pfd p = -1 \<or> pfd p \<notin> pfd ` set a \<Longrightarrow>
   pfds_map (a @ p # b) =
     (if pfd p = -1 then pfds_map (a @ b) else (pfds_map (a @ b))(pfd p \<mapsto> events p))"
  by (auto simp: pfds_map_append map_add_upd_left domIff pfds_map_None simp del: fun_upd_apply)

lemma pfds_map_drop:
  "is_fd (pfd p) \<Longrightarrow> pfd p \<notin> pfd ` set (a @ b) \<Longrightarrow> pfds_map (a @ b) = (pfds_map (a @ p # b))(pfd p := None)"
proof -
  assume a: "is_fd (pfd p)" "pfd p \<notin> pfd ` set (a @ b)"
  then have "pfds_map (a @ b) (pfd p) = None" by (simp only: pfds_map_None) simp
  moreover have "pfd p \<noteq> -1" using a(1) by (simp add: is_fd_def)
  moreover have "pfds_map (a @ p # b) = (pfds_map (a @ b))(pfd p \<mapsto> events p)"
    using pfds_map_split[of p a b] a(2) \<open>pfd p \<noteq> -1\<close> by auto
  ultimately show ?thesis by (simp only: fun_upd_upd fun_upd_idem_iff[THEN iffD2])
qed

lemma unique_fds_append: "unique_fds (a @ b) \<Longrightarrow> unique_fds a"
  by (auto simp: unique_fds_def)

lemma unique_fds_append_free: "\<forall>p \<in> set b. pfd p = -1 \<Longrightarrow> unique_fds (a @ b) \<longleftrightarrow> unique_fds a"
  by (auto simp: unique_fds_def filter_empty_conv)

text \<open>Where the search loop stops.\<close>

lemma find_slot_cases:
  assumes "poll_ok t"
  obtains (found) a p b where "find_slot fd t = Some (length a)" "used t = a @ p # b" "pfd p = fd"
      "int (length a) < poll_last_index t" "pfds t = a @ p # b @ drop (nat (poll_last_index t)) (pfds t)"
  | (missing) "find_slot fd t = Some (nat (poll_last_index t))" "fd \<notin> pfd ` set (used t)"
proof -
  have n: "nat (poll_last_index t) \<le> length (pfds t)" using assms by (auto simp: poll_ok_def)
  then obtain i where i: "find_slot fd t = Some i"
    using loop_find_total unfolding find_slot_def by blast
  have len: "length (used t) = nat (poll_last_index t)" using n by (simp add: used_def)
  show thesis
  proof (cases "i < nat (poll_last_index t)")
    case True
    then have "pfd (pfds t ! i) = fd" using loop_find_hit[OF i[unfolded find_slot_def]] by simp
    moreover have "used t ! i = pfds t ! i" using True by (simp add: used_def)
    ultimately have "used t = take i (used t) @ used t ! i # drop (Suc i) (used t)" "pfd (used t ! i) = fd"
      using True len id_take_nth_drop[of i "used t"] by simp_all
    moreover have "pfds t = used t @ drop (nat (poll_last_index t)) (pfds t)" by (simp add: used_def)
    ultimately show thesis
      using found[of "take i (used t)" "used t ! i" "drop (Suc i) (used t)"] i True len
      by (simp add: zless_nat_eq_int_zless) (metis append.assoc append_Cons)
  next
    case False
    then have e: "i = nat (poll_last_index t)" using loop_find_le[OF i[unfolded find_slot_def]] by simp
    then have "\<forall>j < i. pfd (pfds t ! j) \<noteq> fd"
      using i n loop_find_none[of i "pfds t" "\<lambda>p. pfd p = fd"] by (simp add: find_slot_def)
    then have "fd \<notin> pfd ` set (used t)" using n e by (fastforce simp: used_def in_set_conv_nth)
    then show thesis using missing i e by simp
  qed
qed

lemma init_poll_ok: "0 < n \<Longrightarrow> initPollFds False n = Some t \<Longrightarrow> poll_ok t \<and> watching t = Map.empty"
  by (auto simp: initPollFds_def poll_ok_def unique_fds_def used_def watching_def INT_MAX_def)

lemma watching_None: "watching t fd = None \<longleftrightarrow> fd = -1 \<or> fd \<notin> pfd ` set (used t)"
  by (simp add: watching_def pfds_map_None)

text \<open>A table without a free slot has fewer used slots than there are descriptors.\<close>

lemma unique_fds_card:
  assumes "unique_fds ps" "-1 \<notin> pfd ` set ps" "is_fd fd" "fd \<notin> pfd ` set ps"
  shows "int (length ps) < INT_MAX"
proof -
  have f: "filter (\<lambda>fd. fd \<noteq> -1) (map pfd ps) = map pfd ps"
    using assms(2) by (auto intro!: filter_True)
  then have "distinct (fd # map pfd ps)" using assms by (simp add: unique_fds_def)
  moreover have "set (fd # map pfd ps) \<subseteq> {0..<INT_MAX}"
  proof
    fix x assume "x \<in> set (fd # map pfd ps)"
    then consider "x = fd" | p where "p \<in> set ps" "x = pfd p" by auto
    then have "is_fd x" using assms by cases (simp, metis unique_fds_def image_eqI)
    then show "x \<in> {0..<INT_MAX}" by (simp add: is_fd_def)
  qed
  ultimately have "length (fd # map pfd ps) \<le> card {0..<INT_MAX}"
    by (metis card_mono distinct_card finite_atLeastLessThan_int)
  then show ?thesis by (simp add: INT_MAX_def)
qed

lemma add_watching:
  assumes ok: "poll_ok t" and fd: "is_fd fd" and new: "watching t fd = None"
  shows "\<exists>t'. addFdToPollFds fd e t = Some t' \<and> poll_ok t' \<and> watching t' = (watching t)(fd \<mapsto> e)"
proof -
  have nfd: "fd \<notin> pfd ` set (used t)" "\<not> fd < 0" "fd \<noteq> -1" using fd new by (auto simp: watching_None is_fd_def)
  show ?thesis
    using ok
  proof (cases rule: find_slot_cases[where fd = "-1", consumes 1, case_names found missing])
    case (found a p b)
    let ?p = "p\<lparr>pfd := fd, events := e\<rparr>"
    let ?rest = "drop (nat (poll_last_index t)) (pfds t)"
    let ?t = "t\<lparr>pfds := a @ ?p # b @ ?rest\<rparr>"
    have len: "length (used t) = nat (poll_last_index t)" using ok by (auto simp: used_def poll_ok_def)
    have pl: "pfds t ! length a = p" "(pfds t)[length a := ?p] = a @ ?p # b @ ?rest" "length a < length (pfds t)"
      by (subst found(5), simp)+
    have r: "addFdToPollFds fd e t = Some ?t"
      using found pl nfd by (simp add: addFdToPollFds_def)
    have "length (a @ ?p # b) = nat (poll_last_index t)" using found(2) len by simp
    then have "take (nat (poll_last_index t)) ((a @ ?p # b) @ ?rest) = a @ ?p # b"
      by (simp only: take_append) simp
    then have u: "used ?t = a @ ?p # b" by (simp add: used_def)
    have l: "length (pfds ?t) = length (pfds t)" by (subst found(5)) simp
    have un: "unique_fds (used ?t)" using u found(2,3) ok nfd fd
      by (auto simp: poll_ok_def unique_fds_split)
    have w: "watching ?t = (watching t)(fd \<mapsto> e)"
      using u found(2,3) nfd pfds_map_split[of ?p a b] pfds_map_split[of p a b]
      by (simp add: watching_def image_Un del: fun_upd_apply)
    show ?thesis using r ok l un w by (auto simp: poll_ok_def)
  next
    case missing
    define t0 where "t0 = (if POLL_TABLE_SIZE t \<le> nat (poll_last_index t) then reallocPollFds t else t)"
    let ?n = "nat (poll_last_index t)"
    let ?p = "(pfds t0 ! ?n)\<lparr>pfd := fd, events := e\<rparr>"
    let ?t = "t0\<lparr>pfds := (pfds t0)[?n := ?p], poll_last_index := poll_last_index t + 1\<rparr>"
    have n: "int ?n = poll_last_index t" "?n \<le> length (pfds t)" using ok by (auto simp: poll_ok_def)
    have sz: "int_to_size (poll_last_index t) = ?n" using ok by (simp add: poll_ok_def INT_MAX_def)
    have pos: "0 < POLL_TABLE_SIZE t" using ok by (simp add: poll_ok_def)
    have len: "?n < length (pfds t0)"
    proof (cases "POLL_TABLE_SIZE t \<le> ?n")
      case True
      then have "length (pfds t0) = POLL_TABLE_SIZE t * 2" by (simp add: t0_def reallocPollFds_def)
      then show ?thesis using pos n(2) by linarith
    qed (simp add: t0_def)
    have tk: "take ?n (pfds t0) = used t" using n(2) by (simp add: t0_def reallocPollFds_def used_def mem_simps)
    have lu: "length (used t) = ?n" using n(2) by (simp add: used_def)
    have c: "poll_last_index t + 1 \<le> INT_MAX"
      using unique_fds_card[of "used t" fd] missing(2) nfd fd ok lu n by (simp add: poll_ok_def)
    have r: "addFdToPollFds fd e t = Some ?t"
      using missing n nfd len sz c ok
      by (auto simp: t0_def addFdToPollFds_def Let_def reallocPollFds_def poll_ok_def INT_MIN_def fault_simps)
    have tu: "take (Suc k) (ps[k := q]) = take k ps @ [q]" if "k < length ps" for k ps and q :: pollfd
      using that by (simp add: take_Suc_conv_app_nth)
    have s1: "nat (poll_last_index t + 1) = Suc ?n" using n(1) by linarith
    have "used ?t = take (nat (poll_last_index t + 1)) ((pfds t0)[?n := ?p])" by (simp add: used_def)
    then have u: "used ?t = used t @ [?p]" by (simp only: s1 tu[OF len] tk)
    have un: "unique_fds (used ?t)" using u ok nfd fd
      by (simp add: poll_ok_def unique_fds_split[of _ _ "[]"])
    have w: "watching ?t = (watching t)(fd \<mapsto> e)"
      using u nfd by (simp add: watching_def pfds_map_split)
    have g: "0 \<le> poll_last_index t + 1" "poll_last_index t + 1 \<le> int (length (pfds t0))"
      using n(1) len by linarith+
    have "poll_ok ?t" using un c g len by (auto simp: poll_ok_def)
    then show ?thesis using r w by blast
  qed
qed

lemma trim_loop_spec:
  "k < length ps \<Longrightarrow> \<exists>j \<le> k. trim_loop ps k (int k + 1) = Some (int j + 1) \<and>
     (\<forall>m. j < m \<longrightarrow> m \<le> k \<longrightarrow> pfd (ps ! m) = -1)"
proof (induction k)
  case (Suc k)
  show ?case
  proof (cases "pfd (ps ! Suc k) = -1")
    case True
    obtain j where j: "j \<le> k" "trim_loop ps k (int k + 1) = Some (int j + 1)"
        "\<forall>m. j < m \<longrightarrow> m \<le> k \<longrightarrow> pfd (ps ! m) = -1" using Suc by auto
    then show ?thesis using Suc.prems True
      by (intro exI[of _ j]) (auto simp: le_Suc_eq add.commute)
  next
    case False
    then show ?thesis using Suc.prems by (intro exI[of _ "Suc k"]) auto
  qed
qed simp

text \<open>Giving up a free end of the used part changes nothing.\<close>

lemma shrink_used:
  assumes "poll_ok t" "0 \<le> l" "l \<le> poll_last_index t" "\<forall>m. l \<le> int m \<longrightarrow> int m < poll_last_index t \<longrightarrow> pfd (pfds t ! m) = -1"
  shows "poll_ok (t\<lparr>poll_last_index := l\<rparr>) \<and> watching (t\<lparr>poll_last_index := l\<rparr>) = watching t"
proof -
  let ?r = "drop (nat l) (used t)"
  have f: "\<forall>p \<in> set ?r. pfd p = -1"
    using assms by (auto simp: in_set_conv_nth used_def poll_ok_def)
  have u: "used t = used (t\<lparr>poll_last_index := l\<rparr>) @ ?r"
    using assms(2,3) by (simp add: used_def take_drop[symmetric] min_def) (metis append_take_drop_id min.absorb1 nat_mono take_take)
  show ?thesis using assms unique_fds_append_free[OF f] pfds_map_all_free[OF f]
    by (subst (asm) poll_ok_def, subst (asm) u, simp add: poll_ok_def watching_def)
       (subst u, simp add: pfds_map_append)
qed

lemma shrink_table_spec:
  assumes u: "poll_ok u" and i: "int i < poll_last_index u \<longrightarrow> pfd (pfds u ! i) = -1"
  shows "\<exists>t'. shrink_table i u = Some t' \<and> poll_ok t' \<and> watching t' = watching u \<and> closed t' = closed u"
proof -
  let ?u = "if int i = poll_last_index u - 1 then u\<lparr>poll_last_index := poll_last_index u - 1\<rparr> else u"
  let ?l = "poll_last_index ?u"
  have m: "m = i" if "?l \<le> int m" "int m < poll_last_index u" for m
    using that by (auto split: if_splits)
  have "poll_ok (u\<lparr>poll_last_index := ?l\<rparr>) \<and> watching (u\<lparr>poll_last_index := ?l\<rparr>) = watching u"
  proof (rule shrink_used)
    show "\<forall>k. ?l \<le> int k \<longrightarrow> int k < poll_last_index u \<longrightarrow> pfd (pfds u ! k) = -1"
      using i m by metis
  qed (use u in \<open>auto simp: poll_ok_def\<close>)
  moreover have "u\<lparr>poll_last_index := ?l\<rparr> = ?u" by simp
  ultimately have u': "poll_ok ?u" "watching ?u = watching u" by simp_all
  show ?thesis
  proof (cases "?l \<le> 0")
    case True
    then have "?l = 0" using u' by (simp add: poll_ok_def)
    then have "trim_loop (pfds ?u) (nat (?l - 1)) ?l = Some ?l" by simp
    then show ?thesis using u' by (auto simp: shrink_table_def Let_def split: if_splits)
  next
    case False
    then have k: "nat (?l - 1) < length (pfds ?u)" "int (nat (?l - 1)) + 1 = ?l" using u' by (auto simp: poll_ok_def)
    obtain j where j: "j \<le> nat (?l - 1)" "trim_loop (pfds ?u) (nat (?l - 1)) ?l = Some (int j + 1)"
        "\<forall>m. j < m \<longrightarrow> m \<le> nat (?l - 1) \<longrightarrow> pfd (pfds ?u ! m) = -1"
      using trim_loop_spec[OF k(1)] unfolding k(2) by blast
    have "poll_ok (?u\<lparr>poll_last_index := int j + 1\<rparr>) \<and> watching (?u\<lparr>poll_last_index := int j + 1\<rparr>) = watching ?u"
      using j False by (intro shrink_used u') auto
    then show ?thesis using j(2) u' by (auto simp: shrink_table_def Let_def split: if_splits)
  qed
qed

lemma remove_watching:
  assumes ok: "poll_ok t" and fd: "is_fd fd"
  shows "\<exists>t'. removeFromPollFds fd t = Some t' \<and> poll_ok t' \<and> watching t' = (watching t)(fd := None) \<and>
    closed t' = (if watching t fd = None then closed t else fd # closed t)"
proof -
  have nfd: "\<not> fd < 0" "fd \<noteq> -1" using fd by (auto simp: is_fd_def)
  show ?thesis
    using ok
  proof (cases rule: find_slot_cases[where fd = fd, consumes 1, case_names found missing])
    case (found a p b)
    let ?rest = "drop (nat (poll_last_index t)) (pfds t)"
    let ?t = "t\<lparr>pfds := a @ free_slot # b @ ?rest, closed := fd # closed t\<rparr>"
    have pl: "pfds t ! length a = p" "(pfds t)[length a := free_slot] = a @ free_slot # b @ ?rest" "length a < length (pfds t)"
      by (subst found(5), simp)+
    have "length (a @ free_slot # b) = nat (poll_last_index t)"
      using found(2) ok by (auto simp: used_def poll_ok_def dest!: arg_cong[of _ _ length])
    then have "take (nat (poll_last_index t)) ((a @ free_slot # b) @ ?rest) = a @ free_slot # b"
      by (simp only: take_append) simp
    then have u: "used ?t = a @ free_slot # b" by (simp add: used_def)
    have l: "length (pfds ?t) = length (pfds t)" by (subst found(5)) simp
    have d: "unique_fds (a @ b)" "pfd p \<notin> pfd ` set (a @ b)"
      using ok found(2,3) nfd by (auto simp: poll_ok_def unique_fds_split)
    have un: "unique_fds (used ?t)" using u d by (simp add: unique_fds_split free_slot_def)
    have w: "watching ?t = (watching t)(fd := None)"
      using pfds_map_drop[of p a b] d found(2,3) fd u pfds_map_split[of free_slot a b]
      by (simp add: watching_def free_slot_def del: fun_upd_apply)
    have ok': "poll_ok ?t" using ok l un by (auto simp: poll_ok_def)
    have wt: "watching t fd \<noteq> None" using found(2,3) nfd by (simp add: watching_None)
    have "pfd (pfds ?t ! length a) = -1" by (simp add: free_slot_def)
    then obtain t' where "shrink_table (length a) ?t = Some t'" "poll_ok t'" "watching t' = watching ?t" "closed t' = closed ?t"
      using shrink_table_spec[OF ok', of "length a"] by blast
    then show ?thesis using found pl nfd w wt by (simp add: removeFromPollFds_def free_slot_def)
  next
    case missing
    have n: "int (nat (poll_last_index t)) = poll_last_index t" using ok by (simp add: poll_ok_def)
    have wt: "watching t fd = None" using missing by (simp add: watching_None)
    then have "(watching t)(fd := None) = watching t" by (rule fun_upd_idem)
    then show ?thesis using shrink_table_spec[OF ok, of "nat (poll_last_index t)"] missing n nfd wt
      by (simp add: removeFromPollFds_def)
  qed
qed

lemma change_watching:
  assumes ok: "poll_ok t" and fd: "is_fd fd"
  shows "\<exists>t'. changeEventForFd fd e t = Some t' \<and> poll_ok t' \<and> closed t' = closed t \<and>
    watching t' = (if watching t fd = None then watching t else (watching t)(fd \<mapsto> e))"
proof -
  have nfd: "\<not> fd < 0" "fd \<noteq> -1" using fd by (auto simp: is_fd_def)
  show ?thesis
    using ok
  proof (cases rule: find_slot_cases[where fd = fd, consumes 1, case_names found missing])
    case (found a p b)
    let ?p = "p\<lparr>events := e\<rparr>"
    let ?rest = "drop (nat (poll_last_index t)) (pfds t)"
    let ?t = "t\<lparr>pfds := a @ ?p # b @ ?rest\<rparr>"
    have pl: "pfds t ! length a = p" "(pfds t)[length a := ?p] = a @ ?p # b @ ?rest" "length a < length (pfds t)"
      by (subst found(5), simp)+
    have "length (a @ ?p # b) = nat (poll_last_index t)"
      using found(2) ok by (auto simp: used_def poll_ok_def dest!: arg_cong[of _ _ length])
    then have "take (nat (poll_last_index t)) ((a @ ?p # b) @ ?rest) = a @ ?p # b"
      by (simp only: take_append) simp
    then have u: "used ?t = a @ ?p # b" by (simp add: used_def)
    have l: "length (pfds ?t) = length (pfds t)" by (subst found(5)) simp
    have un: "unique_fds (used ?t)" using u ok found(2) by (simp add: poll_ok_def unique_fds_split)
    have d: "pfd p \<notin> pfd ` set (a @ b)" using ok found(2,3) nfd by (auto simp: poll_ok_def unique_fds_split)
    have w: "watching ?t = (watching t)(fd \<mapsto> e)"
      using u found(2,3) d nfd pfds_map_split[of ?p a b] pfds_map_split[of p a b]
      by (simp add: watching_def image_Un del: fun_upd_apply)
    have wt: "watching t fd \<noteq> None" using found(2,3) nfd by (simp add: watching_None)
    have "changeEventForFd fd e t = Some ?t" using found pl nfd by (simp add: changeEventForFd_def)
    then show ?thesis using ok l un w wt by (auto simp: poll_ok_def)
  next
    case missing
    then show ?thesis using ok nfd by (auto simp: changeEventForFd_def watching_None poll_ok_def)
  qed
qed

interpretation pt: poll_map poll_ok watching addFdToPollFds removeFromPollFds changeEventForFd
  by unfold_locales (use add_watching remove_watching change_watching in blast)+

text \<open>
  C16: From the empty table, any sequence of watching new descriptors, giving up and re-arming
  descriptors runs without an index out of bounds or an overflow, and the table then watches
  exactly the descriptors with the events that the same sequence leaves in a finite map.
\<close>

theorem poll_table_is_a_map:
  "0 < n \<Longrightarrow> poll_allowed ops Map.empty \<Longrightarrow> initPollFds False n = Some t \<Longrightarrow>
   \<exists>t'. run_poll addFdToPollFds removeFromPollFds changeEventForFd ops t = Some t' \<and>
     poll_ok t' \<and> watching t' = fold poll_spec ops Map.empty"
  using pt.run_view[of t ops] init_poll_ok[of n t] by simp

lemma poll_table_is_a_map_witness:
  "\<exists>t'. run_poll addFdToPollFds removeFromPollFds changeEventForFd
      [Watch 5 POLLIN, Watch 6 POLLIN, Unwatch 5, Watch 7 POLLOUT, Rewatch 6 POLLOUT]
      (the (initPollFds False 1)) = Some t' \<and> poll_ok t' \<and> watching t' = [6 \<mapsto> POLLOUT, 7 \<mapsto> POLLOUT]"
proof -
  have m: "fold poll_spec [Watch 5 POLLIN, Watch 6 POLLIN, Unwatch 5, Watch 7 POLLOUT, Rewatch 6 POLLOUT] Map.empty =
      [6 \<mapsto> POLLOUT, 7 \<mapsto> POLLOUT]"
    by (auto simp: fun_eq_iff)
  show ?thesis unfolding m[symmetric]
    by (rule poll_table_is_a_map[of 1]) (simp_all add: is_fd_def INT_MAX_def initPollFds_def)
qed

text \<open>
  Giving up a watched descriptor closes it, exactly once, and closes nothing else; one that
  is not watched is left open.
\<close>

theorem removeFromPollFds_closes:
  "poll_ok t \<Longrightarrow> is_fd fd \<Longrightarrow> removeFromPollFds fd t = Some t' \<Longrightarrow>
     closed t' = (if watching t fd = None then closed t else fd # closed t) \<and> watching t' fd = None"
  using remove_watching[of t fd] by auto

lemma removeFromPollFds_closes_witness:
  "\<exists>t t'. addFdToPollFds 5 POLLIN (the (initPollFds False 2)) = Some t \<and> removeFromPollFds 5 t = Some t' \<and>
     closed t' = [5] \<and> watching t' 5 = None"
proof -
  have i: "poll_ok (the (initPollFds False 2))" "watching (the (initPollFds False 2)) = Map.empty"
      "closed (the (initPollFds False 2)) = []"
    using init_poll_ok[of 2 "the (initPollFds False 2)"] by (simp_all add: initPollFds_def)
  have f: "is_fd 5" by (simp add: is_fd_def INT_MAX_def)
  obtain t where t: "addFdToPollFds 5 POLLIN (the (initPollFds False 2)) = Some t"
     "poll_ok t" "watching t = [5 \<mapsto> POLLIN]"
    using add_watching[OF i(1) f, of POLLIN] i by auto
  have c: "closed t = []" using t(1) by (auto simp: initPollFds_def addFdToPollFds_def find_slot_def fault_simps)
  obtain t' where t': "removeFromPollFds 5 t = Some t'" using remove_watching[OF t(2) f] by blast
  show ?thesis using t t' c removeFromPollFds_closes[OF t(2) f t'] by auto
qed

lemma close_all_spec:
  "n \<le> length ps \<Longrightarrow> close_all n ps cl = Some (rev (filter (\<lambda>fd. 0 < fd) (map pfd (take n ps))) @ cl)"
  by (induction n ps cl rule: close_all.induct) auto

lemma destroyPollFds_spec:
  "poll_ok t \<Longrightarrow> destroyPollFds t = Some \<lparr>pfds = [], poll_last_index = -1,
     closed = rev (filter (\<lambda>fd. 0 < fd) (map pfd (used t))) @ closed t\<rparr>"
  using close_all_spec[of "nat (poll_last_index t)" "pfds t" "closed t"]
  by (simp add: destroyPollFds_def poll_ok_def used_def nat_le_iff)

end
