(* ===== verification/CacheStore.thy ===== *)
theory CacheStore
  imports FdTables PollTable
begin

text \<open>
  The shared state of \<open>matsko/33_proxy_with_thread_pool/proxy.c\<close> and the operations on cache
  records: \<open>cache.h\<close> (the records and the list), the subscribers of a record, and the ways in which
  a client, a server and a record are given up. Records and list nodes live in heaps of their own
  with addresses that are never reused: a pointer to freed memory is an address that is not in the
  heap, and following it is \<open>None\<close>. A handler of the code runs here as one step; a lock that it
  takes and releases is the check that the lock has not been destroyed.
\<close>

subsection \<open>The state\<close>

record cache_t =
  url :: "string option"
  request :: "string option"
  response :: "string option"
  subscribers :: "int list option"
  URL_LEN :: nat
  SUBSCRIBERS_SIZE :: nat
  REQUEST_SIZE :: nat
  RESPONSE_SIZE :: nat
  response_index :: nat
  server_index :: int
  full :: bool
  valid :: bool
  private_rec :: bool
  valid_rw_lock :: bool
  valid_subs_mutex :: bool

record cache_node_t =
  nrecord :: nat
  nnext :: "nat option"

text \<open>What a thread does to the outside, in order; the poll table keeps its own \<open>closed\<close>.\<close>

datatype effect =
    Opened int
  | Closed int
  | Notified int
  | Sent int string

record proxy =
  poll :: poll_table
  clients :: "client list"
  servers :: "server list"
  records :: "nat \<Rightarrow> cache_t option"
  cnodes :: "nat \<Rightarrow> cache_node_t option"
  next_addr :: nat
  chead :: "nat option"
  cmutex :: mutex
  trace :: "effect list"

definition initEmptyCacheRecord :: cache_t where
  "initEmptyCacheRecord =
     \<lparr>url = None, request = None, response = None, subscribers = None, URL_LEN = 0,
      SUBSCRIBERS_SIZE = 0, REQUEST_SIZE = 0, RESPONSE_SIZE = 0, response_index = 0,
      server_index = -1, full = False, valid = False, private_rec = True, valid_rw_lock = True,
      valid_subs_mutex = True\<rparr>"

subsection \<open>Accesses\<close>

definition upd_rec :: "nat \<Rightarrow> (cache_t \<Rightarrow> cache_t) \<Rightarrow> proxy \<Rightarrow> proxy option" where
  "upd_rec p f s = do { r \<leftarrow> records s p; Some (s\<lparr>records := (records s)(p \<mapsto> f r)\<rparr>) }"

definition upd_client :: "nat \<Rightarrow> (client \<Rightarrow> client) \<Rightarrow> proxy \<Rightarrow> proxy option" where
  "upd_client i f s = do {
     c \<leftarrow> get_at (clients s) i;
     cs \<leftarrow> put_at (clients s) i (f c);
     Some (s\<lparr>clients := cs\<rparr>) }"

definition upd_server :: "nat \<Rightarrow> (server \<Rightarrow> server) \<Rightarrow> proxy \<Rightarrow> proxy option" where
  "upd_server i f s = do {
     v \<leftarrow> get_at (servers s) i;
     vs \<leftarrow> put_at (servers s) i (f v);
     Some (s\<lparr>servers := vs\<rparr>) }"

definition on_poll :: "(poll_table \<Rightarrow> poll_table option) \<Rightarrow> proxy \<Rightarrow> proxy option" where
  "on_poll f s = do { t \<leftarrow> f (poll s); Some (s\<lparr>poll := t\<rparr>) }"

definition lock_list :: "proxy \<Rightarrow> proxy option" where
  "lock_list s = do { m \<leftarrow> mutex_lock (cmutex s); Some (s\<lparr>cmutex := m\<rparr>) }"

definition unlock_list :: "proxy \<Rightarrow> proxy option" where
  "unlock_list s = do { m \<leftarrow> mutex_unlock (cmutex s); Some (s\<lparr>cmutex := m\<rparr>) }"

definition free_record :: "nat \<Rightarrow> proxy \<Rightarrow> proxy option" where
  "free_record p s =
     (if records s p = None then None else Some (s\<lparr>records := (records s)(p := None)\<rparr>))"

definition free_cnode :: "nat \<Rightarrow> proxy \<Rightarrow> proxy option" where
  "free_cnode p s = (if cnodes s p = None then None else Some (s\<lparr>cnodes := (cnodes s)(p := None)\<rparr>))"

definition emit :: "effect list \<Rightarrow> proxy \<Rightarrow> proxy" where
  "emit es s = s\<lparr>trace := trace s @ es\<rparr>"

lemmas access_defs = upd_rec_def upd_client_def upd_server_def on_poll_def lock_list_def
  unlock_list_def free_record_def free_cnode_def emit_def

lemma upd_rec_Some [fault_simps]:
  "upd_rec p f s = Some s' \<longleftrightarrow> (\<exists>r. records s p = Some r \<and> s' = s\<lparr>records := (records s)(p \<mapsto> f r)\<rparr>)"
  by (auto simp: upd_rec_def fault_simps)

lemma upd_rec_in [simp]: "records s p = Some r \<Longrightarrow> upd_rec p f s = Some (s\<lparr>records := (records s)(p \<mapsto> f r)\<rparr>)"
  by (simp add: upd_rec_def)

lemma upd_client_Some [fault_simps]:
  "upd_client i f s = Some s' \<longleftrightarrow> i < length (clients s) \<and> s' = s\<lparr>clients := (clients s)[i := f (clients s ! i)]\<rparr>"
  by (auto simp: upd_client_def fault_simps)

lemma upd_client_in [simp]:
  "i < length (clients s) \<Longrightarrow> upd_client i f s = Some (s\<lparr>clients := (clients s)[i := f (clients s ! i)]\<rparr>)"
  by (simp add: upd_client_def)

lemma upd_server_Some [fault_simps]:
  "upd_server i f s = Some s' \<longleftrightarrow> i < length (servers s) \<and> s' = s\<lparr>servers := (servers s)[i := f (servers s ! i)]\<rparr>"
  by (auto simp: upd_server_def fault_simps)

lemma upd_server_in [simp]:
  "i < length (servers s) \<Longrightarrow> upd_server i f s = Some (s\<lparr>servers := (servers s)[i := f (servers s ! i)]\<rparr>)"
  by (simp add: upd_server_def)

lemma on_poll_Some [fault_simps]:
  "on_poll f s = Some s' \<longleftrightarrow> (\<exists>t. f (poll s) = Some t \<and> s' = s\<lparr>poll := t\<rparr>)"
  by (auto simp: on_poll_def fault_simps)

subsection \<open>Subscribers\<close>

text \<open>The array as its loops read it: the first \<open>SUBSCRIBERS_SIZE\<close> elements.\<close>

definition subs_array :: "cache_t \<Rightarrow> int list option" where
  "subs_array r =
     (if SUBSCRIBERS_SIZE r = 0 then Some []
      else do {
        xs \<leftarrow> subscribers r;
        assertm (SUBSCRIBERS_SIZE r \<le> length xs);
        Some (take (SUBSCRIBERS_SIZE r) xs) })"

definition removeSubscriber :: "int \<Rightarrow> nat option \<Rightarrow> proxy \<Rightarrow> proxy option" where
  "removeSubscriber thread_fd p s =
     (case p of
        None \<Rightarrow> Some s
      | Some p \<Rightarrow>
          if thread_fd < 0 then Some s
          else do {
            r \<leftarrow> records s p;
            assertm (valid_subs_mutex r);
            xs \<leftarrow> subs_array r;
            if SUBSCRIBERS_SIZE r = 0 then Some s
            else upd_rec p (\<lambda>r. r\<lparr>subscribers := Some (map (\<lambda>x. if x = thread_fd then -1 else x) xs)\<rparr>) s })"

text \<open>The record with room for subscribers, lines 549-559; the flag says that \<open>calloc\<close> failed.\<close>

definition subs_room :: "bool \<Rightarrow> cache_t \<Rightarrow> bool \<times> cache_t" where
  "subs_room oom r =
     (if SUBSCRIBERS_SIZE r = 0 then
        (if oom then (True, r\<lparr>SUBSCRIBERS_SIZE := 4, subscribers := None\<rparr>)
         else (False, r\<lparr>SUBSCRIBERS_SIZE := 4, subscribers := Some (replicate 4 (-1))\<rparr>))
      else (False, r))"

text \<open>Lines 560-573: the first slot that is free or already ours, or the first new one.\<close>

definition subs_enter :: "int \<Rightarrow> cache_t \<Rightarrow> cache_t option" where
  "subs_enter thread_fd r = do {
     xs \<leftarrow> subscribers r;
     let n = SUBSCRIBERS_SIZE r;
     i \<leftarrow> loop_find (\<lambda>x. x = -1 \<or> x = thread_fd) n xs;
     if i < n then do {
       xs \<leftarrow> put_at xs i thread_fd;
       Some (r\<lparr>subscribers := Some xs\<rparr>) }
     else do {
       xs \<leftarrow> put_at (realloc_list xs (n * 2) (-1)) n thread_fd;
       Some (r\<lparr>SUBSCRIBERS_SIZE := n * 2, subscribers := Some xs\<rparr>) } }"

definition addSubscriber :: "bool \<Rightarrow> int \<Rightarrow> nat option \<Rightarrow> proxy \<Rightarrow> (int \<times> proxy) option" where
  "addSubscriber oom thread_fd p s =
     (case p of
        None \<Rightarrow> Some (-1, s)
      | Some p \<Rightarrow>
          if thread_fd < 0 then Some (-1, s)
          else do {
            r \<leftarrow> records s p;
            if \<not> valid r then Some (-1, s)
            else do {
              assertm (valid_subs_mutex r);
              let (failed, r) = subs_room oom r;
              if failed then do { s \<leftarrow> upd_rec p (\<lambda>_. r) s; Some (-1, s) }
              else do {
                r \<leftarrow> subs_enter thread_fd r;
                s \<leftarrow> upd_rec p (\<lambda>_. r) s;
                Some (0, s) } } })"

definition notifySubscribers :: "nat \<Rightarrow> proxy \<Rightarrow> proxy option" where
  "notifySubscribers p s = do {
     r \<leftarrow> records s p;
     assertm (valid_subs_mutex r);
     xs \<leftarrow> subs_array r;
     Some (emit (map Notified (filter (\<lambda>fd. fd \<noteq> -1) xs)) s) }"

subsection \<open>Giving up clients, servers and records\<close>

definition disconnectClient :: "int \<Rightarrow> proxy \<Rightarrow> proxy option" where
  "disconnectClient client_num s =
     (if client_num < 0 \<or> int (length (clients s)) \<le> client_num then Some s
      else do {
        let i = nat client_num;
        c \<leftarrow> get_at (clients s) i;
        s \<leftarrow> (case crequest c of
                None \<Rightarrow> Some s
              | Some buf \<Rightarrow> do {
                  buf \<leftarrow> memset_zero buf 0 (crequest_index c);
                  upd_client i (\<lambda>c. c\<lparr>crequest := Some buf, crequest_index := 0\<rparr>) s });
        s \<leftarrow> (case crecord c of
                None \<Rightarrow> Some s
              | Some _ \<Rightarrow> upd_client i (\<lambda>c. c\<lparr>crecord := None, cwrite_index := -1\<rparr>) s);
        if cfd c \<noteq> -1 then do {
          s \<leftarrow> on_poll (removeFromPollFds (cfd c)) s;
          upd_client i (\<lambda>c. c\<lparr>cfd := -1\<rparr>) s }
        else Some s })"

definition disconnectServer :: "int \<Rightarrow> proxy \<Rightarrow> proxy option" where
  "disconnectServer server_num s =
     (if server_num < 0 \<or> int (length (servers s)) < server_num then Some s
      else do {
        let i = nat server_num;
        v \<leftarrow> get_at (servers s) i;
        s \<leftarrow> upd_server i (\<lambda>v. v\<lparr>swrite_index := -1\<rparr>) s;
        s \<leftarrow> (case srecord v of
                None \<Rightarrow> Some s
              | Some p \<Rightarrow> do {
                  s \<leftarrow> upd_rec p (\<lambda>r. r\<lparr>server_index := -1\<rparr>) s;
                  s \<leftarrow> notifySubscribers p s;
                  upd_server i (\<lambda>v. v\<lparr>srecord := None\<rparr>) s });
        if sfd v \<noteq> -1 then do {
          s \<leftarrow> on_poll (removeFromPollFds (sfd v)) s;
          upd_server i (\<lambda>v. v\<lparr>sfd := -1\<rparr>) s }
        else Some s })"

text \<open>Lines 611-634: the buffers of the record; the subscribers are freed under their mutex.\<close>

definition free_buffers :: "cache_t \<Rightarrow> cache_t option" where
  "free_buffers r = do {
     let r = r\<lparr>private_rec := True\<rparr>;
     let r = (if url r \<noteq> None then r\<lparr>url := None, URL_LEN := 0\<rparr> else r);
     let r = r\<lparr>request := None, REQUEST_SIZE := 0, response := None, response_index := 0,
               RESPONSE_SIZE := 0\<rparr>;
     if subscribers r \<noteq> None then do {
       assertm (valid_subs_mutex r);
       Some (r\<lparr>subscribers := None, SUBSCRIBERS_SIZE := 0\<rparr>) }
     else Some r }"

definition freeCacheRecord :: "nat option \<Rightarrow> proxy \<Rightarrow> proxy option" where
  "freeCacheRecord p s =
     (case p of
        None \<Rightarrow> Some s
      | Some p \<Rightarrow> do {
          r \<leftarrow> records s p;
          r \<leftarrow> free_buffers r;
          let r = r\<lparr>valid_subs_mutex := False\<rparr>;
          s \<leftarrow> upd_rec p (\<lambda>_. r) s;
          s \<leftarrow> (if server_index r \<noteq> -1 then disconnectServer (server_index r) s else Some s);
          upd_rec p (\<lambda>r. r\<lparr>valid_rw_lock := False, valid := False\<rparr>) s })"

subsection \<open>The record list\<close>

text \<open>\<open>initList\<close> and \<open>destroyList\<close>: the walk frees a record and its node, the mutex goes first.\<close>

definition initList :: "bool \<Rightarrow> proxy \<Rightarrow> proxy option" where
  "initList oom s = (if oom then None else Some (s\<lparr>chead := None, cmutex := Unlocked\<rparr>))"

fun free_list :: "nat \<Rightarrow> nat option \<Rightarrow> proxy \<Rightarrow> proxy option" where
  "free_list fuel None s = Some (s\<lparr>chead := None\<rparr>)"
| "free_list 0 (Some p) s = None"
| "free_list (Suc fuel) (Some p) s = do {
     n \<leftarrow> cnodes s p;
     s \<leftarrow> free_record (nrecord n) s;
     s \<leftarrow> free_cnode p s;
     free_list fuel (nnext n) s }"

definition destroyList :: "proxy \<Rightarrow> proxy option" where
  "destroyList s = do {
     m \<leftarrow> mutex_destroy (cmutex s);
     free_list (next_addr s) (chead s) (s\<lparr>cmutex := m\<rparr>) }"

end
