(* ===== verification/ProxyHandlers.thy ===== *)
theory ProxyHandlers
  imports CacheStore HttpParser
begin

text \<open>
  The handlers of \<open>matsko/33_proxy_with_thread_pool/proxy.c\<close>: joining or creating a cache record
  for a request, and the four transfers between clients, records and servers. What the system
  returns to one handler is a record \<open>os\<close>: the bytes that \<open>read\<close> stored (\<open>None\<close> is an error, the
  empty string the end of the stream), the result of \<open>write\<close>, which allocations fail (named by the
  variable that is assigned), and what the calls that open a connection return.
\<close>

record os =
  read_res :: "string option"
  write_res :: int
  no_mem :: "string \<Rightarrow> bool"
  socket_res :: int
  host_known :: "string \<Rightarrow> bool"
  connect_res :: int
  fcntl_res :: int

text \<open>
  The bytes that \<open>write(fd, &buf[off], n)\<close> takes when it returns \<open>w\<close>; a NULL buffer is fine as long
  as nothing is read from it.
\<close>

definition taken :: "string option \<Rightarrow> int \<Rightarrow> nat \<Rightarrow> int \<Rightarrow> string option" where
  "taken buf off n w =
     (if w \<le> 0 then Some []
      else do { b \<leftarrow> buf; assertm (0 \<le> off \<and> nat w \<le> n); read_bytes b (nat off) (nat w) })"

subsection \<open>Opening a connection\<close>

text \<open>The descriptor, or -1, and the sockets opened on the way.\<close>

definition connectToServerHost :: "os \<Rightarrow> string option \<Rightarrow> int \<Rightarrow> int \<times> effect list" where
  "connectToServerHost os hostname port =
     (case hostname of
        None \<Rightarrow> (-1, [])
      | Some h \<Rightarrow>
          if port < 0 then (-1, [])
          else if socket_res os < 0 then (-1, [])
          else if \<not> host_known os h then (-1, [Opened (socket_res os)])
          else if connect_res os \<noteq> 0 then (-1, [Opened (socket_res os)])
          else (socket_res os, [Opened (socket_res os)]))"

subsection \<open>Finding or creating the record of a request\<close>

text \<open>
  The walk of lines 714-743 for a record with this URL: the record found, the last node passed,
  and the state, in which the invalid records on the way have been freed. \<open>next_addr\<close> is enough
  fuel for a list of different nodes.
\<close>

fun find_record :: "nat \<Rightarrow> nat option \<Rightarrow> nat option \<Rightarrow> string \<Rightarrow> nat \<Rightarrow> proxy \<Rightarrow>
    ((nat option \<times> nat option) \<times> proxy) option" where
  "find_record fuel None prev u ulen s = Some ((None, prev), s)"
| "find_record 0 (Some p) prev u ulen s = None"
| "find_record (Suc fuel) (Some p) prev u ulen s = do {
     n \<leftarrow> cnodes s p;
     r \<leftarrow> records s (nrecord n);
     if \<not> valid r then do {
       s \<leftarrow> freeCacheRecord (Some (nrecord n)) s;
       s \<leftarrow> free_record (nrecord n) s;
       s \<leftarrow> free_cnode p s;
       find_record fuel (nnext n) prev u ulen s }
     else do {
       same \<leftarrow> (if URL_LEN r = ulen then do { v \<leftarrow> url r; strncmp_eq v u ulen } else Some False);
       if same then Some ((Some (nrecord n), prev), s)
       else find_record fuel (nnext n) (Some p) u ulen s } }"

text \<open>Lines 726-735: the client joins a record that exists.\<close>

definition join_record :: "os \<Rightarrow> nat \<Rightarrow> nat \<Rightarrow> proxy \<Rightarrow> proxy option" where
  "join_record os i q s = do {
     s \<leftarrow> upd_client i (\<lambda>c. c\<lparr>crecord := Some q\<rparr>) s;
     c \<leftarrow> get_at (clients s) i;
     (_, s) \<leftarrow> addSubscriber (no_mem os ''subscribers'') (cthread_fd c) (Some q) s;
     s \<leftarrow> upd_client i (\<lambda>c. c\<lparr>cwrite_index := 0\<rparr>) s;
     r \<leftarrow> records s q;
     assertm (valid_rw_lock r);
     s \<leftarrow> (if response_index r \<noteq> 0 then on_poll (changeEventForFd (cfd c) (POLLIN OR POLLOUT)) s
           else Some s);
     unlock_list s }"

text \<open>Lines 798-810: a server slot for the new connection, tied to the record and the client.\<close>

definition attach_server :: "os \<Rightarrow> nat \<Rightarrow> nat \<Rightarrow> int \<Rightarrow> proxy \<Rightarrow> proxy option" where
  "attach_server os i q server_fd s = do {
     (server_num, vs) \<leftarrow> findFreeServer server_fd (servers s);
     assertm (0 \<le> server_num);
     s \<leftarrow> upd_server (nat server_num) (\<lambda>v. v\<lparr>srecord := Some q, swrite_index := 0\<rparr>) (s\<lparr>servers := vs\<rparr>);
     s \<leftarrow> on_poll (addFdToPollFds server_fd (POLLIN OR POLLOUT)) s;
     s \<leftarrow> upd_rec q (\<lambda>r. r\<lparr>server_index := server_num\<rparr>) s;
     s \<leftarrow> upd_client i (\<lambda>c. c\<lparr>crecord := Some q\<rparr>) s;
     c \<leftarrow> get_at (clients s) i;
     (_, s) \<leftarrow> addSubscriber (no_mem os ''subscribers'') (cthread_fd c) (Some q) s;
     upd_client i (\<lambda>c. c\<lparr>cwrite_index := 0\<rparr>) s }"

text \<open>Lines 782-810, with what \<open>connectToServerHost\<close> returned.\<close>

definition connect_record :: "os \<Rightarrow> nat \<Rightarrow> nat \<Rightarrow> int \<Rightarrow> proxy \<Rightarrow> proxy option" where
  "connect_record os i q server_fd s =
     (if server_fd = -1 then do {
        s \<leftarrow> freeCacheRecord (Some q) s;
        disconnectClient (int i) s }
      else if fcntl_res os < 0 then do {
        s \<leftarrow> freeCacheRecord (Some q) (emit [Closed server_fd] s);
        disconnectClient (int i) s }
      else attach_server os i q server_fd s)"

text \<open>Lines 773-810, on the record \<open>q\<close> that has just been linked into the list.\<close>

definition open_record :: "os \<Rightarrow> nat \<Rightarrow> string \<Rightarrow> nat \<Rightarrow> nat \<Rightarrow> proxy \<Rightarrow> proxy option" where
  "open_record os i host reqsize q s =
     (if no_mem os ''request'' then do {
        s \<leftarrow> freeCacheRecord (Some q) s;
        disconnectClient (int i) s }
      else do {
        c \<leftarrow> get_at (clients s) i;
        buf \<leftarrow> crequest c;
        bytes \<leftarrow> read_bytes buf 0 reqsize;
        s \<leftarrow> upd_rec q (\<lambda>r. r\<lparr>request := Some bytes, REQUEST_SIZE := reqsize\<rparr>) s;
        let (server_fd, es) = connectToServerHost os (Some host) 80;
        connect_record os i q server_fd (emit es s) })"

text \<open>Lines 744-770: a new node and record at the end of the list.\<close>

definition add_record :: "os \<Rightarrow> nat \<Rightarrow> string \<Rightarrow> nat \<Rightarrow> string \<Rightarrow> nat \<Rightarrow> nat option \<Rightarrow> proxy \<Rightarrow> proxy option" where
  "add_record os i u ulen host reqsize prev s =
     (if no_mem os ''new_node'' \<or> no_mem os ''record'' then do {
        s \<leftarrow> unlock_list s;
        disconnectClient (int i) s }
      else do {
        let new_node = next_addr s;
        let q = Suc new_node;
        let s = s\<lparr>next_addr := Suc q, cnodes := (cnodes s)(new_node \<mapsto> \<lparr>nrecord = q, nnext = None\<rparr>),
                  records := (records s)(q \<mapsto> initEmptyCacheRecord\<lparr>url := Some u, URL_LEN := ulen, valid := True\<rparr>)\<rparr>;
        s \<leftarrow> (case prev of
                None \<Rightarrow> Some (s\<lparr>chead := Some new_node\<rparr>)
              | Some p \<Rightarrow> do {
                  n \<leftarrow> cnodes s p;
                  Some (s\<lparr>cnodes := (cnodes s)(p \<mapsto> n\<lparr>nnext := Some new_node\<rparr>)\<rparr>) });
        s \<leftarrow> unlock_list s;
        open_record os i host reqsize q s })"

definition findAndAddCacheRecord :: "os \<Rightarrow> string \<Rightarrow> nat \<Rightarrow> nat \<Rightarrow> string \<Rightarrow> nat \<Rightarrow> proxy \<Rightarrow> proxy option" where
  "findAndAddCacheRecord os u ulen i host reqsize s = do {
     s \<leftarrow> lock_list s;
     ((found, prev), s) \<leftarrow> find_record (next_addr s) (chead s) None u ulen s;
     case found of
       Some q \<Rightarrow> join_record os i q s
     | None \<Rightarrow> add_record os i u ulen host reqsize prev s }"

subsection \<open>Reading a request\<close>

text \<open>The loop of \<open>shiftRequest\<close>, from \<open>i\<close> to \<open>n\<close>.\<close>

fun shift_loop :: "nat \<Rightarrow> nat \<Rightarrow> nat \<Rightarrow> string \<Rightarrow> string option" where
  "shift_loop 0 i pret buf = Some buf"
| "shift_loop (Suc k) i pret buf = do {
     c \<leftarrow> get_at buf (i - pret);
     buf \<leftarrow> put_at buf i c;
     shift_loop k (Suc i) pret buf }"

definition shiftRequest :: "int \<Rightarrow> int \<Rightarrow> proxy \<Rightarrow> proxy option" where
  "shiftRequest client_num pret s =
     (if client_num < 0 \<or> int (length (clients s)) \<le> client_num \<or> pret < 0 then Some s
      else do {
        let i = nat client_num;
        c \<leftarrow> get_at (clients s) i;
        if cfd c < 0 \<or> crequest_index c = 0 then Some s
        else (case crequest c of
                None \<Rightarrow> Some s
              | Some buf \<Rightarrow> do {
                  buf \<leftarrow> shift_loop (crequest_index c - nat pret) (nat pret) (nat pret) buf;
                  assertm (nat pret \<le> crequest_index c);
                  buf \<leftarrow> memset_zero buf (crequest_index c - nat pret) (nat pret);
                  upd_client i (\<lambda>c. c\<lparr>crequest := Some buf, crequest_index := crequest_index c - nat pret\<rparr>) s }) })"

text \<open>
  The value of the first header named \<open>Host\<close>, lines 883-895: \<open>Some None\<close> when there is none. A
  continuation line has no name, and comparing it follows a NULL pointer.
\<close>

fun find_host :: "phr_header list \<Rightarrow> string option option" where
  "find_host [] = Some None"
| "find_host (h # hs) = do {
     nm \<leftarrow> hname h;
     same \<leftarrow> strncmp_eq nm (c_str ''Host'') 4;
     if same then do { v \<leftarrow> read_bytes (hvalue h) 0 (value_len h); Some (Some v) }
     else find_host hs }"

text \<open>Lines 869-906, for a request of \<open>pret\<close> bytes.\<close>

definition serve_request :: "os \<Rightarrow> nat \<Rightarrow> nat \<Rightarrow> phr_request \<Rightarrow> proxy \<Rightarrow> proxy option" where
  "serve_request os i pret req s = do {
     get \<leftarrow> strncmp_eq (rmethod req) (c_str ''GET'') (rmethod_len req);
     if \<not> get then disconnectClient (int i) s
     else if no_mem os ''url'' then disconnectClient (int i) s
     else do {
       u \<leftarrow> read_bytes (rpath req) 0 (rpath_len req);
       host \<leftarrow> find_host (rheaders req);
       case host of
         None \<Rightarrow> disconnectClient (int i) s
       | Some h \<Rightarrow>
           if no_mem os ''host'' then disconnectClient (int i) s
           else do {
             s \<leftarrow> findAndAddCacheRecord os u (rpath_len req) i h pret s;
             shiftRequest (int i) (int pret) s } } }"

text \<open>Lines 853-859: the bytes read are appended to the request buffer of client \<open>c\<close>.\<close>

definition append_bytes :: "nat \<Rightarrow> string \<Rightarrow> client \<Rightarrow> proxy \<Rightarrow> proxy option" where
  "append_bytes i bs c s = do {
     buf \<leftarrow> crequest c;
     let (size, buf) = (if CREQUEST_SIZE c \<le> crequest_index c + length bs
                        then (CREQUEST_SIZE c * 2, realloc_list buf (CREQUEST_SIZE c * 2) (CHR 0x00))
                        else (CREQUEST_SIZE c, buf));
     buf \<leftarrow> memcpy_to buf (crequest_index c) bs;
     upd_client i (\<lambda>_. c\<lparr>CREQUEST_SIZE := size, crequest := Some buf,
                          crequest_index := crequest_index c + length bs\<rparr>) s }"

text \<open>Lines 844-859; the flag says that the buffer could not be allocated.\<close>

definition append_request :: "os \<Rightarrow> nat \<Rightarrow> string \<Rightarrow> proxy \<Rightarrow> (bool \<times> proxy) option" where
  "append_request os i bs s = do {
     c \<leftarrow> get_at (clients s) i;
     if CREQUEST_SIZE c = 0 then
       (if no_mem os ''client_request'' then do {
          s \<leftarrow> upd_client i (\<lambda>c. c\<lparr>CREQUEST_SIZE := BUFSIZ, crequest := None\<rparr>) s;
          s \<leftarrow> disconnectClient (int i) s;
          Some (True, s) }
        else do {
          s \<leftarrow> append_bytes i bs (c\<lparr>CREQUEST_SIZE := BUFSIZ, crequest := Some (replicate BUFSIZ (CHR 0x00))\<rparr>) s;
          Some (False, s) })
     else do { s \<leftarrow> append_bytes i bs c s; Some (False, s) } }"

definition readFromClient :: "os \<Rightarrow> int \<Rightarrow> proxy \<Rightarrow> proxy option" where
  "readFromClient os client_num s =
     (if client_num < 0 \<or> int (length (clients s)) < client_num then Some s
      else do {
        let i = nat client_num;
        c \<leftarrow> get_at (clients s) i;
        if cfd c = -1 then Some s
        else (case read_res os of
                None \<Rightarrow> disconnectClient client_num s
              | Some [] \<Rightarrow> disconnectClient client_num s
              | Some bs \<Rightarrow> do {
                  (failed, s) \<leftarrow> append_request os i bs s;
                  if failed then Some s
                  else do {
                    c \<leftarrow> get_at (clients s) i;
                    buf \<leftarrow> crequest c;
                    case phr_parse_request (take (crequest_index c) buf) 100 0 of
                      Ok (pret, req) \<Rightarrow> serve_request os i pret req s
                    | Ret r \<Rightarrow> if r = -1 then disconnectClient client_num s else Some s
                    | Oob \<Rightarrow> None } }) })"

subsection \<open>Passing the request on\<close>

text \<open>
  An index kept in an \<open>int\<close> and compared with a \<open>size_t\<close>; the difference of the two, as the third
  argument of \<open>write\<close>, is a \<open>size_t\<close> again.
\<close>

definition size_minus :: "nat \<Rightarrow> int \<Rightarrow> nat" where
  "size_minus n i = nat ((int n - i) mod 2 ^ 64)"

definition writeToServer :: "os \<Rightarrow> int \<Rightarrow> proxy \<Rightarrow> proxy option" where
  "writeToServer os server_num s =
     (if server_num < 0 \<or> int (length (servers s)) \<le> server_num then Some s
      else do {
        let i = nat server_num;
        v \<leftarrow> get_at (servers s) i;
        if sfd v = -1 then Some s
        else do {
          q \<leftarrow> srecord v;
          r \<leftarrow> records s q;
          let n = size_minus (REQUEST_SIZE r) (swrite_index v);
          bs \<leftarrow> taken (request r) (swrite_index v) n (write_res os);
          if write_res os < 0 then disconnectServer server_num s
          else do {
            let s = emit [Sent (sfd v) bs] s;
            wi \<leftarrow> int_add (swrite_index v) (write_res os);
            s \<leftarrow> upd_server i (\<lambda>v. v\<lparr>swrite_index := wi\<rparr>) s;
            if int_to_size wi = REQUEST_SIZE r then on_poll (changeEventForFd (sfd v) POLLIN) s
            else Some s } } })"

subsection \<open>Reading the response\<close>

text \<open>Lines 951-962: the stream ended, the record is complete and its buffer is cut to size.\<close>

definition finish_response :: "int \<Rightarrow> nat \<Rightarrow> proxy \<Rightarrow> proxy option" where
  "finish_response server_num q s = do {
     s \<leftarrow> upd_rec q (\<lambda>r. r\<lparr>full := True\<rparr>) s;
     r \<leftarrow> records s q;
     assertm (valid_rw_lock r);
     s \<leftarrow> upd_rec q (\<lambda>r. r\<lparr>response := map_option (take (response_index r)) (response r),
                             RESPONSE_SIZE := response_index r\<rparr>) s;
     s \<leftarrow> notifySubscribers q s;
     disconnectServer server_num s }"

text \<open>Lines 974-984: the bytes read are appended to the response of the record \<open>r\<close>.\<close>

definition append_response :: "string \<Rightarrow> cache_t \<Rightarrow> cache_t option" where
  "append_response bs r = do {
     buf \<leftarrow> response r;
     let (size, buf) = (if RESPONSE_SIZE r \<le> length bs + response_index r
                        then (RESPONSE_SIZE r * 2, realloc_list buf (RESPONSE_SIZE r * 2) (CHR 0x00))
                        else (RESPONSE_SIZE r, buf));
     buf \<leftarrow> memcpy_to buf (response_index r) bs;
     Some (r\<lparr>RESPONSE_SIZE := size, response := Some buf,
             response_index := response_index r + length bs\<rparr>) }"

text \<open>Lines 986-1002: is the head of the response complete, and is its status a success?\<close>

definition success_head :: "string \<Rightarrow> nat \<Rightarrow> bool option" where
  "success_head bs prev_len =
     (case phr_parse_response bs 100 prev_len of
        Ok (pret, resp) \<Rightarrow> Some (200 \<le> sstatus resp \<and> sstatus resp < 300)
      | Ret _ \<Rightarrow> Some False
      | Oob \<Rightarrow> None)"

text \<open>Lines 974-1002, with the buffer allocated.\<close>

definition store_response :: "nat \<Rightarrow> string \<Rightarrow> proxy \<Rightarrow> proxy option" where
  "store_response q bs s = do {
     r \<leftarrow> records s q;
     assertm (valid_rw_lock r);
     r' \<leftarrow> append_response bs r;
     s \<leftarrow> upd_rec q (\<lambda>_. r') s;
     buf \<leftarrow> response r';
     success \<leftarrow> success_head (take (response_index r') buf) (response_index r);
     s \<leftarrow> notifySubscribers q s;
     if success then upd_rec q (\<lambda>r. r\<lparr>private_rec := False\<rparr>) s else Some s }"

text \<open>
  Lines 964-1002. When the buffer cannot be allocated, \<open>disconnectServer\<close> sets the pointer to the
  record to NULL and the unlock behind it follows that pointer.
\<close>

definition receive_response :: "os \<Rightarrow> int \<Rightarrow> nat \<Rightarrow> string \<Rightarrow> proxy \<Rightarrow> proxy option" where
  "receive_response os server_num q bs s = do {
     r \<leftarrow> records s q;
     assertm (valid_rw_lock r);
     if RESPONSE_SIZE r = 0 then
       (if no_mem os ''response'' then do {
          s \<leftarrow> upd_rec q (\<lambda>r. r\<lparr>RESPONSE_SIZE := BUFSIZ, response := None\<rparr>) s;
          s \<leftarrow> disconnectServer server_num s;
          v \<leftarrow> get_at (servers s) (nat server_num);
          p \<leftarrow> srecord v;
          r \<leftarrow> records s p;
          assertm (valid_rw_lock r);
          Some s }
        else do {
          s \<leftarrow> upd_rec q (\<lambda>r. r\<lparr>RESPONSE_SIZE := BUFSIZ, response := Some (replicate BUFSIZ (CHR 0x00))\<rparr>) s;
          store_response q bs s })
     else store_response q bs s }"

definition readFromServer :: "os \<Rightarrow> int \<Rightarrow> proxy \<Rightarrow> proxy option" where
  "readFromServer os server_num s =
     (if server_num < 0 \<or> int (length (servers s)) \<le> server_num then Some s
      else do {
        v \<leftarrow> get_at (servers s) (nat server_num);
        if sfd v = -1 then Some s
        else (case read_res os of
                None \<Rightarrow> Some s
              | Some bs \<Rightarrow> do {
                  q \<leftarrow> srecord v;
                  if bs = [] then finish_response server_num q s
                  else receive_response os server_num q bs s }) })"

subsection \<open>Passing the response on\<close>

definition writeToClient :: "os \<Rightarrow> int \<Rightarrow> proxy \<Rightarrow> proxy option" where
  "writeToClient os client_num s =
     (if client_num < 0 \<or> int (length (clients s)) \<le> client_num then Some s
      else do {
        let i = nat client_num;
        c \<leftarrow> get_at (clients s) i;
        if cfd c = -1 then Some s
        else (case crecord c of
                None \<Rightarrow> disconnectClient client_num s
              | Some q \<Rightarrow> do {
                  r \<leftarrow> records s q;
                  if server_index r = -1 \<and> \<not> full r then do {
                    s \<leftarrow> freeCacheRecord (Some q) s;
                    disconnectClient client_num s }
                  else do {
                    assertm (valid_rw_lock r);
                    let n = size_minus (response_index r) (cwrite_index c);
                    bs \<leftarrow> taken (response r) (cwrite_index c) n (write_res os);
                    if write_res os < 0 then disconnectClient client_num s
                    else do {
                      let s = emit [Sent (cfd c) bs] s;
                      wi \<leftarrow> int_add (cwrite_index c) (write_res os);
                      s \<leftarrow> upd_client i (\<lambda>c. c\<lparr>cwrite_index := wi\<rparr>) s;
                      if int_to_size wi = response_index r then on_poll (changeEventForFd (cfd c) POLLIN) s
                      else Some s } } }) })"

end
