(* ===== verification/Fifo.thy ===== *)
theory Fifo
  imports Prelude
begin

text \<open>
  The contract that a queue of the repository keeps for the elements with \<open>ok\<close>: an abstraction relation \<open>rep\<close> to the list
  of the queued elements, which \<open>enq\<close> lengthens at the end and \<open>deq\<close> shortens at the front. The
  client's view is a history of operations; the lemmas say that a history never runs into undefined
  behaviour and hands out what was put in, in that order, each element once.
\<close>

datatype 'a qop = Enq 'a | Deq

fun enqueued :: "'a qop list \<Rightarrow> 'a list" where
  "enqueued [] = []"
| "enqueued (Enq a # ops) = a # enqueued ops"
| "enqueued (Deq # ops) = enqueued ops"

text \<open>A history over given operations: what the \<open>deq\<close>s returned, and the queue that is left.\<close>

fun run_history :: "('a \<Rightarrow> 'q \<Rightarrow> 'q option) \<Rightarrow> ('q \<Rightarrow> ('a option \<times> 'q) option) \<Rightarrow>
    'a qop list \<Rightarrow> 'q \<Rightarrow> ('a option list \<times> 'q) option" where
  "run_history enq deq [] q = Some ([], q)"
| "run_history enq deq (Enq a # ops) q = enq a q \<bind> run_history enq deq ops"
| "run_history enq deq (Deq # ops) q =
     do { (r, q) \<leftarrow> deq q; (out, q) \<leftarrow> run_history enq deq ops q; Some (r # out, q) }"

text \<open>The same history on a list.\<close>

fun run_spec :: "'a qop list \<Rightarrow> 'a list \<Rightarrow> 'a option list \<times> 'a list" where
  "run_spec [] xs = ([], xs)"
| "run_spec (Enq a # ops) xs = run_spec ops (xs @ [a])"
| "run_spec (Deq # ops) [] = (let (out, ys) = run_spec ops [] in (None # out, ys))"
| "run_spec (Deq # ops) (x # xs) = (let (out, ys) = run_spec ops xs in (Some x # out, ys))"

lemma run_spec_conserves:
  "run_spec ops xs = (out, ys) \<Longrightarrow> xs @ enqueued ops = List.map_filter id out @ ys"
  by (induction ops xs arbitrary: out rule: run_spec.induct)
     (auto simp: List.map_filter_simps split: prod.splits)

locale fifo =
  fixes ok :: "'a \<Rightarrow> bool"
    and rep :: "'q \<Rightarrow> 'a list \<Rightarrow> bool"
    and enq :: "'a \<Rightarrow> 'q \<Rightarrow> 'q option"
    and deq :: "'q \<Rightarrow> ('a option \<times> 'q) option"
  assumes enq_rep: "rep q xs \<Longrightarrow> ok a \<Longrightarrow> \<exists>q'. enq a q = Some q' \<and> rep q' (xs @ [a])"
    and deq_rep: "rep q (x # xs) \<Longrightarrow> \<exists>q'. deq q = Some (Some x, q') \<and> rep q' xs"
    and deq_empty: "rep q [] \<Longrightarrow> \<exists>q'. deq q = Some (None, q') \<and> rep q' []"
begin

lemma history_refines:
  "rep q xs \<Longrightarrow> \<forall>a \<in> set (enqueued ops). ok a \<Longrightarrow>
     \<exists>q'. run_history enq deq ops q = Some (fst (run_spec ops xs), q') \<and>
       rep q' (snd (run_spec ops xs))"
proof (induction ops xs arbitrary: q rule: run_spec.induct)
  case (1 xs)
  then show ?case by simp
next
  case (2 a ops xs)
  then obtain q' where "enq a q = Some q'" "rep q' (xs @ [a])" using enq_rep[of q xs a] by auto
  then show ?case using 2 by auto
next
  case (3 ops)
  then obtain q' where d: "deq q = Some (None, q')" "rep q' []" using deq_empty by blast
  then show ?case using 3(1)[of q'] 3(3) by (auto split: prod.splits)
next
  case (4 ops x xs)
  then obtain q' where d: "deq q = Some (Some x, q')" "rep q' xs" using deq_rep by blast
  then show ?case using 4(1)[of q'] 4(3) by (auto split: prod.splits)
qed

lemma history_conserves:
  assumes "rep q xs" "\<forall>a \<in> set (enqueued ops). ok a"
  shows "\<exists>out q' ys. run_history enq deq ops q = Some (out, q') \<and> rep q' ys \<and>
     xs @ enqueued ops = List.map_filter id out @ ys"
  using history_refines[OF assms] run_spec_conserves[of ops xs]
  by (cases "run_spec ops xs") auto

end

end
