(* ===== verification/TaskQueue.thy ===== *)
theory TaskQueue
  imports Fifo
begin

text \<open>
  \<open>task_queue.c\<close> of \<open>matsko/33_proxy_with_thread_pool\<close>: the queue through which the acceptor
  hands file descriptors to the pool. The nodes live in a heap of their own, addressed by numbers
  that are never reused, so that a dangling pointer stays visible; a pointer to the queue is an
  option whose \<open>None\<close> is NULL. The queue keeps a path from \<open>head\<close> to \<open>tail\<close> that covers the whole
  node heap (no leak), and its operations refine those of a list.
\<close>

record task_queue_node =
  targ :: int
  tnext :: "nat option"

record task_queue =
  qnodes :: "nat \<Rightarrow> task_queue_node option"
  qfresh :: nat
  qhead :: "nat option"
  qtail :: "nat option"
  queue_mutex :: mutex

text \<open>\<open>oom\<close> says that \<open>calloc\<close> returned NULL.\<close>

definition initTaskQueue :: "bool \<Rightarrow> task_queue option" where
  "initTaskQueue oom =
     (if oom then None
      else Some \<lparr>qnodes = Map.empty, qfresh = 0, qhead = None, qtail = None, queue_mutex = Unlocked\<rparr>)"

definition lock_queue :: "task_queue \<Rightarrow> task_queue option" where
  "lock_queue q = do { m \<leftarrow> mutex_lock (queue_mutex q); Some (q\<lparr>queue_mutex := m\<rparr>) }"

definition unlock_queue :: "task_queue \<Rightarrow> task_queue option" where
  "unlock_queue q = do { m \<leftarrow> mutex_unlock (queue_mutex q); Some (q\<lparr>queue_mutex := m\<rparr>) }"

definition free_node :: "nat \<Rightarrow> task_queue \<Rightarrow> task_queue option" where
  "free_node p q = (if qnodes q p = None then None else Some (q\<lparr>qnodes := (qnodes q)(p := None)\<rparr>))"

text \<open>
  The walk that frees every node; each turn frees one node of a finite heap, so the number of
  nodes ever allocated is enough fuel.
\<close>

fun destroy_nodes :: "nat \<Rightarrow> nat option \<Rightarrow> task_queue \<Rightarrow> task_queue option" where
  "destroy_nodes fuel None q = Some q"
| "destroy_nodes 0 (Some p) q = None"
| "destroy_nodes (Suc fuel) (Some p) q =
     do { n \<leftarrow> qnodes q p; q \<leftarrow> free_node p q; destroy_nodes fuel (tnext n) q }"

text \<open>The result is the memory that the queue leaves behind; the object itself is freed.\<close>

definition destroyTaskQueue :: "task_queue option \<Rightarrow> task_queue option option" where
  "destroyTaskQueue qp =
     (case qp of
        None \<Rightarrow> Some None
      | Some q \<Rightarrow> do {
          q \<leftarrow> lock_queue q;
          q \<leftarrow> destroy_nodes (qfresh q) (qhead q) q;
          q \<leftarrow> unlock_queue (q\<lparr>qtail := None, qhead := None\<rparr>);
          m \<leftarrow> mutex_destroy (queue_mutex q);
          Some (Some (q\<lparr>queue_mutex := m\<rparr>)) })"

definition submitTask :: "bool \<Rightarrow> task_queue option \<Rightarrow> int \<Rightarrow> (int \<times> task_queue option) option" where
  "submitTask oom qp arg =
     (case qp of
        None \<Rightarrow> Some (-1, None)
      | Some q \<Rightarrow>
          if oom then Some (-1, Some q)
          else do {
            let new_node = qfresh q;
            let q = q\<lparr>qfresh := Suc new_node,
                      qnodes := (qnodes q)(new_node \<mapsto> \<lparr>targ = arg, tnext = None\<rparr>)\<rparr>;
            q \<leftarrow> lock_queue q;
            if qhead q = None then do {
              q \<leftarrow> unlock_queue (q\<lparr>qhead := Some new_node, qtail := Some new_node\<rparr>);
              Some (0, Some q) }
            else do {
              t \<leftarrow> qtail q;
              n \<leftarrow> qnodes q t;
              let q = q\<lparr>qnodes := (qnodes q)(t \<mapsto> n\<lparr>tnext := Some new_node\<rparr>)\<rparr>;
              n \<leftarrow> qnodes q t;
              q \<leftarrow> unlock_queue (q\<lparr>qtail := tnext n\<rparr>);
              Some (0, Some q) } })"

text \<open>The critical section of \<open>popTask\<close>: the node taken off, if there is one.\<close>

definition popTask_locked :: "task_queue \<Rightarrow> (nat option \<times> task_queue) option" where
  "popTask_locked q = do {
     q \<leftarrow> lock_queue q;
     if qhead q = qtail q then
       (case qhead q of
          None \<Rightarrow> do { q \<leftarrow> unlock_queue q; Some (None, q) }
        | Some first_node \<Rightarrow> do {
            q \<leftarrow> unlock_queue (q\<lparr>qhead := None, qtail := None\<rparr>);
            Some (Some first_node, q) })
     else do {
       first_node \<leftarrow> qhead q;
       n \<leftarrow> qnodes q first_node;
       q \<leftarrow> unlock_queue (q\<lparr>qhead := tnext n\<rparr>);
       Some (Some first_node, q) } }"

text \<open>Behind it, without the lock: read the argument and free the node.\<close>

definition popTask_finish :: "nat \<Rightarrow> task_queue \<Rightarrow> (int \<times> task_queue) option" where
  "popTask_finish first_node q = do {
     n \<leftarrow> qnodes q first_node;
     q \<leftarrow> free_node first_node q;
     Some (targ n, q) }"

definition popTask :: "task_queue option \<Rightarrow> (int \<times> task_queue option) option" where
  "popTask qp =
     (case qp of
        None \<Rightarrow> Some (-1, None)
      | Some q \<Rightarrow> do {
          (first_node, q) \<leftarrow> popTask_locked q;
          case first_node of
            None \<Rightarrow> Some (-1, Some q)
          | Some p \<Rightarrow> do { (ret, q) \<leftarrow> popTask_finish p q; Some (ret, Some q) } })"

subsection \<open>The list a queue holds\<close>

fun node_path :: "(nat \<Rightarrow> task_queue_node option) \<Rightarrow> nat option \<Rightarrow> nat list \<Rightarrow> nat option \<Rightarrow> bool" where
  "node_path h x [] y \<longleftrightarrow> x = y"
| "node_path h x (p # ps) y \<longleftrightarrow> x = Some p \<and> (\<exists>n. h p = Some n \<and> node_path h (tnext n) ps y)"

lemma node_path_append: "node_path h x (ps @ qs) z \<longleftrightarrow> (\<exists>y. node_path h x ps y \<and> node_path h y qs z)"
  by (induction ps arbitrary: x) auto

lemma node_path_upd: "p \<notin> set ps \<Longrightarrow> node_path (h(p := v)) x ps y \<longleftrightarrow> node_path h x ps y"
  by (induction ps arbitrary: x) auto

definition node_arg :: "(nat \<Rightarrow> task_queue_node option) \<Rightarrow> nat \<Rightarrow> int" where
  "node_arg h p = (case h p of Some n \<Rightarrow> targ n | None \<Rightarrow> 0)"

text \<open>
  \<open>nodes_rep q ps\<close>: the nodes of the queue are exactly the cells \<open>ps\<close>, linked in this order, and
  \<open>tail\<close> is the last one.
\<close>

definition nodes_rep :: "task_queue \<Rightarrow> nat list \<Rightarrow> bool" where
  "nodes_rep q ps \<longleftrightarrow> distinct ps \<and> dom (qnodes q) = set ps \<and> (\<forall>p \<in> set ps. p < qfresh q) \<and>
     node_path (qnodes q) (qhead q) ps None \<and>
     qtail q = (if ps = [] then None else Some (last ps)) \<and> queue_mutex q = Unlocked"

definition tasks_rep :: "task_queue option \<Rightarrow> int list \<Rightarrow> bool" where
  "tasks_rep qp xs \<longleftrightarrow> (\<exists>q ps. qp = Some q \<and> nodes_rep q ps \<and> xs = map (node_arg (qnodes q)) ps)"

lemma tasks_repI: "nodes_rep q ps \<Longrightarrow> map (node_arg (qnodes q)) ps = xs \<Longrightarrow> tasks_rep (Some q) xs"
  by (auto simp: tasks_rep_def)

lemma tasks_repD: "tasks_rep qp xs \<Longrightarrow> \<exists>q. qp = Some q \<and> tasks_rep (Some q) xs"
  by (auto simp: tasks_rep_def)

lemmas queue_defs = lock_queue_def unlock_queue_def free_node_def

lemma init_rep: "tasks_rep (initTaskQueue False) []"
  by (auto simp: initTaskQueue_def tasks_rep_def nodes_rep_def)

lemma nodes_rep_head: "nodes_rep q ps \<Longrightarrow> qhead q = None \<longleftrightarrow> ps = []"
  by (cases ps) (auto simp: nodes_rep_def)

lemma node_arg_upd: "p \<notin> set ps \<Longrightarrow> map (node_arg (h(p := v))) ps = map (node_arg h) ps"
  by (auto simp: node_arg_def)

lemma submit_rep:
  assumes "tasks_rep qp xs"
  shows "\<exists>qp'. submitTask False qp a = Some (0, qp') \<and> tasks_rep qp' (xs @ [a])"
proof -
  obtain q ps where q: "qp = Some q" and r: "nodes_rep q ps" and xs: "xs = map (node_arg (qnodes q)) ps"
    using assms by (auto simp: tasks_rep_def)
  let ?new = "qfresh q"
  have new: "?new \<notin> set ps" and m: "queue_mutex q = Unlocked" using r by (auto simp: nodes_rep_def)
  show ?thesis
  proof (cases ps rule: rev_cases)
    case Nil
    let ?q = "q\<lparr>qfresh := Suc ?new, qnodes := (qnodes q)(?new \<mapsto> \<lparr>targ = a, tnext = None\<rparr>),
      qhead := Some ?new, qtail := Some ?new\<rparr>"
    have "submitTask False qp a = Some (0, Some ?q)"
      using q m Nil nodes_rep_head[OF r] by (cases q) (simp add: submitTask_def queue_defs)
    moreover have "nodes_rep ?q [?new]" using r Nil by (auto simp: nodes_rep_def)
    moreover have "map (node_arg (qnodes ?q)) [?new] = xs @ [a]" using xs Nil by (simp add: node_arg_def)
    ultimately show ?thesis using tasks_repI by metis
  next
    case (snoc us t)
    then have t: "qtail q = Some t" "t \<noteq> ?new" "t \<notin> set us" "?new \<notin> set us"
      using r new by (auto simp: nodes_rep_def)
    obtain n where n: "qnodes q t = Some n" "tnext n = None" "node_path (qnodes q) (qhead q) us (Some t)"
      using r snoc by (auto simp: nodes_rep_def node_path_append)
    let ?h = "(qnodes q)(?new \<mapsto> \<lparr>targ = a, tnext = None\<rparr>, t \<mapsto> n\<lparr>tnext := Some ?new\<rparr>)"
    let ?q = "q\<lparr>qfresh := Suc ?new, qnodes := ?h, qtail := Some ?new\<rparr>"
    have s: "submitTask False qp a = Some (0, Some ?q)"
      using q m t n snoc nodes_rep_head[OF r] by (cases q) (simp add: submitTask_def queue_defs Let_def)
    have p: "node_path ?h (qhead q) (ps @ [?new]) None"
      using n t snoc by (simp add: node_path_append node_path_upd)
    have "nodes_rep ?q (ps @ [?new])"
      using r new t p snoc by (auto simp: nodes_rep_def)
    moreover have "map (node_arg ?h) (ps @ [?new]) = xs @ [a]"
      using xs t n snoc by (auto simp: node_arg_def)
    ultimately show ?thesis using s by (auto simp: tasks_rep_def intro!: exI[of _ "ps @ [?new]"])
  qed
qed

lemma pop_rep:
  assumes "tasks_rep qp (x # xs)"
  shows "\<exists>qp'. popTask qp = Some (x, qp') \<and> tasks_rep qp' xs"
proof -
  obtain q p ps where q: "qp = Some q" and r: "nodes_rep q (p # ps)"
      and xs: "x = node_arg (qnodes q) p" "xs = map (node_arg (qnodes q)) ps"
    using assms by (auto simp: tasks_rep_def)
  obtain n where n: "qnodes q p = Some n" "node_path (qnodes q) (tnext n) ps None" "qhead q = Some p"
      and m: "queue_mutex q = Unlocked" and d: "p \<notin> set ps"
    using r by (auto simp: nodes_rep_def)
  let ?q = "q\<lparr>qhead := tnext n, qtail := if ps = [] then None else qtail q, qnodes := (qnodes q)(p := None)\<rparr>"
  have "qtail q = Some p \<longleftrightarrow> ps = []" using r d by (auto simp: nodes_rep_def dest: last_in_set)
  then have s: "popTask qp = Some (x, Some ?q)"
    using q n m xs by (cases q; cases ps)
      (auto simp: popTask_def popTask_locked_def popTask_finish_def queue_defs node_arg_def)
  have "nodes_rep ?q ps"
    using r n d by (auto simp: nodes_rep_def node_path_upd)
  then show ?thesis using s xs d by (auto simp: tasks_rep_def node_arg_upd)
qed

lemma pop_empty: "tasks_rep qp [] \<Longrightarrow> popTask qp = Some (-1, qp)"
  by (auto simp: tasks_rep_def nodes_rep_def popTask_def popTask_locked_def queue_defs)

text \<open>
  The interface the pool uses: descriptors are never negative, so that -1 says that there is no
  task.
\<close>

definition submit_op :: "int \<Rightarrow> task_queue option \<Rightarrow> task_queue option option" where
  "submit_op a qp = do { (r, qp) \<leftarrow> submitTask False qp a; Some qp }"

definition pop_op :: "task_queue option \<Rightarrow> (int option \<times> task_queue option) option" where
  "pop_op qp = do { (r, qp) \<leftarrow> popTask qp; Some (if r = -1 then None else Some r, qp) }"

definition fds_rep :: "task_queue option \<Rightarrow> int list \<Rightarrow> bool" where
  "fds_rep qp xs \<longleftrightarrow> tasks_rep qp xs \<and> -1 \<notin> set xs"

lemma fds_enq: "fds_rep qp xs \<Longrightarrow> a \<noteq> -1 \<Longrightarrow> \<exists>qp'. submit_op a qp = Some qp' \<and> fds_rep qp' (xs @ [a])"
  using submit_rep[of qp xs a] by (auto simp: fds_rep_def submit_op_def)

lemma fds_deq: "fds_rep qp (x # xs) \<Longrightarrow> \<exists>qp'. pop_op qp = Some (Some x, qp') \<and> fds_rep qp' xs"
  using pop_rep[of qp x xs] by (auto simp: fds_rep_def pop_op_def)

lemma fds_empty: "fds_rep qp [] \<Longrightarrow> \<exists>qp'. pop_op qp = Some (None, qp') \<and> fds_rep qp' []"
  using pop_empty[of qp] by (auto simp: fds_rep_def pop_op_def)

interpretation tq: fifo "\<lambda>a. a \<noteq> -1" fds_rep submit_op pop_op
  by unfold_locales (rule fds_enq fds_deq fds_empty; assumption)+



subsection \<open>Destruction\<close>

lemma destroy_nodes_path:
  "node_path (qnodes q) x ps None \<Longrightarrow> distinct ps \<Longrightarrow> length ps \<le> fuel \<Longrightarrow>
     destroy_nodes fuel x q = Some (q\<lparr>qnodes := (qnodes q) |` (- set ps)\<rparr>)"
proof (induction fuel x q arbitrary: ps rule: destroy_nodes.induct)
  case (1 fuel q)
  then show ?case by (cases ps) auto
next
  case (2 p q)
  then show ?case by (cases ps) auto
next
  case (3 fuel p q)
  then obtain n us where n: "ps = p # us" "qnodes q p = Some n" "node_path (qnodes q) (tnext n) us None"
    by (cases ps) auto
  have "destroy_nodes fuel (tnext n) (q\<lparr>qnodes := (qnodes q)(p := None)\<rparr>) =
      Some (q\<lparr>qnodes := ((qnodes q)(p := None)) |` (- set us)\<rparr>)"
    using 3(1)[OF n(2), of "q\<lparr>qnodes := (qnodes q)(p := None)\<rparr>" us] n 3(3,4)
    by (simp add: free_node_def node_path_upd del: fun_upd_apply)
  moreover have "((qnodes q)(p := None)) |` (- set us) = (qnodes q) |` (- set ps)"
    using n by (auto simp: restrict_map_def)
  ultimately show ?case using n by (simp add: free_node_def del: fun_upd_apply)
qed

text \<open>
  Destroying a queue that holds tasks returns (its walk ends), frees every node it ever
  allocated and leaves the mutex destroyed.
\<close>

theorem destroyTaskQueue_frees:
  "tasks_rep (Some q) xs \<Longrightarrow>
     \<exists>q'. destroyTaskQueue (Some q) = Some (Some q') \<and> qnodes q' = Map.empty \<and> queue_mutex q' = Destroyed"
proof -
  assume "tasks_rep (Some q) xs"
  then obtain ps where r: "nodes_rep q ps" by (auto simp: tasks_rep_def)
  have "set ps \<subseteq> {..<qfresh q}" using r by (auto simp: nodes_rep_def)
  then have "length ps \<le> qfresh q"
    using r subset_eq_atLeast0_lessThan_card[of "set ps" "qfresh q"] by (auto simp: nodes_rep_def distinct_card lessThan_atLeast0)
  then have "destroy_nodes (qfresh q) (qhead q) (q\<lparr>queue_mutex := Locked\<rparr>) =
      Some (q\<lparr>queue_mutex := Locked, qnodes := (qnodes q) |` (- set ps)\<rparr>)"
    using destroy_nodes_path[of "q\<lparr>queue_mutex := Locked\<rparr>" "qhead q" ps "qfresh q"] r
    by (simp add: nodes_rep_def)
  moreover have "(qnodes q) |` (- set ps) = Map.empty"
    using r by (auto simp: nodes_rep_def restrict_map_def fun_eq_iff)
  ultimately show ?thesis using r by (simp add: destroyTaskQueue_def queue_defs nodes_rep_def)
qed

lemma destroyTaskQueue_frees_witness:
  "\<exists>q. submitTask False (initTaskQueue False) 5 = Some (0, Some q) \<and>
     (\<exists>q'. destroyTaskQueue (Some q) = Some (Some q') \<and> qnodes q' = Map.empty \<and> queue_mutex q' = Destroyed)"
proof -
  obtain q where q: "submitTask False (initTaskQueue False) 5 = Some (0, Some q)" "tasks_rep (Some q) ([] @ [5])"
    using submit_rep[OF init_rep, of 5] by (blast dest: tasks_repD)
  then show ?thesis using destroyTaskQueue_frees[OF q(2)] by blast
qed

end
