(* ===== verification/SyncPipe.thy ===== *)
theory SyncPipe
  imports Prelude
begin

text \<open>
  \<open>sync_pipe.c\<close> of \<open>matsko/33_proxy_with_thread_pool\<close>: the pipe by which the acceptor wakes a
  thread of the pool, one byte for one task. The kernel's pipe is the number of bytes in it; what
  the system calls return is an argument. The lemmas show that a notification of \<open>n\<close> writes exactly
  \<open>n\<close> bytes whatever the partial writes and errors, each call within the buffer, and that it
  returns as soon as the calls have accepted \<open>n\<close> bytes.
\<close>

record spipe =
  start_fd :: int
  write_fd :: int
  pending :: nat
  open_fds :: "int set"

subsection \<open>Opening, closing, reading\<close>

text \<open>\<open>p\<close> is what \<open>pipe\<close> returned and stored, \<open>fc\<close> what \<open>fcntl\<close> returned.\<close>

definition sync_pipe_init :: "int \<Rightarrow> int \<times> int \<Rightarrow> int \<Rightarrow> spipe \<Rightarrow> int \<times> spipe" where
  "sync_pipe_init pipe_res pipe_fds fcntl_res s =
     (let s = s\<lparr>start_fd := fst pipe_fds, write_fd := snd pipe_fds, pending := 0,
                open_fds := (if pipe_res \<noteq> 0 then open_fds s
                             else open_fds s \<union> {fst pipe_fds, snd pipe_fds})\<rparr> in
      if fcntl_res < 0 then (-1, s\<lparr>open_fds := open_fds s - {start_fd s, write_fd s}\<rparr>)
      else (pipe_res, s))"

definition sync_pipe_close :: "spipe \<Rightarrow> spipe" where
  "sync_pipe_close s = s\<lparr>open_fds := open_fds s - {start_fd s, write_fd s}\<rparr>"

text \<open>
  \<open>read\<close> of one byte from the non-blocking end: 1 if there is a byte, 0 at the end of the file
  (no writer), and -1 otherwise.
\<close>

definition read_one :: "spipe \<Rightarrow> int \<times> spipe" where
  "read_one s =
     (if start_fd s \<notin> open_fds s then (-1, s)
      else if 0 < pending s then (1, s\<lparr>pending := pending s - 1\<rparr>)
      else if write_fd s \<notin> open_fds s then (0, s)
      else (-1, s))"

definition sync_pipe_wait :: "spipe \<Rightarrow> int \<times> spipe" where
  "sync_pipe_wait s = read_one s"

definition get_rfd_spipe :: "spipe \<Rightarrow> int" where
  "get_rfd_spipe s = start_fd s"

subsection \<open>Notification\<close>

text \<open>The size that the next \<open>write\<close> asks for.\<close>

definition chunk :: "int \<Rightarrow> int \<Rightarrow> int" where
  "chunk num bytes_written =
     (if num - bytes_written \<le> int BUFSIZ then num - bytes_written else int BUFSIZ)"

text \<open>
  The loop of \<open>sync_pipe_notify\<close>. \<open>res\<close> is what the successive calls of \<open>write\<close> return; \<open>None\<close> says
  that the loop needs more calls than these. The result: the sizes asked for and the bytes
  written.
\<close>

fun notify_loop :: "int \<Rightarrow> int \<Rightarrow> int list \<Rightarrow> (int list \<times> int) option" where
  "notify_loop num bytes_written res =
     (if \<not> bytes_written < num then Some ([], bytes_written)
      else (case res of
              [] \<Rightarrow> None
            | written # res \<Rightarrow> do {
                (cs, tot) \<leftarrow>
                  notify_loop num (if written < 0 then bytes_written else bytes_written + written) res;
                Some (chunk num bytes_written # cs, tot) }))"

declare notify_loop.simps [simp del]

definition sync_pipe_notify :: "int \<Rightarrow> int list \<Rightarrow> spipe \<Rightarrow> spipe option" where
  "sync_pipe_notify num res s = do {
     (cs, tot) \<leftarrow> notify_loop num 0 res;
     Some (s\<lparr>pending := pending s + nat tot\<rparr>) }"

text \<open>What \<open>write\<close> may return when it is asked for \<open>n\<close> bytes, call by call.\<close>

fun write_results :: "int \<Rightarrow> int \<Rightarrow> int list \<Rightarrow> bool" where
  "write_results num bw [] \<longleftrightarrow> True"
| "write_results num bw (r # rs) \<longleftrightarrow>
     \<not> bw < num \<or> (-1 \<le> r \<and> r \<le> chunk num bw \<and> write_results num (if r < 0 then bw else bw + r) rs)"

definition accepted :: "int list \<Rightarrow> int" where
  "accepted res = sum_list (map (\<lambda>r. max 0 r) res)"

lemma chunk_bounds: "bw < num \<Longrightarrow> 0 < chunk num bw \<and> chunk num bw \<le> int BUFSIZ \<and> bw + chunk num bw \<le> num"
  by (auto simp: chunk_def)

lemma notify_loop_exact:
  "write_results num bw res \<Longrightarrow> bw \<le> num \<Longrightarrow> notify_loop num bw res = Some (cs, tot) \<Longrightarrow>
     tot = num \<and> (\<forall>c \<in> set cs. 0 < c \<and> c \<le> int BUFSIZ)"
proof (induction num bw res arbitrary: cs rule: notify_loop.induct)
  case (1 num bw res)
  show ?case
  proof (cases "bw < num")
    case True
    then obtain w rs where res: "res = w # rs" using 1(4) by (cases res) (auto simp: notify_loop.simps)
    then show ?thesis
      using 1(1)[of w rs] 1(2-4) True chunk_bounds[OF True]
      by (auto simp: notify_loop.simps[of num bw] fault_simps split: if_splits)
  qed (use 1 in \<open>auto simp: notify_loop.simps\<close>)
qed

lemma notify_loop_returns:
  "num \<le> bw + accepted res \<Longrightarrow> \<exists>cs tot. notify_loop num bw res = Some (cs, tot)"
proof (induction res arbitrary: bw)
  case Nil
  then show ?case by (simp add: accepted_def notify_loop.simps)
next
  case (Cons r rs)
  have "\<exists>cs tot. notify_loop num (if r < 0 then bw else bw + r) rs = Some (cs, tot)"
    using Cons by (auto simp: accepted_def max_def split: if_splits)
  then show ?case by (auto simp: notify_loop.simps[of num bw])
qed

text \<open>
  C34: A notification for \<open>num\<close> threads puts exactly \<open>num\<close> bytes into the pipe, no matter how the
  calls of \<open>write\<close> split or fail (each returning at most what it was asked for), and it returns as
  soon as they have accepted that many.
\<close>

theorem sync_pipe_notify_exact:
  "write_results num 0 res \<Longrightarrow> 0 \<le> num \<Longrightarrow> num \<le> accepted res \<Longrightarrow>
     sync_pipe_notify num res s = Some (s\<lparr>pending := pending s + nat num\<rparr>)"
  using notify_loop_returns[of num 0 res] notify_loop_exact[of num 0 res]
  by (auto simp: sync_pipe_notify_def)

lemma sync_pipe_notify_exact_witness:
  "\<forall>s. sync_pipe_notify 5 [2, -1, 0, 3] s = Some (s\<lparr>pending := pending s + 5\<rparr>)"
  using sync_pipe_notify_exact[of 5 "[2, -1, 0, 3]"] by (simp add: chunk_def accepted_def BUFSIZ_def)

end
