(* ===== verification/ProxyLoop.thy ===== *)
theory ProxyLoop
  imports ProxyHandlers TaskQueue SyncPipe
begin

text \<open>
  The two kinds of threads of \<open>matsko/33_proxy_with_thread_pool/proxy.c\<close>: the pool thread
  (\<open>threadFunc\<close>: start, one round behind each \<open>poll\<close>, shutdown) and the acceptor (\<open>main\<close>: start,
  rounds, \<open>cleanUp\<close>). A round is given what \<open>poll\<close> stored in \<open>revents\<close> and returned, and what
  the system returns to the handler of each slot; the other threads act between rounds.
\<close>

subsection \<open>The pool thread\<close>

record pool =
  px :: proxy
  tqueue :: "task_queue option"
  wake_pipe :: spipe
  is_stop :: bool
  thread_fd :: int

definition on_px :: "(proxy \<Rightarrow> proxy option) \<Rightarrow> pool \<Rightarrow> pool option" where
  "on_px f p = do { s \<leftarrow> f (px p); Some (p\<lparr>px := s\<rparr>) }"

definition ready :: "16 word \<Rightarrow> pollfd \<Rightarrow> bool" where
  "ready ev slot \<longleftrightarrow> revents slot AND ev \<noteq> 0"

text \<open>Lines 1146-1149: a descriptor from the queue becomes a client of this thread.\<close>

definition adopt_client :: "int \<Rightarrow> pool \<Rightarrow> pool option" where
  "adopt_client fd p = do {
     (index, cs) \<leftarrow> findFreeClient fd (clients (px p));
     s \<leftarrow> on_poll (addFdToPollFds fd POLLIN) ((px p)\<lparr>clients := cs\<rparr>);
     assertm (0 \<le> index);
     s \<leftarrow> upd_client (nat index) (\<lambda>c. c\<lparr>cthread_fd := thread_fd p\<rparr>) s;
     Some (p\<lparr>px := s\<rparr>) }"

text \<open>Lines 1136-1166; the flag says that the loop is left.\<close>

definition handle_spipe :: "os \<Rightarrow> pool \<Rightarrow> (bool \<times> pool) option" where
  "handle_spipe os p =
     (case read_res os of
        None \<Rightarrow> Some (False, p)
      | Some [] \<Rightarrow> Some (True, p\<lparr>is_stop := True\<rparr>)
      | Some _ \<Rightarrow> do {
          (fd, q) \<leftarrow> popTask (tqueue p);
          let p = p\<lparr>tqueue := q\<rparr>;
          if fd \<noteq> -1 then do { p \<leftarrow> adopt_client fd p; Some (False, p) }
          else Some (False, p) })"

text \<open>
  Lines 1172-1187: every client of a record that has more bytes than the client was sent waits
  for POLLOUT again. The index of the client is converted to \<open>size_t\<close> for the comparison.
\<close>

fun wake_clients :: "nat list \<Rightarrow> proxy \<Rightarrow> proxy option" where
  "wake_clients [] s = Some s"
| "wake_clients (j # js) s = do {
     c \<leftarrow> get_at (clients s) j;
     case (if cfd c \<noteq> -1 then crecord c else None) of
       None \<Rightarrow> wake_clients js s
     | Some q \<Rightarrow> do {
         r \<leftarrow> records s q;
         assertm (valid_rw_lock r);
         if int_to_size (cwrite_index c) < response_index r then do {
           s \<leftarrow> on_poll (changeEventForFd (cfd c) (POLLIN OR POLLOUT)) s;
           s \<leftarrow> (if cwrite_index c < 0 then upd_client j (\<lambda>c. c\<lparr>cwrite_index := 0\<rparr>) s else Some s);
           wake_clients js s }
         else wake_clients js s } }"

text \<open>
  Lines 1192-1224: the descriptor of slot \<open>i\<close> is a client's or a server's; \<open>revents\<close> is read again
  behind the first handler, which may have cleared the slot.
\<close>

definition dispatch :: "os \<Rightarrow> nat \<Rightarrow> pool \<Rightarrow> (bool \<times> pool) option" where
  "dispatch os i p = do {
     slot \<leftarrow> get_at (pfds (poll (px p))) i;
     client_num \<leftarrow> findClientByFd (pfd slot) (clients (px p));
     server_num \<leftarrow> (if client_num = -1 then findServerByFd (pfd slot) (servers (px p)) else Some (-1));
     p \<leftarrow> (if ready POLLIN slot then
              (if client_num \<noteq> -1 then on_px (readFromClient os client_num) p
               else if server_num \<noteq> -1 then on_px (readFromServer os server_num) p
               else Some p)
            else Some p);
     slot' \<leftarrow> get_at (pfds (poll (px p))) i;
     p \<leftarrow> (if ready POLLOUT slot' then
              (if client_num \<noteq> -1 then on_px (writeToClient os client_num) p
               else if server_num \<noteq> -1 then on_px (writeToServer os server_num) p
               else Some p)
            else Some p);
     Some (ready POLLIN slot \<or> ready POLLOUT slot', p) }"

text \<open>The loop of lines 1135-1225 over the slots that are left.\<close>

fun pool_loop :: "(nat \<Rightarrow> os) \<Rightarrow> int \<Rightarrow> nat list \<Rightarrow> int \<Rightarrow> pool \<Rightarrow> pool option" where
  "pool_loop oss poll_res [] num_handled p = Some p"
| "pool_loop oss poll_res (i # js) num_handled p =
     (if \<not> num_handled < poll_res \<or> is_stop p then Some p
      else do {
        slot \<leftarrow> get_at (pfds (poll (px p))) i;
        if pfd slot = get_rfd_spipe (wake_pipe p) \<and> ready POLLIN slot then do {
          (left_loop, p) \<leftarrow> handle_spipe (oss i) p;
          if left_loop then Some p else pool_loop oss poll_res js (num_handled + 1) p }
        else if pfd slot = thread_fd p \<and> ready POLLIN slot then do {
          p \<leftarrow> on_px (\<lambda>s. wake_clients [0..<length (clients s)] s) p;
          pool_loop oss poll_res js (num_handled + 1) p }
        else do {
          (handled, p) \<leftarrow> dispatch (oss i) i p;
          pool_loop oss poll_res js (if handled then num_handled + 1 else num_handled) p } })"

text \<open>What \<open>poll\<close> stores: \<open>revents\<close> of the first \<open>poll_last_index\<close> slots.\<close>

definition store_revents :: "(nat \<Rightarrow> 16 word) \<Rightarrow> poll_table \<Rightarrow> poll_table" where
  "store_revents rv t =
     t\<lparr>pfds := map (\<lambda>i. if int i < poll_last_index t then (pfds t ! i)\<lparr>revents := rv i\<rparr> else pfds t ! i)
        [0..<length (pfds t)]\<rparr>"

text \<open>One turn of the loop of lines 1107-1227; the flag says that the loop goes on.\<close>

definition pool_round :: "(nat \<Rightarrow> 16 word) \<Rightarrow> int \<Rightarrow> (nat \<Rightarrow> os) \<Rightarrow> pool \<Rightarrow> (bool \<times> pool) option" where
  "pool_round rv poll_res oss p =
     (if is_stop p then Some (False, p)
      else if poll_res < 0 \<or> poll_res = 0 then Some (False, p)
      else do {
        let p = p\<lparr>px := (px p)\<lparr>poll := store_revents rv (poll (px p))\<rparr>\<rparr>;
        p \<leftarrow> pool_loop oss poll_res [0..<nat (poll_last_index (poll (px p)))] 0 p;
        Some (True, p) })"

subsection \<open>Start and shutdown of a pool thread\<close>

text \<open>
  Lines 1063-1104: \<open>efd\<close> is what \<open>eventfd\<close> returned. The result is the exit code of the thread
  with the descriptors it closed, or its state; \<open>s\<close> holds the cache that all threads share.
\<close>

definition thread_start :: "int \<Rightarrow> (string \<Rightarrow> bool) \<Rightarrow> spipe \<Rightarrow> task_queue option \<Rightarrow> proxy \<Rightarrow>
    (int \<times> int list + pool) option" where
  "thread_start efd oom sp tq s =
     (if efd < 0 then Some (Inl (11, []))
      else (case initPollFds (oom ''poll_fds'') 8 of
              None \<Rightarrow> Some (Inl (3, [efd]))
            | Some t \<Rightarrow> do {
                t \<leftarrow> addFdToPollFds (get_rfd_spipe sp) POLLIN t;
                t \<leftarrow> addFdToPollFds efd POLLIN t;
                case initClients (oom ''clients'') 8 of
                  None \<Rightarrow> do { t \<leftarrow> destroyPollFds t; Some (Inl (3, closed t)) }
                | Some cs \<Rightarrow>
                    (case initServers (oom ''servers'') 4 of
                       None \<Rightarrow> do { t \<leftarrow> destroyPollFds t; Some (Inl (3, closed t)) }
                     | Some vs \<Rightarrow>
                         Some (Inr \<lparr>px = s\<lparr>poll := t, clients := cs, servers := vs\<rparr>, tqueue = tq,
                                    wake_pipe = sp, is_stop = False, thread_fd = efd\<rparr>)) }))"

fun destroy_servers_loop :: "nat list \<Rightarrow> proxy \<Rightarrow> proxy option" where
  "destroy_servers_loop [] s = Some s"
| "destroy_servers_loop (i # js) s = do {
     v \<leftarrow> get_at (servers s) i;
     s \<leftarrow> (if sfd v \<noteq> -1 then do {
             s \<leftarrow> on_poll (removeFromPollFds (sfd v)) s;
             q \<leftarrow> srecord v;
             s \<leftarrow> upd_rec q (\<lambda>r. r\<lparr>server_index := -1\<rparr>) s;
             upd_server i (\<lambda>v. v\<lparr>srecord := None, sfd := -1\<rparr>) s }
           else Some s);
     destroy_servers_loop js s }"

definition destroyServers :: "proxy \<Rightarrow> proxy option" where
  "destroyServers s = do {
     s \<leftarrow> destroy_servers_loop [0..<length (servers s)] s;
     Some (s\<lparr>servers := []\<rparr>) }"

fun destroy_clients_loop :: "nat list \<Rightarrow> proxy \<Rightarrow> proxy option" where
  "destroy_clients_loop [] s = Some s"
| "destroy_clients_loop (i # js) s = do {
     c \<leftarrow> get_at (clients s) i;
     s \<leftarrow> upd_client i (\<lambda>c. c\<lparr>crequest := None\<rparr>) s;
     s \<leftarrow> (if cfd c \<noteq> -1 then do {
             s \<leftarrow> on_poll (removeFromPollFds (cfd c)) s;
             upd_client i (\<lambda>c. c\<lparr>cfd := -1\<rparr>) s }
           else Some s);
     s \<leftarrow> upd_client i (\<lambda>c. c\<lparr>cthread_fd := -1, CREQUEST_SIZE := 0, crequest_index := 0,
                             crecord := None, cwrite_index := -1\<rparr>) s;
     destroy_clients_loop js s }"

definition destroyClients :: "proxy \<Rightarrow> proxy option" where
  "destroyClients s = do {
     s \<leftarrow> destroy_clients_loop [0..<length (clients s)] s;
     Some (s\<lparr>clients := []\<rparr>) }"

definition thread_shutdown :: "pool \<Rightarrow> pool option" where
  "thread_shutdown p = do {
     p \<leftarrow> on_px destroyServers p;
     p \<leftarrow> on_px destroyClients p;
     on_px (on_poll destroyPollFds) p }"

subsection \<open>The acceptor\<close>

text \<open>
  The global variables that \<open>main\<close> and \<open>cleanUp\<close> use. \<open>joined\<close> lists the threads joined,
  \<open>gclosed\<close> the descriptors closed outside the poll table; \<open>gcache\<close> holds the shared cache.
\<close>

record glob =
  THREAD_POOL_SIZE :: int
  REAL_THREAD_POOL_SIZE :: int
  is_created_thread :: "bool list option"
  g_stop :: bool
  WRITE_STOP_FD :: int
  READ_STOP_FD :: int
  valid_cache :: bool
  valid_rw_lock_attr :: bool
  valid_task_queue :: bool
  valid_threads_info :: bool
  valid_pool_mutex :: bool
  gqueue :: "task_queue option"
  gpipe :: spipe
  gcache :: proxy
  gpoll :: poll_table
  joined :: "nat list"
  gclosed :: "int list"

definition initRwLockAttr :: "glob \<Rightarrow> glob" where
  "initRwLockAttr g = (if valid_rw_lock_attr g then g else g\<lparr>valid_rw_lock_attr := True\<rparr>)"

definition destroyRwLockAttr :: "glob \<Rightarrow> glob" where
  "destroyRwLockAttr g = (if valid_rw_lock_attr g then g\<lparr>valid_rw_lock_attr := False\<rparr> else g)"

definition destroyCacheList :: "glob \<Rightarrow> glob option" where
  "destroyCacheList g = do {
     s \<leftarrow> destroyList (gcache g);
     Some (g\<lparr>gcache := s, valid_cache := False\<rparr>) }"

text \<open>Lines 179-183: the indices of the threads that were created, among the first \<open>n\<close>.\<close>

definition join_threads :: "glob \<Rightarrow> glob option" where
  "join_threads g =
     (if THREAD_POOL_SIZE g \<le> 0 then Some g
      else do {
        cr \<leftarrow> is_created_thread g;
        assertm (nat (THREAD_POOL_SIZE g) \<le> length cr);
        Some (g\<lparr>joined := joined g @ filter (\<lambda>i. cr ! i) [0..<nat (THREAD_POOL_SIZE g)]\<rparr>) })"

text \<open>\<open>res\<close>: what \<open>write\<close> returns to the notification of the threads.\<close>

definition cleanUp :: "int list \<Rightarrow> glob \<Rightarrow> glob option" where
  "cleanUp res g = do {
     g \<leftarrow> (if \<not> g_stop g then do {
             let g = g\<lparr>g_stop := True\<rparr>;
             sp \<leftarrow> sync_pipe_notify (REAL_THREAD_POOL_SIZE g) res (gpipe g);
             join_threads (g\<lparr>gpipe := sp\<rparr>) }
           else Some g);
     let g = (if WRITE_STOP_FD g \<noteq> -1
              then g\<lparr>gclosed := WRITE_STOP_FD g # gclosed g, WRITE_STOP_FD := -1\<rparr> else g);
     g \<leftarrow> (if valid_cache g then destroyCacheList g else Some g);
     let g = (if valid_rw_lock_attr g then destroyRwLockAttr g else g);
     g \<leftarrow> (if valid_task_queue g then do {
             q \<leftarrow> destroyTaskQueue (gqueue g);
             Some (g\<lparr>gqueue := q, valid_task_queue := False\<rparr>) }
           else Some g);
     let g = (if valid_threads_info g
              then g\<lparr>is_created_thread := None, valid_threads_info := False\<rparr> else g);
     let g = (if valid_pool_mutex g then g\<lparr>valid_pool_mutex := False\<rparr> else g);
     Some (g\<lparr>gpipe := sync_pipe_close (gpipe g)\<rparr>) }"

definition initCacheList :: "bool \<Rightarrow> int list \<Rightarrow> glob \<Rightarrow> glob option" where
  "initCacheList oom res g =
     (case initList oom (gcache g) of
        None \<Rightarrow> cleanUp res g
      | Some s \<Rightarrow> Some (g\<lparr>gcache := s, valid_cache := True\<rparr>))"

text \<open>
  Lines 473-491: \<open>fd\<close> is what \<open>accept\<close> returned, \<open>fc\<close> what \<open>fcntl\<close> returned, \<open>res\<close> what \<open>write\<close>
  returns to the notification.
\<close>

definition acceptNewClient :: "int \<Rightarrow> int \<Rightarrow> bool \<Rightarrow> int list \<Rightarrow> glob \<Rightarrow> glob option" where
  "acceptNewClient fd fc oom res g =
     (if fd = -1 then Some g
      else if fc < 0 then Some (g\<lparr>gclosed := fd # gclosed g\<rparr>)
      else do {
        (_, q) \<leftarrow> submitTask oom (gqueue g) fd;
        sp \<leftarrow> sync_pipe_notify 1 res (gpipe g);
        Some (g\<lparr>gqueue := q, gpipe := sp\<rparr>) })"

text \<open>\<open>os\<close> of one slot of the acceptor: the results of \<open>accept\<close>, \<open>fcntl\<close>, \<open>calloc\<close> and \<open>write\<close>.\<close>

record acc =
  accept_res :: int
  afcntl_res :: int
  aoom :: bool
  awrites :: "int list"

text \<open>The loop of lines 1363-1382.\<close>

fun accept_loop :: "(nat \<Rightarrow> acc) \<Rightarrow> int \<Rightarrow> int \<Rightarrow> nat list \<Rightarrow> int \<Rightarrow> glob \<Rightarrow> glob outcome option" where
  "accept_loop accs listen_fd poll_res [] num_handled g = Some (Go g)"
| "accept_loop accs listen_fd poll_res (i # js) num_handled g =
     (if \<not> num_handled < poll_res \<or> g_stop g then Some (Go g)
      else do {
        slot \<leftarrow> get_at (pfds (gpoll g)) i;
        if pfd slot = READ_STOP_FD g \<and> ready POLLIN slot then do {
          t \<leftarrow> removeFromPollFds (READ_STOP_FD g) (gpoll g);
          t \<leftarrow> destroyPollFds t;
          g \<leftarrow> cleanUp (awrites (accs i)) (g\<lparr>gpoll := t, READ_STOP_FD := -1\<rparr>);
          Some (Exit 0) }
        else if pfd slot = listen_fd \<and> ready POLLIN slot then do {
          let a = accs i;
          g \<leftarrow> acceptNewClient (accept_res a) (afcntl_res a) (aoom a) (awrites a) g;
          accept_loop accs listen_fd poll_res js (num_handled + 1) g }
        else accept_loop accs listen_fd poll_res js num_handled g })"

text \<open>Lines 1338-1390: the flag of \<open>Go\<close> says that the loop goes on.\<close>

definition accept_round :: "(nat \<Rightarrow> 16 word) \<Rightarrow> int \<Rightarrow> (nat \<Rightarrow> acc) \<Rightarrow> int \<Rightarrow> glob \<Rightarrow>
    (bool \<times> glob) outcome option" where
  "accept_round rv poll_res accs listen_fd g =
     (if g_stop g \<or> poll_res \<le> 0 then Some (Go (False, g))
      else do {
        let g = g\<lparr>gpoll := store_revents rv (gpoll g)\<rparr>;
        r \<leftarrow> accept_loop accs listen_fd poll_res [0..<nat (poll_last_index (gpoll g))] 0 g;
        case r of Exit c \<Rightarrow> Some (Exit c) | Go g \<Rightarrow> Some (Go (True, g)) })"

definition main_end :: "int list \<Rightarrow> glob \<Rightarrow> glob option" where
  "main_end res g = do {
     t \<leftarrow> removeFromPollFds (READ_STOP_FD g) (gpoll g);
     t \<leftarrow> destroyPollFds t;
     cleanUp res (g\<lparr>gpoll := t, READ_STOP_FD := -1\<rparr>) }"

text \<open>The handler of SIGINT: it wakes the acceptor through the stop pipe.\<close>

definition sigCatch :: "int \<Rightarrow> glob \<Rightarrow> effect list \<times> glob" where
  "sigCatch sig g =
     (if sig = 2 \<and> WRITE_STOP_FD g \<noteq> -1
      then ([Sent (WRITE_STOP_FD g) ''a'', Closed (WRITE_STOP_FD g)], g\<lparr>WRITE_STOP_FD := -1\<rparr>)
      else ([], g))"

subsection \<open>Start of the process\<close>

text \<open>What the system returns to \<open>main\<close> before its loop.\<close>

record start_os =
  s_oom :: "string \<Rightarrow> bool"
  s_pipe :: "int \<times> (int \<times> int)"
  s_fcntl :: int
  s_stop_pipe :: "int \<times> (int \<times> int)"
  s_sigaction :: int
  s_created :: "nat \<Rightarrow> bool"
  s_socket :: int
  s_bind :: int
  s_listen :: int
  s_writes :: "int list"

definition exit_after_cleanup :: "start_os \<Rightarrow> int \<Rightarrow> glob \<Rightarrow> 'a outcome option" where
  "exit_after_cleanup so code g = do { g \<leftarrow> cleanUp (s_writes so) g; Some (Exit code) }"

definition initListener :: "start_os \<Rightarrow> glob \<Rightarrow> (int \<times> glob) outcome option" where
  "initListener so g =
     (if s_socket so < 0 then exit_after_cleanup so 4 g
      else if s_bind so \<noteq> 0 then exit_after_cleanup so 5 (g\<lparr>gclosed := s_socket so # gclosed g\<rparr>)
      else if s_listen so = -1 then exit_after_cleanup so 6 (g\<lparr>gclosed := s_socket so # gclosed g\<rparr>)
      else Some (Go (s_socket so, g)))"

text \<open>Lines 1318-1329: one thread after the other; those that could not be created are not counted.\<close>

definition create_threads :: "start_os \<Rightarrow> glob \<Rightarrow> glob" where
  "create_threads so g =
     (let made = map (s_created so) [0..<nat (THREAD_POOL_SIZE g)] in
      g\<lparr>is_created_thread := Some made,
        REAL_THREAD_POOL_SIZE := REAL_THREAD_POOL_SIZE g + int (length (filter id made))\<rparr>)"

text \<open>Lines 1293-1336, with the poll table of the acceptor.\<close>

definition main_listen :: "start_os \<Rightarrow> poll_table \<Rightarrow> glob \<Rightarrow> (int \<times> glob) outcome option" where
  "main_listen so t g =
     (if fst (s_stop_pipe so) \<noteq> 0 then Some (Exit 7)
      else do {
        let g = g\<lparr>READ_STOP_FD := fst (snd (s_stop_pipe so)), WRITE_STOP_FD := snd (snd (s_stop_pipe so))\<rparr>;
        t \<leftarrow> addFdToPollFds (READ_STOP_FD g) POLLIN t;
        if s_sigaction so \<noteq> 0 then exit_after_cleanup so 8 g
        else do {
          let g = initRwLockAttr (create_threads so g);
          g \<leftarrow> initCacheList (s_oom so ''list'') (s_writes so) g;
          r \<leftarrow> initListener so g;
          case r of
            Exit c \<Rightarrow> Some (Exit c)
          | Go (listen_fd, g) \<Rightarrow> do {
              t \<leftarrow> addFdToPollFds listen_fd POLLIN t;
              Some (Go (listen_fd, g\<lparr>gpoll := t\<rparr>)) } } })"

text \<open>Lines 1253-1292: the globals of a process that starts with \<open>g\<close>.\<close>

definition main_init :: "start_os \<Rightarrow> glob \<Rightarrow> (int \<times> glob) outcome option" where
  "main_init so g = do {
     let g = g\<lparr>valid_pool_mutex := True\<rparr>;
     if s_oom so ''tids'' \<or> THREAD_POOL_SIZE g < 0 then Some (Exit 3)
     else if s_oom so ''is_created_thread'' then Some (Exit 3)
     else do {
       let g = g\<lparr>is_created_thread := Some (replicate (nat (THREAD_POOL_SIZE g)) False), valid_threads_info := True\<rparr>;
       case initTaskQueue (s_oom so ''task_queue'') of
         None \<Rightarrow> Some (Exit 9)
       | Some q \<Rightarrow> do {
           let g = g\<lparr>gqueue := Some q, valid_task_queue := True\<rparr>;
           let (res, sp) = sync_pipe_init (fst (s_pipe so)) (snd (s_pipe so)) (s_fcntl so) (gpipe g);
           let g = g\<lparr>gpipe := sp\<rparr>;
           if res \<noteq> 0 then exit_after_cleanup so 10 g
           else (case initPollFds (s_oom so ''poll_fds'') 4 of
                   None \<Rightarrow> exit_after_cleanup so 3 g
                 | Some t \<Rightarrow> main_listen so t g) } } }"

text \<open>\<open>main\<close> up to its loop: the descriptor it listens on and the globals, or the exit code.\<close>

definition main_start :: "start_os \<Rightarrow> string list \<Rightarrow> glob \<Rightarrow> (int \<times> glob) outcome option" where
  "main_start so argv g =
     (if length argv < 3 then Some (Exit 1)
      else
        (let (n, erange, rest) = strtol10 (argv ! 1);
             g = g\<lparr>THREAD_POOL_SIZE := (if erange \<or> rest \<noteq> [] then 5 else int_of_long n)\<rparr>;
             (port, perange, prest) = strtol10 (argv ! 2) in
         if perange \<or> prest \<noteq> [] then Some (Exit 2) else main_init so g))"

end
