(* ===== verification/FdOwners.thy ===== *)
theory FdOwners
  imports PollTable FdTables
begin

text \<open>
  What the three proxies with a poll table share: a table of polled descriptors beside two arrays of
  connections (clients, and servers or hosts) whose slots hold descriptors. \<open>fd_owner\<close> is the interface: a
  poll table as in \<open>poll_map\<close> that also says which descriptors were closed. Its lemmas show
  once that opening and closing a connection keep the two sides in step; \<open>fd_owner_events\<close> adds changing the events of a
  descriptor. \<open>FdInvariant\<close>, \<open>RybDescriptors\<close> and \<open>ShuTables\<close> interpret them on the tables of \<open>matsko/33\<close>,
  \<open>rybalko/31\<close> and \<open>shuvalov/31\<close>.
\<close>

subsection \<open>Descriptors in tables\<close>

definition live :: "int list \<Rightarrow> int list" where
  "live fds = filter (\<lambda>fd. fd \<noteq> -1) fds"

lemma live_mem: "fd \<noteq> -1 \<Longrightarrow> fd \<in> set (live fds) \<longleftrightarrow> fd \<in> set fds"
  by (simp add: live_def)

lemma map_upd_id: "g y = g (xs ! i) \<Longrightarrow> map g (xs[i := y]) = map g xs"
  by (metis list_update_id map_update)

text \<open>Writing a slot of a table of descriptors.\<close>

lemma live_clear:
  "i < length fds \<Longrightarrow> fds ! i \<noteq> -1 \<Longrightarrow> distinct (live fds) \<Longrightarrow>
     distinct (live (fds[i := -1])) \<and> set (live (fds[i := -1])) = set (live fds) - {fds ! i}"
proof -
  assume a: "i < length fds" "fds ! i \<noteq> -1" "distinct (live fds)"
  obtain us f vs where x: "fds = us @ f # vs" "fds[i := -1] = us @ (-1) # vs" "fds ! i = f"
    using a(1) id_take_nth_drop[OF a(1)] upd_conv_take_nth_drop[OF a(1), of "-1"] by blast
  show ?thesis unfolding x(2,3) using a(2,3) unfolding x(3) unfolding x(1) by (auto simp: live_def)
qed

lemma filter_update_free:
  "i < length xs \<Longrightarrow> xs ! i = -1 \<Longrightarrow> fd \<noteq> (-1::int) \<Longrightarrow> fd \<notin> set xs \<Longrightarrow> distinct (filter (\<lambda>fd. fd \<noteq> -1) xs) \<Longrightarrow>
   distinct (filter (\<lambda>fd. fd \<noteq> -1) (xs[i := fd])) \<and>
   set (filter (\<lambda>fd. fd \<noteq> -1) (xs[i := fd])) = insert fd (set (filter (\<lambda>fd. fd \<noteq> -1) xs))"
proof -
  assume a: "i < length xs" "xs ! i = -1" "fd \<noteq> -1" "fd \<notin> set xs" "distinct (filter (\<lambda>fd. fd \<noteq> -1) xs)"
  have "xs = take i xs @ (-1) # drop (Suc i) xs" using a id_take_nth_drop[of i xs] by simp
  moreover have "xs[i := fd] = take i xs @ fd # drop (Suc i) xs" using a by (simp add: upd_conv_take_nth_drop)
  ultimately obtain us vs where x: "xs = us @ (-1) # vs" "xs[i := fd] = us @ fd # vs" by blast
  show ?thesis unfolding x(2) using a(3-5) unfolding x(1) by auto
qed

lemma live_taken:
  assumes "slot_taken fd i fds fds'" "fd \<noteq> -1" "fd \<notin> set fds" "distinct (live fds)"
  shows "distinct (live fds') \<and> set (live fds') = insert fd (set (live fds)) \<and> fds' \<noteq> []"
proof -
  let ?gs = "fds @ replicate (length fds' - length fds) (-1)"
  have t: "i < length fds'" "length fds \<le> length fds'" "fds' ! i = fd" "i < length fds \<longrightarrow> fds ! i = -1"
      "\<And>j. j < length fds' \<Longrightarrow> j \<noteq> i \<Longrightarrow> fds' ! j = (if j < length fds then fds ! j else -1)"
    using assms(1) by (auto simp: slot_taken_def)
  have e: "fds' = ?gs[i := fd]"
    by (rule nth_equalityI) (use t in \<open>auto simp: nth_list_update nth_append\<close>)
  have l: "live ?gs = live fds" by (simp add: live_def)
  have "distinct (filter (\<lambda>x. x \<noteq> -1) (?gs[i := fd])) \<and>
      set (filter (\<lambda>x. x \<noteq> -1) (?gs[i := fd])) = insert fd (set (filter (\<lambda>x. x \<noteq> -1) ?gs))"
    by (rule filter_update_free) (use t assms l in \<open>auto simp: nth_append live_def\<close>)
  moreover have "fds' \<noteq> []" using t(1) by auto
  ultimately show ?thesis using l unfolding e[symmetric] live_def by simp
qed

subsection \<open>A poll table and two tables of connections\<close>

text \<open>The descriptors in both tables; a state is seen as the poll table and the two columns of descriptors.\<close>

definition conn_fds :: "'t \<times> int list \<times> int list \<Rightarrow> int list" where
  "conn_fds c = (case c of (t, xs, ys) \<Rightarrow> live xs @ live ys)"

lemma conn_fds_simp [simp]: "conn_fds (t, xs, ys) = live xs @ live ys"
  by (simp add: conn_fds_def)

locale fd_owner = poll_base inv view add rem
  for inv :: "'t \<Rightarrow> bool" and view :: "'t \<Rightarrow> int \<Rightarrow> 16 word option"
    and add :: "int \<Rightarrow> 16 word \<Rightarrow> 't \<Rightarrow> 't option" and rem :: "int \<Rightarrow> 't \<Rightarrow> 't option" +
  fixes gone :: "'t \<Rightarrow> int list"
  assumes rem_gone: "inv t \<Longrightarrow> is_fd fd \<Longrightarrow> rem fd t = Some t' \<Longrightarrow> view t fd \<noteq> None \<Longrightarrow> gone t' = fd # gone t"
    and add_gone: "add fd e t = Some t' \<Longrightarrow> gone t' = gone t"
begin

text \<open>
  \<open>held B c\<close>: the table watches exactly \<open>B\<close> and the connections, each of which is in one slot.
  \<open>kept B F c c'\<close>: a step keeps this, closes what leaves the tables, and watches nothing new outside \<open>F\<close>.
\<close>

definition held :: "int set \<Rightarrow> 't \<times> int list \<times> int list \<Rightarrow> bool" where
  "held B c \<longleftrightarrow> inv (fst c) \<and> distinct (conn_fds c) \<and> (\<forall>fd \<in> set (conn_fds c). is_fd fd \<and> fd \<notin> B) \<and>
     dom (view (fst c)) = B \<union> set (conn_fds c)"

definition kept :: "int set \<Rightarrow> int set \<Rightarrow> 't \<times> int list \<times> int list \<Rightarrow> 't \<times> int list \<times> int list \<Rightarrow> bool" where
  "kept B F c c' \<longleftrightarrow> (held B c \<longrightarrow> held B c' \<and>
     set (conn_fds c) \<subseteq> set (conn_fds c') \<union> set (gone (fst c')) \<and>
     set (gone (fst c)) \<subseteq> set (gone (fst c')) \<and>
     dom (view (fst c')) \<subseteq> dom (view (fst c)) \<union> F)"

lemma kept_refl [simp]: "kept B F c c"
  by (simp add: kept_def)

lemma kept_trans: "kept B F c c' \<Longrightarrow> kept B F c' c'' \<Longrightarrow> kept B F c c''"
  unfolding kept_def by blast

lemma kept_more: "kept B F c c' \<Longrightarrow> F \<subseteq> G \<Longrightarrow> kept B G c c'"
  unfolding kept_def by blast

lemma kept_swap: "kept B F (t, xs, ys) (t', xs', ys') \<longleftrightarrow> kept B F (t, ys, xs) (t', ys', xs')"
proof -
  have "held B (t, xs, ys) \<longleftrightarrow> held B (t, ys, xs)" for t xs ys
    by (auto simp: held_def)
  then show ?thesis by (simp add: kept_def Un_commute)
qed

lemma kept_close:
  assumes "i < length xs" "xs ! i \<noteq> -1" "rem (xs ! i) t = Some t'"
  shows "kept B F (t, xs, ys) (t', xs[i := -1], ys)"
proof (cases "held B (t, xs, ys)")
  case True
  let ?fd = "xs ! i"
  have o: "distinct (live xs)" "distinct (live ys)" "set (live xs) \<inter> set (live ys) = {}" "inv t"
      "dom (view t) = B \<union> set (live xs) \<union> set (live ys)" "\<forall>fd \<in> set (live xs) \<union> set (live ys). is_fd fd \<and> fd \<notin> B"
    using True by (auto simp: held_def)
  have m: "?fd \<in> set (live xs)" using assms(1,2) by (simp add: live_mem)
  then have f: "is_fd ?fd" "?fd \<notin> B" "?fd \<notin> set (live ys)" "view t ?fd \<noteq> None" using o by blast+
  have v: "inv t'" "view t' = (view t)(?fd := None)" "gone t' = ?fd # gone t"
    using rem_view[OF o(4) f(1)] rem_gone[OF o(4) f(1) assms(3) f(4)] assms(3) by auto
  have "distinct (live (xs[i := -1]))" "set (live (xs[i := -1])) = set (live xs) - {?fd}"
    using live_clear[OF assms(1,2) o(1)] by auto
  then show ?thesis using v o f m by (auto simp: kept_def held_def)
qed (simp add: kept_def)

lemma kept_open:
  assumes "is_fd fd" "held B (t, xs, ys) \<longrightarrow> view t fd = None" "add fd e t = Some t'" "slot_taken fd i xs xs'"
  shows "kept B {fd} (t, xs, ys) (t', xs', ys)"
proof (cases "held B (t, xs, ys)")
  case True
  have n: "fd \<noteq> -1" using assms(1) by (simp add: is_fd_def)
  have o: "distinct (live xs)" "distinct (live ys)" "set (live xs) \<inter> set (live ys) = {}" "inv t"
      "dom (view t) = B \<union> set (live xs) \<union> set (live ys)" "\<forall>fd \<in> set (live xs) \<union> set (live ys). is_fd fd \<and> fd \<notin> B"
    using True by (auto simp: held_def)
  have w: "view t fd = None" using assms(2) True by blast
  then have nb: "fd \<notin> B" "fd \<notin> set (live xs)" "fd \<notin> set (live ys)" using o(5) by (metis UnCI domIff)+
  have v: "inv t'" "view t' = (view t)(fd \<mapsto> e)" using add_view[OF o(4) assms(1) w, of e] assms(3) by auto
  have "distinct (live xs')" "set (live xs') = insert fd (set (live xs))"
    using live_taken[OF assms(4) n] nb(2) n o(1) by (auto simp: live_mem)
  then show ?thesis using v o nb assms(1) add_gone[OF assms(3)] by (auto simp: kept_def held_def)
qed (simp add: kept_def)

lemma kept_close_right:
  "i < length ys \<Longrightarrow> ys ! i \<noteq> -1 \<Longrightarrow> rem (ys ! i) t = Some t' \<Longrightarrow> kept B F (t, xs, ys) (t', xs, ys[i := -1])"
  by (subst kept_swap) (rule kept_close)

lemma held_swap: "held B (t, xs, ys) \<longleftrightarrow> held B (t, ys, xs)"
  by (auto simp: held_def)

lemma kept_open_right:
  "is_fd fd \<Longrightarrow> held B (t, xs, ys) \<longrightarrow> view t fd = None \<Longrightarrow> add fd e t = Some t' \<Longrightarrow> slot_taken fd i ys ys' \<Longrightarrow>
     kept B {fd} (t, xs, ys) (t', xs, ys')"
  by (subst kept_swap) (rule kept_open, simp_all add: held_swap)

end

locale fd_owner_events = fd_owner +
  fixes chg :: "int \<Rightarrow> 16 word \<Rightarrow> 'a \<Rightarrow> 'a option"
  assumes chg_any: "inv t \<Longrightarrow> \<exists>t'. chg fd e t = Some t' \<and> inv t' \<and> dom (view t') = dom (view t) \<and> gone t' = gone t"
begin

lemma kept_change: "chg fd e t = Some t' \<Longrightarrow> kept B F (t, xs, ys) (t', xs, ys)"
  using chg_any[of t fd e] by (auto simp: kept_def held_def)

end

end
