(* ===== verification/ProxyLaws.thy ===== *)
theory ProxyLaws
  imports ProxyLoop HttpParserLaws FdOwners
begin

text \<open>
  What the handlers of the caching proxy guarantee about one record: its subscribers are a set, its
  buffer holds the bytes that arrived, and the bytes passed to a client are a prefix of them. The
  \<open>_ok\<close> lemmas say, for each operation, that it returns and what it changes, on a record that
  satisfies \<open>rec_ok\<close>, which each of them keeps.
\<close>

subsection \<open>Subscribers\<close>

fun subs_in :: "int list option \<Rightarrow> int list" where
  "subs_in None = []"
| "subs_in (Some xs) = filter (\<lambda>fd. fd \<noteq> -1) xs"

fun subs_wf :: "int list option \<Rightarrow> nat \<Rightarrow> bool" where
  "subs_wf None n \<longleftrightarrow> n = 0"
| "subs_wf (Some xs) n \<longleftrightarrow> length xs = n \<and> xs \<noteq> []"

definition subs_list :: "cache_t \<Rightarrow> int list" where
  "subs_list r = subs_in (subscribers r)"

definition subs_ok :: "cache_t \<Rightarrow> bool" where
  "subs_ok r \<longleftrightarrow> valid_subs_mutex r \<and> subs_wf (subscribers r) (SUBSCRIBERS_SIZE r) \<and> distinct (subs_list r)"

lemma subs_array_ok: "subs_ok r \<Longrightarrow> \<exists>xs. subs_array r = Some xs \<and> filter (\<lambda>fd. fd \<noteq> -1) xs = subs_list r"
  by (cases "subscribers r") (auto simp: subs_ok_def subs_array_def subs_list_def)

lemma notifySubscribers_ok:
  "records s p = Some r \<Longrightarrow> subs_ok r \<Longrightarrow>
     notifySubscribers p s = Some (emit (map Notified (subs_list r)) s)"
  using subs_array_ok[of r] by (auto simp: notifySubscribers_def subs_ok_def)

lemma subs_room_ok:
  "subs_ok r \<Longrightarrow> \<exists>r'. subs_room False r = (False, r') \<and> subs_ok r' \<and> subs_list r' = subs_list r \<and>
     (\<exists>xs. subscribers r' = Some xs) \<and> r' = r\<lparr>SUBSCRIBERS_SIZE := SUBSCRIBERS_SIZE r', subscribers := subscribers r'\<rparr>"
  by (cases "subscribers r") (auto simp: subs_ok_def subs_room_def subs_list_def)

text \<open>
  The array is filled from the left, so that a subscriber is never to the right of a free slot;
  without it a subscriber could be entered twice.
\<close>

definition subs_packed :: "cache_t \<Rightarrow> bool" where
  "subs_packed r \<longleftrightarrow> (case subscribers r of None \<Rightarrow> True
     | Some xs \<Rightarrow> \<forall>i j. i < j \<longrightarrow> j < length xs \<longrightarrow> xs ! i = -1 \<longrightarrow> xs ! j = -1)"

lemma subs_enter_ok:
  assumes "subs_ok r" "subs_packed r" "0 \<le> fd" "subscribers r = Some xs"
  shows "\<exists>r'. subs_enter fd r = Some r' \<and> subs_ok r' \<and> subs_packed r' \<and>
    set (subs_list r') = insert fd (set (subs_list r)) \<and>
    r' = r\<lparr>SUBSCRIBERS_SIZE := SUBSCRIBERS_SIZE r', subscribers := subscribers r'\<rparr>"
proof -
  have len: "SUBSCRIBERS_SIZE r = length xs" "xs \<noteq> []" "distinct (filter (\<lambda>fd. fd \<noteq> -1) xs)" "valid_subs_mutex r"
    and pk: "\<And>i j. i < j \<Longrightarrow> j < length xs \<Longrightarrow> xs ! i = -1 \<Longrightarrow> xs ! j = -1"
    using assms by (auto simp: subs_ok_def subs_list_def subs_packed_def)
  obtain i where i: "loop_find (\<lambda>x. x = -1 \<or> x = fd) (length xs) xs = Some i" using loop_find_total by blast
  have before: "xs ! j \<noteq> -1 \<and> xs ! j \<noteq> fd" if "j < i" for j using loop_find_before[OF i that] by simp
  show ?thesis
  proof (cases "i < length xs")
    case True
    consider "xs ! i = fd" | "xs ! i = -1" using loop_find_hit[OF i True] by auto
    then show ?thesis
    proof cases
      case 1
      then have "xs[i := fd] = xs" using list_update_id[of xs i] by simp
      moreover have "fd \<in> set xs" using 1 True nth_mem by blast
      ultimately show ?thesis using assms i True len
        by (intro exI[of _ r]) (auto simp: subs_enter_def subs_list_def)
    next
      case 2
      have "xs ! j \<noteq> fd" if "j < length xs" for j
        using before[of j] pk[of i j] 2 that assms(3) by (cases i j rule: linorder_cases) auto
      then have "fd \<notin> set xs" by (auto simp: in_set_conv_nth)
      note u = filter_update_free[OF True 2 _ this len(3)]
      have "\<forall>k j. k < j \<longrightarrow> j < length xs \<longrightarrow> xs[i := fd] ! k = -1 \<longrightarrow> xs[i := fd] ! j = -1"
      proof (intro allI impI)
        fix k j assume k: "k < j" "j < length xs" "xs[i := fd] ! k = -1"
        then have "k \<noteq> i" "xs ! k = -1" using assms(3) True by (auto simp: nth_list_update split: if_splits)
        then have "\<not> k < i" using before by blast
        then have "j \<noteq> i" using k \<open>k \<noteq> i\<close> by linarith
        then show "xs[i := fd] ! j = -1" using pk[OF k(1,2)] \<open>xs ! k = -1\<close> by simp
      qed
      then show ?thesis using assms i True len u
        by (intro exI[of _ "r\<lparr>subscribers := Some (xs[i := fd])\<rparr>"])
          (auto simp: subs_enter_def subs_ok_def subs_list_def subs_packed_def)
    qed
  next
    case False
    then have e: "i = length xs" using loop_find_le[OF i] by simp
    then have nf: "\<forall>j < length xs. xs ! j \<noteq> -1 \<and> xs ! j \<noteq> fd" using before by blast
    obtain m where m: "length xs = Suc m" using len(2) by (cases xs) auto
    define ys where "ys = xs @ fd # replicate m (-1)"
    have p: "put_at (realloc_list xs (length xs * 2) (-1)) (length xs) fd = Some ys"
      using m by (simp add: realloc_list_grow list_update_append ys_def)
    have l: "length ys = length xs * 2" "ys \<noteq> []" using m by (simp_all add: ys_def)
    have f: "fd \<notin> set xs" "-1 \<notin> set xs" using nf by (auto simp: in_set_conv_nth)
    then have fl: "filter (\<lambda>fd. fd \<noteq> -1) ys = xs @ [fd]"
      using assms(3) by (auto simp: ys_def intro!: filter_True)
    have pk': "\<forall>k j. k < j \<longrightarrow> j < length ys \<longrightarrow> ys ! k = -1 \<longrightarrow> ys ! j = -1"
      using nf assms(3) by (auto simp: ys_def nth_append nth_Cons split: if_splits nat.splits)
    have "filter (\<lambda>fd. fd \<noteq> -1) xs = xs" using f by (auto intro!: filter_True)
    then show ?thesis using assms i len e p l fl pk' f
      by (intro exI[of _ "r\<lparr>SUBSCRIBERS_SIZE := length xs * 2, subscribers := Some ys\<rparr>"])
        (simp add: subs_enter_def subs_ok_def subs_list_def subs_packed_def Let_def)
  qed
qed

lemma addSubscriber_ok:
  assumes "records s p = Some r" "valid r" "subs_ok r" "subs_packed r" "0 \<le> fd"
  shows "\<exists>r'. addSubscriber False fd (Some p) s = Some (0, s\<lparr>records := (records s)(p \<mapsto> r')\<rparr>) \<and>
    subs_ok r' \<and> subs_packed r' \<and> set (subs_list r') = insert fd (set (subs_list r)) \<and>
    r' = r\<lparr>SUBSCRIBERS_SIZE := SUBSCRIBERS_SIZE r', subscribers := subscribers r'\<rparr>"
proof -
  obtain r1 where r1: "subs_room False r = (False, r1)" "subs_ok r1" "subs_list r1 = subs_list r"
      "\<exists>xs. subscribers r1 = Some xs" "r1 = r\<lparr>SUBSCRIBERS_SIZE := SUBSCRIBERS_SIZE r1, subscribers := subscribers r1\<rparr>"
    using subs_room_ok[OF assms(3)] by blast
  have "subs_packed r1" using assms(3,4) r1(1) by (auto simp: subs_room_def subs_packed_def split: if_splits)
  then obtain r2 where r2: "subs_enter fd r1 = Some r2" "subs_ok r2" "subs_packed r2"
      "set (subs_list r2) = insert fd (set (subs_list r))"
      "r2 = r1\<lparr>SUBSCRIBERS_SIZE := SUBSCRIBERS_SIZE r2, subscribers := subscribers r2\<rparr>"
    using subs_enter_ok[OF r1(2) _ assms(5)] r1 by auto
  have "r2 = r\<lparr>SUBSCRIBERS_SIZE := SUBSCRIBERS_SIZE r2, subscribers := subscribers r2\<rparr>"
    by (subst r2(5), subst r1(5)) simp
  then show ?thesis using assms r1 r2 by (auto simp: addSubscriber_def subs_ok_def)
qed

subsection \<open>Contents of a record\<close>

fun content_of :: "string option \<Rightarrow> nat \<Rightarrow> string" where
  "content_of None n = []"
| "content_of (Some buf) n = take n buf"

definition content :: "cache_t \<Rightarrow> string" where
  "content r = content_of (response r) (response_index r)"

text \<open>
  A record that receives a response: its locks are alive, its subscribers are well-formed, and the
  buffer has the size it is said to have, with room for a byte behind the content.
\<close>

definition rec_ok :: "cache_t \<Rightarrow> bool" where
  "rec_ok r \<longleftrightarrow> valid_rw_lock r \<and> subs_ok r \<and>
     (if RESPONSE_SIZE r = 0 then response_index r = 0
      else BUFSIZ \<le> RESPONSE_SIZE r \<and> response_index r < RESPONSE_SIZE r \<and>
        (\<exists>buf. response r = Some buf \<and> length buf = RESPONSE_SIZE r))"

lemma content_length: "rec_ok r \<Longrightarrow> RESPONSE_SIZE r \<noteq> 0 \<Longrightarrow> length (content r) = response_index r"
  by (auto simp: rec_ok_def content_def)

lemma append_response_ok:
  assumes "rec_ok r" "RESPONSE_SIZE r \<noteq> 0" "length bs \<le> BUFSIZ" "bs \<noteq> []"
  shows "\<exists>r' buf. append_response bs r = Some r' \<and> rec_ok r' \<and> content r' = content r @ bs \<and>
    response r' = Some buf \<and> take (response_index r') buf = content r @ bs \<and> subs_list r' = subs_list r \<and>
    response_index r' = response_index r + length bs \<and>
    r' = r\<lparr>RESPONSE_SIZE := RESPONSE_SIZE r', response := response r', response_index := response_index r'\<rparr>"
proof -
  obtain buf where buf: "response r = Some buf" "length buf = RESPONSE_SIZE r"
      and b: "BUFSIZ \<le> RESPONSE_SIZE r" "response_index r < RESPONSE_SIZE r"
    using assms by (auto simp: rec_ok_def)
  let ?grow = "RESPONSE_SIZE r \<le> length bs + response_index r"
  define size where "size = (if ?grow then RESPONSE_SIZE r * 2 else RESPONSE_SIZE r)"
  define big where "big = (if ?grow then realloc_list buf size (CHR 0x00) else buf)"
  have len: "length big = size" using buf by (simp add: big_def size_def)
  have room: "response_index r + length bs < size" "RESPONSE_SIZE r \<le> size" using b assms(3) by (auto simp: size_def)
  have tk: "take (response_index r) big = take (response_index r) buf"
    using buf b room by (auto simp: big_def take_realloc_list)
  define out where "out = take (response_index r) buf @ bs @ drop (response_index r + length bs) big"
  have m: "memcpy_to big (response_index r) bs = Some out"
    using room len by (simp add: out_def tk)
  have lo: "length out = size" using room len buf b by (simp add: out_def)
  have to: "take (response_index r + length bs) out = take (response_index r) buf @ bs"
    using b buf by (simp add: out_def)
  let ?r = "r\<lparr>RESPONSE_SIZE := size, response := Some out, response_index := response_index r + length bs\<rparr>"
  have e: "append_response bs r = Some ?r"
    using buf m by (simp add: append_response_def Let_def big_def size_def del: memcpy_to_Some split: if_splits)
  have "subs_ok ?r \<longleftrightarrow> subs_ok r" "subs_list ?r = subs_list r" by (auto simp: subs_ok_def subs_list_def)
  then show ?thesis using e assms(1,2) buf b room lo to
    by (intro exI[of _ ?r] exI[of _ out]) (auto simp: rec_ok_def content_def)
qed

lemma success_head_ok: "prev_len \<le> length bs + 3 \<Longrightarrow> \<exists>b. success_head bs prev_len = Some b"
  using parse_response_in[of 100 bs] is_complete_in[of prev_len bs]
  by (auto simp: success_head_def phr_parse_response_def split: scan.splits if_splits)
     (auto simp: scan_bind_Oob split: if_splits)

lemma store_response_ok:
  assumes r: "records s q = Some r" "rec_ok r" "RESPONSE_SIZE r \<noteq> 0" "length bs \<le> BUFSIZ" "bs \<noteq> []"
  shows "\<exists>r'. store_response q bs s =
      Some (s\<lparr>records := (records s)(q \<mapsto> r'), trace := trace s @ map Notified (subs_list r)\<rparr>) \<and>
    rec_ok r' \<and> content r' = content r @ bs \<and> subs_list r' = subs_list r \<and>
    server_index r' = server_index r \<and> full r' = full r \<and> response_index r' = response_index r + length bs"
proof -
  obtain r1 buf where r1: "append_response bs r = Some r1" "rec_ok r1" "content r1 = content r @ bs"
      "response r1 = Some buf" "take (response_index r1) buf = content r @ bs" "subs_list r1 = subs_list r"
      "response_index r1 = response_index r + length bs"
      "r1 = r\<lparr>RESPONSE_SIZE := RESPONSE_SIZE r1, response := response r1, response_index := response_index r1\<rparr>"
    using append_response_ok[OF r(2-5)] by blast
  have "response_index r \<le> length (take (response_index r1) buf) + 3"
    using content_length[OF r(2,3)] by (simp add: r1(5))
  then obtain b where b: "success_head (take (response_index r1) buf) (response_index r) = Some b"
    using success_head_ok by blast
  have so: "subs_ok r1" using r1(2) by (simp add: rec_ok_def)
  have f: "server_index r1 = server_index r" "full r1 = full r" by (subst r1(8), simp)+
  let ?r2 = "if b then r1\<lparr>private_rec := False\<rparr> else r1"
  have k: "rec_ok ?r2 = rec_ok r1" "content ?r2 = content r1" "subs_list ?r2 = subs_list r1"
      "server_index ?r2 = server_index r1" "full ?r2 = full r1" "response_index ?r2 = response_index r1"
    by (auto simp: rec_ok_def content_def subs_ok_def subs_list_def)
  have n: "notifySubscribers q (s\<lparr>records := (records s)(q \<mapsto> r1)\<rparr>) =
      Some (emit (map Notified (subs_list r1)) (s\<lparr>records := (records s)(q \<mapsto> r1)\<rparr>))"
    by (rule notifySubscribers_ok) (simp_all add: so)
  have "store_response q bs s =
      Some (s\<lparr>records := (records s)(q \<mapsto> ?r2), trace := trace s @ map Notified (subs_list r)\<rparr>)"
    using r(1,2) r1(1,4,6) b n by (simp add: store_response_def rec_ok_def emit_def upd_rec_def)
  then show ?thesis using k f r1 by (intro exI[of _ ?r2]) simp
qed

lemma receive_response_ok:
  assumes r: "records s q = Some r" "rec_ok r" "length bs \<le> BUFSIZ" "bs \<noteq> []" "\<not> no_mem os ''response''"
  shows "\<exists>r'. receive_response os n q bs s =
      Some (s\<lparr>records := (records s)(q \<mapsto> r'), trace := trace s @ map Notified (subs_list r)\<rparr>) \<and>
    rec_ok r' \<and> content r' = content r @ bs \<and> subs_list r' = subs_list r \<and>
    server_index r' = server_index r \<and> full r' = full r \<and> response_index r' = response_index r + length bs"
proof (cases "RESPONSE_SIZE r = 0")
  case False
  then show ?thesis using store_response_ok[OF r(1,2) False r(3,4)] r by (simp add: receive_response_def rec_ok_def)
next
  case True
  let ?r = "r\<lparr>RESPONSE_SIZE := BUFSIZ, response := Some (replicate BUFSIZ (CHR 0x00))\<rparr>"
  let ?s = "s\<lparr>records := (records s)(q \<mapsto> ?r)\<rparr>"
  have ok: "rec_ok ?r" and i: "response_index r = 0" using r(2) True by (auto simp: rec_ok_def subs_ok_def subs_list_def)
  have c: "content ?r = content r" using i by (cases "response r") (simp_all add: content_def)
  have sl: "subs_list ?r = subs_list r" by (simp add: subs_list_def)
  have "\<exists>r'. store_response q bs ?s =
      Some (?s\<lparr>records := (records ?s)(q \<mapsto> r'), trace := trace ?s @ map Notified (subs_list ?r)\<rparr>) \<and>
    rec_ok r' \<and> content r' = content ?r @ bs \<and> subs_list r' = subs_list ?r \<and>
    server_index r' = server_index ?r \<and> full r' = full ?r \<and> response_index r' = response_index ?r + length bs"
    by (rule store_response_ok) (use ok r BUFSIZ_pos in auto)
  then show ?thesis using True r(1,2,5) by (simp add: receive_response_def rec_ok_def c sl)
qed

subsection \<open>The transfers\<close>

text \<open>Server \<open>n\<close> is connected and feeds the record \<open>q\<close>.\<close>

definition feeds :: "proxy \<Rightarrow> nat \<Rightarrow> nat \<Rightarrow> bool" where
  "feeds s n q \<longleftrightarrow> n < length (servers s) \<and> sfd (servers s ! n) \<noteq> -1 \<and> srecord (servers s ! n) = Some q"

text \<open>Client \<open>i\<close> is connected as \<open>fd\<close> and reads the record \<open>q\<close>; \<open>k\<close> bytes were passed on.\<close>

definition reads :: "proxy \<Rightarrow> nat \<Rightarrow> int \<Rightarrow> nat \<Rightarrow> nat \<Rightarrow> bool" where
  "reads s i fd q k \<longleftrightarrow> i < length (clients s) \<and> is_fd fd \<and> cfd (clients s ! i) = fd \<and>
     crecord (clients s ! i) = Some q \<and> cwrite_index (clients s ! i) = int k"

lemma readFromServer_ok:
  assumes "feeds s n q" "records s q = Some r" "rec_ok r" "read_res os = Some bs" "bs \<noteq> []"
    "length bs \<le> BUFSIZ" "\<not> no_mem os ''response''"
  shows "\<exists>r'. readFromServer os (int n) s =
      Some (s\<lparr>records := (records s)(q \<mapsto> r'), trace := trace s @ map Notified (subs_list r)\<rparr>) \<and>
    rec_ok r' \<and> content r' = content r @ bs \<and> subs_list r' = subs_list r \<and>
    server_index r' = server_index r \<and> full r' = full r \<and> response_index r' = response_index r + length bs"
  using receive_response_ok[OF assms(2,3,6,5,7), of "int n"] assms(1,4,5)
  by (simp add: readFromServer_def feeds_def)

lemma size_minus_le: "k \<le> n \<Longrightarrow> n < 2 ^ 64 \<Longrightarrow> size_minus n (int k) = n - k"
proof -
  assume a: "k \<le> n" "n < 2 ^ 64"
  then have e: "int n - int k = int (n - k)" by simp
  have "int (n - k) < int (2 ^ 64)" using a by (simp only: of_nat_less_iff)
  then show ?thesis by (simp add: size_minus_def e)
qed

lemma taken_ok:
  "w \<le> int (length b - k) \<Longrightarrow> k \<le> length b \<Longrightarrow> length b \<le> length buf \<Longrightarrow> take (length b) buf = b \<Longrightarrow>
   taken (Some buf) (int k) (length b - k) w = Some (take (nat w) (drop k b))"
proof -
  assume a: "w \<le> int (length b - k)" "k \<le> length b" "length b \<le> length buf" "take (length b) buf = b"
  show ?thesis
  proof (cases "w \<le> 0")
    case False
    then have n: "nat w \<le> length b - k" using a(1) by linarith
    have "take (nat w) (drop k b) = take (nat w) (drop k buf)"
      using n a(2) by (subst a(4)[symmetric]) (simp add: drop_take min_def)
    then show ?thesis using False n a(2,3) by (simp add: taken_def)
  qed (simp add: taken_def)
qed

lemma taken_content:
  assumes "rec_ok r" "k \<le> response_index r" "w \<le> int (response_index r - k)"
  shows "taken (response r) (int k) (response_index r - k) w = Some (take (nat w) (drop k (content r)))"
proof (cases "RESPONSE_SIZE r = 0")
  case True
  then show ?thesis using assms by (simp add: rec_ok_def taken_def)
next
  case False
  then obtain buf where b: "response r = Some buf" "response_index r < length buf" using assms(1) by (auto simp: rec_ok_def)
  then show ?thesis using taken_ok[of w "take (response_index r) buf" k buf] assms(2,3) by (simp add: content_def)
qed

lemma writeToClient_ok:
  assumes "reads s i fd q k" "records s q = Some r" "rec_ok r" "poll_ok (poll s)"
    "server_index r \<noteq> -1 \<or> full r" "k \<le> response_index r" "int (response_index r) \<le> INT_MAX"
    "0 \<le> write_res os" "write_res os \<le> int (response_index r - k)"
  shows "\<exists>t. writeToClient os (int i) s = Some (s\<lparr>poll := t,
      clients := (clients s)[i := (clients s ! i)\<lparr>cwrite_index := int k + write_res os\<rparr>],
      trace := trace s @ [Sent fd (take (nat (write_res os)) (drop k (content r)))]\<rparr>) \<and> poll_ok t"
proof -
  have c: "i < length (clients s)" "cfd (clients s ! i) = fd" "fd \<noteq> -1" "crecord (clients s ! i) = Some q"
      "cwrite_index (clients s ! i) = int k" "is_fd fd"
    using assms(1) by (auto simp: reads_def is_fd_def)
  have lt: "response_index r < 2 ^ 64" using assms(7) by (simp add: INT_MAX_def)
  have sz: "size_minus (response_index r) (int k) = response_index r - k" by (rule size_minus_le[OF assms(6) lt])
  have tk: "taken (response r) (int k) (response_index r - k) (write_res os) =
      Some (take (nat (write_res os)) (drop k (content r)))"
    by (rule taken_content[OF assms(3,6,9)])
  have ia: "int_add (int k) (write_res os) = Some (int k + write_res os)"
    using assms(6-9) by (simp add: INT_MIN_def)
  obtain t where t: "changeEventForFd fd POLLIN (poll s) = Some t" "poll_ok t"
    using change_watching[OF assms(4) c(6)] by blast
  have l: "valid_rw_lock r" using assms(3) by (simp add: rec_ok_def)
  show ?thesis
    using c assms(2,4,5,8) sz tk ia t l
    by (intro exI[of _ "if int_to_size (int k + write_res os) = response_index r then t else poll s"], cases s)
      (auto simp: writeToClient_def Let_def emit_def on_poll_def simp del: int_add_Some)
qed

text \<open>
  A response in transit: bytes arrive from the server and go out to a client, in any order and in
  pieces of any size, while the record is open.
\<close>

datatype transfer = Arrive os | Pass os

fun run_transfers :: "nat \<Rightarrow> nat \<Rightarrow> transfer list \<Rightarrow> proxy \<Rightarrow> proxy option" where
  "run_transfers n i [] s = Some s"
| "run_transfers n i (Arrive os # xs) s = readFromServer os (int n) s \<bind> run_transfers n i xs"
| "run_transfers n i (Pass os # xs) s = writeToClient os (int i) s \<bind> run_transfers n i xs"

text \<open>
  The system's side: \<open>read\<close> returns between 1 and \<open>BUFSIZ\<close> bytes and memory is not exhausted;
  \<open>write\<close> takes at most what it is offered (\<open>avail\<close> bytes arrived and \<open>k\<close> passed on so far); the
  response stays below \<open>INT_MAX\<close>, the limit of the index that a client keeps.
\<close>

fun transfers_allowed :: "nat \<Rightarrow> nat \<Rightarrow> transfer list \<Rightarrow> bool" where
  "transfers_allowed avail k [] \<longleftrightarrow> True"
| "transfers_allowed avail k (Arrive os # xs) \<longleftrightarrow>
     (\<exists>bs. read_res os = Some bs \<and> bs \<noteq> [] \<and> length bs \<le> BUFSIZ \<and> \<not> no_mem os ''response'' \<and>
        int (avail + length bs) \<le> INT_MAX \<and> transfers_allowed (avail + length bs) k xs)"
| "transfers_allowed avail k (Pass os # xs) \<longleftrightarrow>
     0 \<le> write_res os \<and> write_res os \<le> int (avail - k) \<and> transfers_allowed avail (k + nat (write_res os)) xs"

fun arrived :: "transfer list \<Rightarrow> string" where
  "arrived [] = []"
| "arrived (Arrive os # xs) = (case read_res os of None \<Rightarrow> [] | Some bs \<Rightarrow> bs) @ arrived xs"
| "arrived (Pass os # xs) = arrived xs"

fun sent_to :: "int \<Rightarrow> effect list \<Rightarrow> string" where
  "sent_to fd [] = []"
| "sent_to fd (Sent fd' bs # es) = (if fd' = fd then bs else []) @ sent_to fd es"
| "sent_to fd (_ # es) = sent_to fd es"

lemma sent_to_append: "sent_to fd (a @ b) = sent_to fd a @ sent_to fd b"
  by (induction fd a rule: sent_to.induct) auto

lemma sent_to_notified: "sent_to fd (map Notified xs) = []"
  by (induction xs) auto

lemma run_transfers_ok:
  assumes "feeds s n q" "reads s i fd q k" "records s q = Some r" "rec_ok r" "server_index r \<noteq> -1 \<or> full r"
    "poll_ok (poll s)" "k \<le> response_index r" "length (content r) = response_index r" "int (response_index r) \<le> INT_MAX"
    "transfers_allowed (response_index r) k xs"
  shows "\<exists>s' r' k'. run_transfers n i xs s = Some s' \<and> records s' q = Some r' \<and> content r' = content r @ arrived xs \<and>
    reads s' i fd q k' \<and> k \<le> k' \<and> k' \<le> length (content r') \<and>
    sent_to fd (trace s') = sent_to fd (trace s) @ take (k' - k) (drop k (content r'))"
  using assms
proof (induction xs arbitrary: s r k)
  case Nil
  then show ?case by auto
next
  case (Cons x xs)
  show ?case
  proof (cases x)
    case (Arrive os)
    then obtain bs where bs: "read_res os = Some bs" "bs \<noteq> []" "length bs \<le> BUFSIZ" "\<not> no_mem os ''response''"
        "int (response_index r + length bs) \<le> INT_MAX" "transfers_allowed (response_index r + length bs) k xs"
      using Cons.prems(10) by auto
    obtain r1 where r1: "readFromServer os (int n) s =
        Some (s\<lparr>records := (records s)(q \<mapsto> r1), trace := trace s @ map Notified (subs_list r)\<rparr>)"
        "rec_ok r1" "content r1 = content r @ bs" "server_index r1 = server_index r" "full r1 = full r"
        "response_index r1 = response_index r + length bs"
      using readFromServer_ok[OF Cons.prems(1,3,4) bs(1-4)] by blast
    let ?s = "s\<lparr>records := (records s)(q \<mapsto> r1), trace := trace s @ map Notified (subs_list r)\<rparr>"
    have "\<exists>s' r' k'. run_transfers n i xs ?s = Some s' \<and> records s' q = Some r' \<and> content r' = content r1 @ arrived xs \<and>
        reads s' i fd q k' \<and> k \<le> k' \<and> k' \<le> length (content r') \<and>
        sent_to fd (trace s') = sent_to fd (trace ?s) @ take (k' - k) (drop k (content r'))"
      by (rule Cons.IH) (use Cons.prems r1 bs in \<open>auto simp: feeds_def reads_def\<close>)
    then show ?thesis using r1(1,3) bs(1) Arrive by (simp add: sent_to_append sent_to_notified)
  next
    case (Pass os)
    then have w: "0 \<le> write_res os" "write_res os \<le> int (response_index r - k)"
        "transfers_allowed (response_index r) (k + nat (write_res os)) xs" using Cons.prems(10) by auto
    obtain t where t: "writeToClient os (int i) s = Some (s\<lparr>poll := t,
        clients := (clients s)[i := (clients s ! i)\<lparr>cwrite_index := int k + write_res os\<rparr>],
        trace := trace s @ [Sent fd (take (nat (write_res os)) (drop k (content r)))]\<rparr>)" "poll_ok t"
      using writeToClient_ok[OF Cons.prems(2,3,4,6,5,7,9) w(1,2)] by blast
    define s1 where "s1 = s\<lparr>poll := t,
        clients := (clients s)[i := (clients s ! i)\<lparr>cwrite_index := int k + write_res os\<rparr>],
        trace := trace s @ [Sent fd (take (nat (write_res os)) (drop k (content r)))]\<rparr>"
    let ?k = "k + nat (write_res os)"
    have k: "?k \<le> response_index r" using w Cons.prems(7) by linarith
    have "\<exists>s' r' k'. run_transfers n i xs s1 = Some s' \<and> records s' q = Some r' \<and> content r' = content r @ arrived xs \<and>
        reads s' i fd q k' \<and> ?k \<le> k' \<and> k' \<le> length (content r') \<and>
        sent_to fd (trace s') = sent_to fd (trace s1) @ take (k' - ?k) (drop ?k (content r'))"
      by (rule Cons.IH) (use Cons.prems t(2) w k in \<open>auto simp: s1_def feeds_def reads_def\<close>)
    then obtain s' r' k' where o: "run_transfers n i xs s1 = Some s'" "records s' q = Some r'"
        "content r' = content r @ arrived xs" "reads s' i fd q k'" "?k \<le> k'" "k' \<le> length (content r')"
        "sent_to fd (trace s') = sent_to fd (trace s1) @ take (k' - ?k) (drop ?k (content r'))" by blast
    have p: "take (nat (write_res os)) (drop k (content r)) = take (nat (write_res os)) (drop k (content r'))"
      using o(3) k Cons.prems(8) by simp
    have "take (k' - k) (drop k (content r')) =
        take (nat (write_res os)) (drop k (content r')) @ take (k' - ?k) (drop ?k (content r'))"
      using o(5) take_add[of "nat (write_res os)" "k' - ?k" "drop k (content r')"] by (simp add: add.commute)
    then have "sent_to fd (trace s') = sent_to fd (trace s) @ take (k' - k) (drop k (content r'))"
      using o(7) p by (simp add: s1_def sent_to_append)
    moreover have "run_transfers n i (x # xs) s = Some s'" using t(1) o(1) Pass by (simp add: s1_def)
    moreover have "k \<le> k'" using o(5) by linarith
    ultimately show ?thesis using o(2,3,4,6) Pass by auto
  qed
qed

definition fresh_record :: cache_t where
  "fresh_record = initEmptyCacheRecord\<lparr>url := Some ''/'', URL_LEN := 1, valid := True, request := Some ''GET'',
     REQUEST_SIZE := 3, server_index := 0\<rparr>"

text \<open>A client and a server, tied to one record; for the witnesses.\<close>

definition small_proxy :: proxy where
  "small_proxy = \<lparr>poll = \<lparr>pfds = [\<lparr>pfd = 7, events = 1, revents = 0\<rparr>, \<lparr>pfd = 8, events = 5, revents = 0\<rparr>],
       poll_last_index = 2, closed = []\<rparr>,
     clients = [initEmptyClient\<lparr>crecord := Some 1, cwrite_index := 0, cthread_fd := 6, cfd := 7\<rparr>],
     servers = [\<lparr>srecord = Some 1, swrite_index = 0, sfd = 8\<rparr>],
     records = [1 \<mapsto> fresh_record], cnodes = [0 \<mapsto> \<lparr>nrecord = 1, nnext = None\<rparr>], next_addr = 2,
     chead = Some 0, cmutex = Unlocked, trace = []\<rparr>"

definition small_os :: os where
  "small_os = \<lparr>read_res = Some ''hi'', write_res = 1, no_mem = (\<lambda>_. False), socket_res = 9,
     host_known = (\<lambda>_. True), connect_res = 0, fcntl_res = 0\<rparr>"

lemma fresh_record_ok: "rec_ok fresh_record" "content fresh_record = []" "subs_ok fresh_record" "subs_packed fresh_record"
    "response_index fresh_record = 0" "server_index fresh_record = 0" "subs_list fresh_record = []" "valid fresh_record"
  by (simp_all add: fresh_record_def initEmptyCacheRecord_def rec_ok_def content_def subs_ok_def subs_packed_def subs_list_def)

lemma small_proxy_ok: "feeds small_proxy 0 1" "reads small_proxy 0 7 1 0" "poll_ok (poll small_proxy)"
    "records small_proxy 1 = Some fresh_record" "trace small_proxy = []"
  by (simp_all add: small_proxy_def feeds_def reads_def is_fd_def INT_MAX_def poll_ok_def used_def unique_fds_def)


lemma small_transfers:
  "transfers_allowed 0 0 [Arrive small_os, Pass small_os, Arrive small_os]"
  "arrived [Arrive small_os, Pass small_os, Arrive small_os] = ''hihi''"
  by (simp_all add: small_os_def BUFSIZ_def INT_MAX_def)


text \<open>
  When bytes arrive from a server, the record holds them behind its old content, its buffer
  stays within its size, and each thread that subscribed to the record is notified exactly once.
\<close>

theorem readFromServer_appends:
  assumes "feeds s n q" "records s q = Some r" "rec_ok r" "read_res os = Some bs" "bs \<noteq> []"
    "length bs \<le> BUFSIZ" "\<not> no_mem os ''response''"
  shows "\<exists>s' r'. readFromServer os (int n) s = Some s' \<and> records s' q = Some r' \<and>
    content r' = content r @ bs \<and> rec_ok r' \<and> distinct (subs_list r) \<and>
    trace s' = trace s @ map Notified (subs_list r) \<and>
    clients s' = clients s \<and> servers s' = servers s \<and> (\<forall>p. p \<noteq> q \<longrightarrow> records s' p = records s p)"
proof -
  have "distinct (subs_list r)" using assms(3) by (simp add: rec_ok_def subs_ok_def)
  then show ?thesis using readFromServer_ok[OF assms] by fastforce
qed

lemma readFromServer_appends_witness:
  "\<exists>s' r'. readFromServer small_os 0 small_proxy = Some s' \<and> records s' 1 = Some r' \<and> content r' = ''hi''"
  using readFromServer_appends[OF small_proxy_ok(1,4) fresh_record_ok(1), of small_os "''hi''"] fresh_record_ok(2)
  by (fastforce simp: small_os_def BUFSIZ_def)

text \<open>
  A thread that subscribes to a valid record becomes a subscriber and no other is lost; it is
  entered once even if it subscribes again, so that a notification writes to its eventfd once.
\<close>

theorem addSubscriber_once:
  assumes "records s p = Some r" "valid r" "subs_ok r" "subs_packed r" "0 \<le> fd"
  shows "\<exists>s' r' es. addSubscriber False fd (Some p) s = Some (0, s') \<and> records s' p = Some r' \<and>
    set (subs_list r') = insert fd (set (subs_list r)) \<and> distinct (subs_list r') \<and>
    notifySubscribers p s' = Some (emit (map Notified (subs_list r')) s')"
proof -
  obtain r' where r': "addSubscriber False fd (Some p) s = Some (0, s\<lparr>records := (records s)(p \<mapsto> r')\<rparr>)"
      "subs_ok r'" "set (subs_list r') = insert fd (set (subs_list r))"
    using addSubscriber_ok[OF assms] by blast
  have "notifySubscribers p (s\<lparr>records := (records s)(p \<mapsto> r')\<rparr>) =
      Some (emit (map Notified (subs_list r')) (s\<lparr>records := (records s)(p \<mapsto> r')\<rparr>))"
    by (rule notifySubscribers_ok) (simp_all add: r'(2))
  then show ?thesis using r' by (auto simp: subs_ok_def)
qed

lemma addSubscriber_once_witness:
  "\<exists>s' r'. addSubscriber False 6 (Some 1) small_proxy = Some (0, s') \<and> records s' 1 = Some r' \<and>
    set (subs_list r') = {6}"
  using addSubscriber_once[OF small_proxy_ok(4) fresh_record_ok(8,3,4), of 6] fresh_record_ok(7) by auto

text \<open>
  The request goes to the server as it is in the record: a call of \<open>write\<close> that takes \<open>w\<close> bytes
  sends the next \<open>w\<close> of them, and once all are sent the server's descriptor waits for input only.
\<close>

theorem writeToServer_sends:
  assumes "n < length (servers s)" "sfd (servers s ! n) = fd" "is_fd fd" "srecord (servers s ! n) = Some q"
    "swrite_index (servers s ! n) = int k" "records s q = Some r" "request r = Some rq" "length rq = REQUEST_SIZE r"
    "k \<le> length rq" "int (length rq) \<le> INT_MAX" "poll_ok (poll s)"
    "0 \<le> write_res os" "write_res os \<le> int (length rq - k)"
  shows "\<exists>s'. writeToServer os (int n) s = Some s' \<and>
    trace s' = trace s @ [Sent fd (take (nat (write_res os)) (drop k rq))] \<and>
    swrite_index (servers s' ! n) = int k + write_res os \<and>
    watching (poll s') = (if k + nat (write_res os) = length rq \<and> watching (poll s) fd \<noteq> None
                          then (watching (poll s))(fd \<mapsto> POLLIN) else watching (poll s))"
proof -
  have lt: "length rq < 2 ^ 64" using assms(10) by (simp add: INT_MAX_def)
  have sz: "size_minus (REQUEST_SIZE r) (int k) = length rq - k" using size_minus_le[OF assms(9) lt] assms(8) by simp
  have tk: "taken (Some rq) (int k) (length rq - k) (write_res os) = Some (take (nat (write_res os)) (drop k rq))"
    by (rule taken_ok) (use assms in auto)
  have ia: "int_add (int k) (write_res os) = Some (int k + write_res os)"
    using assms(9,10,12,13) by (simp add: INT_MIN_def)
  obtain t where t: "changeEventForFd fd POLLIN (poll s) = Some t"
      "watching t = (if watching (poll s) fd = None then watching (poll s) else (watching (poll s))(fd \<mapsto> POLLIN))"
    using change_watching[OF assms(11,3)] by blast
  have n: "fd \<noteq> -1" using assms(3) by (simp add: is_fd_def)
  have "int k + write_res os = int (k + nat (write_res os))" using assms(12) by simp
  moreover have "int_to_size (int (k + nat (write_res os))) = k + nat (write_res os)"
    by (rule int_to_size_int) (use assms(9,12,13) lt in linarith)
  ultimately have e: "int_to_size (int k + write_res os) = REQUEST_SIZE r \<longleftrightarrow> k + nat (write_res os) = length rq"
    using assms(8) by simp
  show ?thesis
    using assms sz tk ia t n e
    by (cases "k + nat (write_res os) = length rq")
      (auto simp: writeToServer_def Let_def emit_def on_poll_def simp del: int_add_Some)
qed

lemma writeToServer_sends_witness:
  "\<exists>s'. writeToServer small_os 0 small_proxy = Some s' \<and> trace s' = [Sent 8 ''G'']"
proof -
  have "\<exists>s'. writeToServer small_os (int 0) small_proxy = Some s' \<and>
    trace s' = trace small_proxy @ [Sent 8 (take (nat (write_res small_os)) (drop 0 ''GET''))] \<and>
    swrite_index (servers s' ! 0) = int 0 + write_res small_os \<and>
    watching (poll s') = (if 0 + nat (write_res small_os) = length ''GET'' \<and> watching (poll small_proxy) 8 \<noteq> None
                          then (watching (poll small_proxy))(8 \<mapsto> POLLIN) else watching (poll small_proxy))"
    by (rule writeToServer_sends[where q = 1 and r = fresh_record])
      (simp_all add: small_proxy_ok(3,4), simp_all add: small_proxy_def small_os_def fresh_record_def is_fd_def INT_MAX_def)
  then show ?thesis by (simp add: small_proxy_ok(5)) (auto simp: small_os_def)
qed

end
