(* ===== verification/FdInvariant.thy ===== *)
theory FdInvariant
  imports ProxyLaws
begin

text \<open>
  The descriptors of a pool thread. \<open>fd_inv\<close> says that the poll table watches exactly the
  descriptors in the slots of the client and server tables (beside a fixed set \<open>B\<close>, the wake-up
  pipe and the eventfd), each in one slot. Each handler is shown to keep it and to close what it
  takes out of the tables (the \<open>_keeps\<close> lemmas, whose proofs walk through the do-blocks with the
  rules of \<open>post\<close>), so that it holds in all reachable states; the shutdown then closes them all.
\<close>

subsection \<open>Descriptors owned by the tables\<close>

definition owned :: "proxy \<Rightarrow> int list" where
  "owned s = live (map cfd (clients s)) @ live (map sfd (servers s))"

definition fd_inv :: "int set \<Rightarrow> proxy \<Rightarrow> bool" where
  "fd_inv B s \<longleftrightarrow> poll_ok (poll s) \<and>
     distinct (owned s) \<and> (\<forall>fd \<in> set (owned s). is_fd fd \<and> fd \<notin> B) \<and>
     dom (watching (poll s)) = B \<union> set (owned s)"

text \<open>
  \<open>keeps B F s s'\<close>: the step from \<open>s\<close> to \<open>s'\<close> keeps the invariant, a descriptor that leaves the
  tables has been closed, and only those of \<open>F\<close> are watched that were not watched before.
\<close>

definition keeps :: "int set \<Rightarrow> int set \<Rightarrow> proxy \<Rightarrow> proxy \<Rightarrow> bool" where
  "keeps B F s s' \<longleftrightarrow> (fd_inv B s \<longrightarrow> fd_inv B s' \<and>
     set (owned s) \<subseteq> set (owned s') \<union> set (closed (poll s')) \<and>
     set (closed (poll s)) \<subseteq> set (closed (poll s')) \<and>
     dom (watching (poll s')) \<subseteq> dom (watching (poll s)) \<union> F)"

text \<open>Both are those of \<open>fd_owner\<close>, for the poll table and the two columns of descriptors.\<close>

lemma change_any:
  assumes ok: "poll_ok t"
  shows "\<exists>t'. changeEventForFd fd e t = Some t' \<and> poll_ok t' \<and> dom (watching t') = dom (watching t) \<and> closed t' = closed t"
proof (cases "is_fd fd")
  case True
  obtain t' where t': "changeEventForFd fd e t = Some t'" "poll_ok t'" "closed t' = closed t"
      "watching t' = (if watching t fd = None then watching t else (watching t)(fd \<mapsto> e))"
    using change_watching[OF ok True, of e] by blast
  then show ?thesis by (auto simp: t'(4))
next
  case False
  show ?thesis
  proof (cases "fd < 0")
    case True
    then show ?thesis using ok by (simp add: changeEventForFd_def)
  next
    case nonneg: False
    show ?thesis using ok
    proof (cases rule: find_slot_cases[where fd = fd, consumes 1, case_names found missing])
      case (found a p b)
      then show ?thesis using ok False nonneg by (auto simp: poll_ok_def unique_fds_def)
    next
      case missing
      then show ?thesis using ok nonneg by (auto simp: changeEventForFd_def poll_ok_def)
    qed
  qed
qed

interpretation po: fd_owner_events poll_ok watching addFdToPollFds removeFromPollFds closed changeEventForFd
proof unfold_locales
  fix t t' :: poll_table and fd :: int and e
  show "poll_ok t \<Longrightarrow> is_fd fd \<Longrightarrow> removeFromPollFds fd t = Some t' \<Longrightarrow> watching t fd \<noteq> None \<Longrightarrow> closed t' = fd # closed t"
    using remove_watching[of t fd] by auto
  show "addFdToPollFds fd e t = Some t' \<Longrightarrow> closed t' = closed t"
    by (auto simp: addFdToPollFds_def fault_simps reallocPollFds_def Let_def split: if_splits)
qed (rule change_any)

definition conn :: "proxy \<Rightarrow> poll_table \<times> int list \<times> int list" where
  "conn s = (poll s, map cfd (clients s), map sfd (servers s))"

lemma fd_inv_held: "fd_inv B s \<longleftrightarrow> po.held B (conn s)"
  by (simp add: fd_inv_def po.held_def conn_def owned_def)

lemma keeps_kept: "keeps B F s s' \<longleftrightarrow> po.kept B F (conn s) (conn s')"
  by (simp add: keeps_def po.kept_def fd_inv_held) (simp add: conn_def owned_def)

lemma keeps_refl [simp]: "keeps B F s s"
  by (simp add: keeps_kept)

lemma keeps_trans: "keeps B F s s' \<Longrightarrow> keeps B F s' s'' \<Longrightarrow> keeps B F s s''"
  unfolding keeps_kept by (rule po.kept_trans)

lemma keeps_more: "keeps B F s s' \<Longrightarrow> F \<subseteq> G \<Longrightarrow> keeps B G s s'"
  unfolding keeps_kept by (rule po.kept_more)

text \<open>Steps that leave the poll table and the descriptors of the tables alone.\<close>

lemma keeps_frame:
  "poll s' = poll s \<Longrightarrow> map cfd (clients s') = map cfd (clients s) \<Longrightarrow> map sfd (servers s') = map sfd (servers s) \<Longrightarrow>
     keeps B F s s'"
  by (simp add: keeps_kept conn_def)

lemma post_upd_rec: "post (upd_rec p f s) (keeps B F s)"
  by (rule postI) (auto simp: fault_simps intro!: keeps_frame)

lemma post_upd_client: "(\<And>c. cfd (f c) = cfd c) \<Longrightarrow> post (upd_client i f s) (keeps B F s)"
proof (rule postI)
  fix s' assume f: "\<And>c. cfd (f c) = cfd c" and s': "upd_client i f s = Some s'"
  have "map cfd ((clients s)[i := f (clients s ! i)]) = map cfd (clients s)"
    by (simp add: map_update f list_update_id flip: nth_map) (metis list_update_beyond list_update_id not_le nth_map map_update length_map)
  then show "keeps B F s s'" using s' by (auto simp: fault_simps intro!: keeps_frame)
qed

lemma post_upd_server: "(\<And>v. sfd (f v) = sfd v) \<Longrightarrow> post (upd_server i f s) (keeps B F s)"
proof (rule postI)
  fix s' assume f: "\<And>v. sfd (f v) = sfd v" and s': "upd_server i f s = Some s'"
  have "map sfd ((servers s)[i := f (servers s ! i)]) = map sfd (servers s)"
    by (simp add: map_update f list_update_id flip: nth_map) (metis list_update_id nth_map map_update)
  then show "keeps B F s s'" using s' by (auto simp: fault_simps intro!: keeps_frame)
qed

lemma post_change: "post (on_poll (changeEventForFd fd e) s) (keeps B F s)"
  by (rule postI) (auto simp: fault_simps keeps_kept conn_def intro: po.kept_change)

text \<open>A connection is given up: its descriptor leaves a table and the poll table together.\<close>

lemma keeps_close_client:
  "i < length (clients s) \<Longrightarrow> cfd (clients s ! i) \<noteq> -1 \<Longrightarrow> removeFromPollFds (cfd (clients s ! i)) (poll s) = Some t \<Longrightarrow>
   poll s' = t \<Longrightarrow> map cfd (clients s') = (map cfd (clients s))[i := -1] \<Longrightarrow> map sfd (servers s') = map sfd (servers s) \<Longrightarrow>
     keeps B F s s'"
  using po.kept_close[of i "map cfd (clients s)"] by (simp add: keeps_kept conn_def)

lemma keeps_close_server:
  "i < length (servers s) \<Longrightarrow> sfd (servers s ! i) \<noteq> -1 \<Longrightarrow> removeFromPollFds (sfd (servers s ! i)) (poll s) = Some t \<Longrightarrow>
   poll s' = t \<Longrightarrow> map sfd (servers s') = (map sfd (servers s))[i := -1] \<Longrightarrow> map cfd (clients s') = map cfd (clients s) \<Longrightarrow>
     keeps B F s s'"
  using po.kept_close_right[of i "map sfd (servers s)"] by (simp add: keeps_kept conn_def)

text \<open>A new connection enters a table and the poll table together.\<close>

lemma keeps_open:
  assumes "is_fd fd" "fd_inv B s \<longrightarrow> watching (poll s) fd = None" "addFdToPollFds fd e (poll s) = Some t" "poll s' = t"
    "(slot_taken fd i (map cfd (clients s)) (map cfd (clients s')) \<and> map sfd (servers s') = map sfd (servers s)) \<or>
     (slot_taken fd i (map sfd (servers s)) (map sfd (servers s')) \<and> map cfd (clients s') = map cfd (clients s))"
  shows "keeps B {fd} s s'"
  using assms po.kept_open[OF assms(1) _ assms(3)] po.kept_open_right[OF assms(1) _ assms(3)]
  by (auto simp: keeps_kept fd_inv_held conn_def)

subsection \<open>The handlers keep the invariant\<close>

lemma keeps_step: "keeps B F s s1 \<Longrightarrow> post m (keeps B F s1) \<Longrightarrow> post m (keeps B F s)"
  by (auto simp: post_def intro: keeps_trans)

lemma keeps_seq:
  "post m (keeps B F s) \<Longrightarrow> (\<And>s1. keeps B F s s1 \<Longrightarrow> m = Some s1 \<Longrightarrow> post (f s1) (keeps B F s1)) \<Longrightarrow>
     post (m \<bind> f) (keeps B F s)"
  by (cases m) (auto intro: keeps_step)

lemma keeps_emit: "keeps B F s (emit es s)"
  by (rule keeps_frame) (simp_all add: emit_def)

lemma keeps_step_emit: "post m (keeps B F (emit es s)) \<Longrightarrow> post m (keeps B F s)"
  by (rule keeps_step[OF keeps_emit])

lemma disconnectClient_keeps: "post (disconnectClient n s) (keeps B F s)"
proof (rule postI)
  fix s' assume a: "disconnectClient n s = Some s'"
  show "keeps B F s s'"
  proof (cases "n < 0 \<or> int (length (clients s)) \<le> n")
    case True
    then show ?thesis using a by (simp add: disconnectClient_def)
  next
    case False
    let ?i = "nat n" and ?c = "clients s ! nat n"
    have i: "?i < length (clients s)" using False by auto
    let ?same = "\<lambda>s1 s2. poll s2 = poll s1 \<and> map cfd (clients s2) = map cfd (clients s1) \<and> servers s2 = servers s1"
    obtain s1 s2 where s1: "(case crequest ?c of None \<Rightarrow> Some s | Some buf \<Rightarrow> do {
            buf \<leftarrow> memset_zero buf 0 (crequest_index ?c);
            upd_client ?i (\<lambda>c. c\<lparr>crequest := Some buf, crequest_index := 0\<rparr>) s }) = Some s1"
        and s2: "(case crecord ?c of None \<Rightarrow> Some s1
            | Some _ \<Rightarrow> upd_client ?i (\<lambda>c. c\<lparr>crecord := None, cwrite_index := -1\<rparr>) s1) = Some s2"
        and r: "(if cfd ?c \<noteq> -1 then do {
            s \<leftarrow> on_poll (removeFromPollFds (cfd ?c)) s2;
            upd_client ?i (\<lambda>c. c\<lparr>cfd := -1\<rparr>) s } else Some s2) = Some s'"
      using a False i by (auto simp: disconnectClient_def Let_def fault_simps)
    have 1: "?same s s1" using s1 by (auto simp: fault_simps map_update split: option.splits intro!: list_update_same_conv[THEN iffD2])
    have 2: "?same s1 s2" using s2 by (auto simp: fault_simps map_update split: option.splits intro!: list_update_same_conv[THEN iffD2])
    have f: "cfd (clients s2 ! ?i) = cfd ?c" "length (clients s2) = length (clients s)"
      using 1 2 i by (metis length_map nth_map)+
    have k: "keeps B F s s2" by (rule keeps_frame) (use 1 2 in auto)
    have "keeps B F s2 s'"
    proof (cases "cfd ?c = -1")
      case True
      then show ?thesis using r by simp
    next
      case False
      then obtain t where t: "removeFromPollFds (cfd (clients s2 ! ?i)) (poll s2) = Some t"
          "s' = s2\<lparr>poll := t, clients := (clients s2)[?i := (clients s2 ! ?i)\<lparr>cfd := -1\<rparr>]\<rparr>"
        using r i f by (auto simp: fault_simps)
      show ?thesis
        by (rule keeps_close_client[OF _ _ t(1)]) (use False f i t(2) in \<open>simp_all add: map_update\<close>)
    qed
    then show ?thesis using k keeps_trans by blast
  qed
qed

lemma notifySubscribers_keeps: "post (notifySubscribers p s) (keeps B F s)"
  by (rule postI) (auto simp: notifySubscribers_def fault_simps intro: keeps_emit)

lemma disconnectServer_keeps: "post (disconnectServer n s) (keeps B F s)"
proof (rule postI)
  fix s' assume a: "disconnectServer n s = Some s'"
  show "keeps B F s s'"
  proof (cases "n < 0 \<or> int (length (servers s)) < n")
    case True
    then show ?thesis using a by (simp add: disconnectServer_def)
  next
    case False
    let ?i = "nat n" and ?v = "servers s ! nat n"
    let ?same = "\<lambda>s1 s2. poll s2 = poll s1 \<and> map sfd (servers s2) = map sfd (servers s1) \<and> clients s2 = clients s1"
    obtain s2 where i: "?i < length (servers s)"
        and s2: "(case srecord ?v of None \<Rightarrow> Some (s\<lparr>servers := (servers s)[?i := ?v\<lparr>swrite_index := -1\<rparr>]\<rparr>)
            | Some p \<Rightarrow> do {
                s \<leftarrow> upd_rec p (\<lambda>r. r\<lparr>server_index := -1\<rparr>) (s\<lparr>servers := (servers s)[?i := ?v\<lparr>swrite_index := -1\<rparr>]\<rparr>);
                s \<leftarrow> notifySubscribers p s;
                upd_server ?i (\<lambda>v. v\<lparr>srecord := None\<rparr>) s }) = Some s2"
        and r: "(if sfd ?v \<noteq> -1 then do {
            s \<leftarrow> on_poll (removeFromPollFds (sfd ?v)) s2;
            upd_server ?i (\<lambda>v. v\<lparr>sfd := -1\<rparr>) s } else Some s2) = Some s'"
      using a False by (auto simp: disconnectServer_def Let_def fault_simps)
    have 2: "?same s s2" using s2 i
      by (auto simp: fault_simps notifySubscribers_def emit_def map_update split: option.splits intro!: list_update_same_conv[THEN iffD2])
    have f: "sfd (servers s2 ! ?i) = sfd ?v" "length (servers s2) = length (servers s)"
      using 2 i by (metis length_map nth_map)+
    have k: "keeps B F s s2" by (rule keeps_frame) (use 2 in auto)
    have "keeps B F s2 s'"
    proof (cases "sfd ?v = -1")
      case True
      then show ?thesis using r by simp
    next
      case False
      then obtain t where t: "removeFromPollFds (sfd (servers s2 ! ?i)) (poll s2) = Some t"
          "s' = s2\<lparr>poll := t, servers := (servers s2)[?i := (servers s2 ! ?i)\<lparr>sfd := -1\<rparr>]\<rparr>"
        using r i f by (auto simp: fault_simps)
      show ?thesis
        by (rule keeps_close_server[OF _ _ t(1)]) (use False f i t(2) in \<open>simp_all add: map_update\<close>)
    qed
    then show ?thesis using k keeps_trans by blast
  qed
qed

lemma freeCacheRecord_keeps: "post (freeCacheRecord p s) (keeps B F s)"
  unfolding freeCacheRecord_def
  by (intro post_cases post_pure keeps_seq post_upd_rec disconnectServer_keeps) simp_all

lemma free_record_keeps: "post (free_record p s) (keeps B F s)"
  by (rule postI) (auto simp: free_record_def intro!: keeps_frame split: if_splits)

lemma free_cnode_keeps: "post (free_cnode p s) (keeps B F s)"
  by (rule postI) (auto simp: free_cnode_def intro!: keeps_frame split: if_splits)

lemma lock_list_keeps: "post (lock_list s) (keeps B F s)"
  by (rule postI) (auto simp: lock_list_def fault_simps intro!: keeps_frame)

lemma unlock_list_keeps: "post (unlock_list s) (keeps B F s)"
  by (rule postI) (auto simp: unlock_list_def fault_simps intro!: keeps_frame)

lemma addSubscriber_keeps: "post (addSubscriber oom fd p s) (\<lambda>(x, s'). keeps B F s s')"
  unfolding addSubscriber_def
  by (rule postI) (auto simp: fault_simps Let_def intro!: keeps_frame split: option.splits if_splits prod.splits)

lemma find_record_keeps: "post (find_record fuel cur prev u ulen s) (\<lambda>(x, s'). keeps B F s s')"
proof (induction fuel cur prev u ulen s rule: find_record.induct)
  case (3 fuel p prev u ulen s)
  show ?case
  proof (rule postI, clarsimp simp: fault_simps split del: if_split)
    fix a b s' n r
    assume n: "cnodes s p = Some n" and r: "records s (nrecord n) = Some r"
      and e: "(if \<not> valid r then do {
         s \<leftarrow> freeCacheRecord (Some (nrecord n)) s;
         s \<leftarrow> free_record (nrecord n) s;
         s \<leftarrow> free_cnode p s;
         find_record fuel (nnext n) prev u ulen s }
       else do {
         same \<leftarrow> (if URL_LEN r = ulen then do { v \<leftarrow> url r; strncmp_eq v u ulen } else Some False);
         if same then Some ((Some (nrecord n), prev), s)
         else find_record fuel (nnext n) (Some p) u ulen s }) = Some ((a, b), s')"
    show "keeps B F s s'"
    proof (cases "valid r")
      case True
      then show ?thesis using e 3(2)[OF n r] by (auto simp: fault_simps post_def split: if_splits)
    next
      case False
      then obtain s1 s2 s3 where s1: "freeCacheRecord (Some (nrecord n)) s = Some s1"
          and s2: "free_record (nrecord n) s1 = Some s2" and s3: "free_cnode p s2 = Some s3"
          and e3: "find_record fuel (nnext n) prev u ulen s3 = Some ((a, b), s')"
        using e by (auto simp: fault_simps)
      have "keeps B F s3 s'" using 3(1)[OF n r _ s1 s2 s3] False e3 by (auto simp: post_def)
      moreover have "keeps B F s s3"
        using freeCacheRecord_keeps[THEN postD, OF s1] free_record_keeps[THEN postD, OF s2]
          free_cnode_keeps[THEN postD, OF s3] keeps_trans by meson
      ultimately show ?thesis using keeps_trans by blast
    qed
  qed
qed auto

text \<open>A step whose result carries a value beside the state.\<close>

lemma keeps_seq2:
  "post m (\<lambda>(x, s1). keeps B F s s1) \<Longrightarrow> (\<And>x s1. keeps B F s s1 \<Longrightarrow> m = Some (x, s1) \<Longrightarrow> post (f x s1) (keeps B F s1)) \<Longrightarrow>
     post (m \<bind> (\<lambda>(x, s1). f x s1)) (keeps B F s)"
  by (cases m) (auto intro: keeps_step)

lemma join_record_keeps: "post (join_record os i q s) (keeps B F s)"
  unfolding join_record_def
  by (intro keeps_seq keeps_seq2 post_pure post_if post_upd_client addSubscriber_keeps post_change unlock_list_keeps) simp_all

text \<open>A socket that the system hands out is not in use in this thread.\<close>

definition new_socket :: "os \<Rightarrow> proxy \<Rightarrow> bool" where
  "new_socket os s \<longleftrightarrow> 0 \<le> socket_res os \<longrightarrow> is_fd (socket_res os) \<and> watching (poll s) (socket_res os) = None"

lemma new_socket_keeps: "new_socket os s \<Longrightarrow> fd_inv B s \<Longrightarrow> keeps B {} s s1 \<Longrightarrow> new_socket os s1"
  by (auto simp: new_socket_def keeps_def dom_def)

lemma attach_server_keeps:
  assumes "is_fd fd" "fd_inv B s \<longrightarrow> watching (poll s) fd = None"
  shows "post (attach_server os i q fd s) (keeps B {fd} s)"
proof (rule postI)
  fix s' assume a: "attach_server os i q fd s = Some s'"
  have fd: "0 \<le> fd" using assms(1) by (simp add: is_fd_def)
  obtain n vs s1 s2 where f: "findFreeServer fd (servers s) = Some (n, vs)"
      and s1: "upd_server (nat n) (\<lambda>v. v\<lparr>srecord := Some q, swrite_index := 0\<rparr>) (s\<lparr>servers := vs\<rparr>) = Some s1"
      and s2: "on_poll (addFdToPollFds fd (POLLIN OR POLLOUT)) s1 = Some s2"
      and r: "(do { s \<leftarrow> upd_rec q (\<lambda>r. r\<lparr>server_index := n\<rparr>) s2;
           s \<leftarrow> upd_client i (\<lambda>c. c\<lparr>crecord := Some q\<rparr>) s;
           c \<leftarrow> get_at (clients s) i;
           (_, s) \<leftarrow> addSubscriber (no_mem os ''subscribers'') (cthread_fd c) (Some q) s;
           upd_client i (\<lambda>c. c\<lparr>cwrite_index := 0\<rparr>) s }) = Some s'"
    using a by (auto simp: attach_server_def bind_eq_Some_conv bind_assertm_eq_Some simp del: get_at_Some split: prod.splits)
  have "keeps B {fd} s s2"
  proof (cases "fd_inv B s")
    case True
    have "map sfd (servers s) \<noteq> []" using f fd by (auto simp: findFreeServer_def table_alloc_nil)
    then obtain k vs' where k: "findFreeServer fd (servers s) = Some (int k, vs')" "slot_taken fd k (map sfd (servers s)) (map sfd vs')"
      using sv.alloc_slot[OF fd] by blast
    then have e: "vs = vs'" "n = int k" using f by auto
    obtain t where t: "addFdToPollFds fd (POLLIN OR POLLOUT) (poll s) = Some t" "poll s2 = t"
        "clients s2 = clients s" "map sfd (servers s2) = map sfd vs"
      using s1 s2 by (auto simp: fault_simps map_upd_id)
    show ?thesis
      by (rule keeps_open[OF assms t(1,2), of k]) (use t(3,4) k(2) e in simp)
  qed (simp add: keeps_def)
  moreover have "post (do { s \<leftarrow> upd_rec q (\<lambda>r. r\<lparr>server_index := n\<rparr>) s2;
           s \<leftarrow> upd_client i (\<lambda>c. c\<lparr>crecord := Some q\<rparr>) s;
           c \<leftarrow> get_at (clients s) i;
           (_, s) \<leftarrow> addSubscriber (no_mem os ''subscribers'') (cthread_fd c) (Some q) s;
           upd_client i (\<lambda>c. c\<lparr>cwrite_index := 0\<rparr>) s }) (keeps B {fd} s2)"
    by (intro keeps_seq keeps_seq2 post_pure post_upd_rec post_upd_client addSubscriber_keeps) simp_all
  ultimately show "keeps B {fd} s s'" using postD[OF _ r] keeps_trans by blast
qed

lemma connect_record_keeps:
  assumes "fd_inv B s0 \<longrightarrow> new_socket os s0" "keeps B {} s0 s" "fd_inv B s0" "fd = -1 \<or> fd = socket_res os \<and> 0 \<le> fd"
  shows "post (connect_record os i q fd s) (keeps B {socket_res os} s)"
proof -
  have att: "post (attach_server os i q fd s) (keeps B {socket_res os} s)" if "fd \<noteq> -1"
    using attach_server_keeps[of fd B s os i q] new_socket_keeps[OF _ assms(3,2)] assms that by (auto simp: new_socket_def)
  have fr: "post (freeCacheRecord (Some q) s1 \<bind> disconnectClient (int i)) (keeps B {socket_res os} s1)" for s1
    by (intro keeps_seq freeCacheRecord_keeps disconnectClient_keeps)
  show ?thesis unfolding connect_record_def
    using att fr[of s] keeps_step_emit[OF fr[of "emit [Closed fd] s"]] by simp
qed

lemma connectToServerHost_fd:
  "connectToServerHost os h p = (fd, es) \<Longrightarrow> fd = -1 \<or> fd = socket_res os \<and> 0 \<le> fd"
  by (auto simp: connectToServerHost_def split: option.splits if_splits)

lemma open_record_keeps:
  assumes "fd_inv B s \<longrightarrow> new_socket os s" "fd_inv B s" "keeps B {} s s0"
  shows "post (open_record os i host reqsize q s0) (keeps B {socket_res os} s0)"
proof (rule postI)
  fix s' assume a: "open_record os i host reqsize q s0 = Some s'"
  show "keeps B {socket_res os} s0 s'"
  proof (cases "no_mem os ''request''")
    case True
    have "post (freeCacheRecord (Some q) s0 \<bind> disconnectClient (int i)) (keeps B {socket_res os} s0)"
      by (intro keeps_seq freeCacheRecord_keeps disconnectClient_keeps)
    then show ?thesis using a True by (auto simp: open_record_def post_def)
  next
    case False
    obtain bytes s1 fd es where u: "upd_rec q (\<lambda>r. r\<lparr>request := Some bytes, REQUEST_SIZE := reqsize\<rparr>) s0 = Some s1"
        and x: "connectToServerHost os (Some host) 80 = (fd, es)"
        and r: "connect_record os i q fd (emit es s1) = Some s'"
      using a False by (cases "connectToServerHost os (Some host) 80")
        (auto simp: open_record_def bind_eq_Some_conv simp del: upd_rec_Some)
    have k: "keeps B {} s0 (emit es s1)"
      using postD[OF post_upd_rec u] keeps_emit keeps_trans by blast
    have "post (connect_record os i q fd (emit es s1)) (keeps B {socket_res os} (emit es s1))"
      using connect_record_keeps[OF assms(1) keeps_trans[OF assms(3) k] assms(2)] connectToServerHost_fd[OF x] by simp
    then show ?thesis using r keeps_more[OF k, of "{socket_res os}"] keeps_trans by (auto simp: post_def)
  qed
qed

lemma add_record_keeps:
  assumes "fd_inv B s0 \<longrightarrow> new_socket os s0" "fd_inv B s0" "keeps B {} s0 s"
  shows "post (add_record os i u ulen host reqsize prev s) (keeps B {socket_res os} s)"
proof (unfold add_record_def, intro post_if post_Let keeps_seq[OF unlock_list_keeps] disconnectClient_keeps)
  fix a q s1
  assume s1: "s1 = s\<lparr>next_addr := Suc q, cnodes := (cnodes s)(a \<mapsto> \<lparr>nrecord = q, nnext = None\<rparr>),
      records := (records s)(q \<mapsto> initEmptyCacheRecord\<lparr>url := Some u, URL_LEN := ulen, valid := True\<rparr>)\<rparr>"
  have k: "keeps B F s s1" for F by (rule keeps_frame) (simp_all add: s1)
  have p: "post (case prev of None \<Rightarrow> Some (s1\<lparr>chead := Some a\<rparr>)
      | Some p \<Rightarrow> do { n \<leftarrow> cnodes s1 p; Some (s1\<lparr>cnodes := (cnodes s1)(p \<mapsto> n\<lparr>nnext := Some a\<rparr>)\<rparr>) }) (keeps B F s1)" for F
    by (intro post_option post_pure) (auto intro: keeps_frame)
  show "post (do {
        s \<leftarrow> (case prev of None \<Rightarrow> Some (s1\<lparr>chead := Some a\<rparr>)
              | Some p \<Rightarrow> do { n \<leftarrow> cnodes s1 p; Some (s1\<lparr>cnodes := (cnodes s1)(p \<mapsto> n\<lparr>nnext := Some a\<rparr>)\<rparr>) });
        s \<leftarrow> unlock_list s;
        open_record os i host reqsize q s }) (keeps B {socket_res os} s)"
  proof (rule keeps_step[OF k], rule post_bind[OF p[of "{}"]], rule post_bind[OF unlock_list_keeps[of _ B "{}"]])
    fix s2 s3 assume a: "keeps B {} s1 s2" "keeps B {} s2 s3"
    then have "keeps B {} s0 s3" "keeps B {} s1 s3" using assms(3) k[of "{}"] keeps_trans by meson+
    then show "post (open_record os i host reqsize q s3) (keeps B {socket_res os} s1)"
      using open_record_keeps[OF assms(1,2)] keeps_step keeps_more[of B "{}" s1 s3 "{socket_res os}"] by blast
  qed
qed

lemma findAndAddCacheRecord_keeps:
  assumes "fd_inv B s0 \<longrightarrow> new_socket os s0" "fd_inv B s0" "keeps B {} s0 s"
  shows "post (findAndAddCacheRecord os u ulen i host reqsize s) (keeps B {socket_res os} s)"
proof (unfold findAndAddCacheRecord_def, rule post_bind[OF lock_list_keeps[of _ B "{}"]])
  fix s1 assume k1: "keeps B {} s s1"
  show "post (find_record (next_addr s1) (chead s1) None u ulen s1 \<bind>
      (\<lambda>((found, prev), s). case found of None \<Rightarrow> add_record os i u ulen host reqsize prev s | Some q \<Rightarrow> join_record os i q s))
      (keeps B {socket_res os} s)"
  proof (rule post_bind[OF find_record_keeps[of _ _ _ _ _ _ B "{}"]], clarsimp)
    fix found prev s2 assume k2: "keeps B {} s1 s2"
    then have k: "keeps B {} s s2" "keeps B {} s0 s2" using k1 assms(3) keeps_trans by meson+
    have "post (case found of None \<Rightarrow> add_record os i u ulen host reqsize prev s2 | Some q \<Rightarrow> join_record os i q s2)
        (keeps B {socket_res os} s2)"
      by (intro post_option join_record_keeps add_record_keeps[OF assms(1,2) k(2)])
    then show "post (case found of None \<Rightarrow> add_record os i u ulen host reqsize prev s2 | Some q \<Rightarrow> join_record os i q s2)
        (keeps B {socket_res os} s)"
      using keeps_step keeps_more[OF k(1), of "{socket_res os}"] by blast
  qed
qed

lemma shiftRequest_keeps: "post (shiftRequest n pret s) (keeps B F s)"
  unfolding shiftRequest_def
  by (intro post_cases post_pure post_upd_client) simp_all

lemma append_request_keeps: "post (append_request os i bs s) (\<lambda>(x, s'). keeps B F s s')"
proof -
  have b: "post (append_bytes i bs c s) (keeps B F s)" if "cfd c = cfd (clients s ! i)" for c
    by (rule postI) (auto simp: append_bytes_def fault_simps Let_def map_update that
        intro!: keeps_frame list_update_same_conv[THEN iffD2] split: prod.splits if_splits)
  show ?thesis
  proof (rule postI, clarsimp simp: append_request_def fault_simps split del: if_split)
    fix x s'
    assume i: "i < length (clients s)" and a: "(if CREQUEST_SIZE (clients s ! i) = 0 then
       (if no_mem os ''client_request'' then do {
          s \<leftarrow> upd_client i (\<lambda>c. c\<lparr>CREQUEST_SIZE := BUFSIZ, crequest := None\<rparr>) s;
          s \<leftarrow> disconnectClient (int i) s;
          Some (True, s) }
        else do {
          s \<leftarrow> append_bytes i bs ((clients s ! i)\<lparr>CREQUEST_SIZE := BUFSIZ, crequest := Some (replicate BUFSIZ (CHR 0x00))\<rparr>) s;
          Some (False, s) })
     else do { s \<leftarrow> append_bytes i bs (clients s ! i) s; Some (False, s) }) = Some (x, s')"
    have d: "post (upd_client i (\<lambda>c. c\<lparr>CREQUEST_SIZE := BUFSIZ, crequest := None\<rparr>) s \<bind> disconnectClient (int i)) (keeps B F s)"
      by (intro keeps_seq post_upd_client disconnectClient_keeps) simp
    show "keeps B F s s'"
      using a b[of "(clients s ! i)\<lparr>CREQUEST_SIZE := BUFSIZ, crequest := Some (replicate BUFSIZ (CHR 0x00))\<rparr>"] b[of "clients s ! i"] d
      by (auto simp: post_def bind_eq_Some_conv split: if_splits)
  qed
qed

lemma serve_request_keeps:
  assumes "fd_inv B s0 \<longrightarrow> new_socket os s0" "fd_inv B s0" "keeps B {} s0 s"
  shows "post (serve_request os i pret req s) (keeps B {socket_res os} s)"
  unfolding serve_request_def
  by (intro post_pure post_if post_option keeps_seq[OF findAndAddCacheRecord_keeps[OF assms]]
      disconnectClient_keeps shiftRequest_keeps)

lemma readFromClient_keeps:
  assumes "new_socket os s" "fd_inv B s"
  shows "post (readFromClient os n s) (keeps B {socket_res os} s)"
proof -
  have tail: "post (append_request os (nat n) bs s \<bind> (\<lambda>(failed, s).
      if failed then Some s
      else do {
        c \<leftarrow> get_at (clients s) (nat n);
        buf \<leftarrow> crequest c;
        case phr_parse_request (take (crequest_index c) buf) 100 0 of
          Ok (pret, req) \<Rightarrow> serve_request os (nat n) pret req s
        | Ret r \<Rightarrow> if r = -1 then disconnectClient n s else Some s
        | Oob \<Rightarrow> None })) (keeps B {socket_res os} s)" for bs
  proof (rule post_bind[OF append_request_keeps[of _ _ _ _ B "{}"]], clarify)
    fix failed s1 assume k: "keeps B {} s s1"
    have "post (if failed then Some s1
      else do {
        c \<leftarrow> get_at (clients s1) (nat n);
        buf \<leftarrow> crequest c;
        case phr_parse_request (take (crequest_index c) buf) 100 0 of
          Ok (pret, req) \<Rightarrow> serve_request os (nat n) pret req s1
        | Ret r \<Rightarrow> if r = -1 then disconnectClient n s1 else Some s1
        | Oob \<Rightarrow> None }) (keeps B {socket_res os} s1)"
      using serve_request_keeps[OF _ assms(2) k] assms(1) disconnectClient_keeps
      by (intro post_if post_pure) (auto split: scan.split)
    then show "post (if failed then Some s1
      else do {
        c \<leftarrow> get_at (clients s1) (nat n);
        buf \<leftarrow> crequest c;
        case phr_parse_request (take (crequest_index c) buf) 100 0 of
          Ok (pret, req) \<Rightarrow> serve_request os (nat n) pret req s1
        | Ret r \<Rightarrow> if r = -1 then disconnectClient n s1 else Some s1
        | Oob \<Rightarrow> None }) (keeps B {socket_res os} s)"
      by (rule keeps_step[OF keeps_more[OF k], rotated]) simp
  qed
  show ?thesis unfolding readFromClient_def Let_def
    by (rule post_if, simp, rule post_pure, rule post_if, simp, rule post_option, rule disconnectClient_keeps,
        rule post_list, rule disconnectClient_keeps, rule tail)
qed

lemma writeToServer_keeps: "post (writeToServer os n s) (keeps B F s)"
proof -
  have "post (do { wi \<leftarrow> int_add a b; s \<leftarrow> upd_server i (\<lambda>v. v\<lparr>swrite_index := wi\<rparr>) (emit es s);
      if int_to_size wi = k then on_poll (changeEventForFd fd POLLIN) s else Some s }) (keeps B F s)" for a b i es k fd
    by (rule post_pure, rule keeps_step_emit[where es = es])
       (intro keeps_seq post_upd_server post_if post_change; simp)
  note w = this
  show ?thesis unfolding writeToServer_def Let_def
    by (rule post_if, simp, rule post_pure, rule post_if, simp, (rule post_pure)+, rule post_if,
        rule disconnectServer_keeps, rule w)
qed

lemma finish_response_keeps: "post (finish_response n q s) (keeps B F s)"
  unfolding finish_response_def
  by (intro keeps_seq post_upd_rec post_pure notifySubscribers_keeps disconnectServer_keeps)

lemma store_response_keeps: "post (store_response q bs s) (keeps B F s)"
  unfolding store_response_def
  by (intro post_pure post_if keeps_seq[OF post_upd_rec] keeps_seq[OF notifySubscribers_keeps] post_upd_rec) simp_all

lemma receive_response_keeps: "post (receive_response os n q bs s) (keeps B F s)"
proof -
  have "post (do { s \<leftarrow> upd_rec q f s; s \<leftarrow> disconnectServer n s; v \<leftarrow> get_at (servers s) (nat n); p \<leftarrow> srecord v;
      r \<leftarrow> records s p; assertm (valid_rw_lock r) \<bind> (\<lambda>_. Some s) }) (keeps B F s)" for f
    by (rule keeps_seq[OF post_upd_rec], rule keeps_seq[OF disconnectServer_keeps]) (intro post_pure, simp)
  note w = this
  show ?thesis unfolding receive_response_def
    by (rule post_pure, rule post_pure, rule post_if, rule post_if, rule w, rule keeps_seq[OF post_upd_rec],
        (rule store_response_keeps)+)
qed

lemma readFromServer_keeps: "post (readFromServer os n s) (keeps B F s)"
  unfolding readFromServer_def
  by (intro post_cases post_pure finish_response_keeps receive_response_keeps) simp_all

lemma writeToClient_keeps: "post (writeToClient os n s) (keeps B F s)"
proof -
  have w: "post (do { wi \<leftarrow> int_add a b; s \<leftarrow> upd_client i (\<lambda>v. v\<lparr>cwrite_index := wi\<rparr>) (emit es s);
      if int_to_size wi = k then on_poll (changeEventForFd fd POLLIN) s else Some s }) (keeps B F s)" for a b i es k fd
    by (rule post_pure, rule keeps_step_emit[where es = es])
       (intro keeps_seq post_upd_client post_if post_change; simp)
  have "post (freeCacheRecord p s \<bind> disconnectClient n) (keeps B F s)" for p
    by (intro keeps_seq freeCacheRecord_keeps disconnectClient_keeps)
  note f = this
  show ?thesis unfolding writeToClient_def Let_def
    by (rule post_if, simp, rule post_pure, rule post_if, simp, rule post_option, rule disconnectClient_keeps,
        rule post_pure, rule post_if, rule f, (rule post_pure)+, rule post_if, rule disconnectClient_keeps, rule w)
qed

lemma wake_clients_keeps: "post (wake_clients js s) (keeps B F s)"
proof (induction js arbitrary: s)
  case (Cons j js)
  have "post (do { s \<leftarrow> on_poll (changeEventForFd fd e) s;
      s \<leftarrow> (if b then upd_client j (\<lambda>c. c\<lparr>cwrite_index := 0\<rparr>) s else Some s);
      wake_clients js s }) (keeps B F s)" for fd e b
    by (rule keeps_seq[OF post_change], rule keeps_seq) (use Cons.IH in \<open>auto intro!: post_upd_client\<close>)
  note w = this
  show ?case unfolding wake_clients.simps
    by (rule post_pure, rule post_option, rule Cons.IH, (rule post_pure)+, rule post_if, rule w, rule Cons.IH)
qed simp

lemma adopt_client_keeps:
  assumes "is_fd fd" "watching (poll (px p)) fd = None" "adopt_client fd p = Some p'"
  shows "keeps B {fd} (px p) (px p')"
proof (cases "fd_inv B (px p)")
  case True
  have fd: "0 \<le> fd" using assms(1) by (simp add: is_fd_def)
  have "map cfd (clients (px p)) \<noteq> []"
    using assms(3) fd by (auto simp: adopt_client_def findFreeClient_def table_alloc_nil)
  then obtain k cs where k: "findFreeClient fd (clients (px p)) = Some (int k, cs)" "slot_taken fd k (map cfd (clients (px p))) (map cfd cs)"
    using cl.alloc_slot[OF fd] by blast
  obtain t where t: "addFdToPollFds fd POLLIN (poll (px p)) = Some t" "poll (px p') = t"
      "servers (px p') = servers (px p)" "map cfd (clients (px p')) = map cfd cs"
    using assms(3) k(1) by (auto simp: adopt_client_def fault_simps map_upd_id)
  show ?thesis by (rule keeps_open[OF assms(1) _ t(1,2), of B k]) (use assms(2) t(3,4) k(2) in auto)
qed (simp add: keeps_def)

subsection \<open>Reachable states of a pool thread\<close>

text \<open>
  The steps of one thread on its own tables: it adopts a descriptor from the queue, serves a slot
  of its poll table, or another thread changes the shared cache.
\<close>

inductive thread_step :: "pool \<Rightarrow> pool \<Rightarrow> bool" where
  adopt: "adopt_client fd p = Some p' \<Longrightarrow> is_fd fd \<Longrightarrow> watching (poll (px p)) fd = None \<Longrightarrow> thread_step p p'"
| from_client: "on_px (readFromClient os n) p = Some p' \<Longrightarrow> new_socket os (px p) \<Longrightarrow> thread_step p p'"
| from_server: "on_px (readFromServer os n) p = Some p' \<Longrightarrow> thread_step p p'"
| to_client: "on_px (writeToClient os n) p = Some p' \<Longrightarrow> thread_step p p'"
| to_server: "on_px (writeToServer os n) p = Some p' \<Longrightarrow> thread_step p p'"
| wake: "on_px (\<lambda>s. wake_clients [0..<length (clients s)] s) p = Some p' \<Longrightarrow> thread_step p p'"
| other_thread: "poll (px p') = poll (px p) \<Longrightarrow> clients (px p') = clients (px p) \<Longrightarrow> servers (px p') = servers (px p) \<Longrightarrow>
    thread_fd p' = thread_fd p \<Longrightarrow> thread_step p p'"

inductive reachable :: "pool \<Rightarrow> pool \<Rightarrow> bool" for p0 :: pool where
  start: "reachable p0 p0"
| step: "reachable p0 p \<Longrightarrow> thread_step p p' \<Longrightarrow> reachable p0 p'"

lemma on_px_keeps: "(\<And>s. post (f s) (keeps B F s)) \<Longrightarrow> on_px f p = Some p' \<Longrightarrow> keeps B F (px p) (px p')"
  by (auto simp: on_px_def fault_simps post_def)

lemma thread_step_keeps:
  assumes "thread_step p p'" "fd_inv B (px p)"
  shows "fd_inv B (px p') \<and> set (owned (px p)) \<subseteq> set (owned (px p')) \<union> set (closed (poll (px p'))) \<and>
    set (closed (poll (px p))) \<subseteq> set (closed (poll (px p')))"
  using assms
proof cases
  case (adopt fd)
  then show ?thesis using adopt_client_keeps[of fd p p' B] assms(2) by (simp add: keeps_def)
next
  case (from_client os n)
  then obtain s' where "readFromClient os n (px p) = Some s'" "px p' = s'" by (auto simp: on_px_def fault_simps)
  then show ?thesis using readFromClient_keeps[of os "px p" B n] from_client(2) assms(2) by (simp add: keeps_def post_def)
next
  case (from_server os n)
  then show ?thesis using on_px_keeps[where f = "readFromServer os n" and B = B and F = "{}", OF readFromServer_keeps, of p p'] assms(2) by (simp add: keeps_def)
next
  case (to_client os n)
  then show ?thesis using on_px_keeps[where f = "writeToClient os n" and B = B and F = "{}", OF writeToClient_keeps, of p p'] assms(2) by (simp add: keeps_def)
next
  case (to_server os n)
  then show ?thesis using on_px_keeps[where f = "writeToServer os n" and B = B and F = "{}", OF writeToServer_keeps, of p p'] assms(2) by (simp add: keeps_def)
next
  case wake
  then show ?thesis using on_px_keeps[of "\<lambda>s. wake_clients [0..<length (clients s)] s" B "{}" p p'] wake_clients_keeps assms(2)
    by (simp add: keeps_def)
next
  case other_thread
  then show ?thesis using keeps_frame[of "px p'" "px p" B "{}"] assms(2) by (simp add: keeps_def)
qed

lemma thread_start_inv:
  assumes "thread_start efd oom sp tq s = Some (Inr p)" "is_fd efd" "is_fd (get_rfd_spipe sp)" "efd \<noteq> get_rfd_spipe sp"
  shows "fd_inv {get_rfd_spipe sp, efd} (px p) \<and> owned (px p) = []"
proof -
  let ?r = "get_rfd_spipe sp"
  obtain t0 where t0: "initPollFds False 8 = Some t0" by (simp add: initPollFds_def)
  have i: "poll_ok t0" "watching t0 = Map.empty" using init_poll_ok[OF _ t0] by auto
  obtain t1 where t1: "addFdToPollFds ?r POLLIN t0 = Some t1" "poll_ok t1" "watching t1 = [?r \<mapsto> POLLIN]"
    using add_watching[OF i(1) assms(3), of POLLIN] i(2) by auto
  obtain t2 where t2: "addFdToPollFds efd POLLIN t1 = Some t2" "poll_ok t2" "watching t2 = [?r \<mapsto> POLLIN, efd \<mapsto> POLLIN]"
    using add_watching[OF t1(2) assms(2), of POLLIN] t1(3) assms(4) by auto
  have p: "poll (px p) = t2 \<and> clients (px p) = replicate 8 initEmptyClient \<and> servers (px p) = replicate 4 initEmptyServer"
    using assms(1) t0 t1(1) t2(1)
    by (auto simp: thread_start_def initPollFds_def initClients_def initServers_def fault_simps split: if_splits)
  have o: "owned (px p) = []" using p by (simp add: owned_def live_def initEmptyClient_def initEmptyServer_def)
  show ?thesis using p o t2(2,3) by (auto simp: fd_inv_def)
qed

lemma reachable_inv:
  assumes "thread_start efd oom sp tq s = Some (Inr p0)" "is_fd efd" "is_fd (get_rfd_spipe sp)" "efd \<noteq> get_rfd_spipe sp"
    "reachable p0 p"
  shows "fd_inv {get_rfd_spipe sp, efd} (px p)"
  using assms(5)
proof (induction rule: reachable.induct)
  case start
  then show ?case using thread_start_inv[OF assms(1-4)] by simp
next
  case (step p p')
  then show ?case using thread_step_keeps by blast
qed


end
