(* ===== verification/FdShutdown.thy ===== *)
theory FdShutdown
  imports FdInvariant
begin

text \<open>
  The end of a pool thread: the loops of \<open>destroyServers\<close>, \<open>destroyClients\<close> and
  \<open>destroyPollFds\<close> close every descriptor the thread holds. The \<open>demo_\<close> definitions are a small
  process on which the theorems about reachable states are applied.
\<close>

subsection \<open>Shutdown\<close>

text \<open>Every connected server feeds a record that is alive; the loop follows its pointer.\<close>

definition servers_live :: "proxy \<Rightarrow> bool" where
  "servers_live s \<longleftrightarrow> (\<forall>v \<in> set (servers s). sfd v \<noteq> -1 \<longrightarrow> srecord v \<in> Some ` dom (records s))"

lemma destroy_server_slot:
  assumes "fd_inv B s" "servers_live s" "j < length (servers s)" "sfd (servers s ! j) \<noteq> -1"
  shows "\<exists>q t. srecord (servers s ! j) = Some q \<and> removeFromPollFds (sfd (servers s ! j)) (poll s) = Some t \<and>
    records s q \<noteq> None"
proof -
  have "sfd (servers s ! j) \<in> set (owned s)" using assms(3,4) by (simp add: owned_def live_mem)
  then have "is_fd (sfd (servers s ! j))" "poll_ok (poll s)" using assms(1) by (auto simp: fd_inv_def)
  moreover have "\<exists>q. srecord (servers s ! j) = Some q \<and> records s q \<noteq> None"
    using assms(2-4) by (fastforce simp: servers_live_def)
  ultimately show ?thesis using remove_watching by blast
qed

lemma destroy_servers_loop_ok:
  "fd_inv B s \<Longrightarrow> servers_live s \<Longrightarrow> \<forall>j \<in> set js. j < length (servers s) \<Longrightarrow>
   \<exists>s'. destroy_servers_loop js s = Some s' \<and> keeps B {} s s' \<and> clients s' = clients s \<and>
     length (servers s') = length (servers s) \<and>
     (\<forall>j < length (servers s). j \<in> set js \<or> sfd (servers s ! j) = -1 \<longrightarrow> sfd (servers s' ! j) = -1)"
proof (induction js arbitrary: s)
  case (Cons j js)
  have j: "j < length (servers s)" using Cons.prems by simp
  show ?case
  proof (cases "sfd (servers s ! j) = -1")
    case True
    then show ?thesis using Cons.IH[OF Cons.prems(1,2)] Cons.prems(3) j by auto
  next
    case False
    obtain q t r where q: "srecord (servers s ! j) = Some q" "removeFromPollFds (sfd (servers s ! j)) (poll s) = Some t"
        "records s q = Some r" using destroy_server_slot[OF Cons.prems(1,2) j False] by auto
    let ?s = "s\<lparr>poll := t, records := (records s)(q \<mapsto> r\<lparr>server_index := -1\<rparr>),
        servers := (servers s)[j := (servers s ! j)\<lparr>srecord := None, sfd := -1\<rparr>]\<rparr>"
    have k: "keeps B {} s ?s"
      by (rule keeps_close_server[OF j False q(2)]) (simp_all add: map_update)
    have "fd_inv B ?s" using k Cons.prems(1) by (simp add: keeps_def)
    moreover have "servers_live ?s"
      using Cons.prems(2) by (auto simp: servers_live_def dest!: set_update_subset_insert[THEN subsetD])
    ultimately obtain s' where s': "destroy_servers_loop js ?s = Some s'" "keeps B {} ?s s'" "clients s' = clients s"
        "length (servers s') = length (servers s)"
        "\<forall>i < length (servers s). i \<in> set js \<or> sfd (servers ?s ! i) = -1 \<longrightarrow> sfd (servers s' ! i) = -1"
      using Cons.IH[of ?s] Cons.prems(3) by auto
    have "destroy_servers_loop (j # js) s = Some s'" using q j False s'(1) by (simp add: on_poll_def)
    moreover have "i \<in> set js \<or> sfd (servers ?s ! i) = -1"
      if "i < length (servers s)" "i \<in> set (j # js) \<or> sfd (servers s ! i) = -1" for i
      using that j by (auto simp: nth_list_update)
    ultimately show ?thesis using s'(3,4,5) keeps_trans[OF k s'(2)] by blast
  qed
qed simp

lemma destroy_clients_loop_ok:
  "fd_inv B s \<Longrightarrow> \<forall>j \<in> set js. j < length (clients s) \<Longrightarrow>
   \<exists>s'. destroy_clients_loop js s = Some s' \<and> keeps B {} s s' \<and> servers s' = servers s \<and>
     length (clients s') = length (clients s) \<and>
     (\<forall>j < length (clients s). j \<in> set js \<or> cfd (clients s ! j) = -1 \<longrightarrow> cfd (clients s' ! j) = -1)"
proof (induction js arbitrary: s)
  case (Cons j js)
  have j: "j < length (clients s)" using Cons.prems by simp
  let ?c = "clients s ! j"
  obtain s1 g where s1: "destroy_clients_loop (j # js) s = destroy_clients_loop js s1" "keeps B {} s s1"
      "servers s1 = servers s" "clients s1 = (clients s)[j := g]" "cfd g = -1"
  proof (cases "cfd ?c = -1")
    case True
    let ?g = "?c\<lparr>crequest := None, cthread_fd := -1, CREQUEST_SIZE := 0, crequest_index := 0, crecord := None, cwrite_index := -1\<rparr>"
    let ?s1 = "s\<lparr>clients := (clients s)[j := ?g]\<rparr>"
    have "destroy_clients_loop (j # js) s = destroy_clients_loop js ?s1" using True j by simp
    moreover have "keeps B {} s ?s1" by (rule keeps_frame) (simp_all add: map_upd_id)
    ultimately show ?thesis using that[of ?s1 ?g] True by simp
  next
    case False
    let ?g = "?c\<lparr>crequest := None, cfd := -1, cthread_fd := -1, CREQUEST_SIZE := 0, crequest_index := 0, crecord := None, cwrite_index := -1\<rparr>"
    have "cfd ?c \<in> set (owned s)" using j False by (simp add: owned_def live_mem)
    then have "is_fd (cfd ?c)" "poll_ok (poll s)" using Cons.prems(1) by (auto simp: fd_inv_def)
    then obtain t where t: "removeFromPollFds (cfd ?c) (poll s) = Some t" using remove_watching by blast
    let ?s1 = "s\<lparr>poll := t, clients := (clients s)[j := ?g]\<rparr>"
    have "destroy_clients_loop (j # js) s = destroy_clients_loop js ?s1"
      using False j t by (simp add: on_poll_def)
    moreover have "keeps B {} s ?s1"
      by (rule keeps_close_client[OF j False t]) (simp_all add: map_update)
    ultimately show ?thesis using that[of ?s1 ?g] by simp
  qed
  have "fd_inv B s1" using s1(2) Cons.prems(1) by (simp add: keeps_def)
  then obtain s' where s': "destroy_clients_loop js s1 = Some s'" "keeps B {} s1 s'" "servers s' = servers s"
      "length (clients s') = length (clients s)"
      "\<forall>i < length (clients s). i \<in> set js \<or> cfd (clients s1 ! i) = -1 \<longrightarrow> cfd (clients s' ! i) = -1"
    using Cons.IH[of s1] Cons.prems(2) s1(3,4) by auto
  moreover have "i \<in> set js \<or> cfd (clients s1 ! i) = -1"
    if "i < length (clients s)" "i \<in> set (j # js) \<or> cfd (clients s ! i) = -1" for i
    using that j s1(4,5) by (auto simp: nth_list_update)
  ultimately show ?case using s1(1) keeps_trans[OF s1(2) s'(2)] by auto
qed simp

lemma live_none: "(\<forall>x \<in> set xs. f x = -1) \<Longrightarrow> live (map f xs) = []"
  by (auto simp: live_def filter_empty_conv)

lemma thread_shutdown_ok:
  assumes "fd_inv B (px p)" "servers_live (px p)"
  shows "\<exists>p'. thread_shutdown p = Some p' \<and>
    set (owned (px p)) \<union> {fd \<in> B. 0 < fd} \<subseteq> set (closed (poll (px p')))"
proof -
  let ?s = "px p"
  obtain s1 where s1: "destroy_servers_loop [0..<length (servers ?s)] ?s = Some s1" "keeps B {} ?s s1"
      "clients s1 = clients ?s" "length (servers s1) = length (servers ?s)"
      "\<forall>j < length (servers ?s). sfd (servers s1 ! j) = -1"
    using destroy_servers_loop_ok[OF assms, of "[0..<length (servers ?s)]"] by auto
  let ?s1 = "s1\<lparr>servers := []\<rparr>"
  have sv: "live (map sfd (servers s1)) = []" using s1(4,5) by (auto intro!: live_none simp: in_set_conv_nth)
  then have o1: "owned ?s1 = owned s1" by (simp add: owned_def live_def)
  have i0: "fd_inv B s1" using s1(2) assms(1) by (simp add: keeps_def)
  then have i1: "fd_inv B ?s1" using o1 by (simp add: fd_inv_def)
  obtain s2 where s2: "destroy_clients_loop [0..<length (clients ?s1)] ?s1 = Some s2" "keeps B {} ?s1 s2"
      "servers s2 = []" "length (clients s2) = length (clients s1)"
      "\<forall>j < length (clients s1). cfd (clients s2 ! j) = -1"
    using destroy_clients_loop_ok[OF i1, of "[0..<length (clients ?s1)]"] by auto
  have cl: "live (map cfd (clients s2)) = []" using s2(4,5) by (auto intro!: live_none simp: in_set_conv_nth)
  have i2: "fd_inv B s2" "poll_ok (poll s2)" using s2(2) i1 by (simp_all add: keeps_def fd_inv_def)
  have o: "owned s2 = []" using cl s2(3) by (simp add: owned_def live_def)
  have c: "set (owned ?s) \<subseteq> set (closed (poll s2))"
    using s1(2) s2(2) assms(1) i1 o o1 by (auto simp: keeps_def)
  have w: "fd \<in> pfd ` set (used (poll s2))" if "fd \<in> B" "0 < fd" for fd
    using i2(1) that watching_None[of "poll s2" fd] by (auto simp: fd_inv_def)
  let ?t = "\<lparr>pfds = [], poll_last_index = -1, closed = rev (filter (\<lambda>fd. 0 < fd) (map pfd (used (poll s2)))) @ closed (poll s2)\<rparr>"
  have d: "destroyPollFds (poll s2) = Some ?t" by (rule destroyPollFds_spec[OF i2(2)])
  have "thread_shutdown p = Some (p\<lparr>px := s2\<lparr>clients := [], poll := ?t\<rparr>\<rparr>)"
    using s1(1) s2(1) d by (simp add: thread_shutdown_def on_px_def destroyServers_def destroyClients_def on_poll_def)
  then show ?thesis using c w by auto
qed


text \<open>A small process for the witnesses: wake-up pipe 4 and 5, eventfd 6, an empty cache.\<close>

definition demo_pipe :: spipe where
  "demo_pipe = \<lparr>start_fd = 4, write_fd = 5, pending = 0, open_fds = {4, 5}\<rparr>"

definition demo_cache :: proxy where
  "demo_cache = \<lparr>poll = \<lparr>pfds = [], poll_last_index = 0, closed = []\<rparr>, clients = [], servers = [],
     records = Map.empty, cnodes = Map.empty, next_addr = 0, chead = None, cmutex = Unlocked, trace = []\<rparr>"

definition demo_thread :: pool where
  "demo_thread = (case thread_start 6 (\<lambda>_. False) demo_pipe (initTaskQueue False) demo_cache of
     Some (Inr p) \<Rightarrow> p
   | _ \<Rightarrow> \<lparr>px = demo_cache, tqueue = None, wake_pipe = demo_pipe, is_stop = True, thread_fd = -1\<rparr>)"

lemma demo_start: "thread_start 6 (\<lambda>_. False) demo_pipe (initTaskQueue False) demo_cache = Some (Inr demo_thread)"
  "is_fd 6" "is_fd (get_rfd_spipe demo_pipe)" "6 \<noteq> get_rfd_spipe demo_pipe" "get_rfd_spipe demo_pipe = 4"
proof -
  have "case thread_start 6 (\<lambda>_. False) demo_pipe (initTaskQueue False) demo_cache of Some (Inr p) \<Rightarrow> True | _ \<Rightarrow> False"
    by code_simp
  then show "thread_start 6 (\<lambda>_. False) demo_pipe (initTaskQueue False) demo_cache = Some (Inr demo_thread)"
    by (auto simp: demo_thread_def split: option.splits sum.splits)
qed (simp_all add: is_fd_def INT_MAX_def get_rfd_spipe_def demo_pipe_def)

definition demo_adopted :: pool where
  "demo_adopted = (case adopt_client 7 demo_thread of Some p \<Rightarrow> p | None \<Rightarrow> demo_thread)"

lemma demo_adopted: "adopt_client 7 demo_thread = Some demo_adopted"
    "map cfd (clients (px demo_adopted)) = [7, -1, -1, -1, -1, -1, -1, -1]"
    "map sfd (servers (px demo_adopted)) = [-1, -1, -1, -1]"
proof -
  have "\<not> Option.is_none (adopt_client 7 demo_thread)" by code_simp
  then show "adopt_client 7 demo_thread = Some demo_adopted"
    by (auto simp: demo_adopted_def Option.is_none_def split: option.split)
qed (code_simp)+

lemma demo_reachable: "reachable demo_thread demo_adopted" "owned (px demo_adopted) = [7]" "servers_live (px demo_adopted)"
proof -
  have "fd_inv {4, 6} (px demo_thread)" "owned (px demo_thread) = []"
    using thread_start_inv[OF demo_start(1-4)] demo_start(5) by auto
  then have "7 \<notin> dom (watching (poll (px demo_thread)))" by (simp add: fd_inv_def)
  then have w: "watching (poll (px demo_thread)) 7 = None" by (simp add: domIff)
  have "is_fd 7" by (simp add: is_fd_def INT_MAX_def)
  then show "reachable demo_thread demo_adopted"
    using reachable.step[OF reachable.start thread_step.adopt[OF demo_adopted(1) _ w]] by blast
  show "owned (px demo_adopted) = [7]" by (simp add: owned_def demo_adopted(2,3) live_def)
  have "sfd v = -1" if "v \<in> set (servers (px demo_adopted))" for v
    using imageI[OF that, of sfd] demo_adopted(3)[THEN arg_cong, of set] by auto
  then show "servers_live (px demo_adopted)" by (simp add: servers_live_def)
qed



end
