(* ===== verification/TurnTaking.thy ===== *)
theory TurnTaking
  imports Prelude
begin

text \<open>
  What the printing labs promise: several threads print their lines strictly in turn. A program
  is given by the function that makes the next step of one thread (\<open>None\<close>: the thread is blocked or
  has ended); a schedule is any sequence of thread numbers. \<open>turn_taking\<close> asks for an invariant
  under which each step prints nothing or the line that is next, and under which some thread can
  step until all lines are out; \<open>bounded_turns\<close> adds a rank that each step lowers. The lemmas: the
  output is always a prefix of the round-robin sequence, no schedule runs into a deadlock, and
  every schedule ends after a bounded number of steps with all lines printed.
\<close>

text \<open>The \<open>k\<close>-th line of \<open>n\<close> threads in turn; \<open>line t i\<close> is what thread \<open>t\<close> prints in its turn \<open>i\<close>.\<close>

definition turn :: "nat \<Rightarrow> (nat \<Rightarrow> nat \<Rightarrow> nat) \<Rightarrow> nat \<Rightarrow> nat \<times> nat" where
  "turn n line k = (k mod n, line (k mod n) (k div n))"

definition round_robin :: "nat \<Rightarrow> (nat \<Rightarrow> nat \<Rightarrow> nat) \<Rightarrow> nat \<Rightarrow> (nat \<times> nat) list" where
  "round_robin n line k = map (turn n line) [0..<k]"

lemma round_robin_Suc: "round_robin n line (Suc k) = round_robin n line k @ [turn n line k]"
  by (simp add: round_robin_def)

lemma round_robin_length [simp]: "length (round_robin n line k) = k"
  by (simp add: round_robin_def)

lemma round_robin_take: "j \<le> k \<Longrightarrow> take j (round_robin n line k) = round_robin n line j"
  by (simp add: round_robin_def take_map)

text \<open>A schedule; a thread that cannot step stops the run with \<open>None\<close>.\<close>

fun run_schedule :: "(nat \<Rightarrow> 's \<Rightarrow> 's option) \<Rightarrow> nat list \<Rightarrow> 's \<Rightarrow> 's option" where
  "run_schedule step [] s = Some s"
| "run_schedule step (t # ts) s = step t s \<bind> run_schedule step ts"

text \<open>What every step keeps holds after every schedule, and a measure that every step lowers bounds their length.\<close>

locale steps =
  fixes n :: nat and step :: "nat \<Rightarrow> 's \<Rightarrow> 's option" and inv :: "'s \<Rightarrow> bool"
  assumes step_inv: "inv s \<Longrightarrow> t < n \<Longrightarrow> step t s = Some s' \<Longrightarrow> inv s'"
begin

lemma run_inv: "inv s \<Longrightarrow> set ts \<subseteq> {..<n} \<Longrightarrow> run_schedule step ts s = Some s' \<Longrightarrow> inv s'"
  by (induction ts arbitrary: s) (auto simp: fault_simps dest: step_inv)

end

locale bounded_steps = steps n step inv
  for n :: nat and step :: "nat \<Rightarrow> 's \<Rightarrow> 's option" and inv :: "'s \<Rightarrow> bool" +
  fixes rank :: "'s \<Rightarrow> nat"
  assumes step_rank: "inv s \<Longrightarrow> t < n \<Longrightarrow> step t s = Some s' \<Longrightarrow> rank s' < rank s"
begin

lemma run_bounded:
  "inv s \<Longrightarrow> set ts \<subseteq> {..<n} \<Longrightarrow> run_schedule step ts s = Some s' \<Longrightarrow> length ts + rank s' \<le> rank s"
proof (induction ts arbitrary: s)
  case (Cons t ts)
  obtain s1 where s1: "step t s = Some s1" "run_schedule step ts s1 = Some s'" and t: "t < n"
    using Cons.prems by (auto simp: fault_simps)
  then show ?case
    using Cons.IH[of s1] step_inv[OF Cons.prems(1) t s1(1)] step_rank[OF Cons.prems(1) t s1(1)] Cons.prems(2) by auto
qed simp

text \<open>Every state can be run to one where nothing can go on.\<close>

lemma run_to_end:
  "inv s \<Longrightarrow> \<exists>us s'. set us \<subseteq> {..<n} \<and> run_schedule step us s = Some s' \<and> (\<forall>t < n. step t s' = None)"
proof (induction "rank s" arbitrary: s rule: less_induct)
  case less
  show ?case
  proof (cases "\<forall>t < n. step t s = None")
    case True
    then show ?thesis by (intro exI[of _ "[]"] exI[of _ s]) simp
  next
    case False
    then obtain t s1 where t: "t < n" "step t s = Some s1" by auto
    obtain us s' where "set us \<subseteq> {..<n}" "run_schedule step us s1 = Some s'" "\<forall>t < n. step t s' = None"
      using less.hyps[OF step_rank[OF less.prems t]] step_inv[OF less.prems t] by blast
    then show ?thesis using t by (intro exI[of _ "t # us"] exI[of _ s']) simp
  qed
qed

end

locale turn_taking =
  fixes n :: nat and lines :: nat
    and line :: "nat \<Rightarrow> nat \<Rightarrow> nat"
    and step :: "nat \<Rightarrow> 's \<Rightarrow> 's option"
    and out :: "'s \<Rightarrow> (nat \<times> nat) list"
    and inv :: "'s \<Rightarrow> bool"
    and init :: 's
  assumes inv_init: "inv init" and out_init: "out init = []"
    and step_inv: "inv s \<Longrightarrow> t < n \<Longrightarrow> step t s = Some s' \<Longrightarrow> inv s'"
    and step_out: "inv s \<Longrightarrow> t < n \<Longrightarrow> step t s = Some s' \<Longrightarrow>
      out s' = out s \<or> out s' = out s @ [turn n line (length (out s))]"
    and progress: "inv s \<Longrightarrow> (\<exists>t < n. step t s \<noteq> None) \<or> length (out s) = n * lines"
begin

lemma run_from:
  "inv s \<Longrightarrow> out s = round_robin n line (length (out s)) \<Longrightarrow> set ts \<subseteq> {..<n} \<Longrightarrow> run_schedule step ts s = Some s' \<Longrightarrow>
     inv s' \<and> out s' = round_robin n line (length (out s'))"
proof (induction ts arbitrary: s)
  case (Cons t ts)
  obtain s1 where s1: "step t s = Some s1" "run_schedule step ts s1 = Some s'" and t: "t < n"
    using Cons.prems by (auto simp: fault_simps)
  have "out s1 = round_robin n line (length (out s1))"
    using step_out[OF Cons.prems(1) t s1(1)] Cons.prems(2) by (auto simp: round_robin_Suc)
  then show ?case using Cons.IH[of s1] step_inv[OF Cons.prems(1) t s1(1)] Cons.prems(3) s1(2) by simp
qed simp

lemma in_turn:
  "set ts \<subseteq> {..<n} \<Longrightarrow> run_schedule step ts init = Some s \<Longrightarrow> out s = round_robin n line (length (out s))"
  using run_from[of init ts s] inv_init out_init by (simp add: round_robin_def)

lemma not_stuck:
  "set ts \<subseteq> {..<n} \<Longrightarrow> run_schedule step ts init = Some s \<Longrightarrow> \<forall>t < n. step t s = None \<Longrightarrow>
     out s = round_robin n line (n * lines)"
  using run_from[of init ts s] inv_init out_init progress[of s] by (auto simp: round_robin_def)

end

locale bounded_turns = turn_taking n lines line step out inv init
  for n lines :: nat and line :: "nat \<Rightarrow> nat \<Rightarrow> nat" and step :: "nat \<Rightarrow> 's \<Rightarrow> 's option"
    and out :: "'s \<Rightarrow> (nat \<times> nat) list" and inv :: "'s \<Rightarrow> bool" and init :: 's +
  fixes rank :: "'s \<Rightarrow> nat"
  assumes step_rank: "inv s \<Longrightarrow> t < n \<Longrightarrow> step t s = Some s' \<Longrightarrow> rank s' < rank s"

sublocale bounded_turns \<subseteq> ends: bounded_steps n step inv rank
  by unfold_locales (use step_inv step_rank in blast)+

context bounded_turns begin

text \<open>Every run can be continued to one that prints everything, and no run is longer than the rank.\<close>

lemma completes:
  "set ts \<subseteq> {..<n} \<Longrightarrow> run_schedule step ts init = Some s \<Longrightarrow>
     length ts \<le> rank init \<and>
     (\<exists>us s'. set us \<subseteq> {..<n} \<and> run_schedule step us s = Some s' \<and> out s' = round_robin n line (n * lines))"
proof -
  assume a: "set ts \<subseteq> {..<n}" "run_schedule step ts init = Some s"
  have i: "inv s" "out s = round_robin n line (length (out s))"
    using run_from[OF inv_init _ a] out_init by (simp_all add: round_robin_def)
  obtain us s' where us: "set us \<subseteq> {..<n}" "run_schedule step us s = Some s'" "\<forall>t < n. step t s' = None"
    using ends.run_to_end[OF i(1)] by blast
  then have "inv s'" "out s' = round_robin n line (length (out s'))" using run_from[OF i us(1,2)] by simp_all
  then have "out s' = round_robin n line (n * lines)" using progress[of s'] us(3) by auto
  then show ?thesis using ends.run_bounded[OF inv_init a] us by auto
qed

lemma correct:
  "set ts \<subseteq> {..<n} \<Longrightarrow> run_schedule step ts init = Some s \<Longrightarrow>
     out s = round_robin n line (length (out s)) \<and> length ts \<le> rank init \<and>
     ((\<forall>t < n. step t s = None) \<longrightarrow> out s = round_robin n line (n * lines))"
  using in_turn not_stuck completes by blast

end

end
