(* ===== verification/SemPrinting.thy ===== *)
theory SemPrinting
  imports TurnTaking
begin

text \<open>
  The labs that print in turn with semaphores: \<open>matsko/14_sync_output_sem\<close> (the same file as
  \<open>shuvalov/14\<close>), \<open>arkhipov/14\<close>, \<open>rybalko/16\<close> and \<open>Shunina/lab14\<close>. All of them run the loop
  \<open>for (i...) { sem_wait(own); print; sem_post(next); }\<close> in every thread; a thread is a program
  counter with the index of its loop, and one step is one call (or one test of the loop condition).
  The programs differ in the number of threads and lines, in what is printed, and in how the first
  thread gets its turn; the theorems are instances of \<open>bounded_turns\<close>.
\<close>

lemma two_threads: "(t::nat) < 2 \<Longrightarrow> t = 0 \<or> t = 1"
  by auto

subsection \<open>The loop\<close>

datatype pc = Start | Loop nat | Wait nat | Print nat | Post nat | Done

record ring =
  sems :: "nat list"
  pcs :: "pc list"
  printed :: "(nat \<times> nat) list"

record ring_prog =
  threads :: nat
  num_lines :: nat
  line_no :: "nat \<Rightarrow> nat \<Rightarrow> nat"

definition sem_post :: "nat \<Rightarrow> 'a ring_scheme \<Rightarrow> 'a ring_scheme option" where
  "sem_post i s = do {
     v \<leftarrow> get_at (sems s) i;
     vs \<leftarrow> put_at (sems s) i (v + 1);
     Some (s\<lparr>sems := vs\<rparr>) }"

text \<open>\<open>sem_wait\<close> blocks at zero.\<close>

definition sem_wait :: "nat \<Rightarrow> 'a ring_scheme \<Rightarrow> 'a ring_scheme option" where
  "sem_wait i s = do {
     v \<leftarrow> get_at (sems s) i;
     assertm (0 < v);
     vs \<leftarrow> put_at (sems s) i (v - 1);
     Some (s\<lparr>sems := vs\<rparr>) }"

definition goto :: "nat \<Rightarrow> pc \<Rightarrow> 'a ring_scheme \<Rightarrow> 'a ring_scheme" where
  "goto t p s = s\<lparr>pcs := (pcs s)[t := p]\<rparr>"

definition ring_step :: "ring_prog \<Rightarrow> nat \<Rightarrow> 'a ring_scheme \<Rightarrow> 'a ring_scheme option" where
  "ring_step P t s = do {
     p \<leftarrow> get_at (pcs s) t;
     case p of
       Start \<Rightarrow> do { s \<leftarrow> sem_post 0 s; Some (goto t (Loop 0) s) }
     | Loop i \<Rightarrow> Some (goto t (if i < num_lines P then Wait i else Done) s)
     | Wait i \<Rightarrow> do { s \<leftarrow> sem_wait t s; Some (goto t (Print i) s) }
     | Print i \<Rightarrow> Some (goto t (Post i) (s\<lparr>printed := printed s @ [(t, line_no P t i)]\<rparr>))
     | Post i \<Rightarrow> do { s \<leftarrow> sem_post ((t + 1) mod threads P) s; Some (goto t (Loop (i + 1)) s) }
     | Done \<Rightarrow> None }"

subsection \<open>The invariant\<close>

text \<open>How many of the first \<open>k\<close> lines are thread \<open>t\<close>'s.\<close>

definition lines_of :: "nat \<Rightarrow> nat \<Rightarrow> nat \<Rightarrow> nat" where
  "lines_of n k t = k div n + (if t < k mod n then 1 else 0)"

lemma lines_of_Suc: "t < n \<Longrightarrow> lines_of n (Suc k) t = lines_of n k t + (if t = k mod n then 1 else 0)"
  by (auto simp: lines_of_def div_Suc mod_Suc)

lemma lines_of_turn: "lines_of n k (k mod n) = k div n"
  by (simp add: lines_of_def)

text \<open>Where the right to print is: not yet given, in a semaphore, or with a thread.\<close>

datatype token = Unborn | InSem | Printing | Posting

definition waits :: "nat \<Rightarrow> nat \<Rightarrow> pc \<Rightarrow> bool" where
  "waits L c p \<longleftrightarrow> p = Loop c \<or> (p = Wait c \<and> c < L) \<or> (p = Done \<and> L \<le> c)"

definition pc_ok :: "nat \<Rightarrow> nat \<Rightarrow> token \<Rightarrow> nat \<Rightarrow> nat \<Rightarrow> pc \<Rightarrow> bool" where
  "pc_ok n L h k t p \<longleftrightarrow>
     (case h of
        Unborn \<Rightarrow> if t = 0 then p = Start else waits L (lines_of n k t) p
      | InSem \<Rightarrow> waits L (lines_of n k t) p
      | Printing \<Rightarrow> if t = k mod n then p = Print (k div n) else waits L (lines_of n k t) p
      | Posting \<Rightarrow> if t = (k - 1) mod n then p = Post ((k - 1) div n) else waits L (lines_of n k t) p)"

definition token_ok :: "nat \<Rightarrow> nat \<Rightarrow> token \<Rightarrow> nat \<Rightarrow> bool" where
  "token_ok n L h k \<longleftrightarrow>
     (case h of Unborn \<Rightarrow> k = 0 | InSem \<Rightarrow> k \<le> n * L | Printing \<Rightarrow> k < n * L | Posting \<Rightarrow> 0 < k \<and> k \<le> n * L)"

definition ring_ok :: "nat \<Rightarrow> nat \<Rightarrow> token \<Rightarrow> nat \<Rightarrow> nat list \<Rightarrow> pc list \<Rightarrow> bool" where
  "ring_ok n L h k sm ps \<longleftrightarrow> 0 < n \<and> length ps = n \<and> token_ok n L h k \<and>
     sm = (replicate n 0)[k mod n := if h = InSem then 1 else 0] \<and> (\<forall>t < n. pc_ok n L h k t (ps ! t))"


definition ring_inv :: "nat \<Rightarrow> nat \<Rightarrow> 'a ring_scheme \<Rightarrow> bool" where
  "ring_inv n L s \<longleftrightarrow> (\<exists>h. ring_ok n L h (length (printed s)) (sems s) (pcs s))"

lemma replicate_update_same [simp]: "(replicate n x)[i := x] = replicate n x"
  by (induction n arbitrary: i) (auto split: nat.splits)

lemma ring_ok_update:
  assumes "ring_ok n L h k sm ps" "t < n"
    and "token_ok n L h' k'" "sm' = (replicate n 0)[k' mod n := if h' = InSem then 1 else 0]"
    and "pc_ok n L h' k' t p"
    and "\<And>u q. u < n \<Longrightarrow> u \<noteq> t \<Longrightarrow> pc_ok n L h k u q \<Longrightarrow> pc_ok n L h' k' u q"
  shows "ring_ok n L h' k' sm' (ps[t := p])"
  using assms by (simp add: ring_ok_def nth_list_update)

lemma ring_okD:
  "ring_ok n L h k sm ps \<Longrightarrow> t < n \<Longrightarrow> pc_ok n L h k t (ps ! t)"
  "ring_ok n L h k sm ps \<Longrightarrow> token_ok n L h k"
  "ring_ok n L h k sm ps \<Longrightarrow> sm = (replicate n 0)[k mod n := if h = InSem then 1 else 0]"
  "ring_ok n L h k sm ps \<Longrightarrow> length ps = n"
  "ring_ok n L h k sm ps \<Longrightarrow> length sm = n"
  by (simp_all add: ring_ok_def)

lemmas pc_ok_simps = pc_ok_def token_ok_def waits_def

lemma ok_start:
  assumes "ring_ok n L h k sm ps" "t < n" "ps ! t = Start"
  shows "ring_ok n L InSem k (sm[0 := Suc (sm ! 0)]) (ps[t := Loop 0])"
proof -
  have h: "h = Unborn" and t: "t = 0" and k: "k = 0"
    using ring_okD(1,2)[OF assms(1)] assms(2,3)
    by (fastforce simp: pc_ok_simps split: token.splits if_splits)+
  show ?thesis
    using assms(2) ring_okD(3)[OF assms(1)] unfolding h t k
    by (intro ring_ok_update[OF assms(1,2)[unfolded h t k]])
      (auto simp: pc_ok_simps lines_of_def split: if_splits)
qed

lemma ok_loop:
  assumes "ring_ok n L h k sm ps" "t < n" "ps ! t = Loop i"
  shows "ring_ok n L h k sm (ps[t := if i < L then Wait i else Done])"
  using ring_okD(1)[OF assms(1,2)] ring_okD(2,3)[OF assms(1)] assms(3)
  by (intro ring_ok_update[OF assms(1,2)]) (auto simp: pc_ok_def waits_def split: token.splits if_splits)

lemma ok_wait:
  assumes "ring_ok n L h k sm ps" "t < n" "ps ! t = Wait i" "0 < sm ! t"
  shows "ring_ok n L Printing k (sm[t := sm ! t - 1]) (ps[t := Print i]) \<and> i < L"
proof -
  have h: "h = InSem" and t: "t = k mod n"
    using assms(2,4) ring_okD(3)[OF assms(1)] by (auto simp: nth_list_update split: if_splits)
  have i: "i = k div n" "i < L"
    using ring_okD(1)[OF assms(1,2)] assms(3) by (auto simp: h t pc_ok_simps lines_of_turn)
  have k: "k < n * L" using i assms(2) by (simp add: div_less_iff_less_mult mult.commute)
  have "ring_ok n L Printing k (sm[t := sm ! t - 1]) (ps[t := Print i])"
    using assms(2) ring_okD(3)[OF assms(1)] i k
    by (intro ring_ok_update[OF assms(1,2)]) (auto simp: pc_ok_simps h t)
  then show ?thesis using i by simp
qed

lemma ok_print:
  assumes "ring_ok n L h k sm ps" "t < n" "ps ! t = Print i"
  shows "ring_ok n L Posting (Suc k) sm (ps[t := Post i]) \<and> t = k mod n \<and> i = k div n \<and> i < L"
proof -
  have h: "h = Printing" and t: "t = k mod n" and i: "i = k div n"
    using ring_okD(1)[OF assms(1,2)] assms(3) by (auto simp: pc_ok_simps split: token.splits if_splits)
  have "ring_ok n L Posting (Suc k) sm (ps[t := Post i])"
    using assms(2) ring_okD(2,3)[OF assms(1)]
    by (intro ring_ok_update[OF assms(1,2)]) (auto simp: pc_ok_simps h t i lines_of_Suc)
  moreover have "i < L"
    using ring_okD(2)[OF assms(1)] assms(2) by (simp add: token_ok_def h i div_less_iff_less_mult mult.commute)
  ultimately show ?thesis using t i by simp
qed

lemma ok_post:
  assumes "ring_ok n L h k sm ps" "t < n" "ps ! t = Post i"
  shows "ring_ok n L InSem k (sm[(t + 1) mod n := Suc (sm ! ((t + 1) mod n))]) (ps[t := Loop (i + 1)]) \<and> i < L"
proof -
  have h: "h = Posting" and t: "t = (k - 1) mod n" and i: "i = (k - 1) div n" and k: "0 < k"
    using ring_okD(1)[OF assms(1,2)] ring_okD(2)[OF assms(1)] assms(3)
    by (auto simp: pc_ok_simps split: token.splits if_splits)
  obtain j where j: "k = Suc j" using k by (cases k) auto
  have s: "(t + 1) mod n = k mod n" unfolding t j by (simp add: mod_Suc_eq)
  have n: "k mod n < n" using assms(2) by simp
  have "i < L"
    using ring_okD(2)[OF assms(1)] assms(2) by (simp add: token_ok_def h i j div_less_iff_less_mult mult.commute)
  then show ?thesis unfolding s
    using assms(2) n ring_okD(2,3)[OF assms(1)]
    by (intro conjI ring_ok_update[OF assms(1,2)])
      (auto simp: pc_ok_simps h t i j lines_of_Suc lines_of_turn)
qed

lemma ok_not_stuck:
  assumes "ring_ok n L h k sm ps"
    and "\<And>t i. t < n \<Longrightarrow> ps ! t = Wait i \<Longrightarrow> sm ! t = 0" "\<And>t. t < n \<Longrightarrow> \<exists>i. ps ! t = Wait i \<or> ps ! t = Done"
  shows "k = n * L"
proof -
  have n: "0 < n" using assms(1) by (simp add: ring_ok_def)
  then have m: "k mod n < n" "(k - 1) mod n < n" by simp_all
  have h: "h = InSem"
    using ring_okD(1)[OF assms(1) n] ring_okD(1)[OF assms(1) m(1)] ring_okD(1)[OF assms(1) m(2)]
      assms(3)[OF n] assms(3)[OF m(1)] assms(3)[OF m(2)]
    by (cases h) (auto simp: pc_ok_simps)
  have "ps ! (k mod n) = Done"
    using assms(2)[OF m(1)] assms(3)[OF m(1)] ring_okD(3)[OF assms(1)] m(1) h by fastforce
  then have "L \<le> k div n"
    using ring_okD(1)[OF assms(1) m(1)] by (auto simp: pc_ok_simps h lines_of_turn)
  then have "n * L \<le> k" by (metis less_eq_div_iff_mult_less_eq mult.commute n)
  then show ?thesis using ring_okD(2)[OF assms(1)] by (simp add: token_ok_def h)
qed
fun pc_rank :: "nat \<Rightarrow> pc \<Rightarrow> nat" where
  "pc_rank L Start = 4 * L + 2"
| "pc_rank L (Loop i) = 4 * (L - i) + 1"
| "pc_rank L (Wait i) = 4 * (L - i)"
| "pc_rank L (Print i) = 4 * (L - i) - 1"
| "pc_rank L (Post i) = 4 * (L - i) - 2"
| "pc_rank L Done = 0"

definition ring_rank :: "nat \<Rightarrow> 'a ring_scheme \<Rightarrow> nat" where
  "ring_rank L s = sum_list (map (pc_rank L) (pcs s))"

lemma ring_rank_goto:
  "t < length (pcs s) \<Longrightarrow> pc_rank L p < pc_rank L (pcs s ! t) \<Longrightarrow> ring_rank L (goto t p s) < ring_rank L s"
  using elem_le_sum_list[of t "map (pc_rank L) (pcs s)"]
  by (simp add: ring_rank_def goto_def map_update sum_list_update)

lemma ring_rank_ext: "pcs s' = pcs s \<Longrightarrow> ring_rank L s' = ring_rank L s"
  by (simp add: ring_rank_def)

lemma goto_sel [simp]:
  "sems (goto t p s) = sems s" "printed (goto t p s) = printed s" "pcs (goto t p s) = (pcs s)[t := p]"
  by (simp_all add: goto_def)

lemma sem_post_Some:
  "sem_post i s = Some s' \<longleftrightarrow> i < length (sems s) \<and> s' = s\<lparr>sems := (sems s)[i := Suc (sems s ! i)]\<rparr>"
  by (auto simp: sem_post_def fault_simps mem_simps)

lemma sem_wait_Some:
  "sem_wait i s = Some s' \<longleftrightarrow>
     i < length (sems s) \<and> 0 < sems s ! i \<and> s' = s\<lparr>sems := (sems s)[i := sems s ! i - 1]\<rparr>"
  by (auto simp: sem_wait_def fault_simps mem_simps)

text \<open>One step: the invariant, the rank and the output.\<close>

definition good_step :: "ring_prog \<Rightarrow> 'a ring_scheme \<Rightarrow> 'a ring_scheme \<Rightarrow> bool" where
  "good_step P s s' \<longleftrightarrow> ring_inv (threads P) (num_lines P) s' \<and> ring_rank (num_lines P) s' < ring_rank (num_lines P) s \<and>
     (printed s' = printed s \<or> printed s' = printed s @ [turn (threads P) (line_no P) (length (printed s))])"

lemma ring_step_good:
  assumes "ring_inv (threads P) (num_lines P) s" and t: "t < threads P" and st: "ring_step P t s = Some s'"
  shows "good_step P s s'"
proof -
  obtain h where ok: "ring_ok (threads P) (num_lines P) h (length (printed s)) (sems s) (pcs s)"
    using assms(1) by (auto simp: ring_inv_def)
  have l: "t < length (pcs s)" using t ring_okD(4)[OF ok] by simp
  show ?thesis
  proof (cases "pcs s ! t")
    case Start
    then show ?thesis using st l ok_start[OF ok t Start]
      by (auto simp: good_step_def ring_inv_def ring_step_def fault_simps mem_simps sem_post_Some
          intro!: order_less_le_trans[OF ring_rank_goto] eq_refl ring_rank_ext)
  next
    case (Loop i)
    then show ?thesis using st l ok_loop[OF ok t Loop]
      by (auto simp: good_step_def ring_inv_def ring_step_def fault_simps mem_simps intro!: ring_rank_goto)
  next
    case (Wait i)
    then have "0 < sems s ! t" using st by (auto simp: ring_step_def fault_simps mem_simps sem_wait_Some)
    then show ?thesis using st l ok_wait[OF ok t Wait] Wait
      by (auto simp: good_step_def ring_inv_def ring_step_def fault_simps mem_simps sem_wait_Some
          intro!: order_less_le_trans[OF ring_rank_goto] eq_refl ring_rank_ext)
  next
    case (Print i)
    then show ?thesis using st l ok_print[OF ok t Print]
      by (auto simp: good_step_def ring_inv_def ring_step_def fault_simps mem_simps turn_def
          intro!: order_less_le_trans[OF ring_rank_goto] eq_refl ring_rank_ext)
  next
    case (Post i)
    then show ?thesis using st l ok_post[OF ok t Post]
      by (auto simp: good_step_def ring_inv_def ring_step_def fault_simps mem_simps sem_post_Some
          intro!: order_less_le_trans[OF ring_rank_goto] eq_refl ring_rank_ext)
  next
    case Done
    then show ?thesis using st l by (auto simp: ring_step_def fault_simps mem_simps)
  qed
qed

lemma ring_step_stuck:
  assumes "ring_inv (threads P) (num_lines P) s" "\<forall>t < threads P. ring_step P t s = None"
  shows "length (printed s) = threads P * num_lines P"
proof -
  obtain h where ok: "ring_ok (threads P) (num_lines P) h (length (printed s)) (sems s) (pcs s)"
    using assms(1) by (auto simp: ring_inv_def)
  have l: "length (pcs s) = threads P" "length (sems s) = threads P" and n: "0 < threads P"
    using ring_okD(4,5)[OF ok] ok by (simp_all add: ring_ok_def)
  have p: "\<exists>i. pcs s ! t = Wait i \<and> sems s ! t = 0 \<or> pcs s ! t = Done" if t: "t < threads P" for t
  proof -
    have st: "ring_step P t s = None" using assms(2) t by simp
    have m: "(t + 1) mod threads P < threads P" using n by simp
    show ?thesis using st t l n m
      by (cases "pcs s ! t") (auto simp: ring_step_def sem_post_def sem_wait_def get_at_def put_at_def assertm_def
          split: if_splits)
  qed
  show ?thesis by (rule ok_not_stuck[OF ok]) (use p in fastforce)+
qed

text \<open>
  The initial state: all semaphores 0 and thread 0 gives itself the turn, or semaphore 0 is 1. Any
  program whose steps are those of \<open>ring_step\<close> under its invariant prints in turn and ends.
\<close>

definition ring_start :: "nat \<Rightarrow> bool \<Rightarrow> ring" where
  "ring_start n self =
     \<lparr>sems = (replicate n 0)[0 := if self then 0 else 1],
      pcs = (replicate n (Loop 0))[0 := if self then Start else Loop 0], printed = []\<rparr>"

lemma ring_start_inv: "0 < n \<Longrightarrow> ring_inv n L (ring_start n self)"
  unfolding ring_inv_def
  by (rule exI[of _ "if self then Unborn else InSem"])
    (auto simp: ring_ok_def ring_start_def pc_ok_simps lines_of_def)

lemma ring_bounded_turns:
  assumes "0 < threads P"
    and "J init" "printed init = []" "\<And>s. J s \<Longrightarrow> ring_inv (threads P) (num_lines P) s"
    and "\<And>s t. J s \<Longrightarrow> t < threads P \<Longrightarrow> step t s = ring_step P t s"
    and "\<And>s t s'. J s \<Longrightarrow> t < threads P \<Longrightarrow> ring_step P t s = Some s' \<Longrightarrow>
      ring_inv (threads P) (num_lines P) s' \<Longrightarrow> J s'"
  shows "bounded_turns (threads P) (num_lines P) (line_no P) step printed J init (ring_rank (num_lines P))"
proof unfold_locales
  fix s s' t assume a: "J s" "t < threads P" "step t s = Some s'"
  have g: "good_step P s s'" using ring_step_good[OF assms(4)[OF a(1)] a(2)] assms(5) a by simp
  show "J s'" using assms(6)[OF a(1,2)] g a assms(5) by (auto simp: good_step_def)
  show "printed s' = printed s \<or> printed s' = printed s @ [turn (threads P) (line_no P) (length (printed s))]"
    "ring_rank (num_lines P) s' < ring_rank (num_lines P) s"
    using g by (auto simp: good_step_def)
next
  fix s assume a: "J s"
  show "(\<exists>t < threads P. step t s \<noteq> None) \<or> length (printed s) = threads P * num_lines P"
    using ring_step_stuck[OF assms(4)[OF a]] assms(5)[OF a] by fastforce
qed (use assms in auto)

lemma ring_step_no_start:
  "Start \<notin> set (pcs s) \<Longrightarrow> ring_step P t s = Some s' \<Longrightarrow> Start \<notin> set (pcs s')"
  by (auto simp: ring_step_def fault_simps goto_def sem_wait_Some sem_post_Some split: pc.splits if_splits
      dest!: set_update_subset_insert[THEN subsetD])

lemma ring_start_out [simp]: "printed (ring_start n self) = []"
  by (simp add: ring_start_def)

lemma ring_start_no_start: "Start \<notin> set (pcs (ring_start n False))"
  by (simp add: ring_start_def)

lemma ring_start_rank: "0 < n \<Longrightarrow> ring_rank L (ring_start n self) = n * (4 * L + 1) + (if self then 1 else 0)"
  by (cases n) (simp_all add: ring_start_def ring_rank_def sum_list_replicate)

text \<open>The programs whose state is a plain \<open>ring\<close>: with the step of \<open>ring_step\<close>, wherever no thread is at \<open>Start\<close>.\<close>

definition plain_inv :: "nat \<Rightarrow> nat \<Rightarrow> ring \<Rightarrow> bool" where
  "plain_inv n L s \<longleftrightarrow> ring_inv n L s \<and> Start \<notin> set (pcs s)"

lemma ring_inv_length: "ring_inv n L s \<Longrightarrow> length (pcs s) = n"
  by (auto simp: ring_inv_def dest: ring_okD(4))

lemma plain_bounded_turns:
  assumes "0 < threads P"
    and "\<And>s t. Start \<notin> set (pcs s) \<Longrightarrow> t < threads P \<Longrightarrow> length (pcs s) = threads P \<Longrightarrow> step t s = ring_step P t s"
  shows "bounded_turns (threads P) (num_lines P) (line_no P) step printed
    (plain_inv (threads P) (num_lines P)) (ring_start (threads P) False) (ring_rank (num_lines P))"
  by (rule ring_bounded_turns[OF assms(1)])
    (auto simp: plain_inv_def ring_start_inv assms(1) ring_start_no_start
      intro!: assms(2) dest: ring_step_no_start ring_inv_length)

lemma pcs_not_start: "Start \<notin> set (pcs s) \<Longrightarrow> t < length (pcs s) \<Longrightarrow> pcs s ! t \<noteq> Start"
  by (metis nth_mem)

text \<open>A step looks at no program counter but its own; threads that are never created can be added.\<close>

lemma ring_step_frame:
  assumes "ring_step P t s = Some s'" "length fs = length (pcs s)" "fs ! t = pcs s ! t"
  shows "ring_step P t (s\<lparr>pcs := fs\<rparr>) = Some (s'\<lparr>pcs := fs[t := pcs s' ! t]\<rparr>) \<and> pcs s' = (pcs s)[t := pcs s' ! t]"
proof -
  have t: "t < length (pcs s)" using assms(1) by (cases "t < length (pcs s)") (simp_all add: ring_step_def get_at_def)
  then have g: "get_at (pcs s) t = Some (pcs s ! t)" "get_at fs t = Some (pcs s ! t)"
    using assms(2,3) by (simp_all add: get_at_def)
  show ?thesis using assms(1) t
    by (cases "pcs s ! t") (auto simp: ring_step_def g goto_def sem_wait_def sem_post_def fault_simps)
qed

definition absent :: "nat set \<Rightarrow> 'a ring_scheme \<Rightarrow> 'a ring_scheme \<Rightarrow> bool" where
  "absent A s f \<longleftrightarrow> f = s\<lparr>pcs := pcs f\<rparr> \<and> length (pcs f) = length (pcs s) \<and>
     (\<forall>u < length (pcs s). if u \<in> A then pcs s ! u = Done \<and> pcs f ! u = Loop 0 else pcs f ! u = pcs s ! u)"

lemma absent_step:
  assumes "absent A s f" "ring_step P t s = Some s'"
  obtains f' where "ring_step P t f = Some f'" "absent A s' f'"
proof -
  have t: "t < length (pcs s)" "pcs s ! t \<noteq> Done"
    using assms(2) by (cases "t < length (pcs s)"; cases "pcs s ! t"; simp add: ring_step_def get_at_def)+
  have A: "t \<notin> A" using assms(1) t by (auto simp: absent_def)
  have f: "length (pcs f) = length (pcs s)" "pcs f ! t = pcs s ! t" "s\<lparr>pcs := pcs f\<rparr> = f"
    using assms(1) A t by (auto simp: absent_def)
  have r: "ring_step P t f = Some (s'\<lparr>pcs := (pcs f)[t := pcs s' ! t]\<rparr>)" "pcs s' = (pcs s)[t := pcs s' ! t]"
    using ring_step_frame[OF assms(2) f(1,2)] f(3) by simp_all
  define p where "p = pcs s' ! t"
  have p: "pcs s' = (pcs s)[t := p]" using r(2) by (simp add: p_def)
  have "absent A s' (s'\<lparr>pcs := (pcs f)[t := p]\<rparr>)"
  proof -
    have "\<forall>u < length (pcs s). if u \<in> A then pcs s ! u = Done \<and> pcs f ! u = Loop 0 else pcs f ! u = pcs s ! u"
      using assms(1) by (simp add: absent_def)
    then show ?thesis using A f(1) t(1) by (auto simp: absent_def p nth_list_update)
  qed
  then show thesis using that r(1) by (simp add: p_def)
qed

lemma absent_run:
  "absent A s f \<Longrightarrow> run_schedule (ring_step P) ts s = Some s' \<Longrightarrow>
     \<exists>f'. run_schedule (ring_step P) ts f = Some f' \<and> absent A s' f'"
proof (induction ts arbitrary: s f)
  case (Cons t ts)
  obtain s1 where s1: "ring_step P t s = Some s1" "run_schedule (ring_step P) ts s1 = Some s'"
    using Cons.prems(2) by (auto simp: fault_simps)
  obtain f1 where f1: "ring_step P t f = Some f1" "absent A s1 f1" by (rule absent_step[OF Cons.prems(1) s1(1)])
  then show ?case using Cons.IH[OF f1(2) s1(2)] by simp
qed auto

text \<open>With a thread of the ring missing, the turn stops in front of it.\<close>

lemma ring_absent_stops:
  assumes "ring_inv n L f" "c < n" "pcs f ! c = Loop 0" "2 \<le> L" "c \<noteq> 0"
  shows "length (printed f) \<le> c \<and> pcs f ! 0 \<noteq> Done"
proof -
  obtain h where ok: "ring_ok n L h (length (printed f)) (sems f) (pcs f)" using assms(1) by (auto simp: ring_inv_def)
  have "lines_of n (length (printed f)) c = 0"
    using ring_okD(1)[OF ok assms(2)] assms(2,3,5) by (auto simp: pc_ok_simps split: token.splits if_splits)
  then have d: "length (printed f) div n = 0" and c: "length (printed f) mod n \<le> c"
    by (auto simp: lines_of_def split: if_splits)
  then have k: "length (printed f) \<le> c" by (metis add_0 mod_mult_div_eq mult_0_right add.commute)
  have "lines_of n (length (printed f)) 0 \<le> 1" using d by (simp add: lines_of_def)
  then have "pcs f ! 0 \<noteq> Done"
    using ring_okD(1)[OF ok, of 0] assms(2,4) by (auto simp: pc_ok_simps split: token.splits if_splits)
  then show ?thesis using k by simp
qed

end
