(* ===== verification/SemLabs.thy ===== *)
theory SemLabs
  imports SemPrinting
begin

text \<open>
  The semaphore labs one by one: the part of \<open>main\<close> that makes the first state (it may end the
  program, or run into undefined behaviour: \<open>None\<close>), the step of a thread, and the proof that the
  step is the one of \<open>ring_step\<close>, which makes the program an instance of \<open>bounded_turns\<close>. The
  behaviour behind failing calls is in the definitions too, with the theorems on it.
\<close>

subsection \<open>matsko/14: n threads, 10 lines\<close>

record ring14 = ring +
  is_stop :: bool

abbreviation NUM_LINES :: nat where "NUM_LINES \<equiv> 10"

definition EINTR :: int where "EINTR = 4"

text \<open>\<open>for (int j = 0; j < NUM_LINES; j++) sem_post(&sems[j]);\<close>\<close>

fun post_all :: "nat list \<Rightarrow> ring14 \<Rightarrow> ring14 option" where
  "post_all [] s = Some s"
| "post_all (j # js) s = sem_post j s \<bind> post_all js"

text \<open>
  \<open>printFunc\<close>: \<open>intr\<close> says that \<open>sem_wait\<close> is interrupted by a signal handler: it returns -1 (with
  \<open>errno\<close> EINTR) and takes nothing. The tests behind the call belong to its step.
\<close>

definition after_wait :: "int \<Rightarrow> nat \<Rightarrow> nat \<Rightarrow> ring14 \<Rightarrow> ring14 option" where
  "after_wait err t i s =
     (if err = EINTR \<or> is_stop s then
        (if is_stop s then Some (goto t Done s)
         else do { s \<leftarrow> post_all [0..<NUM_LINES] (s\<lparr>is_stop := True\<rparr>); Some (goto t Done s) })
      else Some (goto t (Print i) s))"

definition printFunc_step :: "nat \<Rightarrow> bool \<Rightarrow> nat \<Rightarrow> ring14 \<Rightarrow> ring14 option" where
  "printFunc_step SEM_NUM intr t s = do {
     p \<leftarrow> get_at (pcs s) t;
     case p of
       Start \<Rightarrow> None
     | Loop i \<Rightarrow> Some (goto t (if i < NUM_LINES \<and> \<not> is_stop s then Wait i else Done) s)
     | Wait i \<Rightarrow> if intr then after_wait (-1) t i s else do { s \<leftarrow> sem_wait t s; after_wait 0 t i s }
     | Print i \<Rightarrow> Some (goto t (Post i) (s\<lparr>printed := printed s @ [(t, i + 1)]\<rparr>))
     | Post i \<Rightarrow> do { s \<leftarrow> sem_post ((t + 1) mod SEM_NUM) s; Some (goto t (Loop (i + 1)) s) }
     | Done \<Rightarrow> None }"

text \<open>\<open>main\<close>: the arguments, \<open>calloc\<close> (\<open>oom\<close>: it fails) and what \<open>pthread_create\<close> returns for each child.\<close>

definition sem_num :: "string list \<Rightarrow> nat" where
  "sem_num args =
     (case args of
        [a] \<Rightarrow> (let v = int_of_long (fst (strtol10 a)) in if v < 1 then 2 else nat v)
      | _ \<Rightarrow> 2)"

definition matsko14_main :: "string list \<Rightarrow> bool \<Rightarrow> (nat \<Rightarrow> int) \<Rightarrow> ring14 outcome" where
  "matsko14_main args oom create_err =
     (let n = sem_num args in
      if oom then Exit 1
      else Go \<lparr>sems = map (\<lambda>i. if i = 0 then 1 else 0) [0..<n],
               pcs = map (\<lambda>t. if t = 0 \<or> create_err (t - 1) = 0 then Loop 0 else Done) [0..<n],
               printed = [], is_stop = False\<rparr>)"

definition matsko14 :: "nat \<Rightarrow> ring_prog" where
  "matsko14 n = \<lparr>threads = n, num_lines = NUM_LINES, line_no = \<lambda>t i. i + 1\<rparr>"

definition inv14 :: "nat \<Rightarrow> ring14 \<Rightarrow> bool" where
  "inv14 n s \<longleftrightarrow> ring_inv n NUM_LINES s \<and> \<not> is_stop s \<and> Start \<notin> set (pcs s)"

definition start14 :: "nat \<Rightarrow> ring14" where
  "start14 n = ring.extend (ring_start n False) \<lparr>is_stop = False\<rparr>"

lemma map_first: "map (\<lambda>i. if i = 0 then x else y) [0..<Suc m] = x # replicate m y"
  by (rule nth_equalityI) (auto simp: nth_Cons' nth_upt simp del: upt_Suc)

lemma matsko14_main_start:
  "matsko14_main args False (\<lambda>_. 0) = Go (start14 (sem_num args)) \<and> 0 < sem_num args"
proof -
  obtain m where m: "sem_num args = Suc m"
    by (cases "sem_num args") (auto simp: sem_num_def Let_def split: list.splits if_splits)
  show ?thesis
    by (simp add: matsko14_main_def m start14_def ring_start_def ring.extend_def map_first map_replicate_const
        del: upt_Suc replicate.simps) simp
qed

lemma printFunc_step_ring:
  assumes "\<not> is_stop s" "Start \<notin> set (pcs s)"
  shows "printFunc_step n False t s = ring_step (matsko14 n) t s"
proof -
  have "is_stop s' = is_stop s" if "sem_wait t s = Some s'" for s'
    using that by (auto simp: sem_wait_Some)
  moreover have "pcs s ! t \<noteq> Start" if "t < length (pcs s)" using assms(2) that nth_mem by metis
  ultimately show ?thesis using assms(1)
    by (cases "pcs s ! t"; cases "sem_wait t s")
      (auto simp: printFunc_step_def ring_step_def matsko14_def after_wait_def EINTR_def get_at_def)
qed

lemma start14_inv: "0 < n \<Longrightarrow> inv14 n (start14 n)"
  using ring_start_inv[of n NUM_LINES False]
  by (auto simp: inv14_def start14_def ring_inv_def ring.extend_def ring_start_def set_replicate_conv_if
      dest!: in_set_replicate[THEN iffD1] split: if_splits)

lemma start14_out: "printed (start14 n) = []"
  by (simp add: start14_def ring.extend_def ring_start_def)

lemma ring_step_keeps14:
  "\<not> is_stop s \<Longrightarrow> Start \<notin> set (pcs s) \<Longrightarrow> ring_step P t s = Some s' \<Longrightarrow> \<not> is_stop s' \<and> Start \<notin> set (pcs s')"
  by (auto simp: ring_step_def fault_simps goto_def sem_wait_Some sem_post_Some split: pc.splits if_splits
      dest!: set_update_subset_insert[THEN subsetD])


lemma matsko14_sel [simp]:
  "threads (matsko14 n) = n" "num_lines (matsko14 n) = NUM_LINES" "line_no (matsko14 n) = (\<lambda>t i. i + 1)"
  by (simp_all add: matsko14_def)

lemma matsko14_bounded:
  "0 < n \<Longrightarrow> bounded_turns n NUM_LINES (\<lambda>t i. i + 1) (printFunc_step n False) printed (inv14 n) (start14 n) (ring_rank NUM_LINES)"
  by (rule ring_bounded_turns[of "matsko14 n", unfolded matsko14_sel])
    (auto simp: inv14_def start14_inv[unfolded inv14_def] printFunc_step_ring start14_out dest: ring_step_keeps14)

interpretation m14: bounded_turns "Suc m" NUM_LINES "\<lambda>t i. i + 1" "printFunc_step (Suc m) False" printed
    "inv14 (Suc m)" "start14 (Suc m)" "ring_rank NUM_LINES" for m
  by (rule matsko14_bounded) simp

text \<open>
  C31: For any number of threads that the argument asks for, when all children are created and no
  wait is interrupted, every schedule of \<open>matsko/14\<close> prints the lines strictly in turn (line 1 of
  every thread, then line 2, ...), it runs into no deadlock before all lines are out, and no
  schedule is longer than 42 steps per thread.
\<close>

theorem matsko14_in_turn:
  assumes "matsko14_main args False (\<lambda>_. 0) = Go s0" "n = sem_num args"
    and "set ts \<subseteq> {..<n}" "run_schedule (printFunc_step n False) ts s0 = Some s"
  shows "printed s = round_robin n (\<lambda>t i. i + 1) (length (printed s)) \<and>
    length ts \<le> n * 41 \<and>
    ((\<forall>t < n. printFunc_step n False t s = None) \<longrightarrow> printed s = round_robin n (\<lambda>t i. i + 1) (n * 10))"
proof -
  obtain m where m: "n = Suc m" using matsko14_main_start[of args] assms(2) by (cases "sem_num args") auto
  have "s0 = start14 n" using matsko14_main_start[of args] assms(1,2) by simp
  moreover have "ring_rank NUM_LINES (start14 (Suc m)) = Suc m * 41"
    by (simp add: ring_rank_def start14_def ring.extend_def ring_start_def sum_list_replicate)
  ultimately show ?thesis using m14.correct[of ts m s] assms(3,4) m by (simp del: One_nat_def add_Suc_right)
qed

theorem matsko14_in_turn_witness:
  "\<exists>s0 s. matsko14_main [''3''] False (\<lambda>_. 0) = Go s0 \<and>
     run_schedule (printFunc_step 3 False) [0, 1, 0, 0, 0, 1, 2, 1] s0 = Some s \<and>
     printed s = round_robin 3 (\<lambda>t i. i + 1) 2"
proof -
  have n: "sem_num [''3''] = 3" by code_simp
  obtain s0 where s0: "matsko14_main [''3''] False (\<lambda>_. 0) = Go s0"
    using matsko14_main_start by blast
  have s0': "s0 = start14 3" using s0 matsko14_main_start[of "[''3'']"] n by simp
  have "run_schedule (printFunc_step 3 False) [0, 1, 0, 0, 0, 1, 2, 1] (start14 3) \<noteq> None" by code_simp
  then obtain s where s: "run_schedule (printFunc_step 3 False) [0, 1, 0, 0, 0, 1, 2, 1] s0 = Some s"
    using s0' by auto
  have "printed (the (run_schedule (printFunc_step 3 False) [0, 1, 0, 0, 0, 1, 2, 1] (start14 3))) = [(0, 1), (1, 1)]"
    by code_simp
  then have "length (printed s) = 2" using s s0' by simp
  then show ?thesis
    using matsko14_in_turn[OF s0 n[symmetric] _ s] s0 s by auto
qed

text \<open>What happens when children are missing, or a wait is interrupted.\<close>

lemma printFunc_run_ring:
  "\<not> is_stop s \<Longrightarrow> Start \<notin> set (pcs s) \<Longrightarrow>
     run_schedule (printFunc_step n False) ts s = run_schedule (ring_step (matsko14 n)) ts s"
proof (induction ts arbitrary: s)
  case (Cons t ts)
  then show ?case
    using ring_step_keeps14[of s "matsko14 n" t] printFunc_step_ring[of s n t]
    by (cases "ring_step (matsko14 n) t s") auto
qed simp

lemma matsko14_main_absent:
  assumes "matsko14_main args False create_err = Go s0" "n = sem_num args"
  shows "absent {t. t \<noteq> 0 \<and> create_err (t - 1) \<noteq> 0} s0 (start14 n) \<and> \<not> is_stop s0 \<and> Start \<notin> set (pcs s0)"
proof -
  have g: "start14 n = \<lparr>sems = map (\<lambda>i. if i = 0 then 1 else 0) [0..<n], pcs = map (\<lambda>t. Loop 0) [0..<n],
      printed = [], is_stop = False\<rparr>"
    using matsko14_main_start[of args] assms(2) by (simp add: matsko14_main_def Let_def)
  have s0: "s0 = \<lparr>sems = map (\<lambda>i. if i = 0 then 1 else 0) [0..<n],
      pcs = map (\<lambda>t. if t = 0 \<or> create_err (t - 1) = 0 then Loop 0 else Done) [0..<n],
      printed = [], is_stop = False\<rparr>"
    using assms by (simp add: matsko14_main_def Let_def)
  show ?thesis unfolding s0 g by (auto simp: absent_def)
qed

text \<open>
  When \<open>matsko/14\<close> cannot create one of its children it reports it and goes on, and then hangs: no
  schedule prints more lines than the number of threads in front of the missing one, and the
  parent never comes to the end of its loop.
\<close>

theorem matsko14_missing_child_hangs:
  assumes "matsko14_main args False create_err = Go s0" "n = sem_num args"
    and "0 < c" "c < n" "create_err (c - 1) \<noteq> 0"
    and "set ts \<subseteq> {..<n}" "run_schedule (printFunc_step n False) ts s0 = Some s"
  shows "length (printed s) \<le> c \<and> pcs s ! 0 \<noteq> Done"
proof -
  let ?A = "{t. t \<noteq> 0 \<and> create_err (t - 1) \<noteq> 0}"
  have a: "absent ?A s0 (start14 n)" "\<not> is_stop s0" "Start \<notin> set (pcs s0)"
    using matsko14_main_absent[OF assms(1,2)] by simp_all
  have "run_schedule (ring_step (matsko14 n)) ts s0 = Some s"
    using assms(7) printFunc_run_ring[OF a(2,3)] by simp
  then obtain f where f: "run_schedule (ring_step (matsko14 n)) ts (start14 n) = Some f" "absent ?A s f"
    using absent_run[OF a(1)] by blast
  obtain m where m: "n = Suc m" using assms(4) by (cases n) auto
  have i0: "inv14 n (start14 n)" using start14_inv assms(4) by simp
  have "run_schedule (printFunc_step n False) ts (start14 n) = Some f"
    using f(1) printFunc_run_ring[of "start14 n" n ts] i0 by (simp add: inv14_def)
  then have i: "ring_inv n NUM_LINES f"
    using m14.run_from[of m "start14 n" ts f] i0 assms(6) m by (simp add: inv14_def start14_out round_robin_def)
  have l: "length (pcs f) = n" using i by (auto simp: ring_inv_def dest: ring_okD(4))
  have q: "\<forall>u < n. if u \<in> ?A then pcs s ! u = Done \<and> pcs f ! u = Loop 0 else pcs f ! u = pcs s ! u"
    using f(2) l by (simp add: absent_def)
  have c: "pcs f ! c = Loop 0" "pcs s ! 0 = pcs f ! 0" using q assms(3-5) by force+
  have p: "length (printed s) = length (printed f)"
    using f(2) by (auto simp: absent_def dest: arg_cong[of f _ printed])
  show ?thesis using ring_absent_stops[OF i assms(4) c(1)] c(2) p assms(3) by simp
qed

theorem matsko14_missing_child_hangs_witness:
  "\<exists>s0 s. matsko14_main [''3''] False (\<lambda>i. if i = 1 then 11 else 0) = Go s0 \<and>
     run_schedule (printFunc_step 3 False) [0, 0, 0, 0, 1, 1, 1, 1, 0, 0] s0 = None \<and>
     run_schedule (printFunc_step 3 False) [0, 0, 0, 0, 1, 1, 1, 1, 0] s0 = Some s \<and>
     length (printed s) \<le> 2 \<and> pcs s ! 0 \<noteq> Done"
proof -
  let ?e = "\<lambda>i. if i = (1::nat) then (11::int) else 0"
  obtain s0 where s0: "matsko14_main [''3''] False ?e = Go s0" by (simp add: matsko14_main_def Let_def)
  have r: "(case matsko14_main [''3''] False ?e of Go s0 \<Rightarrow>
      run_schedule (printFunc_step 3 False) [0, 0, 0, 0, 1, 1, 1, 1, 0, 0] s0 = None \<and>
      run_schedule (printFunc_step 3 False) [0, 0, 0, 0, 1, 1, 1, 1, 0] s0 \<noteq> None | Exit _ \<Rightarrow> False)"
    by code_simp
  then obtain s where s: "run_schedule (printFunc_step 3 False) [0, 0, 0, 0, 1, 1, 1, 1, 0] s0 = Some s"
    "run_schedule (printFunc_step 3 False) [0, 0, 0, 0, 1, 1, 1, 1, 0, 0] s0 = None"
    using s0 by auto
  have n: "3 = sem_num [''3'']" by code_simp
  show ?thesis
    using matsko14_missing_child_hangs[OF s0 n, of 2 "[0, 0, 0, 0, 1, 1, 1, 1, 0]" s] s s0 by auto
qed

text \<open>
  An interrupted wait does not stop \<open>matsko/14\<close>: \<open>sem_wait\<close> returns -1, which is not the
  \<open>EINTR\<close> that \<open>printFunc\<close> compares with, so the thread prints without having the turn.
\<close>

theorem matsko14_interrupted_wait_prints:
  assumes "matsko14_main args False (\<lambda>_. 0) = Go s0" "n = sem_num args" "2 \<le> n"
  shows "\<exists>s1 s2 s3. printFunc_step n False 1 s0 = Some s1 \<and> printFunc_step n True 1 s1 = Some s2 \<and>
    printFunc_step n False 1 s2 = Some s3 \<and> \<not> is_stop s3 \<and>
    printed s3 = [(1, 1)] \<and> printed s3 \<noteq> round_robin n (\<lambda>t i. i + 1) 1"
proof -
  have s0: "s0 = start14 n" using matsko14_main_start[of args] assms(1,2) by simp
  obtain m where m: "n = Suc (Suc m)" using assms(3) by (metis Suc_1 add_2_eq_Suc le_iff_add)
  have p: "pcs s0 = Loop 0 # Loop 0 # replicate m (Loop 0)" "printed s0 = []" "\<not> is_stop s0"
    by (simp_all add: s0 m start14_def ring.extend_def ring_start_def)
  show ?thesis using p
    by (simp add: printFunc_step_def after_wait_def EINTR_def get_at_def goto_def m round_robin_def turn_def)
qed

theorem matsko14_interrupted_wait_prints_witness:
  "\<exists>s0 s1 s2 s3. matsko14_main [] False (\<lambda>_. 0) = Go s0 \<and> printFunc_step 2 False 1 s0 = Some s1 \<and>
     printFunc_step 2 True 1 s1 = Some s2 \<and> printFunc_step 2 False 1 s2 = Some s3 \<and>
     printed s3 \<noteq> round_robin 2 (\<lambda>t i. i + 1) 1"
proof -
  have n: "2 = sem_num []" by (simp add: sem_num_def)
  obtain s0 where s0: "matsko14_main [] False (\<lambda>_. 0) = Go s0" using matsko14_main_start by blast
  from matsko14_interrupted_wait_prints[OF s0 n] show ?thesis using s0 by blast
qed

subsection \<open>arkhipov/14: n threads, 5 lines, global line numbers\<close>

definition parse_int :: "string \<Rightarrow> int outcome" where
  "parse_int str = (let (v, _, endpoint) = strtol10 str in if endpoint \<noteq> [] then Exit 1 else Go (int_of_long v))"

text \<open>\<open>worker\<close>: thread 0 first gives itself the right to print.\<close>

definition worker_step :: "nat \<Rightarrow> nat \<Rightarrow> ring \<Rightarrow> ring option" where
  "worker_step THREADS_COUNT idx s = do {
     p \<leftarrow> get_at (pcs s) idx;
     case p of
       Start \<Rightarrow> do { s \<leftarrow> sem_post 0 s; Some (goto idx (Loop 0) s) }
     | Loop i \<Rightarrow> Some (goto idx (if i < 5 then Wait i else Done) s)
     | Wait i \<Rightarrow> do { s \<leftarrow> sem_wait idx s; Some (goto idx (Print i) s) }
     | Print i \<Rightarrow> Some (goto idx (Post i) (s\<lparr>printed := printed s @ [(idx, i * THREADS_COUNT + idx)]\<rparr>))
     | Post i \<Rightarrow> do { s \<leftarrow> sem_post ((idx + 1) mod THREADS_COUNT) s; Some (goto idx (Loop (i + 1)) s) }
     | Done \<Rightarrow> None }"

text \<open>
  \<open>main\<close>: \<open>args\<close> is \<open>argv\<close> from 1 on; a count below 1 makes the arrays \<open>workers\<close> and \<open>idxs\<close> have no
  positive size. When a thread cannot be created the semaphores are destroyed; that is undefined
  once another thread is there that waits on one. Where the code calls \<open>pthread_exit\<close> with no
  other thread running, the process ends with 0.
\<close>

definition arkhipov14_main :: "string list \<Rightarrow> (nat \<Rightarrow> int) \<Rightarrow> (nat \<Rightarrow> int) \<Rightarrow> ring outcome option" where
  "arkhipov14_main args init_err create_err =
     (if length args > 1 then Some (Exit 0)
      else case (case args of [] \<Rightarrow> Go 2 | a # _ \<Rightarrow> parse_int a) of
        Exit c \<Rightarrow> Some (Exit c)
      | Go THREADS_COUNT \<Rightarrow>
          if THREADS_COUNT > 100 then Some (Exit 0)
          else if list_ex (\<lambda>i. init_err i \<noteq> 0) [0..<nat THREADS_COUNT] then Some (Exit 0)
          else if THREADS_COUNT < 1 then None
          else (case List.find (\<lambda>i. create_err i \<noteq> 0) [0..<nat THREADS_COUNT - 1] of
                  Some i \<Rightarrow> if i = 0 then Some (Exit 0) else None
                | None \<Rightarrow> Some (Go \<lparr>sems = replicate (nat THREADS_COUNT) 0,
                                   pcs = Start # replicate (nat THREADS_COUNT - 1) (Loop 0), printed = []\<rparr>)))"

definition arkhipov14 :: "nat \<Rightarrow> ring_prog" where
  "arkhipov14 n = \<lparr>threads = n, num_lines = 5, line_no = \<lambda>t i. i * n + t\<rparr>"

lemma arkhipov14_sel [simp]:
  "threads (arkhipov14 n) = n" "num_lines (arkhipov14 n) = 5" "line_no (arkhipov14 n) = (\<lambda>t i. i * n + t)"
  by (simp_all add: arkhipov14_def)

lemma worker_step_ring: "worker_step n t s = ring_step (arkhipov14 n) t s"
  by (simp add: worker_step_def ring_step_def cong: pc.case_cong)

lemma arkhipov14_bounded:
  "0 < n \<Longrightarrow> bounded_turns n 5 (\<lambda>t i. i * n + t) (worker_step n) printed (ring_inv n 5) (ring_start n True) (ring_rank 5)"
  by (rule ring_bounded_turns[of "arkhipov14 n", unfolded arkhipov14_sel]) (auto simp: worker_step_ring ring_start_inv)

interpretation a14: bounded_turns "Suc m" 5 "\<lambda>t i. i * Suc m + t" "worker_step (Suc m)" printed
    "ring_inv (Suc m) 5" "ring_start (Suc m) True" "ring_rank 5" for m
  by (rule arkhipov14_bounded) simp

lemma arkhipov14_main_start:
  assumes "arkhipov14_main args init_err create_err = Some (Go s0)"
  obtains m where "s0 = ring_start (Suc m) True" "m < 100"
proof -
  obtain v :: int where v: "1 \<le> v" "v \<le> 100"
    "s0 = \<lparr>sems = replicate (nat v) 0, pcs = Start # replicate (nat v - 1) (Loop 0), printed = []\<rparr>"
    using assms by (fastforce simp: arkhipov14_main_def not_less split: if_splits outcome.splits option.splits)
  obtain m where m: "nat v = Suc m" using v(1) by (cases "nat v") auto
  show thesis by (rule that[of m]) (use v m in \<open>auto simp: ring_start_def\<close>)
qed

text \<open>
  Whatever the arguments, once \<open>arkhipov/14\<close> has started its threads, every schedule prints line
  0, 1, 2, ... in this order, with no deadlock before line \<open>5 * n - 1\<close>, and ends.
\<close>

theorem arkhipov14_in_turn:
  assumes "arkhipov14_main args init_err create_err = Some (Go s0)" "n = length (pcs s0)"
    and "set ts \<subseteq> {..<n}" "run_schedule (worker_step n) ts s0 = Some s"
  shows "map snd (printed s) = [0..<length (printed s)] \<and> length ts \<le> n * 21 + 1 \<and>
    ((\<forall>t < n. worker_step n t s = None) \<longrightarrow> map snd (printed s) = [0..<n * 5])"
proof -
  obtain m where m: "s0 = ring_start (Suc m) True" by (rule arkhipov14_main_start[OF assms(1)])
  then have n: "n = Suc m" using assms(2) by (simp add: ring_start_def)
  have r: "map snd (round_robin (Suc m) (\<lambda>t i. i * Suc m + t) k) = [0..<k]" for k
    by (rule nth_equalityI) (simp_all add: round_robin_def turn_def del: mult_Suc_right)
  have rr: "printed s = round_robin (Suc m) (\<lambda>t i. i * Suc m + t) (length (printed s))"
    "length ts \<le> n * 21 + 1"
    "(\<forall>t < n. worker_step n t s = None) \<longrightarrow> printed s = round_robin (Suc m) (\<lambda>t i. i * Suc m + t) (n * 5)"
    using a14.correct[of ts m s] assms(3,4) n m ring_start_rank[of n 5 True] by simp_all
  have "map snd (printed s) = [0..<length (printed s)]" using arg_cong[OF rr(1), of "map snd"] by (simp only: r)
  then show ?thesis using rr(2,3) by (simp add: r del: mult_Suc_right)
qed

theorem arkhipov14_in_turn_witness:
  "\<exists>s0 s. arkhipov14_main [''3''] (\<lambda>_. 0) (\<lambda>_. 0) = Some (Go s0) \<and>
     run_schedule (worker_step 3) [1, 0, 0, 0, 0, 0, 1, 1, 1, 2] s0 = Some s \<and>
     map snd (printed s) = [0..<length (printed s)] \<and> length (printed s) = 2"
proof -
  let ?ts = "[1, 0, 0, 0, 0, 0, 1, 1, 1, 2]"
  have r: "(case arkhipov14_main [''3''] (\<lambda>_. 0) (\<lambda>_. 0) of Some (Go s0) \<Rightarrow> 3 = length (pcs s0) \<and>
      (case run_schedule (worker_step 3) ?ts s0 of Some s \<Rightarrow> length (printed s) = 2 | None \<Rightarrow> False) | _ \<Rightarrow> False)"
    by code_simp
  then obtain s0 s where s: "arkhipov14_main [''3''] (\<lambda>_. 0) (\<lambda>_. 0) = Some (Go s0)" "3 = length (pcs s0)"
    "run_schedule (worker_step 3) ?ts s0 = Some s" "length (printed s) = 2"
    unfolding case_True by blast
  have "set ?ts \<subseteq> {..<3::nat}" by simp
  from arkhipov14_in_turn[OF s(1,2) this s(3)] show ?thesis using s by blast
qed

subsection \<open>rybalko/16: two processes and named semaphores\<close>

text \<open>Thread 0 is the child with \<open>sem_parent\<close>, thread 1 the parent with \<open>sem_child\<close>; \<open>i\<close> counts from 0 here.\<close>

definition child_step :: "ring \<Rightarrow> ring option" where
  "child_step s = do {
     p \<leftarrow> get_at (pcs s) 0;
     case p of
       Start \<Rightarrow> None
     | Loop i \<Rightarrow> Some (goto 0 (if i + 1 \<le> 10 then Wait i else Done) s)
     | Wait i \<Rightarrow> do { s \<leftarrow> sem_wait 0 s; Some (goto 0 (Print i) s) }
     | Print i \<Rightarrow> Some (goto 0 (Post i) (s\<lparr>printed := printed s @ [(0, i + 1)]\<rparr>))
     | Post i \<Rightarrow> do { s \<leftarrow> sem_post 1 s; Some (goto 0 (Loop (i + 1)) s) }
     | Done \<Rightarrow> None }"

definition parent_step :: "ring \<Rightarrow> ring option" where
  "parent_step s = do {
     p \<leftarrow> get_at (pcs s) 1;
     case p of
       Start \<Rightarrow> None
     | Loop i \<Rightarrow> Some (goto 1 (if i + 1 \<le> 10 then Wait i else Done) s)
     | Wait i \<Rightarrow> do { s \<leftarrow> sem_wait 1 s; Some (goto 1 (Print i) s) }
     | Print i \<Rightarrow> Some (goto 1 (Post i) (s\<lparr>printed := printed s @ [(1, i + 1)]\<rparr>))
     | Post i \<Rightarrow> do { s \<leftarrow> sem_post 0 s; Some (goto 1 (Loop (i + 1)) s) }
     | Done \<Rightarrow> None }"

definition rybalko16_step :: "nat \<Rightarrow> ring \<Rightarrow> ring option" where
  "rybalko16_step t = (if t = 0 then child_step else if t = 1 then parent_step else (\<lambda>_. None))"

datatype sem_call = SemClose string | SemUnlink string

definition CloseAllSem :: "nat option \<Rightarrow> nat option \<Rightarrow> sem_call list" where
  "CloseAllSem sem_parent sem_child =
     (if sem_parent \<noteq> None then [SemClose ''/ParentSem''] else []) @
     (if sem_child \<noteq> None then [SemClose ''/ChildSem''] else [])"

definition UnlinkAllSem :: "nat option \<Rightarrow> nat option \<Rightarrow> sem_call list" where
  "UnlinkAllSem sem_parent sem_child =
     (if sem_parent \<noteq> None then [SemUnlink ''/ParentSem''] else []) @
     (if sem_child \<noteq> None then [SemUnlink ''/ChildSem''] else [])"

text \<open>
  \<open>sem_open\<close> with \<open>O_CREAT\<close>: a semaphore of this name that is there already keeps its value. The
  result is its value, \<open>None\<close> for \<open>SEM_FAILED\<close>.
\<close>

definition sem_open :: "nat option \<Rightarrow> bool \<Rightarrow> nat \<Rightarrow> nat option" where
  "sem_open existing ok init = (if \<not> ok then None else Some (case existing of Some v \<Rightarrow> v | None \<Rightarrow> init))"

text \<open>The calls made before an exit, and the outcome: the state of the two processes.\<close>

definition rybalko16_main ::
    "nat option \<Rightarrow> nat option \<Rightarrow> bool \<Rightarrow> bool \<Rightarrow> int \<Rightarrow> sem_call list \<times> ring outcome" where
  "rybalko16_main old_parent old_child parent_ok child_ok fork_res =
     (let sem_parent = sem_open old_parent parent_ok 1;
          sem_child = sem_open old_child child_ok 0;
          release = CloseAllSem sem_parent sem_child @ UnlinkAllSem sem_parent sem_child in
      case (sem_parent, sem_child) of
        (Some p, Some c) \<Rightarrow>
          if fork_res = -1 then (release, Exit (-1))
          else ([], Go \<lparr>sems = [p, c], pcs = [Loop 0, Loop 0], printed = []\<rparr>)
      | _ \<Rightarrow> (release, Exit (-1)))"

definition rybalko16 :: ring_prog where
  "rybalko16 = \<lparr>threads = 2, num_lines = 10, line_no = \<lambda>t i. i + 1\<rparr>"

lemma rybalko16_sel [simp]:
  "threads rybalko16 = 2" "num_lines rybalko16 = 10" "line_no rybalko16 = (\<lambda>t i. i + 1)"
  by (simp_all add: rybalko16_def)

lemma rybalko16_step_ring:
  assumes "Start \<notin> set (pcs s)" "t < 2" "length (pcs s) = 2"
  shows "rybalko16_step t s = ring_step rybalko16 t s"
proof -
  have "pcs s ! 0 \<noteq> Start" "pcs s ! 1 \<noteq> Start" using assms pcs_not_start[of s] by auto
  then show ?thesis using two_threads[OF assms(2)] assms(3)
    by (auto simp: rybalko16_step_def child_step_def parent_step_def ring_step_def get_at_def Suc_le_eq split: pc.splits)
qed

interpretation r16: bounded_turns 2 10 "\<lambda>t i. i + 1" rybalko16_step printed "plain_inv 2 10" "ring_start 2 False" "ring_rank 10"
  by (rule plain_bounded_turns[of rybalko16, unfolded rybalko16_sel]) (auto simp: rybalko16_step_ring)

text \<open>
  C32: When no semaphore of these names is left in the system, the processes of \<open>rybalko/16\<close> print
  CHILD 1, PARENT 1, CHILD 2, ... in every schedule, without deadlock, and end.
\<close>

theorem rybalko16_in_turn:
  assumes "rybalko16_main None None parent_ok child_ok fork_res = (calls, Go s0)"
    and "set ts \<subseteq> {..<2}" "run_schedule rybalko16_step ts s0 = Some s"
  shows "printed s = round_robin 2 (\<lambda>t i. i + 1) (length (printed s)) \<and> length ts \<le> 82 \<and>
    ((\<forall>t < 2. rybalko16_step t s = None) \<longrightarrow> printed s = round_robin 2 (\<lambda>t i. i + 1) 20)"
proof -
  have "s0 = ring_start 2 False"
    using assms(1) by (auto simp: rybalko16_main_def sem_open_def Let_def ring_start_def numeral_2_eq_2 split: if_splits)
  then show ?thesis using r16.correct[OF assms(2)] assms(3) ring_start_rank[of 2 10 False] by simp
qed

theorem rybalko16_in_turn_witness:
  "\<exists>s0 s. rybalko16_main None None True True 77 = ([], Go s0) \<and>
     run_schedule rybalko16_step [1, 0, 0, 0, 0, 1, 1] s0 = Some s \<and> printed s = round_robin 2 (\<lambda>t i. i + 1) 2"
proof -
  let ?ts = "[1, 0, 0, 0, 0, 1, 1]"
  have "(case rybalko16_main None None True True 77 of (calls, Go s0) \<Rightarrow> calls = [] \<and>
      (case run_schedule rybalko16_step ?ts s0 of Some s \<Rightarrow> length (printed s) = 2 | None \<Rightarrow> False) | _ \<Rightarrow> False)"
    by code_simp
  then obtain s0 s where s: "rybalko16_main None None True True 77 = ([], Go s0)"
    "run_schedule rybalko16_step ?ts s0 = Some s" "length (printed s) = 2"
    unfolding case_True by blast
  have "set ?ts \<subseteq> {..<2::nat}" by simp
  from rybalko16_in_turn[OF s(1) this s(2)] show ?thesis using s by metis
qed

definition both_wait :: "ring \<Rightarrow> bool" where
  "both_wait s \<longleftrightarrow> sems s = [0, 0] \<and> printed s = [] \<and> length (pcs s) = 2 \<and> set (pcs s) \<subseteq> {Loop 0, Wait 0}"

lemma both_wait_step: "both_wait s \<Longrightarrow> rybalko16_step t s = Some s' \<Longrightarrow> both_wait s'"
proof -
  assume a: "both_wait s" "rybalko16_step t s = Some s'"
  obtain x y where p: "pcs s = [x, y]" using a(1) by (auto simp: both_wait_def length_Suc_conv numeral_2_eq_2)
  show ?thesis using a p
    by (auto simp: both_wait_def rybalko16_step_def child_step_def parent_step_def get_at_def goto_def
        sem_wait_Some fault_simps split: if_splits)
qed

lemma both_wait_run: "both_wait s \<Longrightarrow> run_schedule rybalko16_step ts s = Some s' \<Longrightarrow> both_wait s'"
  by (induction ts arbitrary: s) (auto simp: fault_simps dest: both_wait_step)

text \<open>
  Semaphores that an interrupted run has left behind with value 0 make the next run of
  \<open>rybalko/16\<close> hang: \<open>sem_open\<close> does not give them their initial values, and in no schedule does
  either process print anything or end.
\<close>

theorem rybalko16_stale_semaphores_hang:
  assumes "rybalko16_main (Some 0) (Some 0) parent_ok child_ok fork_res = (calls, Go s0)"
    and "run_schedule rybalko16_step ts s0 = Some s"
  shows "printed s = [] \<and> Done \<notin> set (pcs s)"
proof -
  have "both_wait s0"
    using assms(1) by (auto simp: rybalko16_main_def sem_open_def Let_def both_wait_def split: if_splits)
  from both_wait_run[OF this assms(2)] show ?thesis by (auto simp: both_wait_def)
qed

theorem rybalko16_stale_semaphores_hang_witness:
  "\<exists>s0 s. rybalko16_main (Some 0) (Some 0) True True 77 = ([], Go s0) \<and>
     run_schedule rybalko16_step [0, 1] s0 = Some s \<and> printed s = [] \<and>
     rybalko16_step 0 s = None \<and> rybalko16_step 1 s = None"
proof -
  have "(case rybalko16_main (Some 0) (Some 0) True True 77 of (calls, Go s0) \<Rightarrow> calls = [] \<and>
      (case run_schedule rybalko16_step [0, 1] s0 of Some s \<Rightarrow> rybalko16_step 0 s = None \<and> rybalko16_step 1 s = None
       | None \<Rightarrow> False) | _ \<Rightarrow> False)"
    by code_simp
  then obtain s0 s where s: "rybalko16_main (Some 0) (Some 0) True True 77 = ([], Go s0)"
    "run_schedule rybalko16_step [0, 1] s0 = Some s" "rybalko16_step 0 s = None" "rybalko16_step 1 s = None"
    unfolding case_True by blast
  from rybalko16_stale_semaphores_hang[OF s(1,2)] show ?thesis using s by blast
qed

subsection \<open>Shunina/lab14: two threads, failing calls and cancellation\<close>

record ring_c = ring +
  cancelled :: bool

text \<open>
  The second thread, then the main one; \<open>fail\<close>: the semaphore call of this step fails. A call of
  \<open>pthread_testcancel\<close> and a \<open>sem_wait\<close> end a thread that \<open>pthread_cancel\<close> was called on.
\<close>

definition function_step :: "bool \<Rightarrow> ring_c \<Rightarrow> ring_c option" where
  "function_step fail s = do {
     p \<leftarrow> get_at (pcs s) 1;
     case p of
       Start \<Rightarrow> None
     | Loop i \<Rightarrow> Some (goto 1 (if i < 10 then (if cancelled s then Done else Wait i) else Done) s)
     | Wait i \<Rightarrow> if cancelled s then Some (goto 1 Done s)
                else if fail then Some (goto 1 Done s)
                else do { s \<leftarrow> sem_wait 1 s; Some (goto 1 (Print i) s) }
     | Print i \<Rightarrow> Some (goto 1 (Post i) (s\<lparr>printed := printed s @ [(1, i)]\<rparr>))
     | Post i \<Rightarrow> if fail then Some (goto 1 Done s) else do { s \<leftarrow> sem_post 0 s; Some (goto 1 (Loop (i + 1)) s) }
     | Done \<Rightarrow> None }"

definition mainThread_step :: "bool \<Rightarrow> ring_c \<Rightarrow> ring_c option" where
  "mainThread_step fail s = do {
     p \<leftarrow> get_at (pcs s) 0;
     case p of
       Start \<Rightarrow> None
     | Loop i \<Rightarrow> Some (goto 0 (if i < 10 then Wait i else Done) s)
     | Wait i \<Rightarrow> if fail then Some (goto 0 Done (s\<lparr>cancelled := True\<rparr>))
                else do { s \<leftarrow> sem_wait 0 s; Some (goto 0 (Print i) s) }
     | Print i \<Rightarrow> Some (goto 0 (Post i) (s\<lparr>printed := printed s @ [(0, i)]\<rparr>))
     | Post i \<Rightarrow> if fail then Some (goto 0 Done (s\<lparr>cancelled := True\<rparr>))
                else do { s \<leftarrow> sem_post 1 s; Some (goto 0 (Loop (i + 1)) s) }
     | Done \<Rightarrow> None }"

definition Shunina14_step :: "bool \<Rightarrow> nat \<Rightarrow> ring_c \<Rightarrow> ring_c option" where
  "Shunina14_step fail t = (if t = 0 then mainThread_step fail else if t = 1 then function_step fail else (\<lambda>_. None))"

text \<open>\<open>main\<close>: the results of the two \<open>sem_init\<close> and of \<open>pthread_create\<close>; the semaphores destroyed before an exit.\<close>

definition semDestroy :: "nat \<Rightarrow> nat list" where
  "semDestroy index = [0..<index]"

definition Shunina14_main :: "int \<Rightarrow> int \<Rightarrow> int \<Rightarrow> nat list \<times> ring_c outcome" where
  "Shunina14_main init0 init1 create =
     (if init0 \<noteq> 0 then ([], Exit 1)
      else if init1 \<noteq> 0 then (semDestroy 1, Exit 1)
      else if create \<noteq> 0 then (semDestroy 2, Exit 1)
      else ([], Go \<lparr>sems = [1, 0], pcs = [Loop 0, Loop 0], printed = [], cancelled = False\<rparr>))"

definition Shunina14 :: ring_prog where
  "Shunina14 = \<lparr>threads = 2, num_lines = 10, line_no = \<lambda>t i. i\<rparr>"

lemma Shunina14_sel [simp]:
  "threads Shunina14 = 2" "num_lines Shunina14 = 10" "line_no Shunina14 = (\<lambda>t i. i)"
  by (simp_all add: Shunina14_def)

definition Shunina14_start :: ring_c where
  "Shunina14_start = ring.extend (ring_start 2 False) \<lparr>cancelled = False\<rparr>"

definition Shunina14_inv :: "ring_c \<Rightarrow> bool" where
  "Shunina14_inv s \<longleftrightarrow> ring_inv 2 10 s \<and> Start \<notin> set (pcs s) \<and> \<not> cancelled s"

lemma Shunina14_step_ring:
  assumes "Start \<notin> set (pcs s)" "t < 2" "length (pcs s) = 2" "\<not> cancelled s"
  shows "Shunina14_step False t s = ring_step Shunina14 t s"
proof -
  have "pcs s ! 0 \<noteq> Start" "pcs s ! 1 \<noteq> Start" using assms pcs_not_start[of s] by auto
  then show ?thesis using two_threads[OF assms(2)] assms(3,4)
    by (auto simp: Shunina14_step_def function_step_def mainThread_step_def ring_step_def get_at_def split: pc.splits)
qed

lemma ring_step_cancelled: "ring_step P t s = Some s' \<Longrightarrow> cancelled s' = cancelled s"
  by (auto simp: ring_step_def fault_simps goto_def sem_wait_Some sem_post_Some split: pc.splits)

lemma Shunina14_start_inv: "Shunina14_inv Shunina14_start" "printed Shunina14_start = []"
  using ring_start_inv[of 2 10 False] ring_start_no_start[of 2]
  by (simp_all add: Shunina14_inv_def Shunina14_start_def ring.extend_def ring_inv_def ring_start_def)

lemma Shunina14_bounded:
  "bounded_turns 2 10 (\<lambda>t i. i) (Shunina14_step False) printed Shunina14_inv Shunina14_start (ring_rank 10)"
  by (rule ring_bounded_turns[of Shunina14, unfolded Shunina14_sel])
    (auto simp: Shunina14_start_inv Shunina14_start_inv[unfolded Shunina14_inv_def] Shunina14_inv_def ring_step_cancelled
      intro!: Shunina14_step_ring dest: ring_step_no_start ring_inv_length)

interpretation s14: bounded_turns 2 10 "\<lambda>t i. i" "Shunina14_step False" printed Shunina14_inv Shunina14_start "ring_rank 10"
  by (rule Shunina14_bounded)

text \<open>
  When no call fails, the threads of \<open>Shunina/lab14\<close> print first - 0, second - 0, first - 1, ...
  in every schedule, without deadlock, and end.
\<close>

theorem Shunina14_in_turn:
  assumes "Shunina14_main init0 init1 create = (destroyed, Go s0)"
    and "set ts \<subseteq> {..<2}" "run_schedule (Shunina14_step False) ts s0 = Some s"
  shows "printed s = round_robin 2 (\<lambda>t i. i) (length (printed s)) \<and> length ts \<le> 82 \<and>
    ((\<forall>t < 2. Shunina14_step False t s = None) \<longrightarrow> printed s = round_robin 2 (\<lambda>t i. i) 20)"
proof -
  have s0: "s0 = Shunina14_start"
    using assms(1)
    by (auto simp: Shunina14_main_def Shunina14_start_def ring.extend_def ring_start_def numeral_2_eq_2 split: if_splits)
  have "ring_rank 10 Shunina14_start = 82" by (simp add: Shunina14_start_def ring_rank_def ring.extend_def ring_start_def numeral_2_eq_2)
  then show ?thesis using s14.correct[OF assms(2)] assms(3) s0 by simp
qed

theorem Shunina14_in_turn_witness:
  "\<exists>s0 s. Shunina14_main 0 0 0 = ([], Go s0) \<and>
     run_schedule (Shunina14_step False) [1, 0, 0, 0, 0, 1, 1] s0 = Some s \<and> printed s = round_robin 2 (\<lambda>t i. i) 2"
proof -
  let ?ts = "[1, 0, 0, 0, 0, 1, 1]"
  have "(case Shunina14_main 0 0 0 of (d, Go s0) \<Rightarrow> d = [] \<and>
      (case run_schedule (Shunina14_step False) ?ts s0 of Some s \<Rightarrow> length (printed s) = 2 | None \<Rightarrow> False) | _ \<Rightarrow> False)"
    by code_simp
  then obtain s0 s where s: "Shunina14_main 0 0 0 = ([], Go s0)"
    "run_schedule (Shunina14_step False) ?ts s0 = Some s" "length (printed s) = 2"
    unfolding case_True by blast
  have "set ?ts \<subseteq> {..<2::nat}" by simp
  from Shunina14_in_turn[OF s(1) this s(2)] show ?thesis using s by metis
qed

lemma Shunina14_second: "Shunina14_step False (Suc 0) = function_step False"
  by (simp add: Shunina14_step_def)

lemma cancel_loop:
  "pcs x ! 1 = Loop j \<or> pcs x ! 1 = Wait j \<Longrightarrow> cancelled x \<Longrightarrow> length (pcs x) = 2 \<Longrightarrow>
     \<exists>y. run_schedule (Shunina14_step False) [1] x = Some y \<and> pcs y ! 1 = Done"
  by (auto simp: Shunina14_second function_step_def get_at_def)

lemma cancel_post:
  "pcs x ! 1 = Post j \<Longrightarrow> cancelled x \<Longrightarrow> length (pcs x) = 2 \<Longrightarrow> length (sems x) = 2 \<Longrightarrow>
     \<exists>y. run_schedule (Shunina14_step False) [1, 1] x = Some y \<and> pcs y ! 1 = Done"
  by (auto simp: Shunina14_second function_step_def get_at_def sem_post_def put_at_def goto_def)

lemma cancel_print:
  "pcs x ! 1 = Print j \<Longrightarrow> cancelled x \<Longrightarrow> length (pcs x) = 2 \<Longrightarrow> length (sems x) = 2 \<Longrightarrow>
     \<exists>y. run_schedule (Shunina14_step False) [1, 1, 1] x = Some y \<and> pcs y ! 1 = Done"
  by (auto simp: Shunina14_second function_step_def get_at_def sem_post_def put_at_def goto_def)

text \<open>
  When a semaphore call of the main thread of \<open>Shunina/lab14\<close> fails, the program does not hang in
  its \<open>pthread_join\<close>: from any such state the second thread comes to its end within three steps of
  its own, whatever the semaphores are, and no other thread has to run.
\<close>

theorem Shunina14_cancel_ends:
  assumes "mainThread_step True s = Some s1" "pcs s ! 0 \<in> {Wait i, Post i}"
    and "length (pcs s) = 2" "length (sems s) = 2" "pcs s ! 1 \<noteq> Start"
  shows "cancelled s1 \<and> (\<exists>ts s2. set ts \<subseteq> {1} \<and> length ts \<le> 3 \<and>
    run_schedule (Shunina14_step False) ts s1 = Some s2 \<and> pcs s2 ! 1 = Done)"
proof -
  have c: "cancelled s1" "length (pcs s1) = 2" "length (sems s1) = 2" "pcs s1 ! 1 = pcs s ! 1"
    using assms by (auto simp: mainThread_step_def get_at_def goto_def)
  let ?ends = "\<lambda>ts. \<exists>s2. run_schedule (Shunina14_step False) ts s1 = Some s2 \<and> pcs s2 ! 1 = Done"
  have "?ends [] \<or> ?ends [1] \<or> ?ends [1, 1] \<or> ?ends [1, 1, 1]"
  proof (cases "pcs s1 ! 1")
    case Start then show ?thesis using c(4) assms(5) by argo
  next
    case (Loop j) then show ?thesis using cancel_loop[OF _ c(1,2)] by blast
  next
    case (Wait j) then show ?thesis using cancel_loop[OF _ c(1,2)] by blast
  next
    case (Print j) then show ?thesis using cancel_print[OF _ c(1,2,3)] by blast
  next
    case (Post j) then show ?thesis using cancel_post[OF _ c(1,2,3)] by blast
  next
    case Done then show ?thesis by simp
  qed
  then obtain ts where "set ts \<subseteq> {1}" "length ts \<le> 3" "?ends ts"
    by (elim disjE) (rule that; fastforce simp del: run_schedule.simps)+
  then show ?thesis using c(1) by blast
qed

theorem Shunina14_cancel_ends_witness:
  "\<exists>s s1 s2 ts. run_schedule (Shunina14_step False) [0, 1] Shunina14_start = Some s \<and> mainThread_step True s = Some s1 \<and>
     set ts \<subseteq> {1} \<and> run_schedule (Shunina14_step False) ts s1 = Some s2 \<and> pcs s2 ! 1 = Done"
proof -
  have "(case run_schedule (Shunina14_step False) [0, 1] Shunina14_start of Some s \<Rightarrow>
      pcs s ! 0 = Wait 0 \<and> length (pcs s) = 2 \<and> length (sems s) = 2 \<and> pcs s ! 1 \<noteq> Start \<and>
      (case mainThread_step True s of Some s1 \<Rightarrow> True | None \<Rightarrow> False) | None \<Rightarrow> False)"
    by code_simp
  then obtain s s1 where s: "run_schedule (Shunina14_step False) [0, 1] Shunina14_start = Some s"
    "pcs s ! 0 = Wait 0" "length (pcs s) = 2" "length (sems s) = 2" "pcs s ! 1 \<noteq> Start" "mainThread_step True s = Some s1"
    unfolding case_True by blast
  from Shunina14_cancel_ends[OF s(6) _ s(3,4,5), of 0] show ?thesis using s by blast
qed

subsection \<open>Shinkevich/14: two threads\<close>

text \<open>Thread 0 is \<open>main\<close> with \<open>sem1\<close>, thread 1 is \<open>thr_fn\<close> with \<open>sem2\<close>.\<close>

definition thr_fn_step :: "nat \<Rightarrow> ring \<Rightarrow> ring option" where
  "thr_fn_step t s = do {
     p \<leftarrow> get_at (pcs s) t;
     case p of
       Start \<Rightarrow> None
     | Loop i \<Rightarrow> Some (goto t (if i < 10 then Wait i else Done) s)
     | Wait i \<Rightarrow> do { s \<leftarrow> sem_wait t s; Some (goto t (Print i) s) }
     | Print i \<Rightarrow> Some (goto t (Post i) (s\<lparr>printed := printed s @ [(t, i)]\<rparr>))
     | Post i \<Rightarrow> do { s \<leftarrow> sem_post (1 - t) s; Some (goto t (Loop (i + 1)) s) }
     | Done \<Rightarrow> None }"

definition Shinkevich14_main :: "int \<Rightarrow> ring outcome" where
  "Shinkevich14_main create =
     (if create \<noteq> 0 then Exit 1 else Go \<lparr>sems = [1, 0], pcs = [Loop 0, Loop 0], printed = []\<rparr>)"

lemma thr_fn_step_ring:
  assumes "Start \<notin> set (pcs s)" "t < 2" "length (pcs s) = 2"
  shows "thr_fn_step t s = ring_step Shunina14 t s"
proof -
  have "pcs s ! 0 \<noteq> Start" "pcs s ! 1 \<noteq> Start" using assms pcs_not_start[of s] by auto
  then show ?thesis using two_threads[OF assms(2)] assms(3)
    by (auto simp: thr_fn_step_def ring_step_def get_at_def split: pc.splits)
qed

interpretation i14: bounded_turns 2 10 "\<lambda>t i. i" thr_fn_step printed "plain_inv 2 10" "ring_start 2 False" "ring_rank 10"
  by (rule plain_bounded_turns[of Shunina14, unfolded Shunina14_sel]) (auto simp: thr_fn_step_ring)

text \<open>
  The parent and the child of \<open>Shinkevich/14\<close> print 0, 0, 1, 1, ... alternately, the parent first,
  in every schedule, without deadlock, and end.
\<close>

theorem Shinkevich14_in_turn:
  assumes "Shinkevich14_main create = Go s0" "set ts \<subseteq> {..<2}" "run_schedule thr_fn_step ts s0 = Some s"
  shows "printed s = round_robin 2 (\<lambda>t i. i) (length (printed s)) \<and> length ts \<le> 82 \<and>
    ((\<forall>t < 2. thr_fn_step t s = None) \<longrightarrow> printed s = round_robin 2 (\<lambda>t i. i) 20)"
proof -
  have "s0 = ring_start 2 False"
    using assms(1) by (auto simp: Shinkevich14_main_def ring_start_def numeral_2_eq_2 split: if_splits)
  then show ?thesis using i14.correct[OF assms(2)] assms(3) ring_start_rank[of 2 10 False] by simp
qed

theorem Shinkevich14_in_turn_witness:
  "\<exists>s0 s. Shinkevich14_main 0 = Go s0 \<and> run_schedule thr_fn_step [1, 0, 0, 0, 0, 1, 1] s0 = Some s \<and>
     printed s = round_robin 2 (\<lambda>t i. i) 2"
proof -
  let ?ts = "[1, 0, 0, 0, 0, 1, 1]"
  have "(case Shinkevich14_main 0 of Go s0 \<Rightarrow>
      (case run_schedule thr_fn_step ?ts s0 of Some s \<Rightarrow> length (printed s) = 2 | None \<Rightarrow> False) | _ \<Rightarrow> False)"
    by code_simp
  then obtain s0 s where s: "Shinkevich14_main 0 = Go s0"
    "run_schedule thr_fn_step ?ts s0 = Some s" "length (printed s) = 2"
    unfolding case_True by blast
  have "set ?ts \<subseteq> {..<2::nat}" by simp
  from Shinkevich14_in_turn[OF s(1) this s(2)] show ?thesis using s by metis
qed

end
