(* ===== verification/CondPrinting.thy ===== *)
theory CondPrinting
  imports SemPrinting
begin

text \<open>
  Two threads that print in turn with a mutex, a condition variable and a flag for whose turn it is
  (\<open>matsko/13\<close>, \<open>shuvalov/13\<close>, \<open>Shunina/lab13\<close>): lock; while it is not my turn, wait; then print,
  change the turn, signal, unlock, in an order that differs between the programs. A thread is a
  program counter; \<open>CBody i k\<close> is before the \<open>k\<close>-th of the four actions. The mutex is its owner, a
  sleeping thread is woken by the signal of the other one (or spuriously) and has to lock again.
  Shown, for the two orders that occur: the lines come in turn, spurious wake-ups included; without
  them no schedule is stuck before the end, and each step lowers a rank.
\<close>

subsection \<open>Threads\<close>

datatype act = APrint | AFlip | ASignal | AUnlock

datatype cpc = CLoop nat | CLock nat | CTest nat | CSleep nat | CWake nat | CBody nat nat | CDone

record cst =
  owner :: "nat option"
  main_turn :: bool
  cpcs :: "cpc list"
  cprinted :: "(nat \<times> nat) list"

record cond_prog =
  order :: "act list"
  clines :: nat
  cline :: "nat \<Rightarrow> nat \<Rightarrow> nat"

definition cgo :: "nat \<Rightarrow> cpc \<Rightarrow> 'a cst_scheme \<Rightarrow> 'a cst_scheme" where
  "cgo t p s = s\<lparr>cpcs := (cpcs s)[t := p]\<rparr>"

definition my_turn :: "nat \<Rightarrow> 'a cst_scheme \<Rightarrow> bool" where
  "my_turn t s \<longleftrightarrow> main_turn s = (t = 0)"

text \<open>\<open>pthread_mutex_lock\<close> blocks while the mutex is held; an unlock by a thread that does not hold it is an error.\<close>

definition mlock :: "nat \<Rightarrow> 'a cst_scheme \<Rightarrow> 'a cst_scheme option" where
  "mlock t s = (if owner s = None then Some (s\<lparr>owner := Some t\<rparr>) else None)"

definition munlock :: "nat \<Rightarrow> 'a cst_scheme \<Rightarrow> 'a cst_scheme option" where
  "munlock t s = (if owner s = Some t then Some (s\<lparr>owner := None\<rparr>) else None)"

fun awake :: "cpc \<Rightarrow> cpc" where
  "awake (CSleep i) = CWake i"
| "awake p = p"

text \<open>\<open>pthread_cond_signal\<close> wakes the other thread if it sleeps; \<open>pthread_cond_wait\<close> gives the mutex up.\<close>

definition csignal :: "nat \<Rightarrow> 'a cst_scheme \<Rightarrow> 'a cst_scheme" where
  "csignal t s = s\<lparr>cpcs := (cpcs s)[1 - t := awake (cpcs s ! (1 - t))]\<rparr>"

definition cwait :: "nat \<Rightarrow> nat \<Rightarrow> 'a cst_scheme \<Rightarrow> 'a cst_scheme option" where
  "cwait t i s = do { s \<leftarrow> munlock t s; Some (cgo t (CSleep i) s) }"

definition act_step :: "cond_prog \<Rightarrow> nat \<Rightarrow> nat \<Rightarrow> act \<Rightarrow> 'a cst_scheme \<Rightarrow> 'a cst_scheme option" where
  "act_step P t i a s =
     (case a of
        APrint \<Rightarrow> Some (s\<lparr>cprinted := cprinted s @ [(t, cline P t i)]\<rparr>)
      | AFlip \<Rightarrow> Some (s\<lparr>main_turn := \<not> main_turn s\<rparr>)
      | ASignal \<Rightarrow> Some (csignal t s)
      | AUnlock \<Rightarrow> munlock t s)"

definition cond_step :: "cond_prog \<Rightarrow> nat \<Rightarrow> 'a cst_scheme \<Rightarrow> 'a cst_scheme option" where
  "cond_step P t s = do {
     p \<leftarrow> get_at (cpcs s) t;
     case p of
       CLoop i \<Rightarrow> Some (cgo t (if i < clines P then CLock i else CDone) s)
     | CLock i \<Rightarrow> do { s \<leftarrow> mlock t s; Some (cgo t (CTest i) s) }
     | CTest i \<Rightarrow> if my_turn t s then Some (cgo t (CBody i 0) s) else cwait t i s
     | CSleep i \<Rightarrow> None
     | CWake i \<Rightarrow> do { s \<leftarrow> mlock t s; Some (cgo t (CTest i) s) }
     | CBody i k \<Rightarrow> do {
         a \<leftarrow> get_at (order P) k;
         s \<leftarrow> act_step P t i a s;
         Some (cgo t (if Suc k < length (order P) then CBody i (Suc k) else CLoop (i + 1)) s) }
     | CDone \<Rightarrow> None }"

text \<open>A wake-up without a signal (spurious, or a timeout).\<close>

definition spurious :: "nat \<Rightarrow> 'a cst_scheme \<Rightarrow> 'a cst_scheme option" where
  "spurious t s = do {
     p \<leftarrow> get_at (cpcs s) t;
     case p of CSleep i \<Rightarrow> Some (cgo t (CWake i) s) | _ \<Rightarrow> None }"

subsection \<open>The invariant\<close>

definition good_order :: "act list \<Rightarrow> bool" where
  "good_order ord \<longleftrightarrow> ord = [APrint, AFlip, ASignal, AUnlock] \<or> ord = [AFlip, APrint, AUnlock, ASignal]"

definition stage :: "act list \<Rightarrow> act \<Rightarrow> nat \<Rightarrow> bool" where
  "stage ord a k \<longleftrightarrow> a \<in> set (take k ord)"

definition holds :: "act list \<Rightarrow> cpc \<Rightarrow> bool" where
  "holds ord p = (case p of CTest i \<Rightarrow> True | CBody i k \<Rightarrow> \<not> stage ord AUnlock k | _ \<Rightarrow> False)"

definition pending_signal :: "act list \<Rightarrow> cpc \<Rightarrow> bool" where
  "pending_signal ord p = (case p of CBody i k \<Rightarrow> stage ord AFlip k \<and> \<not> stage ord ASignal k | _ \<Rightarrow> False)"

fun sleeps :: "cpc \<Rightarrow> bool" where
  "sleeps (CSleep i) = True"
| "sleeps p = False"

text \<open>Of \<open>k\<close> lines and of \<open>f\<close> changes of the turn, those of thread \<open>t\<close>, against its program counter.\<close>

definition cpc_ok :: "act list \<Rightarrow> nat \<Rightarrow> nat \<Rightarrow> nat \<Rightarrow> nat \<Rightarrow> cpc \<Rightarrow> bool" where
  "cpc_ok ord L k f t p =
     (let c = lines_of 2 k t; d = lines_of 2 f t in
      case p of
        CLoop i \<Rightarrow> c = i \<and> d = i \<and> i \<le> L
      | CLock i \<Rightarrow> c = i \<and> d = i \<and> i < L
      | CTest i \<Rightarrow> c = i \<and> d = i \<and> i < L
      | CSleep i \<Rightarrow> c = i \<and> d = i \<and> i < L
      | CWake i \<Rightarrow> c = i \<and> d = i \<and> i < L
      | CBody i j \<Rightarrow> i < L \<and> j < 4 \<and> c = (if stage ord APrint j then i + 1 else i) \<and>
          d = (if stage ord AFlip j then i + 1 else i) \<and>
          (stage ord AUnlock j \<or> (if stage ord AFlip j then 0 < f \<and> (f - 1) mod 2 = t else f mod 2 = t))
      | CDone \<Rightarrow> c = L \<and> d = L)"

definition cond_ok :: "act list \<Rightarrow> nat \<Rightarrow> nat \<Rightarrow> nat \<Rightarrow> nat option \<Rightarrow> nat \<Rightarrow> cpc \<Rightarrow> cpc \<Rightarrow> bool" where
  "cond_ok ord L k f own t p q \<longleftrightarrow>
     cpc_ok ord L k f t p \<and> cpc_ok ord L k f (1 - t) q \<and> \<not> (holds ord p \<and> holds ord q) \<and>
     own = (if holds ord p then Some t else if holds ord q then Some (1 - t) else None) \<and>
     (sleeps p \<longrightarrow> f mod 2 = t \<longrightarrow> pending_signal ord q) \<and>
     (sleeps q \<longrightarrow> f mod 2 = 1 - t \<longrightarrow> pending_signal ord p)"

definition cond_inv :: "act list \<Rightarrow> nat \<Rightarrow> 'a cst_scheme \<Rightarrow> bool" where
  "cond_inv ord L s \<longleftrightarrow>
     (\<exists>f p q. cpcs s = [p, q] \<and> main_turn s = even f \<and> cond_ok ord L (length (cprinted s)) f (owner s) 0 p q)"

lemma cond_ok_swap: "t < 2 \<Longrightarrow> cond_ok ord L k f own (1 - t) q p = cond_ok ord L k f own t p q"
  by (auto simp: cond_ok_def less_Suc_eq numeral_2_eq_2)

lemma lines_two: "lines_of 2 k 0 = (k + 1) div 2" "lines_of 2 k (Suc 0) = k div 2"
  by (auto simp: lines_of_def) presburger+

lemmas cond_defs = cond_ok_def cpc_ok_def holds_def pending_signal_def stage_def Let_def

lemma ok_CLoop:
  "cond_ok ord L k f own t (CLoop i) q \<Longrightarrow> cond_ok ord L k f own t (if i < L then CLock i else CDone) q"
  by (auto simp: cond_defs)

lemma ok_CLock:
  "cond_ok ord L k f None t (CLock i) q \<Longrightarrow> t < 2 \<Longrightarrow> cond_ok ord L k f (Some t) t (CTest i) q"
  "cond_ok ord L k f None t (CWake i) q \<Longrightarrow> t < 2 \<Longrightarrow> cond_ok ord L k f (Some t) t (CTest i) q"
  by (auto simp: cond_defs split: if_splits)

lemma ok_CTest_turn:
  "cond_ok ord L k f own t (CTest i) q \<Longrightarrow> f mod 2 = t \<Longrightarrow> t < 2 \<Longrightarrow> cond_ok ord L k f own t (CBody i 0) q"
  by (auto simp: cond_defs split: if_splits)

lemma ok_CTest_wait:
  "cond_ok ord L k f own t (CTest i) q \<Longrightarrow> f mod 2 \<noteq> t \<Longrightarrow> t < 2 \<Longrightarrow> own = Some t \<and> cond_ok ord L k f None t (CSleep i) q"
  by (auto simp: cond_defs split: if_splits)

lemma ok_spurious:
  "cond_ok ord L k f own t (CSleep i) q \<Longrightarrow> cond_ok ord L k f own t (CWake i) q"
  by (auto simp: cond_defs split: if_splits)

lemma stage_simps:
  "good_order ord \<Longrightarrow> j < 4 \<Longrightarrow> stage ord AUnlock j \<Longrightarrow> stage ord APrint j \<and> stage ord AFlip j"
  by (auto simp: good_order_def stage_def numeral_eq_Suc less_Suc_eq)

lemma cpc_ok_idle:
  "good_order ord \<Longrightarrow> cpc_ok ord L k f u q \<Longrightarrow> \<not> holds ord q \<Longrightarrow> lines_of 2 k u = lines_of 2 f u"
  by (auto simp: cpc_ok_def holds_def Let_def dest: stage_simps split: cpc.splits)

lemma ok_bodyD:
  assumes "good_order ord" "cond_ok ord L k f own t (CBody i j) q" "t < 2"
  shows "j < 4 \<and> i < L \<and> length ord = 4" and
    "\<not> stage ord AUnlock j \<Longrightarrow> own = Some t \<and> \<not> holds ord q \<and> lines_of 2 k (1 - t) = lines_of 2 f (1 - t)"
  using assms cpc_ok_idle[OF assms(1), of L k f "1 - t" q]
  by (auto simp: cond_ok_def cpc_ok_def holds_def Let_def good_order_def)

lemma lines_sum: "t < 2 \<Longrightarrow> lines_of 2 k t + lines_of 2 k (1 - t) = k"
  by (auto simp: lines_two dest!: two_threads)

lemma lines_Suc: "t < 2 \<Longrightarrow> lines_of 2 (Suc k) t = lines_of 2 k t + (if k mod 2 = t then 1 else 0)"
  by (simp add: lines_of_Suc eq_commute)

lemma cpc_ok_other:
  "k mod 2 \<noteq> u \<Longrightarrow> u < 2 \<Longrightarrow> cpc_ok ord L (Suc k) f u q = cpc_ok ord L k f u q"
  by (auto simp: cpc_ok_def lines_Suc)

lemma cpc_ok_flip_other:
  "\<not> holds ord q \<Longrightarrow> f mod 2 \<noteq> u \<Longrightarrow> u < 2 \<Longrightarrow> cpc_ok ord L k f u q \<Longrightarrow> cpc_ok ord L k (Suc f) u q"
  by (cases q) (simp_all add: cpc_ok_def holds_def lines_Suc Let_def)

lemma other_thread: "t < 2 \<Longrightarrow> x mod 2 = t \<Longrightarrow> x mod 2 \<noteq> 1 - t \<and> 1 - t < (2::nat)"
  by (cases t) auto

lemma holds_simps [simp]:
  "holds ord (CBody i j) = (\<not> stage ord AUnlock j)" "holds ord (CTest i)" "\<not> holds ord (CLoop i)"
  "\<not> holds ord (CLock i)" "\<not> holds ord (CSleep i)" "\<not> holds ord (CWake i)" "\<not> holds ord CDone"
  by (simp_all add: holds_def)

lemma pending_simps [simp]:
  "pending_signal ord (CBody i j) = (stage ord AFlip j \<and> \<not> stage ord ASignal j)" "\<not> pending_signal ord (CLoop i)"
  by (simp_all add: pending_signal_def)

lemma cond_okI:
  assumes "cpc_ok ord L k f t p" "cpc_ok ord L k f (1 - t) q" "\<not> (holds ord p \<and> holds ord q)" "\<not> sleeps p"
    and "own = (if holds ord p then Some t else if holds ord q then Some (1 - t) else None)"
    and "sleeps q \<Longrightarrow> f mod 2 = 1 - t \<Longrightarrow> pending_signal ord p"
  shows "cond_ok ord L k f own t p q"
  using assms by (simp add: cond_ok_def)

lemma cond_okD:
  assumes "cond_ok ord L k f own t p q"
  shows "cpc_ok ord L k f t p" "cpc_ok ord L k f (1 - t) q" "\<not> (holds ord p \<and> holds ord q)"
    "own = (if holds ord p then Some t else if holds ord q then Some (1 - t) else None)"
    "sleeps q \<Longrightarrow> f mod 2 = 1 - t \<Longrightarrow> pending_signal ord p"
    "sleeps p \<Longrightarrow> f mod 2 = t \<Longrightarrow> pending_signal ord q"
  using assms by (simp_all add: cond_ok_def)

text \<open>What is known of a thread in the body of the loop, and of the stage behind an action.\<close>

lemma body_ok:
  assumes "good_order ord" "cond_ok ord L k f own t (CBody i j) q"
  shows "j < 4" "i < L" "lines_of 2 k t = (if stage ord APrint j then i + 1 else i)"
    "lines_of 2 f t = (if stage ord AFlip j then i + 1 else i)"
    "stage ord AUnlock j \<or> (if stage ord AFlip j then 0 < f \<and> (f - 1) mod 2 = t else f mod 2 = t)"
  using cond_okD(1)[OF assms(2)] by (simp_all add: cpc_ok_def Let_def)

lemma stage_next:
  "good_order ord \<Longrightarrow> j < 4 \<Longrightarrow> stage ord b (Suc j) = (stage ord b j \<or> b = ord ! j)"
  by (auto simp: good_order_def stage_def numeral_eq_Suc less_Suc_eq)

lemma stage_at:
  assumes "good_order ord" "j < 4"
  shows "ord ! j = APrint \<Longrightarrow> \<not> stage ord AUnlock j \<and> \<not> stage ord APrint j \<and> Suc j < 4"
    "ord ! j = AFlip \<Longrightarrow> \<not> stage ord AUnlock j \<and> \<not> stage ord AFlip j \<and> \<not> stage ord ASignal j \<and> Suc j < 4"
    "ord ! j = ASignal \<Longrightarrow> stage ord APrint j \<and> stage ord AFlip j \<and> (Suc j < 4 \<or> stage ord AUnlock j)"
    "ord ! j = AUnlock \<Longrightarrow> stage ord APrint j \<and> stage ord AFlip j \<and> \<not> stage ord AUnlock j \<and> (Suc j < 4 \<or> stage ord ASignal j)"
  using assms by (auto simp: good_order_def stage_def numeral_eq_Suc less_Suc_eq)

lemma cond_ok_print:
  assumes g: "good_order ord" and ok: "cond_ok ord L k f own t (CBody i j) q" and t: "t < 2" and a: "ord ! j = APrint"
  shows "k mod 2 = t \<and> i = k div 2 \<and> cond_ok ord L (Suc k) f own t (CBody i (Suc j)) q"
proof -
  note b = body_ok[OF g ok]
  note s = stage_at(1)[OF g b(1) a]
  note o = ok_bodyD(2)[OF g ok t, OF conjunct1[OF s]]
  have c: "lines_of 2 k t = i" "lines_of 2 f t = (if stage ord AFlip j then i + 1 else i)"
    "if stage ord AFlip j then 0 < f \<and> (f - 1) mod 2 = t else f mod 2 = t"
    using b s by simp_all
  have "k = (if stage ord AFlip j then f - 1 else f)"
    using c(1,2) o lines_sum[OF t, of k] lines_sum[OF t, of f] by (simp split: if_splits)
  then have k: "k mod 2 = t" using c(3) by (cases "stage ord AFlip j") simp_all
  have i: "i = k div 2" using c(1) k by (metis lines_of_turn)
  note u = other_thread[OF t k]
  have "cond_ok ord L (Suc k) f own t (CBody i (Suc j)) q"
  proof (rule cond_okI)
    show "cpc_ok ord L (Suc k) f t (CBody i (Suc j))"
      using b c s k t by (simp add: cpc_ok_def lines_Suc stage_next[OF g] a)
    show "cpc_ok ord L (Suc k) f (1 - t) q" using cond_okD(2)[OF ok] u by (simp add: cpc_ok_other)
  qed (use cond_okD(3-5)[OF ok] s b in \<open>simp_all add: stage_next[OF g] a\<close>)
  then show ?thesis using k i by simp
qed

lemma ok_flip:
  assumes g: "good_order ord" and ok: "cond_ok ord L k f own t (CBody i j) q" and t: "t < 2" and a: "ord ! j = AFlip"
  shows "f mod 2 = t \<and> cond_ok ord L k (Suc f) own t (CBody i (Suc j)) q"
proof -
  note b = body_ok[OF g ok]
  note s = stage_at(2)[OF g b(1) a]
  note o = ok_bodyD(2)[OF g ok t, OF conjunct1[OF s]]
  have f: "f mod 2 = t" using b(5) s by simp
  note u = other_thread[OF t f]
  have "cond_ok ord L k (Suc f) own t (CBody i (Suc j)) q"
  proof (rule cond_okI)
    show "cpc_ok ord L k (Suc f) t (CBody i (Suc j))"
      using b s f t by (simp add: cpc_ok_def lines_Suc stage_next[OF g] a)
    show "cpc_ok ord L k (Suc f) (1 - t) q" using cond_okD(2)[OF ok] u o by (intro cpc_ok_flip_other) simp_all
  qed (use cond_okD(3,4)[OF ok] s b in \<open>simp_all add: stage_next[OF g] a\<close>)
  then show ?thesis using f by simp
qed

lemma holds_awake [simp]: "holds ord (awake p) = holds ord p"
  by (cases p) simp_all

lemma sleeps_awake [simp]: "\<not> sleeps (awake p)"
  by (cases p) simp_all

lemma cpc_ok_awake: "cpc_ok ord L k f t p \<Longrightarrow> cpc_ok ord L k f t (awake p)"
  by (cases p) (simp_all add: cpc_ok_def)

lemma cpc_ok_next:
  assumes "good_order ord" "cpc_ok ord L k f t (CBody i j)" "stage ord APrint j" "stage ord AFlip j"
    and "Suc j < 4 \<or> stage ord AUnlock j \<or> ord ! j = AUnlock"
  shows "cpc_ok ord L k f t (if Suc j < 4 then CBody i (Suc j) else CLoop (i + 1))"
  using assms by (auto simp: cpc_ok_def Let_def stage_next)

lemma ok_signal:
  assumes g: "good_order ord" and ok: "cond_ok ord L k f own t (CBody i j) q" and t: "t < 2" and a: "ord ! j = ASignal"
  shows "cond_ok ord L k f own t (if Suc j < 4 then CBody i (Suc j) else CLoop (i + 1)) (awake q)"
proof (rule cond_okI)
  note b = body_ok[OF g ok]
  note s = stage_at(3)[OF g b(1) a]
  show "cpc_ok ord L k f t (if Suc j < 4 then CBody i (Suc j) else CLoop (i + 1))"
    using cond_okD(1)[OF ok] s by (intro cpc_ok_next[OF g]) auto
  show "cpc_ok ord L k f (1 - t) (awake q)" using cond_okD(2)[OF ok] by (rule cpc_ok_awake)
  show "\<not> (holds ord (if Suc j < 4 then CBody i (Suc j) else CLoop (i + 1)) \<and> holds ord (awake q))"
    "own = (if holds ord (if Suc j < 4 then CBody i (Suc j) else CLoop (i + 1)) then Some t
      else if holds ord (awake q) then Some (1 - t) else None)"
    using cond_okD(3,4)[OF ok] s b(1) by (auto simp: stage_next[OF g] a)
qed simp_all

lemma ok_unlock:
  assumes g: "good_order ord" and ok: "cond_ok ord L k f own t (CBody i j) q" and t: "t < 2" and a: "ord ! j = AUnlock"
  shows "own = Some t \<and> cond_ok ord L k f None t (if Suc j < 4 then CBody i (Suc j) else CLoop (i + 1)) q"
proof -
  note b = body_ok[OF g ok]
  note s = stage_at(4)[OF g b(1) a]
  have o: "own = Some t" "\<not> holds ord q" using ok_bodyD(2)[OF g ok t] s by simp_all
  have "cond_ok ord L k f None t (if Suc j < 4 then CBody i (Suc j) else CLoop (i + 1)) q"
  proof (rule cond_okI)
    show "cpc_ok ord L k f t (if Suc j < 4 then CBody i (Suc j) else CLoop (i + 1))"
      using cond_okD(1)[OF ok] s a by (intro cpc_ok_next[OF g]) auto
    show "pending_signal ord (if Suc j < 4 then CBody i (Suc j) else CLoop (i + 1))"
      if "sleeps q" "f mod 2 = 1 - t"
      using cond_okD(5)[OF ok that] s b(1) by (auto simp: stage_next[OF g] a)
  qed (use cond_okD(2)[OF ok] o s b(1) in \<open>auto simp: stage_next[OF g] a\<close>)
  then show ?thesis using o by simp
qed

subsection \<open>Runs\<close>

fun cpc_rank :: "nat \<Rightarrow> cpc \<Rightarrow> nat" where
  "cpc_rank L (CLoop i) = 20 * (L - i) + 1"
| "cpc_rank L (CLock i) = 20 * (L - i)"
| "cpc_rank L (CTest i) = 20 * (L - i) - 1"
| "cpc_rank L (CSleep i) = 20 * (L - i) - 2"
| "cpc_rank L (CWake i) = 20 * (L - i)"
| "cpc_rank L (CBody i j) = 20 * (L - i) - 3 - 4 * j"
| "cpc_rank L CDone = 0"

definition cond_rank :: "nat \<Rightarrow> 'a cst_scheme \<Rightarrow> nat" where
  "cond_rank L s = sum_list (map (cpc_rank L) (cpcs s))"

lemma rank_awake: "cpc_ok ord L k f t q \<Longrightarrow> cpc_rank L (awake q) \<le> cpc_rank L q + 2"
  by (cases q) (auto simp: cpc_ok_def)

text \<open>The state as seen by thread \<open>t\<close>.\<close>

definition cond_view :: "cond_prog \<Rightarrow> 'a cst_scheme \<Rightarrow> nat \<Rightarrow> nat \<Rightarrow> cpc \<Rightarrow> cpc \<Rightarrow> bool" where
  "cond_view P s f t p q \<longleftrightarrow> t < 2 \<and> length (cpcs s) = 2 \<and> cpcs s ! t = p \<and> cpcs s ! (1 - t) = q \<and>
     main_turn s = even f \<and> cond_ok (order P) (clines P) (length (cprinted s)) f (owner s) t p q"

lemma cond_inv_view:
  assumes "cond_inv (order P) (clines P) s" "t < 2"
  obtains f p q where "cond_view P s f t p q"
proof -
  obtain f p q where v: "cpcs s = [p, q]" "main_turn s = even f"
    "cond_ok (order P) (clines P) (length (cprinted s)) f (owner s) 0 p q"
    using assms(1) by (auto simp: cond_inv_def)
  from two_threads[OF assms(2)] show thesis
  proof
    assume "t = 0"
    then show thesis using v by (intro that[of f p q]) (simp add: cond_view_def)
  next
    assume "t = 1"
    then show thesis using v cond_ok_swap[of 0 "order P"] by (intro that[of f q p]) (simp add: cond_view_def)
  qed
qed

lemma cond_view_inv:
  assumes "cond_view P s f t p q"
  shows "cond_inv (order P) (clines P) s \<and> cond_rank (clines P) s = cpc_rank (clines P) p + cpc_rank (clines P) q"
proof -
  obtain a b where ab: "cpcs s = [a, b]" using assms by (auto simp: cond_view_def length_Suc_conv numeral_2_eq_2)
  have "t < 2" using assms by (simp add: cond_view_def)
  from two_threads[OF this] show ?thesis
  proof
    assume "t = 0"
    then show ?thesis using assms ab by (auto simp: cond_view_def cond_inv_def cond_rank_def)
  next
    assume "t = 1"
    then show ?thesis using assms ab cond_ok_swap[of 0 "order P"]
      by (auto simp: cond_view_def cond_inv_def cond_rank_def)
  qed
qed

lemma my_turn_view: "cond_view P s f t p q \<Longrightarrow> my_turn t s = (f mod 2 = t)"
  by (auto simp: cond_view_def my_turn_def dest!: two_threads) presburger+

lemma cgo_sel [simp]:
  "cpcs (cgo t p s) = (cpcs s)[t := p]" "owner (cgo t p s) = owner s" "main_turn (cgo t p s) = main_turn s"
  "cprinted (cgo t p s) = cprinted s"
  by (simp_all add: cgo_def)

definition cond_good :: "cond_prog \<Rightarrow> 'a cst_scheme \<Rightarrow> 'a cst_scheme \<Rightarrow> bool" where
  "cond_good P s s' \<longleftrightarrow> cond_inv (order P) (clines P) s' \<and> cond_rank (clines P) s' < cond_rank (clines P) s \<and>
     (cprinted s' = cprinted s \<or> cprinted s' = cprinted s @ [turn 2 (cline P) (length (cprinted s))])"

lemma cond_goodI:
  assumes "cond_view P s f t p q" "cond_view P s' f' t p' q'"
    and "cpc_rank (clines P) p' + cpc_rank (clines P) q' < cpc_rank (clines P) p + cpc_rank (clines P) q"
    and "cprinted s' = cprinted s \<or> cprinted s' = cprinted s @ [turn 2 (cline P) (length (cprinted s))]"
  shows "cond_good P s s'"
  using assms cond_view_inv[OF assms(1)] cond_view_inv[OF assms(2)] by (simp add: cond_good_def)

lemma cond_viewI:
  assumes "t < 2" "length (cpcs s') = 2" "cpcs s' ! t = p" "cpcs s' ! (1 - t) = q" "main_turn s' = even f"
    and "cond_ok (order P) (clines P) (length (cprinted s')) f (owner s') t p q"
  shows "cond_view P s' f t p q"
  using assms by (simp add: cond_view_def)

lemma cond_viewD:
  assumes "cond_view P s f t p q"
  shows "t < 2" "length (cpcs s) = 2" "cpcs s ! t = p" "cpcs s ! (1 - t) = q" "cpcs s ! (Suc 0 - t) = q"
    "main_turn s = even f" "t \<noteq> 1 - t" "t \<noteq> Suc 0 - t" "1 - t \<noteq> t" "Suc 0 - t \<noteq> t"
    "cond_ok (order P) (clines P) (length (cprinted s)) f (owner s) t p q"
proof -
  have "t \<noteq> 1 - t" using assms by (cases t) (auto simp: cond_view_def)
  then show "t < 2" "length (cpcs s) = 2" "cpcs s ! t = p" "cpcs s ! (1 - t) = q" "cpcs s ! (Suc 0 - t) = q"
    "main_turn s = even f" "t \<noteq> 1 - t" "t \<noteq> Suc 0 - t" "1 - t \<noteq> t" "Suc 0 - t \<noteq> t"
    "cond_ok (order P) (clines P) (length (cprinted s)) f (owner s) t p q"
    using assms by (simp_all add: cond_view_def)
qed

lemma step_sleep: "cond_view P s f t (CSleep i) q \<Longrightarrow> cond_step P t s = None"
  "cond_view P s f t CDone q \<Longrightarrow> cond_step P t s = None"
  by (simp_all add: cond_view_def cond_step_def get_at_def)

lemma step_good_loop:
  assumes "cond_view P s f t (CLoop i) q" "cond_step P t s = Some s'"
  shows "cond_good P s s'"
proof (rule cond_goodI[OF assms(1)])
  note v = cond_viewD[OF assms(1)]
  show "cond_view P s' f t (if i < clines P then CLock i else CDone) q"
    using assms(2) v ok_CLoop[OF v(11)] by (intro cond_viewI) (auto simp: cond_step_def get_at_def split del: if_split)
qed (use assms cond_viewD[OF assms(1)] in \<open>auto simp: cond_step_def get_at_def\<close>)

lemma step_good_lock:
  assumes "cond_view P s f t p q" "p = CLock i \<or> p = CWake i" "cond_step P t s = Some s'"
  shows "cond_good P s s'"
proof (rule cond_goodI[OF assms(1)])
  note v = cond_viewD[OF assms(1)]
  have i: "i < clines P" using cond_okD(1)[OF v(11)] assms(2) by (auto simp: cpc_ok_def Let_def)
  have s': "owner s = None" "s' = cgo t (CTest i) (s\<lparr>owner := Some t\<rparr>)"
    using assms(2,3) v by (auto simp: cond_step_def get_at_def mlock_def split: if_splits)
  show "cond_view P s' f t (CTest i) q"
    using assms(2) v s' ok_CLock[of "order P" "clines P" "length (cprinted s)" f t i q]
    by (intro cond_viewI) auto
  show "cpc_rank (clines P) (CTest i) + cpc_rank (clines P) q < cpc_rank (clines P) p + cpc_rank (clines P) q"
    using assms(2) i by auto
  show "cprinted s' = cprinted s \<or> cprinted s' = cprinted s @ [turn 2 (cline P) (length (cprinted s))]"
    using s' by simp
qed

lemma step_good_test:
  assumes "cond_view P s f t (CTest i) q" "cond_step P t s = Some s'"
  shows "cond_good P s s'"
proof (rule cond_goodI[OF assms(1)])
  note v = cond_viewD[OF assms(1)]
  note m = my_turn_view[OF assms(1)]
  have i: "i < clines P" using cond_okD(1)[OF v(11)] by (auto simp: cpc_ok_def Let_def)
  note w = ok_CTest_wait[OF v(11) _ v(1)]
  have s': "s' = (if f mod 2 = t then cgo t (CBody i 0) s else cgo t (CSleep i) (s\<lparr>owner := None\<rparr>))"
    using assms(2) v m w by (auto simp: cond_step_def get_at_def cwait_def munlock_def split: if_splits)
  show "cond_view P s' f t (if f mod 2 = t then CBody i 0 else CSleep i) q"
    using v s' w ok_CTest_turn[OF v(11) _ v(1)] by (intro cond_viewI) auto
  show "cpc_rank (clines P) (if f mod 2 = t then CBody i 0 else CSleep i) + cpc_rank (clines P) q
      < cpc_rank (clines P) (CTest i) + cpc_rank (clines P) q"
    using i by auto
  show "cprinted s' = cprinted s \<or> cprinted s' = cprinted s @ [turn 2 (cline P) (length (cprinted s))]"
    using s' by simp
qed

lemma step_body:
  assumes "good_order (order P)" "cond_view P s f t (CBody i j) q"
  shows "cond_step P t s = act_step P t i (order P ! j) s \<bind>
    (\<lambda>s. Some (cgo t (if Suc j < 4 then CBody i (Suc j) else CLoop (i + 1)) s))"
    and "cpc_rank (clines P) (if Suc j < 4 then CBody i (Suc j) else CLoop (i + 1)) + 4 \<le> cpc_rank (clines P) (CBody i j)"
proof -
  note v = cond_viewD[OF assms(2)]
  note b = body_ok[OF assms(1) v(11)]
  have "length (order P) = 4" using assms(1) by (auto simp: good_order_def)
  then show "cond_step P t s = act_step P t i (order P ! j) s \<bind>
    (\<lambda>s. Some (cgo t (if Suc j < 4 then CBody i (Suc j) else CLoop (i + 1)) s))"
    using v b by (simp add: cond_step_def get_at_def)
  show "cpc_rank (clines P) (if Suc j < 4 then CBody i (Suc j) else CLoop (i + 1)) + 4 \<le> cpc_rank (clines P) (CBody i j)"
    using b(1,2) by auto
qed

lemma step_good_body:
  assumes g: "good_order (order P)" and vw: "cond_view P s f t (CBody i j) q" and st: "cond_step P t s = Some s'"
  shows "cond_good P s s'"
proof -
  note v = cond_viewD[OF vw]
  note b = body_ok[OF g v(11)]
  let ?p = "if Suc j < 4 then CBody i (Suc j) else CLoop (i + 1)"
  note st = st[unfolded step_body(1)[OF g vw]]
  note r = step_body(2)[OF g vw]
  show ?thesis
  proof (cases "order P ! j")
    case APrint
    have j: "Suc j < 4" using stage_at(1)[OF g b(1) APrint] by simp
    note p = cond_ok_print[OF g v(11,1) APrint]
    have s': "s' = cgo t ?p (s\<lparr>cprinted := cprinted s @ [(t, cline P t i)]\<rparr>)"
      using st APrint by (simp add: act_step_def)
    have "cond_view P s' f t ?p q" using v s' p j by (intro cond_viewI) auto
    then show ?thesis using r s' p by (intro cond_goodI[OF vw]) (auto simp: turn_def simp del: cpc_rank.simps split del: if_split)
  next
    case AFlip
    have j: "Suc j < 4" using stage_at(2)[OF g b(1) AFlip] by simp
    note p = ok_flip[OF g v(11,1) AFlip]
    have s': "s' = cgo t ?p (s\<lparr>main_turn := \<not> main_turn s\<rparr>)" using st AFlip by (simp add: act_step_def)
    have "cond_view P s' (Suc f) t ?p q" using v s' p j by (intro cond_viewI) auto
    then show ?thesis using r s' by (intro cond_goodI[OF vw]) (auto simp del: cpc_rank.simps split del: if_split)
  next
    case ASignal
    note p = ok_signal[OF g v(11,1) ASignal]
    have s': "s' = cgo t ?p (csignal t s)" using st ASignal by (simp add: act_step_def)
    have "cond_view P s' f t ?p (awake q)" using v s' p by (intro cond_viewI) (auto simp: csignal_def)
    then show ?thesis using r s' rank_awake[OF cond_okD(2)[OF v(11)]]
      by (intro cond_goodI[OF vw]) (auto simp: csignal_def simp del: cpc_rank.simps split del: if_split)
  next
    case AUnlock
    note p = ok_unlock[OF g v(11,1) AUnlock]
    have s': "s' = cgo t ?p (s\<lparr>owner := None\<rparr>)" using st AUnlock p by (simp add: act_step_def munlock_def)
    have "cond_view P s' f t ?p q" using v s' p by (intro cond_viewI) auto
    then show ?thesis using r s' by (intro cond_goodI[OF vw]) (auto simp del: cpc_rank.simps split del: if_split)
  qed
qed

lemma cond_step_good:
  fixes P :: cond_prog
  assumes g: "good_order (order P)" and inv: "cond_inv (order P) (clines P) s" and t: "t < 2"
    and st: "cond_step P t s = Some s'"
  shows "cond_good P s s'"
proof -
  obtain f p q where v: "cond_view P s f t p q" by (rule cond_inv_view[OF inv t])
  then show ?thesis
    using st step_good_loop step_good_lock step_good_test step_good_body[OF g] step_sleep
    by (cases p) fastforce+
qed

lemma spurious_inv:
  fixes P :: cond_prog
  assumes inv: "cond_inv (order P) (clines P) s" and t: "t < 2" and st: "spurious t s = Some s'"
  shows "cond_inv (order P) (clines P) s' \<and> cprinted s' = cprinted s"
proof -
  obtain f p q where vw: "cond_view P s f t p q" by (rule cond_inv_view[OF inv t])
  note v = cond_viewD[OF vw]
  obtain i where i: "p = CSleep i" "s' = cgo t (CWake i) s"
    using st v by (auto simp: spurious_def get_at_def split: cpc.splits)
  have "cond_view P s' f t (CWake i) q" using v i ok_spurious by (intro cond_viewI) auto
  from cond_view_inv[OF this] show ?thesis using i by simp
qed

text \<open>Who cannot step: a thread that sleeps or has ended, or that waits for the mutex.\<close>

lemma cond_stuck_thread:
  assumes g: "good_order (order P)" and vw: "cond_view P s f t p q" and st: "cond_step P t s = None"
  shows "sleeps p \<or> p = CDone \<or> owner s \<noteq> None \<and> \<not> holds (order P) p"
proof -
  note v = cond_viewD[OF vw]
  show ?thesis
  proof (cases p)
    case (CTest i)
    then show ?thesis using st v ok_CTest_wait[OF v(11)[unfolded CTest] _ v(1)] my_turn_view[OF vw]
      by (auto simp: cond_step_def get_at_def cwait_def munlock_def split: if_splits)
  next
    case (CBody i j)
    note vb = vw[unfolded CBody]
    have "order P ! j = AUnlock" using st[unfolded step_body(1)[OF g vb]]
      by (cases "order P ! j") (auto simp: act_step_def)
    then have False using st[unfolded step_body(1)[OF g vb]] ok_unlock[OF g v(11)[unfolded CBody] v(1)]
      by (auto simp: act_step_def munlock_def)
    then show ?thesis ..
  qed (use st v in \<open>auto simp: cond_step_def get_at_def mlock_def split: if_splits\<close>)
qed
lemma idle_no_lock: "sleeps p \<or> p = CDone \<Longrightarrow> \<not> holds ord p"
  by (cases p) auto

lemma idle_no_signal: "sleeps p \<or> p = CDone \<Longrightarrow> \<not> pending_signal ord p"
  by (cases p) (auto simp: pending_signal_def)

lemma cond_stuck:
  fixes P :: cond_prog
  assumes g: "good_order (order P)" and inv: "cond_inv (order P) (clines P) s"
    and st: "\<forall>t < 2. cond_step P t s = None"
  shows "length (cprinted s) = 2 * clines P"
proof -
  obtain f p q where vw: "cond_view P s f 0 p q" using cond_inv_view[OF inv, of 0] by auto
  note v = cond_viewD[OF vw]
  have vw1: "cond_view P s f 1 q p"
    using v cond_ok_swap[of 0 "order P"] by (intro cond_viewI) simp_all
  have s0: "sleeps p \<or> p = CDone \<or> owner s \<noteq> None \<and> \<not> holds (order P) p"
    and s1: "sleeps q \<or> q = CDone \<or> owner s \<noteq> None \<and> \<not> holds (order P) q"
    using cond_stuck_thread[OF g vw] cond_stuck_thread[OF g vw1] st by simp_all
  have np: "\<not> holds (order P) p" "\<not> holds (order P) q" using s0 s1 idle_no_lock by blast+
  then have "owner s = None" using cond_okD(4)[OF v(11)] by simp
  then have e: "sleeps p \<or> p = CDone" "sleeps q \<or> q = CDone" using s0 s1 by simp_all
  have nd: "\<not> pending_signal (order P) p" "\<not> pending_signal (order P) q"
    using e idle_no_signal by blast+
  have k: "cpc_ok (order P) (clines P) (length (cprinted s)) f 0 p" "cpc_ok (order P) (clines P) (length (cprinted s)) f 1 q"
    using cond_okD(1,2)[OF v(11)] by simp_all
  have f: "sleeps q \<Longrightarrow> f mod 2 \<noteq> 1" "sleeps p \<Longrightarrow> f mod 2 \<noteq> 0"
    using cond_okD(5)[OF v(11), unfolded diff_zero] cond_okD(6)[OF v(11)] nd by blast+
  have "\<not> sleeps p"
  proof
    assume a: "sleeps p"
    then obtain i where i: "p = CSleep i" by (cases p) auto
    have "f mod 2 = 1" "q = CDone" using f e a by auto
    then show False using k i by (auto simp: cpc_ok_def lines_of_def split: if_splits)
  qed
  moreover have "\<not> sleeps q"
  proof
    assume a: "sleeps q"
    then obtain i where i: "q = CSleep i" by (cases q) auto
    have "f mod 2 = 0" "p = CDone" using f e a by auto
    then show False using k i by (auto simp: cpc_ok_def lines_of_def split: if_splits)
  qed
  ultimately have "p = CDone \<and> q = CDone" using e by blast
  then show ?thesis using k lines_sum[of 0 "length (cprinted s)"] by (simp add: cpc_ok_def)
qed

definition cond_start :: cst where
  "cond_start = \<lparr>owner = None, main_turn = True, cpcs = [CLoop 0, CLoop 0], cprinted = []\<rparr>"

lemma cond_start_inv: "cond_inv ord L cond_start"
  unfolding cond_inv_def
  by (rule exI[of _ 0]) (simp add: cond_start_def cond_ok_def cpc_ok_def lines_of_def)

lemma cond_bounded_turns:
  fixes P :: cond_prog
  assumes "good_order (order P)" "J init" "cprinted init = []" "\<And>s. J s \<Longrightarrow> cond_inv (order P) (clines P) s"
    and "\<And>s t. J s \<Longrightarrow> t < 2 \<Longrightarrow> step t s = cond_step P t s"
    and "\<And>s t s'. J s \<Longrightarrow> t < 2 \<Longrightarrow> cond_step P t s = Some s' \<Longrightarrow> cond_inv (order P) (clines P) s' \<Longrightarrow> J s'"
  shows "bounded_turns 2 (clines P) (cline P) step cprinted J init (cond_rank (clines P))"
proof unfold_locales
  fix s s' t assume a: "J s" "t < 2" "step t s = Some s'"
  have g: "cond_good P s s'" using cond_step_good[OF assms(1) assms(4)[OF a(1)] a(2)] assms(5) a by simp
  show "J s'" using assms(6)[OF a(1,2)] g a assms(5) by (auto simp: cond_good_def)
  show "cprinted s' = cprinted s \<or> cprinted s' = cprinted s @ [turn 2 (cline P) (length (cprinted s))]"
    "cond_rank (clines P) s' < cond_rank (clines P) s"
    using g by (auto simp: cond_good_def)
next
  fix s assume a: "J s"
  show "(\<exists>t < 2. step t s \<noteq> None) \<or> length (cprinted s) = 2 * clines P"
    using cond_stuck[OF assms(1) assms(4)[OF a]] assms(5)[OF a] by fastforce
qed (use assms in auto)
text \<open>States that can be reached when sleeping threads may wake up without a signal.\<close>

inductive woken_reach :: "(nat \<Rightarrow> 's \<Rightarrow> 's option) \<Rightarrow> (nat \<Rightarrow> 's \<Rightarrow> 's option) \<Rightarrow> 's \<Rightarrow> 's \<Rightarrow> bool"
  for step wake init where
  reach_init: "woken_reach step wake init init"
| reach_step: "woken_reach step wake init s \<Longrightarrow> t < 2 \<Longrightarrow> step t s = Some s' \<Longrightarrow> woken_reach step wake init s'"
| reach_wake: "woken_reach step wake init s \<Longrightarrow> t < 2 \<Longrightarrow> wake t s = Some s' \<Longrightarrow> woken_reach step wake init s'"

lemma woken_in_turn:
  assumes bt: "bounded_turns 2 L line step out J init rank"
    and wake: "\<And>s t s'. J s \<Longrightarrow> t < 2 \<Longrightarrow> wake t s = Some s' \<Longrightarrow> J s' \<and> out s' = out s"
    and r: "woken_reach step wake init s"
  shows "J s \<and> out s = round_robin 2 line (length (out s))"
  using r
proof induction
  case reach_init
  have tt: "turn_taking 2 L line step out J init" using bt by (rule bounded_turns.axioms)
  show ?case using turn_taking.inv_init[OF tt] turn_taking.out_init[OF tt] by (simp add: round_robin_def)
next
  case (reach_step s t s')
  have tt: "turn_taking 2 L line step out J init" using bt by (rule bounded_turns.axioms)
  have "out s' = out s \<or> out s' = out s @ [turn 2 line (length (out s))]"
    using turn_taking.step_out[OF tt] reach_step by blast
  then show ?case
    using turn_taking.step_inv[OF tt] reach_step by (auto simp: round_robin_Suc)
next
  case (reach_wake s t s')
  then show ?case using wake[of s t s'] by simp
qed

end
