(* ===== verification/CondLabs.thy ===== *)
theory CondLabs
  imports CondPrinting
begin

text \<open>
  The condition variable labs one by one: \<open>matsko/13_sync_output_cond\<close>, \<open>shuvalov/13\<close> and
  \<open>Shunina/lab13\<close>, with what they do when a call fails. \<open>err\<close> is what the pthread call of the step
  returns. Without errors their steps are those of \<open>cond_step\<close>.
\<close>

definition ETIMEDOUT :: int where "ETIMEDOUT = 110"

subsection \<open>matsko/13\<close>

record cst13 = cst +
  stop13 :: bool
  errs :: "int list"

definition set_err :: "nat \<Rightarrow> int \<Rightarrow> cst13 \<Rightarrow> cst13" where
  "set_err t e s = s\<lparr>errs := (errs s)[t := e]\<rparr>"

text \<open>The result of \<open>pthread_mutex_unlock\<close> is not looked at.\<close>

definition unlock_anyway :: "nat \<Rightarrow> 'a cst_scheme \<Rightarrow> 'a cst_scheme" where
  "unlock_anyway t s = (case munlock t s of Some s \<Rightarrow> s | None \<Rightarrow> s)"

definition childFunc_step :: "int \<Rightarrow> cst13 \<Rightarrow> cst13 option" where
  "childFunc_step err s = do {
     p \<leftarrow> get_at (cpcs s) 1;
     e \<leftarrow> get_at (errs s) 1;
     case p of
       CLoop i \<Rightarrow> Some (cgo 1 (if i < 10 \<and> \<not> stop13 s then CLock i else CDone) s)
     | CLock i \<Rightarrow>
         if err \<noteq> 0 then Some (cgo 1 CDone (s\<lparr>stop13 := True\<rparr>))
         else do { s \<leftarrow> mlock 1 s; Some (cgo 1 (CTest i) (set_err 1 0 s)) }
     | CTest i \<Rightarrow>
         if main_turn s \<and> e = 0 then
           (if err \<noteq> 0 then Some (set_err 1 err s) else cwait 1 i s)
         else Some (cgo 1 (CBody i 0) s)
     | CSleep i \<Rightarrow> None
     | CWake i \<Rightarrow> do { s \<leftarrow> mlock 1 s; Some (cgo 1 (CTest i) s) }
     | CBody i k \<Rightarrow>
         if k = 0 then Some (cgo 1 (CBody i 1) (s\<lparr>cprinted := cprinted s @ [(1, i + 1)]\<rparr>))
         else if k = 1 then Some (cgo 1 (CBody i 2) (s\<lparr>main_turn := True\<rparr>))
         else if k = 2 then Some (cgo 1 (CBody i 3) (csignal 1 s))
         else (let s = unlock_anyway 1 s in
               if e \<noteq> 0 then Some (cgo 1 CDone (s\<lparr>stop13 := True\<rparr>)) else Some (cgo 1 (CLoop (i + 1)) s))
     | CDone \<Rightarrow> None }"

text \<open>The loop of \<open>main\<close>.\<close>

definition mainLoop_step :: "int \<Rightarrow> cst13 \<Rightarrow> cst13 option" where
  "mainLoop_step err s = do {
     p \<leftarrow> get_at (cpcs s) 0;
     e \<leftarrow> get_at (errs s) 0;
     case p of
       CLoop i \<Rightarrow> Some (cgo 0 (if i < 10 \<and> \<not> stop13 s then CLock i else CDone) s)
     | CLock i \<Rightarrow>
         if err \<noteq> 0 then Some (cgo 0 CDone (s\<lparr>stop13 := True\<rparr>))
         else do { s \<leftarrow> mlock 0 s; Some (cgo 0 (CTest i) (set_err 0 0 s)) }
     | CTest i \<Rightarrow>
         if \<not> main_turn s \<and> e = 0 then
           (if err \<noteq> 0 then Some (set_err 0 err s) else cwait 0 i s)
         else Some (cgo 0 (CBody i 0) s)
     | CSleep i \<Rightarrow> None
     | CWake i \<Rightarrow> do { s \<leftarrow> mlock 0 s; Some (cgo 0 (CTest i) s) }
     | CBody i k \<Rightarrow>
         if k = 0 then Some (cgo 0 (CBody i 1) (s\<lparr>cprinted := cprinted s @ [(0, i + 1)]\<rparr>))
         else if k = 1 then Some (cgo 0 (CBody i 2) (s\<lparr>main_turn := False\<rparr>))
         else if k = 2 then Some (cgo 0 (CBody i 3) (csignal 0 s))
         else (let s = unlock_anyway 0 s in
               if e \<noteq> 0 then Some (cgo 0 CDone (s\<lparr>stop13 := True\<rparr>)) else Some (cgo 0 (CLoop (i + 1)) s))
     | CDone \<Rightarrow> None }"

definition matsko13_step :: "int \<Rightarrow> nat \<Rightarrow> cst13 \<Rightarrow> cst13 option" where
  "matsko13_step err t = (if t = 0 then mainLoop_step err else if t = 1 then childFunc_step err else (\<lambda>_. None))"

text \<open>What is valid, and what \<open>cleanUp\<close> destroys; \<open>main\<close> up to the start of the threads.\<close>

datatype res13 = MutexAttr | Mutex | Cond

definition cleanUp13 :: "bool \<Rightarrow> bool \<Rightarrow> bool \<Rightarrow> res13 list" where
  "cleanUp13 valid_mutexattr valid_mutex valid_cond =
     (if valid_mutexattr then [MutexAttr] else []) @ (if valid_mutex then [Mutex] else []) @
     (if valid_cond then [Cond] else [])"

definition initMutexAttr :: "int \<Rightarrow> res13 list \<times> unit outcome" where
  "initMutexAttr err = (if err \<noteq> 0 then (cleanUp13 False False False, Exit 2) else ([], Go ()))"

definition initMutex :: "int \<Rightarrow> res13 list \<times> unit outcome" where
  "initMutex err = (if err \<noteq> 0 then (cleanUp13 True False False, Exit 3) else ([], Go ()))"

definition initCond :: "int \<Rightarrow> res13 list \<times> unit outcome" where
  "initCond err = (if err \<noteq> 0 then ([], Exit 4) else ([], Go ()))"

definition matsko13_main :: "int \<Rightarrow> int \<Rightarrow> int \<Rightarrow> int \<Rightarrow> res13 list \<times> cst13 outcome" where
  "matsko13_main attr_err mutex_err cond_err create_err =
     (case initMutexAttr attr_err of
        (d1, Exit c) \<Rightarrow> (d1, Exit c)
      | (d1, Go _) \<Rightarrow>
     (case initMutex mutex_err of
        (d2, Exit c) \<Rightarrow> (d1 @ d2, Exit c)
      | (d2, Go _) \<Rightarrow>
     (let d3 = d1 @ d2 @ [MutexAttr] in
     case initCond cond_err of
        (d4, Exit c) \<Rightarrow> (d3 @ d4, Exit c)
      | (d4, Go _) \<Rightarrow>
          if create_err \<noteq> 0 then (d3 @ d4 @ cleanUp13 False True True, Exit 5)
          else (d3 @ d4, Go \<lparr>owner = None, main_turn = True, cpcs = [CLoop 0, CLoop 0], cprinted = [],
                             stop13 = False, errs = [0, 0]\<rparr>))))"

definition matsko13 :: cond_prog where
  "matsko13 = \<lparr>order = [APrint, AFlip, ASignal, AUnlock], clines = 10, cline = \<lambda>t i. i + 1\<rparr>"

lemma matsko13_sel [simp]:
  "order matsko13 = [APrint, AFlip, ASignal, AUnlock]" "clines matsko13 = 10" "cline matsko13 = (\<lambda>t i. i + 1)"
  by (simp_all add: matsko13_def)

definition matsko13_inv :: "cst13 \<Rightarrow> bool" where
  "matsko13_inv s \<longleftrightarrow> cond_inv (order matsko13) (clines matsko13) s \<and> \<not> stop13 s \<and> errs s = [0, 0]"

definition matsko13_start :: cst13 where
  "matsko13_start = cst.extend cond_start \<lparr>stop13 = False, errs = [0, 0]\<rparr>"

text \<open>Facts about a thread in its critical section that the steps rely on.\<close>

lemma body_turn:
  assumes "cond_view P s f t (CBody i j) q" "good_order (order P)" "order P ! j = AFlip"
  shows "main_turn s = (t = 0)"
proof -
  note v = cond_viewD[OF assms(1)]
  have "f mod 2 = t" using ok_flip[OF assms(2) v(11,1) assms(3)] by simp
  then show ?thesis using v(1,6) by (auto dest!: two_threads)
qed

lemma body_owner:
  assumes "cond_view P s f t (CBody i j) q" "good_order (order P)" "order P ! j = AUnlock"
  shows "owner s = Some t"
  using ok_unlock[OF assms(2) _ _ assms(3)] cond_viewD[OF assms(1)] by blast

lemma body_stage: "cond_view P s f t (CBody i j) q \<Longrightarrow> good_order (order P) \<Longrightarrow> j < 4"
  using body_ok(1) cond_viewD(11) by blast

lemma less4: "(j::nat) < 4 \<Longrightarrow> j = 0 \<or> j = 1 \<or> j = 2 \<or> j = 3"
  by auto

lemma good13 [simp]: "good_order [APrint, AFlip, ASignal, AUnlock]"
  by (simp add: good_order_def)

lemma matsko13_step_cond:
  assumes inv: "matsko13_inv s" and t: "t < 2"
  shows "matsko13_step 0 t s = cond_step matsko13 t s"
proof -
  have e: "\<not> stop13 s" "errs s = [0, 0]" using inv by (simp_all add: matsko13_inv_def)
  obtain f p q where vw: "cond_view matsko13 s f t p q"
    using cond_inv_view[of matsko13 s t] inv t by (auto simp: matsko13_inv_def)
  note v = cond_viewD[OF vw]
  have e0: "set_err t 0 (s\<lparr>owner := y\<rparr>) = s\<lparr>owner := y\<rparr>" for y
    using e(2) two_threads[OF t] by (cases s) (auto simp: set_err_def)
  show ?thesis
  proof (cases p)
    case (CBody i j)
    note vb = vw[unfolded CBody]
    have j: "j < 4" by (rule body_stage[OF vb]) simp
    have f: "j = 1 \<Longrightarrow> main_turn s = (t = 0)" using body_turn[OF vb] by simp
    have o: "j = 3 \<Longrightarrow> owner s = Some t" using body_owner[OF vb] by (simp add: numeral_eq_Suc)
    show ?thesis
      using two_threads[OF t] less4[OF j] v CBody e f o
      by (auto simp: matsko13_step_def mainLoop_step_def childFunc_step_def cond_step_def get_at_def act_step_def
          unlock_anyway_def munlock_def numeral_eq_Suc)
  qed (use two_threads[OF t] v e e0 in \<open>auto simp: matsko13_step_def mainLoop_step_def childFunc_step_def
      cond_step_def get_at_def my_turn_def mlock_def\<close>)
qed

lemma cond_step_ext13: "cond_step P t s = Some s' \<Longrightarrow> stop13 s' = stop13 s \<and> errs s' = errs s"
  by (auto simp: cond_step_def act_step_def cgo_def mlock_def munlock_def cwait_def csignal_def fault_simps
      split: cpc.splits act.splits if_splits)

lemma matsko13_start_inv: "matsko13_inv matsko13_start" "cprinted matsko13_start = []"
  using cond_start_inv[of "order matsko13" "clines matsko13"]
  by (simp_all add: matsko13_inv_def matsko13_start_def cst.extend_def cond_inv_def cond_start_def)

lemma matsko13_bounded:
  "bounded_turns 2 10 (\<lambda>t i. i + 1) (matsko13_step 0) cprinted matsko13_inv matsko13_start (cond_rank 10)"
  by (rule cond_bounded_turns[of matsko13, unfolded matsko13_sel])
    (auto simp: matsko13_start_inv matsko13_start_inv[unfolded matsko13_inv_def, simplified] matsko13_step_cond matsko13_inv_def
      dest: cond_step_ext13)

interpretation m13: bounded_turns 2 10 "\<lambda>t i. i + 1" "matsko13_step 0" cprinted matsko13_inv matsko13_start "cond_rank 10"
  by (rule matsko13_bounded)

lemma matsko13_main_start: "matsko13_main a m c p = (d, Go s0) \<Longrightarrow> s0 = matsko13_start"
  by (auto simp: matsko13_main_def initMutexAttr_def initMutex_def initCond_def matsko13_start_def cst.extend_def
      cond_start_def Let_def split: if_splits)

lemma cond_rank_start: "cond_rank L cond_start = 2 * (20 * L + 1)"
  by (simp add: cond_rank_def cond_start_def)

text \<open>
  When no call fails, the threads of \<open>matsko/13\<close> print Parent 1, Child 1, Parent 2, ... in every
  schedule; none is stuck before all 20 lines are out, and none is longer than 402 steps.
\<close>

theorem matsko13_in_turn:
  assumes "matsko13_main a m c p = (d, Go s0)"
    and "set ts \<subseteq> {..<2}" "run_schedule (matsko13_step 0) ts s0 = Some s"
  shows "cprinted s = round_robin 2 (\<lambda>t i. i + 1) (length (cprinted s)) \<and> length ts \<le> 402 \<and>
    ((\<forall>t < 2. matsko13_step 0 t s = None) \<longrightarrow> cprinted s = round_robin 2 (\<lambda>t i. i + 1) 20)"
proof -
  have "cond_rank 10 matsko13_start = 402"
    using cond_rank_start[of 10] by (simp add: matsko13_start_def cond_rank_def cst.extend_def cond_start_def)
  then show ?thesis using m13.correct[OF assms(2)] assms(3) matsko13_main_start[OF assms(1)] by simp
qed

theorem matsko13_in_turn_witness:
  "\<exists>s0 s. matsko13_main 0 0 0 0 = ([MutexAttr], Go s0) \<and>
     run_schedule (matsko13_step 0) [1, 1, 1, 0, 0, 0, 0, 0, 0, 0, 1, 1, 1, 1] s0 = Some s \<and>
     cprinted s = round_robin 2 (\<lambda>t i. i + 1) 2"
proof -
  let ?ts = "[1, 1, 1, 0, 0, 0, 0, 0, 0, 0, 1, 1, 1, 1]"
  have "(case matsko13_main 0 0 0 0 of (d, Go s0) \<Rightarrow> d = [MutexAttr] \<and>
      (case run_schedule (matsko13_step 0) ?ts s0 of Some s \<Rightarrow> length (cprinted s) = 2 | None \<Rightarrow> False) | _ \<Rightarrow> False)"
    by code_simp
  then obtain s0 s where s: "matsko13_main 0 0 0 0 = ([MutexAttr], Go s0)"
    "run_schedule (matsko13_step 0) ?ts s0 = Some s" "length (cprinted s) = 2"
    unfolding case_True by blast
  have "set ?ts \<subseteq> {..<2::nat}" by simp
  from matsko13_in_turn[OF s(1) this s(2)] show ?thesis using s by metis
qed

lemma spurious_ext13: "spurious t s = Some s' \<Longrightarrow> stop13 s' = stop13 s \<and> errs s' = errs s"
  by (auto simp: spurious_def cgo_def fault_simps split: cpc.splits)

text \<open>
  Spurious wake-ups do no harm to \<open>matsko/13\<close>: also when sleeping threads may wake up without a
  signal at any moment, the lines are always a prefix of Parent 1, Child 1, Parent 2, ...
\<close>

theorem matsko13_spurious_in_turn:
  assumes "matsko13_main a m c p = (d, Go s0)" "woken_reach (matsko13_step 0) spurious s0 s"
  shows "cprinted s = round_robin 2 (\<lambda>t i. i + 1) (length (cprinted s))"
proof -
  have w: "matsko13_inv s' \<and> cprinted s' = cprinted s" if "matsko13_inv s" "t < 2" "spurious t s = Some s'" for s t s'
    using that spurious_inv[of matsko13 s t s'] spurious_ext13[of t s s'] by (simp add: matsko13_inv_def)
  have "woken_reach (matsko13_step 0) spurious matsko13_start s" using assms(2) matsko13_main_start[OF assms(1)] by simp
  then show ?thesis using woken_in_turn[OF matsko13_bounded, of spurious s] w by blast
qed

theorem matsko13_spurious_in_turn_witness:
  "\<exists>s0 s. matsko13_main 0 0 0 0 = ([MutexAttr], Go s0) \<and>
     (\<exists>s1. run_schedule (matsko13_step 0) [1, 1, 1] s0 = Some s1 \<and> spurious 1 s1 = Some s) \<and>
     cprinted s = round_robin 2 (\<lambda>t i. i + 1) (length (cprinted s))"
proof -
  have "(case matsko13_main 0 0 0 0 of (d, Go s0) \<Rightarrow> d = [MutexAttr] \<and>
      (case matsko13_step 0 1 s0 of Some a \<Rightarrow> (case matsko13_step 0 1 a of Some b \<Rightarrow>
      (case matsko13_step 0 1 b of Some s1 \<Rightarrow> (case spurious 1 s1 of Some s \<Rightarrow> True | None \<Rightarrow> False)
       | None \<Rightarrow> False) | None \<Rightarrow> False) | None \<Rightarrow> False) | _ \<Rightarrow> False)"
    by code_simp
  then obtain s0 a b s1 s where s: "matsko13_main 0 0 0 0 = ([MutexAttr], Go s0)" "matsko13_step 0 1 s0 = Some a"
    "matsko13_step 0 1 a = Some b" "matsko13_step 0 1 b = Some s1" "spurious 1 s1 = Some s"
    unfolding case_True by blast
  have one: "(1::nat) < 2" by simp
  have "woken_reach (matsko13_step 0) spurious s0 s"
    by (rule reach_wake[OF reach_step[OF reach_step[OF reach_step[OF reach_init[of "matsko13_step 0" spurious s0] one s(2)] one s(3)] one s(4)] one s(5)])
  from matsko13_spurious_in_turn[OF s(1) this] show ?thesis using s by auto
qed

text \<open>
  A wait that fails does not keep a thread of \<open>matsko/13\<close> from printing: the loop around it ends
  because of the error, and the line is printed though it is the other thread's turn.
\<close>

theorem matsko13_failed_wait_prints:
  assumes "matsko13_main a m c p = (d, Go s0)" "err \<noteq> 0"
  shows "\<exists>s1 s2 s3. run_schedule (matsko13_step 0) [1, 1] s0 = Some s1 \<and> matsko13_step err 1 s1 = Some s2 \<and>
    run_schedule (matsko13_step 0) [1, 1] s2 = Some s3 \<and> cprinted s3 = [(1, 1)] \<and>
    cprinted s3 \<noteq> round_robin 2 (\<lambda>t i. i + 1) 1"
proof -
  have s0: "s0 = \<lparr>owner = None, main_turn = True, cpcs = [CLoop 0, CLoop 0], cprinted = [], stop13 = False, errs = [0, 0]\<rparr>"
    using matsko13_main_start[OF assms(1)] by (simp add: matsko13_start_def cst.extend_def cond_start_def)
  show ?thesis using assms(2)
    by (simp add: s0 matsko13_step_def childFunc_step_def get_at_def mlock_def set_err_def cgo_def round_robin_def
        turn_def)
qed

theorem matsko13_failed_wait_prints_witness:
  "\<exists>s0 s1 s2 s3. matsko13_main 0 0 0 0 = ([MutexAttr], Go s0) \<and> run_schedule (matsko13_step 0) [1, 1] s0 = Some s1 \<and>
     matsko13_step 22 1 s1 = Some s2 \<and> run_schedule (matsko13_step 0) [1, 1] s2 = Some s3 \<and>
     cprinted s3 \<noteq> round_robin 2 (\<lambda>t i. i + 1) 1"
proof -
  obtain s0 where s: "matsko13_main 0 0 0 0 = ([MutexAttr], Go s0)"
    by (simp add: matsko13_main_def initMutexAttr_def initMutex_def initCond_def)
  from matsko13_failed_wait_prints[OF s, of 22] s show ?thesis by auto
qed

text \<open>
  The exits of \<open>main\<close> of \<open>matsko/13\<close>: each failing initialisation ends the program with its own
  code, and everything that was initialised before has been destroyed, except that the mutex is left
  when the condition variable cannot be made.
\<close>

theorem matsko13_main_exits:
  "matsko13_main a m c p =
     (if a \<noteq> 0 then ([], Exit 2)
      else if m \<noteq> 0 then ([MutexAttr], Exit 3)
      else if c \<noteq> 0 then ([MutexAttr], Exit 4)
      else if p \<noteq> 0 then ([MutexAttr, Mutex, Cond], Exit 5)
      else ([MutexAttr], Go matsko13_start))"
  by (simp add: matsko13_main_def initMutexAttr_def initMutex_def initCond_def cleanUp13_def Let_def
      matsko13_start_def cst.extend_def cond_start_def)

subsection \<open>shuvalov/13: timed waits\<close>

record cst13s = cst +
  error_occurred :: bool
  serrs :: "int list"

definition set_serr :: "nat \<Rightarrow> int \<Rightarrow> cst13s \<Rightarrow> cst13s" where
  "set_serr t e s = s\<lparr>serrs := (serrs s)[t := e]\<rparr>"

text \<open>
  \<open>print_lines\<close>. A sleeping thread has \<open>err\<close> 0, which it keeps when it is signalled; \<open>timed_out\<close> is the
  end of its five seconds: it wakes up with \<open>ETIMEDOUT\<close>.
\<close>

definition print_lines_step :: "int \<Rightarrow> nat \<Rightarrow> cst13s \<Rightarrow> cst13s option" where
  "print_lines_step err t s = do {
     p \<leftarrow> get_at (cpcs s) t;
     e \<leftarrow> get_at (serrs s) t;
     case p of
       CLoop i \<Rightarrow> Some (cgo t (if i < 10 \<and> \<not> error_occurred s then CLock i else CDone) s)
     | CLock i \<Rightarrow>
         if err \<noteq> 0 then Some (cgo t CDone (s\<lparr>error_occurred := True\<rparr>))
         else do { s \<leftarrow> mlock t s; Some (cgo t (CTest i) (set_serr t 0 s)) }
     | CTest i \<Rightarrow>
         if ((main_turn s \<and> t = 1) \<or> (\<not> main_turn s \<and> t \<noteq> 1)) \<and> (e = 0 \<or> e = ETIMEDOUT) \<and> \<not> error_occurred s then
           (if err \<noteq> 0 \<and> err \<noteq> ETIMEDOUT then Some (set_serr t err s) else cwait t i (set_serr t 0 s))
         else if e \<noteq> 0 \<and> e \<noteq> ETIMEDOUT then Some (cgo t CDone (s\<lparr>error_occurred := True\<rparr>))
         else Some (cgo t (CBody i 0) s)
     | CSleep i \<Rightarrow> None
     | CWake i \<Rightarrow> do { s \<leftarrow> mlock t s; Some (cgo t (CTest i) s) }
     | CBody i k \<Rightarrow>
         if k = 0 then Some (cgo t (CBody i 1) (s\<lparr>cprinted := cprinted s @ [(t, i)]\<rparr>))
         else if k = 1 then Some (cgo t (CBody i 2) (s\<lparr>main_turn := \<not> main_turn s\<rparr>))
         else if k = 2 then Some (cgo t (CBody i 3) (csignal t s))
         else if err \<noteq> 0 then Some (cgo t CDone (s\<lparr>error_occurred := True\<rparr>))
         else do { s \<leftarrow> munlock t s; Some (cgo t (CLoop (i + 1)) s) }
     | CDone \<Rightarrow> None }"

definition timed_out :: "nat \<Rightarrow> cst13s \<Rightarrow> cst13s option" where
  "timed_out t s = do { s \<leftarrow> spurious t s; Some (set_serr t ETIMEDOUT s) }"

definition shuvalov13_main :: "int \<Rightarrow> int \<Rightarrow> int \<Rightarrow> int \<Rightarrow> res13 list \<times> cst13s outcome" where
  "shuvalov13_main attr_err mutex_err cond_err create_err =
     (if attr_err \<noteq> 0 then ([], Exit 1)
      else if mutex_err \<noteq> 0 then ([MutexAttr], Exit 1)
      else if cond_err \<noteq> 0 then ([MutexAttr, Mutex], Exit 1)
      else if create_err \<noteq> 0 then ([MutexAttr, Cond, Mutex], Exit 1)
      else ([MutexAttr], Go \<lparr>owner = None, main_turn = True, cpcs = [CLoop 0, CLoop 0], cprinted = [],
                            error_occurred = False, serrs = [0, 0]\<rparr>))"

definition shuvalov13 :: cond_prog where
  "shuvalov13 = \<lparr>order = [APrint, AFlip, ASignal, AUnlock], clines = 10, cline = \<lambda>t i. i\<rparr>"

lemma shuvalov13_sel [simp]:
  "order shuvalov13 = [APrint, AFlip, ASignal, AUnlock]" "clines shuvalov13 = 10" "cline shuvalov13 = (\<lambda>t i. i)"
  by (simp_all add: shuvalov13_def)

text \<open>
  The steps change \<open>serrs\<close> where \<open>cond_step\<close> does not; the state without these fields makes the same
  steps.
\<close>

definition core :: "'a cst_scheme \<Rightarrow> cst" where
  "core s = cst.truncate s"

lemma core_sel [simp]:
  "owner (core s) = owner s" "main_turn (core s) = main_turn s" "cpcs (core s) = cpcs s" "cprinted (core s) = cprinted s"
  by (simp_all add: core_def cst.truncate_def)

definition shuvalov13_inv :: "cst13s \<Rightarrow> bool" where
  "shuvalov13_inv s \<longleftrightarrow> cond_inv (order shuvalov13) (clines shuvalov13) (core s) \<and> \<not> error_occurred s \<and>
     length (serrs s) = 2 \<and> set (serrs s) \<subseteq> {0, ETIMEDOUT}"

definition shuvalov13_start :: cst13s where
  "shuvalov13_start = cst.extend cond_start \<lparr>error_occurred = False, serrs = [0, 0]\<rparr>"

lemma core_upd [simp]:
  "core (cgo t p s) = cgo t p (core s)" "core (set_serr t e r) = core r" "core (csignal t s) = csignal t (core s)"
  "core (s\<lparr>main_turn := b\<rparr>) = (core s)\<lparr>main_turn := b\<rparr>" "core (s\<lparr>cprinted := c\<rparr>) = (core s)\<lparr>cprinted := c\<rparr>"
  "core (s\<lparr>owner := x\<rparr>) = (core s)\<lparr>owner := x\<rparr>"
  by (simp_all add: core_def cst.truncate_def cgo_def set_serr_def csignal_def)

lemma set_serr_sel [simp]:
  "owner (set_serr t e s) = owner s" "main_turn (set_serr t e s) = main_turn s" "cpcs (set_serr t e s) = cpcs s"
  "cprinted (set_serr t e s) = cprinted s" "error_occurred (set_serr t e s) = error_occurred s"
  "serrs (set_serr t e s) = (serrs s)[t := e]"
  by (simp_all add: set_serr_def)

lemma ETIMEDOUT_simp [simp]: "ETIMEDOUT \<noteq> 0" "0 \<noteq> ETIMEDOUT"
  by (simp_all add: ETIMEDOUT_def)

lemma print_lines_core:
  assumes inv: "shuvalov13_inv s" and t: "t < 2"
  shows "map_option core (print_lines_step 0 t s) = cond_step shuvalov13 t (core s)"
    and "print_lines_step 0 t s = Some s' \<Longrightarrow> \<not> error_occurred s' \<and> length (serrs s') = 2 \<and> set (serrs s') \<subseteq> {0, ETIMEDOUT}"
proof -
  have "serrs s ! t \<in> {0, ETIMEDOUT}"
    using inv t nth_mem[of t "serrs s"] by (metis shuvalov13_inv_def subsetD)
  then have e: "\<not> error_occurred s" "t < length (serrs s)" "serrs s ! t = 0 \<or> serrs s ! t = ETIMEDOUT"
    using inv t by (auto simp: shuvalov13_inv_def)
  obtain f p q where vw: "cond_view shuvalov13 (core s) f t p q"
    using cond_inv_view[of shuvalov13 "core s" t] inv t by (auto simp: shuvalov13_inv_def)
  note v = cond_viewD[OF vw]
  have w: "set (serrs s) \<subseteq> {0, ETIMEDOUT}" "length (serrs s) = 2" using inv by (simp_all add: shuvalov13_inv_def)
  have u: "set ((serrs s)[t := x]) \<subseteq> {0, ETIMEDOUT}" if "x = 0 \<or> x = ETIMEDOUT" for x
    using set_update_subset_insert[of "serrs s" t x] w that by auto
  have "map_option core (print_lines_step 0 t s) = cond_step shuvalov13 t (core s) \<and>
    (\<forall>s'. print_lines_step 0 t s = Some s' \<longrightarrow> \<not> error_occurred s' \<and> length (serrs s') = 2 \<and> set (serrs s') \<subseteq> {0, ETIMEDOUT})"
  proof (cases p)
    case (CBody i j)
    note vb = vw[unfolded CBody]
    have j: "j < 4" by (rule body_stage[OF vb]) simp
    have o: "j = 3 \<Longrightarrow> owner s = Some t" using body_owner[OF vb] by (simp add: numeral_eq_Suc)
    show ?thesis
      using less4[OF j] v CBody e o w
      by (auto simp: print_lines_step_def cond_step_def get_at_def act_step_def munlock_def numeral_eq_Suc cgo_def csignal_def)
  next
    case (CTest i)
    have "owner s = Some t" using cond_okD(4)[OF v(11)] CTest by simp
    then show ?thesis
      using v CTest e w u[of 0] two_threads[OF t]
      by (auto simp: print_lines_step_def cond_step_def get_at_def my_turn_def cwait_def munlock_def cgo_def)
  qed (use v e w u[of 0] in \<open>auto simp: print_lines_step_def cond_step_def get_at_def mlock_def cgo_def\<close>)
  then show "map_option core (print_lines_step 0 t s) = cond_step shuvalov13 t (core s)"
    "print_lines_step 0 t s = Some s' \<Longrightarrow> \<not> error_occurred s' \<and> length (serrs s') = 2 \<and> set (serrs s') \<subseteq> {0, ETIMEDOUT}"
    by auto
qed

lemma core_bounded_turns:
  fixes P :: cond_prog
  assumes "good_order (order P)" "J init" "cprinted init = []" "\<And>s. J s \<Longrightarrow> cond_inv (order P) (clines P) (core s)"
    and "\<And>s t. J s \<Longrightarrow> t < 2 \<Longrightarrow> map_option core (step t s) = cond_step P t (core s)"
    and "\<And>s t s'. J s \<Longrightarrow> t < 2 \<Longrightarrow> step t s = Some s' \<Longrightarrow> cond_inv (order P) (clines P) (core s') \<Longrightarrow> J s'"
  shows "bounded_turns 2 (clines P) (cline P) step cprinted J init (\<lambda>s. cond_rank (clines P) (core s))"
proof unfold_locales
  fix s s' t assume a: "J s" "t < 2" "step t s = Some s'"
  have "cond_step P t (core s) = Some (core s')" using assms(5)[OF a(1,2)] a(3) by simp
  then have g: "cond_good P (core s) (core s')" by (rule cond_step_good[OF assms(1) assms(4)[OF a(1)] a(2)])
  show "J s'" using assms(6)[OF a] g by (simp add: cond_good_def)
  show "cprinted s' = cprinted s \<or> cprinted s' = cprinted s @ [turn 2 (cline P) (length (cprinted s))]"
    "cond_rank (clines P) (core s') < cond_rank (clines P) (core s)"
    using g by (auto simp: cond_good_def)
next
  fix s assume a: "J s"
  have "\<forall>t < 2. step t s = None \<Longrightarrow> \<forall>t < 2. cond_step P t (core s) = None"
    using assms(5)[OF a] by (metis option.simps(8))
  then show "(\<exists>t < 2. step t s \<noteq> None) \<or> length (cprinted s) = 2 * clines P"
    using cond_stuck[OF assms(1) assms(4)[OF a]] by fastforce
qed (use assms in auto)

lemma shuvalov13_start_inv: "shuvalov13_inv shuvalov13_start" "cprinted shuvalov13_start = []"
  using cond_start_inv[of "order shuvalov13" "clines shuvalov13"]
  by (simp_all add: shuvalov13_inv_def shuvalov13_start_def cst.extend_def cond_inv_def cond_start_def core_def
      cst.truncate_def)

lemma shuvalov13_bounded:
  "bounded_turns 2 10 (\<lambda>t i. i) (print_lines_step 0) cprinted shuvalov13_inv shuvalov13_start (\<lambda>s. cond_rank 10 (core s))"
proof (rule core_bounded_turns[of shuvalov13, unfolded shuvalov13_sel])
  show "cond_inv [APrint, AFlip, ASignal, AUnlock] 10 (core s)" if "shuvalov13_inv s" for s
    using that by (simp add: shuvalov13_inv_def)
  show "shuvalov13_inv s'"
    if "shuvalov13_inv s" "t < 2" "print_lines_step 0 t s = Some s'" "cond_inv [APrint, AFlip, ASignal, AUnlock] 10 (core s')"
    for s t s'
    using print_lines_core(2)[OF that(1-3)] that(4) by (simp add: shuvalov13_inv_def)
qed (simp_all add: shuvalov13_start_inv print_lines_core(1))

interpretation s13: bounded_turns 2 10 "\<lambda>t i. i" "print_lines_step 0" cprinted shuvalov13_inv shuvalov13_start
    "\<lambda>s. cond_rank 10 (core s)"
  by (rule shuvalov13_bounded)

lemma timed_out_inv:
  assumes "shuvalov13_inv s" "t < 2" "timed_out t s = Some s'"
  shows "shuvalov13_inv s' \<and> cprinted s' = cprinted s"
proof -
  obtain s1 where s1: "spurious t s = Some s1" "s' = set_serr t ETIMEDOUT s1"
    using assms(3) by (auto simp: timed_out_def fault_simps)
  have "spurious t (core s) = Some (core s1)"
    using s1(1) by (auto simp: spurious_def fault_simps split: cpc.splits)
  from spurious_inv[OF _ assms(2) this, of shuvalov13] assms(1)
  have i: "cond_inv (order shuvalov13) (clines shuvalov13) (core s1)" "cprinted s1 = cprinted s"
    by (auto simp: shuvalov13_inv_def)
  have x: "error_occurred s1 = error_occurred s" "serrs s1 = serrs s"
    using s1(1) by (auto simp: spurious_def fault_simps cgo_def split: cpc.splits)
  have "set ((serrs s)[t := ETIMEDOUT]) \<subseteq> {0, ETIMEDOUT}"
    using set_update_subset_insert[of "serrs s" t ETIMEDOUT] assms(1) by (auto simp: shuvalov13_inv_def)
  then show ?thesis using i x s1(2) assms(1) by (simp add: shuvalov13_inv_def)
qed

lemma shuvalov13_main_start: "shuvalov13_main a m c p = (d, Go s0) \<Longrightarrow> s0 = shuvalov13_start"
  by (auto simp: shuvalov13_main_def shuvalov13_start_def cst.extend_def cond_start_def split: if_splits)

text \<open>
  When no call fails, the threads of \<open>shuvalov/13\<close> print line 0 of the main thread, line 0 of the
  child, line 1 of the main thread, ... in every schedule without timeouts, none is stuck before
  all 20 lines are out, and none is longer than 402 steps.
\<close>

theorem shuvalov13_in_turn:
  assumes "shuvalov13_main a m c p = (d, Go s0)"
    and "set ts \<subseteq> {..<2}" "run_schedule (print_lines_step 0) ts s0 = Some s"
  shows "cprinted s = round_robin 2 (\<lambda>t i. i) (length (cprinted s)) \<and> length ts \<le> 402 \<and>
    ((\<forall>t < 2. print_lines_step 0 t s = None) \<longrightarrow> cprinted s = round_robin 2 (\<lambda>t i. i) 20)"
proof -
  have "cond_rank 10 (core shuvalov13_start) = 402"
    using cond_rank_start[of 10]
    by (simp add: shuvalov13_start_def cond_rank_def cst.extend_def cond_start_def core_def cst.truncate_def)
  then show ?thesis using s13.correct[OF assms(2)] assms(3) shuvalov13_main_start[OF assms(1)] by simp
qed

theorem shuvalov13_in_turn_witness:
  "\<exists>s0 s. shuvalov13_main 0 0 0 0 = ([MutexAttr], Go s0) \<and>
     run_schedule (print_lines_step 0) [1, 1, 1, 0, 0, 0, 0, 0, 0, 0, 1, 1, 1, 1] s0 = Some s \<and>
     cprinted s = round_robin 2 (\<lambda>t i. i) 2"
proof -
  let ?ts = "[1, 1, 1, 0, 0, 0, 0, 0, 0, 0, 1, 1, 1, 1]"
  have "(case shuvalov13_main 0 0 0 0 of (d, Go s0) \<Rightarrow> d = [MutexAttr] \<and>
      (case run_schedule (print_lines_step 0) ?ts s0 of Some s \<Rightarrow> length (cprinted s) = 2 | None \<Rightarrow> False) | _ \<Rightarrow> False)"
    by code_simp
  then obtain s0 s where s: "shuvalov13_main 0 0 0 0 = ([MutexAttr], Go s0)"
    "run_schedule (print_lines_step 0) ?ts s0 = Some s" "length (cprinted s) = 2"
    unfolding case_True by blast
  have "set ?ts \<subseteq> {..<2::nat}" by simp
  from shuvalov13_in_turn[OF s(1) this s(2)] show ?thesis using s by metis
qed

text \<open>
  C30: Timeouts do no harm to \<open>shuvalov/13\<close>: with waits that may time out at any moment and again and
  again, the lines are always a prefix of the lines in turn, and no error is reported.
\<close>

theorem shuvalov13_timeouts_in_turn:
  assumes "shuvalov13_main a m c p = (d, Go s0)" "woken_reach (print_lines_step 0) timed_out s0 s"
  shows "cprinted s = round_robin 2 (\<lambda>t i. i) (length (cprinted s)) \<and> \<not> error_occurred s"
proof -
  have "woken_reach (print_lines_step 0) timed_out shuvalov13_start s"
    using assms(2) shuvalov13_main_start[OF assms(1)] by simp
  then have "shuvalov13_inv s \<and> cprinted s = round_robin 2 (\<lambda>t i. i) (length (cprinted s))"
    using woken_in_turn[OF shuvalov13_bounded, of timed_out s] timed_out_inv by blast
  then show ?thesis by (simp add: shuvalov13_inv_def)
qed

theorem shuvalov13_timeouts_in_turn_witness:
  "\<exists>s0 s. shuvalov13_main 0 0 0 0 = ([MutexAttr], Go s0) \<and>
     (\<exists>s1. run_schedule (print_lines_step 0) [1, 1, 1] s0 = Some s1 \<and> timed_out 1 s1 = Some s) \<and>
     \<not> error_occurred s"
proof -
  have "(case shuvalov13_main 0 0 0 0 of (d, Go s0) \<Rightarrow> d = [MutexAttr] \<and>
      (case print_lines_step 0 1 s0 of Some a \<Rightarrow> (case print_lines_step 0 1 a of Some b \<Rightarrow>
      (case print_lines_step 0 1 b of Some s1 \<Rightarrow> (case timed_out 1 s1 of Some s \<Rightarrow> True | None \<Rightarrow> False)
       | None \<Rightarrow> False) | None \<Rightarrow> False) | None \<Rightarrow> False) | _ \<Rightarrow> False)"
    by code_simp
  then obtain s0 a b s1 s where s: "shuvalov13_main 0 0 0 0 = ([MutexAttr], Go s0)" "print_lines_step 0 1 s0 = Some a"
    "print_lines_step 0 1 a = Some b" "print_lines_step 0 1 b = Some s1" "timed_out 1 s1 = Some s"
    unfolding case_True by blast
  have one: "(1::nat) < 2" by simp
  have "woken_reach (print_lines_step 0) timed_out s0 s"
    by (rule reach_wake[OF reach_step[OF reach_step[OF reach_step[OF
      reach_init[of "print_lines_step 0" timed_out s0] one s(2)] one s(3)] one s(4)] one s(5)])
  from shuvalov13_timeouts_in_turn[OF s(1) this] show ?thesis using s by auto
qed

subsection \<open>Shunina/lab13: signal after unlock\<close>

record cst13e = cst +
  err13 :: bool

definition function13_step :: "int \<Rightarrow> nat \<Rightarrow> cst13e \<Rightarrow> cst13e option" where
  "function13_step err t s = do {
     p \<leftarrow> get_at (cpcs s) t;
     case p of
       CLoop i \<Rightarrow> Some (cgo t (if i < 10 then (if err13 s then CDone else CLock i) else CDone) s)
     | CLock i \<Rightarrow>
         if err \<noteq> 0 then Some (cgo t CDone (s\<lparr>err13 := True\<rparr>))
         else do { s \<leftarrow> mlock t s; Some (cgo t (CTest i) s) }
     | CTest i \<Rightarrow>
         if \<not> err13 s \<and> ((main_turn s \<and> t \<noteq> 0) \<or> (\<not> main_turn s \<and> t = 0)) then
           (if err \<noteq> 0 then Some (cgo t CDone s) else cwait t i s)
         else Some (cgo t (CBody i 0) s)
     | CSleep i \<Rightarrow> None
     | CWake i \<Rightarrow> do { s \<leftarrow> mlock t s; Some (cgo t (CTest i) s) }
     | CBody i k \<Rightarrow>
         if k = 0 then Some (cgo t (CBody i 1) (s\<lparr>main_turn := \<not> main_turn s\<rparr>))
         else if k = 1 then Some (cgo t (CBody i 2) (s\<lparr>cprinted := cprinted s @ [(t, i)]\<rparr>))
         else if k = 2 then
           (if err \<noteq> 0 then Some (cgo t CDone (s\<lparr>err13 := True\<rparr>))
            else do { s \<leftarrow> munlock t s; Some (cgo t (CBody i 3) s) })
         else Some (cgo t (CLoop (i + 1)) (csignal t s))
     | CDone \<Rightarrow> None }"

text \<open>\<open>main\<close>: here every failing initialisation ends with \<open>pthread_exit\<close>, status 0.\<close>

definition Shunina13_main :: "int \<Rightarrow> int \<Rightarrow> int \<Rightarrow> int \<Rightarrow> res13 list \<times> cst13e outcome" where
  "Shunina13_main settype_err mutex_err cond_err create_err =
     (if settype_err \<noteq> 0 then ([], Exit 0)
      else if mutex_err \<noteq> 0 then ([], Exit 0)
      else if cond_err \<noteq> 0 then ([MutexAttr, Mutex], Exit 0)
      else if create_err \<noteq> 0 then ([MutexAttr, Mutex, Cond], Exit 0)
      else ([MutexAttr], Go \<lparr>owner = None, main_turn = True, cpcs = [CLoop 0, CLoop 0], cprinted = [], err13 = False\<rparr>))"

definition Shunina13 :: cond_prog where
  "Shunina13 = \<lparr>order = [AFlip, APrint, AUnlock, ASignal], clines = 10, cline = \<lambda>t i. i\<rparr>"

lemma Shunina13_sel [simp]:
  "order Shunina13 = [AFlip, APrint, AUnlock, ASignal]" "clines Shunina13 = 10" "cline Shunina13 = (\<lambda>t i. i)"
  by (simp_all add: Shunina13_def)

lemma good13e [simp]: "good_order [AFlip, APrint, AUnlock, ASignal]"
  by (simp add: good_order_def)

definition Shunina13_inv :: "cst13e \<Rightarrow> bool" where
  "Shunina13_inv s \<longleftrightarrow> cond_inv (order Shunina13) (clines Shunina13) s \<and> \<not> err13 s"

definition Shunina13_start :: cst13e where
  "Shunina13_start = cst.extend cond_start \<lparr>err13 = False\<rparr>"

lemma function13_step_cond:
  assumes inv: "Shunina13_inv s" and t: "t < 2"
  shows "function13_step 0 t s = cond_step Shunina13 t s"
proof -
  have e: "\<not> err13 s" using inv by (simp add: Shunina13_inv_def)
  obtain f p q where vw: "cond_view Shunina13 s f t p q"
    using cond_inv_view[of Shunina13 s t] inv t by (auto simp: Shunina13_inv_def)
  note v = cond_viewD[OF vw]
  show ?thesis
  proof (cases p)
    case (CBody i j)
    note vb = vw[unfolded CBody]
    have j: "j < 4" by (rule body_stage[OF vb]) simp
    show ?thesis
      using less4[OF j] v CBody e
      by (auto simp: function13_step_def cond_step_def get_at_def act_step_def numeral_eq_Suc)
  qed (use two_threads[OF t] v e in \<open>auto simp: function13_step_def cond_step_def get_at_def my_turn_def\<close>)
qed

lemma cond_step_ext13e: "cond_step P t s = Some s' \<Longrightarrow> err13 s' = err13 s"
  by (auto simp: cond_step_def act_step_def cgo_def mlock_def munlock_def cwait_def csignal_def fault_simps
      split: cpc.splits act.splits if_splits)

lemma Shunina13_start_inv: "Shunina13_inv Shunina13_start" "cprinted Shunina13_start = []"
  using cond_start_inv[of "order Shunina13" "clines Shunina13"]
  by (simp_all add: Shunina13_inv_def Shunina13_start_def cst.extend_def cond_inv_def cond_start_def)

lemma Shunina13_bounded:
  "bounded_turns 2 10 (\<lambda>t i. i) (function13_step 0) cprinted Shunina13_inv Shunina13_start (cond_rank 10)"
proof (rule cond_bounded_turns[of Shunina13, unfolded Shunina13_sel])
  show "cond_inv [AFlip, APrint, AUnlock, ASignal] 10 s" if "Shunina13_inv s" for s
    using that by (simp add: Shunina13_inv_def)
  show "Shunina13_inv s'" if "Shunina13_inv s" "t < 2" "cond_step Shunina13 t s = Some s'"
    "cond_inv [AFlip, APrint, AUnlock, ASignal] 10 s'" for s t s'
    using that cond_step_ext13e[OF that(3)] by (simp add: Shunina13_inv_def)
qed (simp_all add: Shunina13_start_inv function13_step_cond)

interpretation e13: bounded_turns 2 10 "\<lambda>t i. i" "function13_step 0" cprinted Shunina13_inv Shunina13_start "cond_rank 10"
  by (rule Shunina13_bounded)

lemma Shunina13_main_start: "Shunina13_main a m c p = (d, Go s0) \<Longrightarrow> s0 = Shunina13_start"
  by (auto simp: Shunina13_main_def Shunina13_start_def cst.extend_def cond_start_def split: if_splits)

text \<open>
  \<open>Shunina/lab13\<close> signals after it has unlocked the mutex, so that a signal can come late and wake
  the other thread when it is not its turn. Still, when no call fails, the lines come in turn in
  every schedule, no signal is lost in a way that leaves both threads blocked before all lines are
  out, and no schedule is longer than 402 steps.
\<close>

theorem Shunina13_in_turn:
  assumes "Shunina13_main a m c p = (d, Go s0)"
    and "set ts \<subseteq> {..<2}" "run_schedule (function13_step 0) ts s0 = Some s"
  shows "cprinted s = round_robin 2 (\<lambda>t i. i) (length (cprinted s)) \<and> length ts \<le> 402 \<and>
    ((\<forall>t < 2. function13_step 0 t s = None) \<longrightarrow> cprinted s = round_robin 2 (\<lambda>t i. i) 20)"
proof -
  have "cond_rank 10 Shunina13_start = 402"
    using cond_rank_start[of 10] by (simp add: Shunina13_start_def cond_rank_def cst.extend_def cond_start_def)
  then show ?thesis using e13.correct[OF assms(2)] assms(3) Shunina13_main_start[OF assms(1)] by simp
qed

theorem Shunina13_in_turn_witness:
  "\<exists>s0 s. Shunina13_main 0 0 0 0 = ([MutexAttr], Go s0) \<and>
     run_schedule (function13_step 0) [1, 1, 1, 0, 0, 0, 0, 0, 0, 0, 1, 1, 1, 1, 1] s0 = Some s \<and>
     cprinted s = round_robin 2 (\<lambda>t i. i) 2"
proof -
  let ?ts = "[1, 1, 1, 0, 0, 0, 0, 0, 0, 0, 1, 1, 1, 1, 1]"
  have "(case Shunina13_main 0 0 0 0 of (d, Go s0) \<Rightarrow> d = [MutexAttr] \<and>
      (case run_schedule (function13_step 0) ?ts s0 of Some s \<Rightarrow> length (cprinted s) = 2 | None \<Rightarrow> False) | _ \<Rightarrow> False)"
    by code_simp
  then obtain s0 s where s: "Shunina13_main 0 0 0 0 = ([MutexAttr], Go s0)"
    "run_schedule (function13_step 0) ?ts s0 = Some s" "length (cprinted s) = 2"
    unfolding case_True by blast
  have "set ?ts \<subseteq> {..<2::nat}" by simp
  from Shunina13_in_turn[OF s(1) this s(2)] show ?thesis using s by metis
qed

text \<open>A thread that has ended with the mutex.\<close>

definition dead_owner :: "cst13e \<Rightarrow> bool" where
  "dead_owner s \<longleftrightarrow> owner s = Some 1 \<and> length (cpcs s) = 2 \<and> cpcs s ! 1 = CDone \<and> \<not> err13 s \<and>
     cprinted s = [] \<and> cpcs s ! 0 \<in> {CLoop 0, CLock 0}"

lemma dead_owner_step: "dead_owner s \<Longrightarrow> t < 2 \<Longrightarrow> function13_step 0 t s = Some s' \<Longrightarrow> dead_owner s'"
  by (auto simp: dead_owner_def function13_step_def get_at_def mlock_def cgo_def dest!: two_threads split: if_splits)

lemma dead_owner_run:
  "dead_owner s \<Longrightarrow> set ts \<subseteq> {..<2} \<Longrightarrow> run_schedule (function13_step 0) ts s = Some s' \<Longrightarrow> dead_owner s'"
  by (induction ts arbitrary: s) (auto simp: fault_simps dest: dead_owner_step)

text \<open>
  When the wait of the second thread of \<open>Shunina/lab13\<close> fails, the thread returns with the mutex
  locked and without setting \<open>err\<close>: whatever the schedule, the main thread then never gets the
  mutex, prints nothing and never ends.
\<close>

theorem Shunina13_failed_wait_hangs:
  assumes "Shunina13_main a m c p = (d, Go s0)" "run_schedule (function13_step 0) [1, 1] s0 = Some s1"
    and "e \<noteq> 0" "function13_step e 1 s1 = Some s2"
    and "set ts \<subseteq> {..<2}" "run_schedule (function13_step 0) ts s2 = Some s"
  shows "cprinted s = [] \<and> cpcs s ! 0 \<noteq> CDone \<and> owner s = Some 1"
proof -
  have s0: "s0 = \<lparr>owner = None, main_turn = True, cpcs = [CLoop 0, CLoop 0], cprinted = [], err13 = False\<rparr>"
    using Shunina13_main_start[OF assms(1)] by (simp add: Shunina13_start_def cst.extend_def cond_start_def)
  have "dead_owner s2"
    using assms(2-4) by (auto simp: s0 function13_step_def get_at_def mlock_def cgo_def dead_owner_def)
  from dead_owner_run[OF this assms(5,6)] show ?thesis by (auto simp: dead_owner_def)
qed

theorem Shunina13_failed_wait_hangs_witness:
  "\<exists>s0 s1 s2 s. Shunina13_main 0 0 0 0 = ([MutexAttr], Go s0) \<and> run_schedule (function13_step 0) [1, 1] s0 = Some s1 \<and>
     function13_step 22 1 s1 = Some s2 \<and> run_schedule (function13_step 0) [0] s2 = Some s \<and>
     cprinted s = [] \<and> cpcs s ! 0 \<noteq> CDone"
proof -
  have "(case Shunina13_main 0 0 0 0 of (d, Go s0) \<Rightarrow> d = [MutexAttr] \<and>
      (case run_schedule (function13_step 0) [1, 1] s0 of Some s1 \<Rightarrow> (case function13_step 22 1 s1 of Some s2 \<Rightarrow>
      (case run_schedule (function13_step 0) [0] s2 of Some s \<Rightarrow> True | None \<Rightarrow> False)
       | None \<Rightarrow> False) | None \<Rightarrow> False) | _ \<Rightarrow> False)"
    by code_simp
  then obtain s0 s1 s2 s where s: "Shunina13_main 0 0 0 0 = ([MutexAttr], Go s0)"
    "run_schedule (function13_step 0) [1, 1] s0 = Some s1" "function13_step 22 1 s1 = Some s2"
    "run_schedule (function13_step 0) [0] s2 = Some s"
    unfolding case_True by blast
  have "(22::int) \<noteq> 0" "set [0] \<subseteq> {..<2::nat}" by simp_all
  from Shunina13_failed_wait_hangs[OF s(1,2) this(1) s(3) this(2) s(4)] show ?thesis using s by blast
qed

end
