(* ===== verification/MsgQueue.thy ===== *)
theory MsgQueue
  imports Fifo
begin

text \<open>
  The message queue of \<open>korneshchuk/25\<close> (the files of \<open>tamplon/lab25\<close> are the same): the linked list
  of \<open>thread_safe_queue.c\<close> on a heap of nodes, which is a second provider of the contract \<open>fifo\<close>, and
  the copying of messages in \<open>myQueue.c\<close>. A message in the queue is the array that was allocated for
  it, terminating NUL included. \<open>pop\<close> leaves \<open>tail\<close> dangling when it takes the last node; the
  relation to lists says why that does no harm. \<open>my_msg_get\<close> writes a NUL at index \<open>bufsize\<close> of the
  array: fine for a message of that length, out of bounds for a shorter one.
\<close>

subsection \<open>The list\<close>

record Node =
  nvalue :: string
  nnext :: "nat option"

record Queue =
  cells :: "nat \<Rightarrow> Node option"
  next_cell :: nat
  head :: "nat option"
  tail :: "nat option"
  qmutex :: mutex

definition create :: Queue where
  "create = \<lparr>cells = Map.empty, next_cell = 0, head = None, tail = None, qmutex = Unlocked\<rparr>"

definition qlock :: "Queue \<Rightarrow> Queue option" where
  "qlock q = do { m \<leftarrow> mutex_lock (qmutex q); Some (q\<lparr>qmutex := m\<rparr>) }"

definition qunlock :: "Queue \<Rightarrow> Queue option" where
  "qunlock q = do { m \<leftarrow> mutex_unlock (qmutex q); Some (q\<lparr>qmutex := m\<rparr>) }"

definition push :: "string \<Rightarrow> Queue \<Rightarrow> Queue option" where
  "push elem q = do {
     let element = next_cell q;
     let q = q\<lparr>next_cell := Suc element, cells := (cells q)(element \<mapsto> \<lparr>nvalue = elem, nnext = None\<rparr>)\<rparr>;
     q \<leftarrow> qlock q;
     if head q = None then qunlock (q\<lparr>head := Some element, tail := Some element\<rparr>)
     else do {
       oldTail \<leftarrow> tail q;
       n \<leftarrow> cells q oldTail;
       qunlock (q\<lparr>cells := (cells q)(oldTail \<mapsto> n\<lparr>nnext := Some element\<rparr>), tail := Some element\<rparr>) } }"

definition pop :: "Queue \<Rightarrow> (string option \<times> Queue) option" where
  "pop q = do {
     q \<leftarrow> qlock q;
     case head q of
       None \<Rightarrow> do { q \<leftarrow> qunlock q; Some (None, q) }
     | Some h \<Rightarrow> do {
         n \<leftarrow> cells q h;
         q \<leftarrow> qunlock (q\<lparr>head := nnext n, cells := (cells q)(h := None)\<rparr>);
         Some (Some (nvalue n), q) } }"

text \<open>\<open>while (queue->head != NULL) free(pop(queue))\<close>; every turn frees a node, so \<open>next_cell\<close> turns are enough.\<close>

fun pop_all :: "nat \<Rightarrow> Queue \<Rightarrow> Queue option" where
  "pop_all fuel q =
     (if head q = None then Some q
      else case fuel of 0 \<Rightarrow> None | Suc n \<Rightarrow> do { (v, q) \<leftarrow> pop q; pop_all n q })"

declare pop_all.simps [simp del]

definition destroy :: "Queue \<Rightarrow> Queue option" where
  "destroy q = do {
     q \<leftarrow> pop_all (next_cell q) q;
     m \<leftarrow> mutex_destroy (qmutex q);
     Some (q\<lparr>qmutex := m\<rparr>) }"

fun cell_path :: "(nat \<Rightarrow> Node option) \<Rightarrow> nat option \<Rightarrow> nat list \<Rightarrow> bool" where
  "cell_path h x [] \<longleftrightarrow> x = None"
| "cell_path h x (p # ps) \<longleftrightarrow> x = Some p \<and> (\<exists>n. h p = Some n \<and> cell_path h (nnext n) ps)"

definition cell_value :: "(nat \<Rightarrow> Node option) \<Rightarrow> nat \<Rightarrow> string" where
  "cell_value h p = (case h p of Some n \<Rightarrow> nvalue n | None \<Rightarrow> [])"

text \<open>The nodes are the cells \<open>ps\<close> in this order; \<open>tail\<close> is the last one unless there is none.\<close>

definition cells_ok :: "Queue \<Rightarrow> nat list \<Rightarrow> bool" where
  "cells_ok q ps \<longleftrightarrow> distinct ps \<and> dom (cells q) = set ps \<and> (\<forall>p \<in> set ps. p < next_cell q) \<and>
     cell_path (cells q) (head q) ps \<and> (ps \<noteq> [] \<longrightarrow> tail q = Some (last ps)) \<and> qmutex q = Unlocked"

definition queue_rep :: "Queue \<Rightarrow> string list \<Rightarrow> bool" where
  "queue_rep q xs \<longleftrightarrow> (\<exists>ps. cells_ok q ps \<and> xs = map (cell_value (cells q)) ps)"

lemmas qdefs = qlock_def qunlock_def

lemma create_rep: "queue_rep create []"
  by (auto simp: create_def queue_rep_def cells_ok_def)

lemma cell_path_upd: "p \<notin> set ps \<Longrightarrow> cell_path (h(p := v)) x ps \<longleftrightarrow> cell_path h x ps"
  by (induction ps arbitrary: x) auto

lemma cell_value_upd: "p \<notin> set ps \<Longrightarrow> map (cell_value (h(p := v))) ps = map (cell_value h) ps"
  by (auto simp: cell_value_def)

lemma cell_path_snoc:
  "cell_path h x (ps @ [t]) \<Longrightarrow> h t = Some n \<Longrightarrow> t \<notin> set ps \<Longrightarrow> new \<notin> set ps \<Longrightarrow> new \<noteq> t \<Longrightarrow>
     cell_path (h(new \<mapsto> \<lparr>nvalue = e, nnext = None\<rparr>, t \<mapsto> n\<lparr>nnext := Some new\<rparr>)) x (ps @ [t, new])"
  by (induction ps arbitrary: x) (auto simp: cell_path_upd)

lemma head_None: "cells_ok q ps \<Longrightarrow> head q = None \<longleftrightarrow> ps = []"
  by (cases ps) (auto simp: cells_ok_def)

lemma push_rep:
  assumes "queue_rep q xs"
  shows "\<exists>q'. push e q = Some q' \<and> queue_rep q' (xs @ [e])"
proof -
  obtain ps where r: "cells_ok q ps" and xs: "xs = map (cell_value (cells q)) ps" using assms by (auto simp: queue_rep_def)
  let ?new = "next_cell q"
  have new: "?new \<notin> set ps" and m: "qmutex q = Unlocked" using r by (auto simp: cells_ok_def)
  show ?thesis
  proof (cases ps rule: rev_cases)
    case Nil
    let ?q = "q\<lparr>next_cell := Suc ?new, cells := (cells q)(?new \<mapsto> \<lparr>nvalue = e, nnext = None\<rparr>),
      head := Some ?new, tail := Some ?new\<rparr>"
    have "push e q = Some ?q" using m Nil head_None[OF r] by (cases q) (simp add: push_def qdefs)
    moreover have "cells_ok ?q [?new]" using r Nil by (auto simp: cells_ok_def)
    moreover have "xs @ [e] = map (cell_value (cells ?q)) [?new]" using xs Nil by (simp add: cell_value_def)
    ultimately show ?thesis unfolding queue_rep_def by blast
  next
    case (snoc us t)
    then have t: "tail q = Some t" "t \<noteq> ?new" "t \<notin> set us" "?new \<notin> set us"
      using r new by (auto simp: cells_ok_def)
    have "t \<in> dom (cells q)" using r snoc by (simp add: cells_ok_def)
    then obtain n where n: "cells q t = Some n" by auto
    let ?h = "(cells q)(?new \<mapsto> \<lparr>nvalue = e, nnext = None\<rparr>, t \<mapsto> n\<lparr>nnext := Some ?new\<rparr>)"
    let ?q = "q\<lparr>next_cell := Suc ?new, cells := ?h, tail := Some ?new\<rparr>"
    have "push e q = Some ?q"
      using m t n snoc head_None[OF r] by (cases q) (auto simp: push_def qdefs Let_def)
    moreover have "cells_ok ?q (ps @ [?new])"
      using r new t n snoc cell_path_snoc[of "cells q" "head q" us t n ?new e] by (auto simp: cells_ok_def)
    moreover have "xs @ [e] = map (cell_value ?h) (ps @ [?new])"
      using xs t n snoc by (auto simp: cell_value_def)
    ultimately show ?thesis unfolding queue_rep_def by (metis (no_types, lifting) Queue.select_convs(1) Queue.surjective Queue.update_convs(1,2,4))
  qed
qed

lemma msg_pop_rep:
  assumes "queue_rep q (x # xs)"
  shows "\<exists>q'. pop q = Some (Some x, q') \<and> queue_rep q' xs"
proof -
  obtain p ps where r: "cells_ok q (p # ps)" and xs: "x = cell_value (cells q) p" "xs = map (cell_value (cells q)) ps"
    using assms by (auto simp: queue_rep_def)
  obtain n where n: "cells q p = Some n" "cell_path (cells q) (nnext n) ps" "head q = Some p" "qmutex q = Unlocked" "p \<notin> set ps"
    using r by (auto simp: cells_ok_def)
  let ?q = "q\<lparr>head := nnext n, cells := (cells q)(p := None)\<rparr>"
  have "pop q = Some (Some x, ?q)" using n xs by (cases q) (simp add: pop_def qdefs cell_value_def)
  moreover have "cells_ok ?q ps" using r n by (auto simp: cells_ok_def cell_path_upd)
  moreover have "xs = map (cell_value (cells ?q)) ps" using xs n by (simp add: cell_value_upd del: fun_upd_apply)
  ultimately show ?thesis unfolding queue_rep_def by blast
qed

lemma msg_pop_empty: "queue_rep q [] \<Longrightarrow> pop q = Some (None, q)"
  by (auto simp: queue_rep_def cells_ok_def pop_def qdefs)

interpretation mq: fifo "\<lambda>_. True" queue_rep push pop
  by unfold_locales (auto simp: push_rep msg_pop_rep msg_pop_empty)

text \<open>
  The linked list of \<open>thread_safe_queue.c\<close> is a first-in first-out queue: whatever sequence of
  \<open>push\<close> and \<open>pop\<close> runs on a fresh queue, no dangling pointer is followed (not the \<open>tail\<close> that \<open>pop\<close>
  leaves behind either), and what was popped, followed by what is left, is what was pushed, in order.
\<close>

theorem msg_queue_fifo:
  "\<exists>out q left. run_history push pop ops create = Some (out, q) \<and> queue_rep q left \<and>
     enqueued ops = List.map_filter id out @ left"
  using mq.history_conserves[OF create_rep, of ops] by auto

subsection \<open>Destruction\<close>

lemma pop_next_cell: "pop q = Some (v, q') \<Longrightarrow> next_cell q' = next_cell q"
  by (auto simp: pop_def qdefs fault_simps split: option.splits)

lemma pop_all_frees:
  "queue_rep q xs \<Longrightarrow> length xs \<le> fuel \<Longrightarrow> \<exists>q'. pop_all fuel q = Some q' \<and> queue_rep q' []"
proof (induction xs arbitrary: q fuel)
  case Nil
  then have "head q = None" by (auto simp: queue_rep_def head_None)
  then show ?case using Nil by (simp add: pop_all.simps[of fuel q])
next
  case (Cons x xs)
  obtain f where f: "fuel = Suc f" "length xs \<le> f" using Cons.prems(2) by (cases fuel) auto
  obtain q' where q': "pop q = Some (Some x, q')" "queue_rep q' xs" using msg_pop_rep[OF Cons.prems(1)] by blast
  have "head q \<noteq> None" using Cons.prems(1) by (auto simp: queue_rep_def cells_ok_def)
  then show ?case using Cons.IH[OF q'(2) f(2)] q'(1) unfolding f(1) by (auto simp: pop_all.simps[of "Suc f" q])
qed

text \<open>
  Destroying a queue that holds any messages returns, frees every node and destroys its mutex.
\<close>

theorem queue_destroy_frees:
  assumes "queue_rep q xs"
  shows "\<exists>q'. destroy q = Some q' \<and> cells q' = Map.empty \<and> qmutex q' = Destroyed"
proof -
  obtain ps where r: "cells_ok q ps" and xs: "xs = map (cell_value (cells q)) ps" using assms by (auto simp: queue_rep_def)
  have "set ps \<subseteq> {0..<next_cell q}" "distinct ps" using r by (auto simp: cells_ok_def)
  then have "length xs \<le> next_cell q"
    using subset_eq_atLeast0_lessThan_card[of "set ps" "next_cell q"] xs by (simp add: distinct_card)
  then obtain q' where "pop_all (next_cell q) q = Some q'" "queue_rep q' []" using pop_all_frees[OF assms] by blast
  then show ?thesis by (auto simp: destroy_def queue_rep_def cells_ok_def)
qed

theorem queue_destroy_frees_witness:
  "\<exists>q q'. push ''ab'' create = Some q \<and> destroy q = Some q' \<and> cells q' = Map.empty \<and> qmutex q' = Destroyed"
proof -
  obtain q where q: "push ''ab'' create = Some q" "queue_rep q ([] @ [''ab''])" using push_rep[OF create_rep] by blast
  from queue_destroy_frees[OF q(2)] show ?thesis using q(1) by blast
qed

subsection \<open>Copying messages\<close>

abbreviation NUL :: char where "NUL \<equiv> CHR 0x00"

text \<open>\<open>my_msg_put\<close>, lines 56-67: the array that is queued, and \<open>msg_len\<close>, which is returned.\<close>

definition copy_msg :: "string \<Rightarrow> string \<times> nat" where
  "copy_msg msg =
     (let msg_len = length msg;
          new_msg_len = (if msg_len > 80 then 80 else msg_len) in
      (take new_msg_len msg @ [NUL], msg_len))"

text \<open>\<open>my_msg_get\<close>, lines 89-90: \<open>tmp[bufsize] = 0; strcpy(buf, tmp)\<close>; the string that is then in \<open>buf\<close>.\<close>

definition take_msg :: "nat \<Rightarrow> string \<Rightarrow> string option" where
  "take_msg bufsize tmp = do {
     tmp \<leftarrow> put_at tmp bufsize NUL;
     Some (takeWhile (\<lambda>c. c \<noteq> NUL) tmp) }"

lemma takeWhile_no_NUL: "NUL \<notin> set m \<Longrightarrow> takeWhile (\<lambda>c. c \<noteq> NUL) (m @ NUL # r) = m"
  by (induction m) auto

lemma take_whole: "NUL \<notin> set m \<Longrightarrow> length m = k \<Longrightarrow> take_msg k (m @ [NUL]) = Some m"
  using takeWhile_no_NUL[of m "[]"] by (auto simp: take_msg_def put_at_def)

text \<open>
  What a consumer gets of a message: with a buffer size up to the length of the message (at most
  80) it gets the first \<open>bufsize\<close> characters; with a larger one, that is whenever the message is
  shorter than the buffer, \<open>my_msg_get\<close> writes behind the end of the array.
\<close>

theorem message_copied:
  assumes "NUL \<notin> set msg"
  shows "take_msg bufsize (fst (copy_msg msg)) =
    (if bufsize \<le> min 80 (length msg) then Some (take bufsize msg) else None)"
proof (cases "bufsize \<le> min 80 (length msg)")
  case True
  let ?m = "take 80 msg"
  have "(?m @ [NUL])[bufsize := NUL] = take bufsize msg @ NUL # drop (Suc bufsize) (?m @ [NUL])"
    using True by (subst upd_conv_take_nth_drop) auto
  moreover have "NUL \<notin> set (take bufsize msg)" using assms by (auto dest: in_set_takeD)
  ultimately have "takeWhile (\<lambda>c. c \<noteq> NUL) ((?m @ [NUL])[bufsize := NUL]) = take bufsize msg"
    using takeWhile_no_NUL by metis
  then show ?thesis using True by (auto simp: take_msg_def copy_msg_def Let_def put_at_def)
next
  case False
  then show ?thesis by (auto simp: take_msg_def copy_msg_def Let_def put_at_def)
qed

theorem message_copied_witness:
  "take_msg 2 (fst (copy_msg ''abc'')) = Some ''ab'' \<and> take_msg 80 (fst (copy_msg ''abc'')) = None"
  using message_copied[of "''abc''" 2] message_copied[of "''abc''" 80] by simp

end
