(* ===== verification/MsgThreads.thy ===== *)
theory MsgThreads
  imports MsgQueue
begin

text \<open>
  The producers, the consumers and the main thread of \<open>korneshchuk/25\<close> as interleaved steps, one call
  of the code per step, over the queue of \<open>MsgQueue\<close>. \<open>accepted\<close> and \<open>delivered\<close> are history: the
  messages queued and the messages taken out, in order. The invariant counts how many threads are
  between a \<open>sem_wait\<close> and what it stands for: the queue never holds more than ten messages, a
  consumer that got through \<open>empty_sem\<close> finds a message, and when the queue is dropped each thread
  that is let through a semaphore lets the next one through.
\<close>

subsection \<open>Program counters and state\<close>

datatype mpc =
    PLoop | PWait string | PLock string | PIn string | PRefuse | PPost nat | PUnlock nat
  | CLoop | CWait | CLock | CIn | CPost nat | CRefuse | CUnlock nat
  | MLock | MSet | MPostEmpty | MPostFull | MUnlock | Ended

record mq =
  mqueue :: Queue
  full_sem :: nat
  empty_sem :: nat
  mowner :: "nat option"
  dropped :: bool
  mpcs :: "mpc list"
  accepted :: "string list"
  delivered :: "string list"

definition mgo :: "nat \<Rightarrow> mpc \<Rightarrow> mq \<Rightarrow> mq" where
  "mgo t p s = s\<lparr>mpcs := (mpcs s)[t := p]\<rparr>"

definition wait_full :: "mq \<Rightarrow> mq option" where
  "wait_full s = (if full_sem s = 0 then None else Some (s\<lparr>full_sem := full_sem s - 1\<rparr>))"

definition wait_empty :: "mq \<Rightarrow> mq option" where
  "wait_empty s = (if empty_sem s = 0 then None else Some (s\<lparr>empty_sem := empty_sem s - 1\<rparr>))"

definition post_full :: "mq \<Rightarrow> mq" where
  "post_full s = s\<lparr>full_sem := full_sem s + 1\<rparr>"

definition post_empty :: "mq \<Rightarrow> mq" where
  "post_empty s = s\<lparr>empty_sem := empty_sem s + 1\<rparr>"

definition lock_msg :: "nat \<Rightarrow> mq \<Rightarrow> mq option" where
  "lock_msg t s = (if mowner s = None then Some (s\<lparr>mowner := Some t\<rparr>) else None)"

definition unlock_msg :: "mq \<Rightarrow> mq" where
  "unlock_msg s = s\<lparr>mowner := None\<rparr>"

subsection \<open>The operations\<close>

definition my_msg_init :: "mpc list \<Rightarrow> mq" where
  "my_msg_init ps = \<lparr>mqueue = create, full_sem = 10, empty_sem = 0, mowner = None, dropped = False,
     mpcs = ps, accepted = [], delivered = []\<rparr>"

text \<open>\<open>my_msg_drop\<close>.\<close>

fun my_msg_drop :: "mpc \<Rightarrow> nat \<Rightarrow> mq \<Rightarrow> mq option" where
  "my_msg_drop MLock t s = do { s \<leftarrow> lock_msg t s; Some (mgo t MSet s) }"
| "my_msg_drop MSet t s = Some (mgo t MPostEmpty (s\<lparr>dropped := True\<rparr>))"
| "my_msg_drop MPostEmpty t s = Some (mgo t MPostFull (post_empty s))"
| "my_msg_drop MPostFull t s = Some (mgo t MUnlock (post_full s))"
| "my_msg_drop MUnlock t s = Some (mgo t Ended (unlock_msg s))"
| "my_msg_drop p t s = None"

text \<open>\<open>my_msg_put\<close>; it returns at \<open>PUnlock\<close>, and a producer goes on unless the result is 0.\<close>

fun my_msg_put :: "mpc \<Rightarrow> nat \<Rightarrow> mq \<Rightarrow> mq option" where
  "my_msg_put (PWait msg) t s = do { s \<leftarrow> wait_full s; Some (mgo t (PLock msg) s) }"
| "my_msg_put (PLock msg) t s = do { s \<leftarrow> lock_msg t s; Some (mgo t (PIn msg) s) }"
| "my_msg_put (PIn msg) t s =
     (if dropped s then Some (mgo t PRefuse s)
      else do {
        let (str, msg_len) = copy_msg msg;
        q \<leftarrow> push str (mqueue s);
        Some (mgo t (PPost msg_len) (s\<lparr>mqueue := q, accepted := accepted s @ [str]\<rparr>)) })"
| "my_msg_put PRefuse t s = Some (mgo t (PUnlock 0) (post_full s))"
| "my_msg_put (PPost r) t s = Some (mgo t (PUnlock r) (post_empty s))"
| "my_msg_put (PUnlock r) t s = Some (mgo t (if r = 0 then Ended else PLoop) (unlock_msg s))"
| "my_msg_put p t s = None"

text \<open>\<open>my_msg_get\<close> with \<open>bufsize\<close>; the result is the length of what is in the buffer.\<close>

fun my_msg_get :: "nat \<Rightarrow> mpc \<Rightarrow> nat \<Rightarrow> mq \<Rightarrow> mq option" where
  "my_msg_get bufsize CWait t s = do { s \<leftarrow> wait_empty s; Some (mgo t CLock s) }"
| "my_msg_get bufsize CLock t s = do { s \<leftarrow> lock_msg t s; Some (mgo t CIn s) }"
| "my_msg_get bufsize CIn t s =
     (if \<not> dropped s then do {
        (tmp, q) \<leftarrow> pop (mqueue s);
        case tmp of
          Some tmp \<Rightarrow> do {
            buf \<leftarrow> take_msg bufsize tmp;
            Some (mgo t (CPost (length buf)) (s\<lparr>mqueue := q, delivered := delivered s @ [tmp]\<rparr>)) }
        | None \<Rightarrow> Some (mgo t CRefuse (s\<lparr>mqueue := q\<rparr>)) }
      else Some (mgo t CRefuse s))"
| "my_msg_get bufsize (CPost r) t s = Some (mgo t (CUnlock r) (post_full s))"
| "my_msg_get bufsize CRefuse t s = Some (mgo t (CUnlock 0) (post_empty s))"
| "my_msg_get bufsize (CUnlock r) t s = Some (mgo t (if r = 0 then Ended else CLoop) (unlock_msg s))"
| "my_msg_get bufsize p t s = None"

subsection \<open>The threads\<close>

text \<open>The line a producer makes from 80 numbers of \<open>rand\<close>: \<open>(rand() % ('z' - 'A')) + 'A'\<close>.\<close>

definition random_line :: "(nat \<Rightarrow> nat) \<Rightarrow> string" where
  "random_line rand = map (\<lambda>i. char_of (rand i mod (122 - 65) + 65)) [0..<80]"

definition producer_routine :: "(nat \<Rightarrow> nat) \<Rightarrow> mpc \<Rightarrow> nat \<Rightarrow> mq \<Rightarrow> mq option" where
  "producer_routine rand p t s =
     (if p = PLoop then Some (mgo t (if dropped s then Ended else PWait (random_line rand)) s)
      else my_msg_put p t s)"

definition consumer_routine :: "mpc \<Rightarrow> nat \<Rightarrow> mq \<Rightarrow> mq option" where
  "consumer_routine p t s =
     (if p = CLoop then Some (mgo t (if dropped s then Ended else CWait) s)
      else my_msg_get 80 p t s)"

definition is_producer :: "mpc \<Rightarrow> bool" where
  "is_producer p = (case p of PLoop \<Rightarrow> True | PWait m \<Rightarrow> True | PLock m \<Rightarrow> True | PIn m \<Rightarrow> True | PRefuse \<Rightarrow> True
     | PPost r \<Rightarrow> True | PUnlock r \<Rightarrow> True | _ \<Rightarrow> False)"

definition is_consumer :: "mpc \<Rightarrow> bool" where
  "is_consumer p = (case p of CLoop \<Rightarrow> True | CWait \<Rightarrow> True | CLock \<Rightarrow> True | CIn \<Rightarrow> True | CPost r \<Rightarrow> True
     | CRefuse \<Rightarrow> True | CUnlock r \<Rightarrow> True | _ \<Rightarrow> False)"

definition mq_step :: "(nat \<Rightarrow> nat) \<Rightarrow> nat \<Rightarrow> mq \<Rightarrow> mq option" where
  "mq_step rand t s = do {
     p \<leftarrow> get_at (mpcs s) t;
     if is_producer p then producer_routine rand p t s
     else if is_consumer p then consumer_routine p t s
     else my_msg_drop p t s }"

text \<open>
  \<open>main\<close> and \<open>init_all_threads\<close> with all four threads created: two producers, two consumers, and the
  main thread, which drops the queue at some time.
\<close>

definition main25 :: mq where
  "main25 = my_msg_init [PLoop, PLoop, CLoop, CLoop, MLock]"

inductive mq_reach :: "mq \<Rightarrow> mq \<Rightarrow> bool" for s0 where
  mq_init: "mq_reach s0 s0"
| mq_next: "mq_reach s0 s \<Longrightarrow> mq_step rand t s = Some s' \<Longrightarrow> mq_reach s0 s'"

subsection \<open>The invariant\<close>

definition num :: "(mpc \<Rightarrow> bool) \<Rightarrow> mpc list \<Rightarrow> nat" where
  "num P ps = length (filter P ps)"

definition in_lock :: "mpc \<Rightarrow> bool" where
  "in_lock p = (case p of PIn m \<Rightarrow> True | PRefuse \<Rightarrow> True | PPost r \<Rightarrow> True | PUnlock r \<Rightarrow> True
     | CIn \<Rightarrow> True | CPost r \<Rightarrow> True | CRefuse \<Rightarrow> True | CUnlock r \<Rightarrow> True
     | MSet \<Rightarrow> True | MPostEmpty \<Rightarrow> True | MPostFull \<Rightarrow> True | MUnlock \<Rightarrow> True | _ \<Rightarrow> False)"

fun reserved :: "mpc \<Rightarrow> bool" where
  "reserved (PLock m) = True"
| "reserved (PIn m) = True"
| "reserved (CPost r) = True"
| "reserved p = False"

fun claimed :: "mpc \<Rightarrow> bool" where
  "claimed (PPost r) = True"
| "claimed CLock = True"
| "claimed CIn = True"
| "claimed p = False"

text \<open>Threads that will still let a producer, or a consumer, through after the drop.\<close>

fun frees_full :: "mpc \<Rightarrow> bool" where
  "frees_full (PLock m) = True"
| "frees_full (PIn m) = True"
| "frees_full PRefuse = True"
| "frees_full MPostEmpty = True"
| "frees_full MPostFull = True"
| "frees_full p = False"

fun frees_empty :: "mpc \<Rightarrow> bool" where
  "frees_empty CLock = True"
| "frees_empty CIn = True"
| "frees_empty CRefuse = True"
| "frees_empty MPostEmpty = True"
| "frees_empty p = False"

text \<open>Program counters that only occur after the drop.\<close>

fun after_drop :: "mpc \<Rightarrow> bool" where
  "after_drop PRefuse = True"
| "after_drop CRefuse = True"
| "after_drop (PUnlock r) = (r = 0)"
| "after_drop (CUnlock r) = (r = 0)"
| "after_drop (PPost r) = (r = 0)"
| "after_drop (CPost r) = (r = 0)"
| "after_drop MPostEmpty = True"
| "after_drop MPostFull = True"
| "after_drop MUnlock = True"
| "after_drop Ended = True"
| "after_drop p = False"

text \<open>A line of 80 characters, none of them NUL; every message in the queue is one.\<close>

definition good_line :: "string \<Rightarrow> bool" where
  "good_line m \<longleftrightarrow> length m = 80 \<and> NUL \<notin> set m"

definition good_array :: "string \<Rightarrow> bool" where
  "good_array a \<longleftrightarrow> (\<exists>m. good_line m \<and> a = m @ [NUL])"

fun good_pc :: "mpc \<Rightarrow> bool" where
  "good_pc (PWait m) = good_line m"
| "good_pc (PLock m) = good_line m"
| "good_pc (PIn m) = good_line m"
| "good_pc p = True"

definition lock_ok :: "nat option \<Rightarrow> mpc list \<Rightarrow> bool" where
  "lock_ok own ps \<longleftrightarrow> (\<forall>t < length ps. in_lock (ps ! t) \<longleftrightarrow> own = Some t) \<and> (\<forall>t. own = Some t \<longrightarrow> t < length ps)"

definition sems_ok :: "bool \<Rightarrow> nat \<Rightarrow> nat \<Rightarrow> nat \<Rightarrow> mpc list \<Rightarrow> bool" where
  "sems_ok d f e n ps \<longleftrightarrow>
     (if d then n \<le> 10 \<and> 0 < f + num frees_full ps \<and> 0 < e + num frees_empty ps
      else f + num reserved ps + n = 10 \<and> n = e + num claimed ps \<and> num after_drop ps = 0)"

definition mq_inv :: "mq \<Rightarrow> bool" where
  "mq_inv s \<longleftrightarrow> lock_ok (mowner s) (mpcs s) \<and> (\<forall>p \<in> set (mpcs s). good_pc p) \<and>
     (\<exists>xs. queue_rep (mqueue s) xs \<and> accepted s = delivered s @ xs \<and> (\<forall>a \<in> set xs. good_array a) \<and>
        sems_ok (dropped s) (full_sem s) (empty_sem s) (length xs) (mpcs s))"

lemma lock_keep:
  "lock_ok own ps \<Longrightarrow> t < length ps \<Longrightarrow> in_lock p = in_lock (ps ! t) \<Longrightarrow> lock_ok own (ps[t := p])"
  by (auto simp: lock_ok_def nth_list_update)

lemma lock_take: "lock_ok None ps \<Longrightarrow> t < length ps \<Longrightarrow> in_lock p \<Longrightarrow> lock_ok (Some t) (ps[t := p])"
  by (auto simp: lock_ok_def nth_list_update)

lemma lock_release:
  "lock_ok own ps \<Longrightarrow> t < length ps \<Longrightarrow> in_lock (ps ! t) \<Longrightarrow> \<not> in_lock p \<Longrightarrow> lock_ok None (ps[t := p])"
  by (auto simp: lock_ok_def nth_list_update)

lemma num_update:
  "t < length ps \<Longrightarrow> num P (ps[t := p]) + (if P (ps ! t) then 1 else 0) = num P ps + (if P p then 1 else 0)"
proof (induction ps arbitrary: t)
  case (Cons x ps)
  then show ?case by (cases t) (auto simp: num_def)
qed simp

lemma num_pos: "t < length ps \<Longrightarrow> P (ps ! t) \<Longrightarrow> 0 < num P ps"
  by (auto simp: num_def filter_empty_conv)

text \<open>A step of thread \<open>t\<close>: it is enough to compare its old and new program counter.\<close>

lemma sems_update:
  assumes "sems_ok d f e n ps" "t < length ps"
    and "\<And>ff fe r c a ff' fe' r' c' a'.
      \<lbrakk>num frees_full ps = ff; num frees_empty ps = fe; num reserved ps = r; num claimed ps = c; num after_drop ps = a;
       ff' + (if frees_full (ps ! t) then 1 else 0) = ff + (if frees_full p then 1 else 0);
       fe' + (if frees_empty (ps ! t) then 1 else 0) = fe + (if frees_empty p then 1 else 0);
       r' + (if reserved (ps ! t) then 1 else 0) = r + (if reserved p then 1 else 0);
       c' + (if claimed (ps ! t) then 1 else 0) = c + (if claimed p then 1 else 0);
       a' + (if after_drop (ps ! t) then 1 else 0) = a + (if after_drop p then 1 else 0);
       after_drop (ps ! t) \<Longrightarrow> 0 < a; reserved (ps ! t) \<Longrightarrow> 0 < r; claimed (ps ! t) \<Longrightarrow> 0 < c;
       if d then n \<le> 10 \<and> 0 < f + ff \<and> 0 < e + fe else f + r + n = 10 \<and> n = e + c \<and> a = 0\<rbrakk> \<Longrightarrow>
      if d' then n' \<le> 10 \<and> 0 < f' + ff' \<and> 0 < e' + fe' else f' + r' + n' = 10 \<and> n' = e' + c' \<and> a' = 0"
  shows "sems_ok d' f' e' n' (ps[t := p])"
  unfolding sems_ok_def
  by (rule assms(3)[OF refl refl refl refl refl num_update[OF assms(2)] num_update[OF assms(2)] num_update[OF assms(2)]
      num_update[OF assms(2)] num_update[OF assms(2)] num_pos[OF assms(2)] num_pos[OF assms(2)] num_pos[OF assms(2)]
      assms(1)[unfolded sems_ok_def]])

lemma good_update: "\<forall>p \<in> set ps. good_pc p \<Longrightarrow> good_pc q \<Longrightarrow> \<forall>p \<in> set (ps[t := q]). good_pc p"
  using set_update_subset_insert[of ps t q] by auto

lemma random_line_good: "good_line (random_line rand)"
proof -
  have nz: "char_of (n mod 57 + 65) \<noteq> NUL" for n :: nat
  proof
    assume "char_of (n mod 57 + 65) = NUL"
    then have "of_char (char_of (n mod 57 + 65) :: char) = (0 :: nat)" by simp
    moreover have "n mod 57 < 57" by simp
    ultimately show False by simp
  qed
  have "NUL \<notin> set (random_line rand)"
  proof
    assume "NUL \<in> set (random_line rand)"
    then obtain i where "char_of (rand i mod 57 + 65) = NUL" by (auto simp: random_line_def)
    then show False using nz by blast
  qed
  then show ?thesis by (simp add: good_line_def) (simp add: random_line_def)
qed

lemma mgo_sel [simp]:
  "mqueue (mgo t p s) = mqueue s" "full_sem (mgo t p s) = full_sem s" "empty_sem (mgo t p s) = empty_sem s"
  "mowner (mgo t p s) = mowner s" "dropped (mgo t p s) = dropped s" "mpcs (mgo t p s) = (mpcs s)[t := p]"
  "accepted (mgo t p s) = accepted s" "delivered (mgo t p s) = delivered s"
  by (simp_all add: mgo_def)

text \<open>
  A step that leaves the list in the queue as it is: the lock, the program counter and the counts.
\<close>

lemma mq_inv_step:
  assumes "mq_inv s" "t < length (mpcs s)" "mpcs s' = (mpcs s)[t := p]" "good_pc p"
    and "mqueue s' = mqueue s" "accepted s' = accepted s" "delivered s' = delivered s"
    and "lock_ok (mowner s) (mpcs s) \<Longrightarrow> lock_ok (mowner s') ((mpcs s)[t := p])"
    and "\<And>n. sems_ok (dropped s) (full_sem s) (empty_sem s) n (mpcs s) \<Longrightarrow>
      sems_ok (dropped s') (full_sem s') (empty_sem s') n ((mpcs s)[t := p])"
  shows "mq_inv s'"
  using assms(1) assms(8,9) unfolding mq_inv_def assms(3,5-7) using good_update[OF _ assms(4)] by blast

lemmas mq_ops = wait_full_def wait_empty_def post_full_def post_empty_def lock_msg_def unlock_msg_def

lemma producer_inv:
  assumes inv: "mq_inv s" and t: "t < length (mpcs s)" and p: "mpcs s ! t = p" "is_producer p"
    and st: "producer_routine rand p t s = Some s'"
  shows "mq_inv s'"
proof (cases p)
  case PLoop
  show ?thesis
    by (rule mq_inv_step[OF inv t, of s' "if dropped s then Ended else PWait (random_line rand)"])
      (use st p PLoop t in \<open>auto simp: producer_routine_def random_line_good in_lock_def
        intro!: lock_keep elim!: sems_update split: if_splits\<close>)
next
  case (PWait m)
  have g: "good_line m" using inv p PWait t nth_mem[OF t] by (auto simp: mq_inv_def)
  have f: "0 < full_sem s" "s' = mgo t (PLock m) (s\<lparr>full_sem := full_sem s - 1\<rparr>)"
    using st PWait by (auto simp: producer_routine_def mq_ops split: if_splits)
  show ?thesis
    by (rule mq_inv_step[OF inv t, of s' "PLock m"])
      (use f p PWait t g in \<open>auto simp: in_lock_def intro!: lock_keep elim!: sems_update split: if_splits\<close>)
next
  case (PLock m)
  have g: "good_line m" using inv p PLock t nth_mem[OF t] by (auto simp: mq_inv_def)
  have f: "mowner s = None" "s' = mgo t (PIn m) (s\<lparr>mowner := Some t\<rparr>)"
    using st PLock by (auto simp: producer_routine_def mq_ops split: if_splits)
  show ?thesis
    by (rule mq_inv_step[OF inv t, of s' "PIn m"])
      (use f p PLock t g in \<open>auto simp: in_lock_def intro!: lock_take elim!: sems_update split: if_splits\<close>)
next
  case (PIn m)
  have g: "good_line m" using inv p PIn t nth_mem[OF t] by (auto simp: mq_inv_def)
  show ?thesis
  proof (cases "dropped s")
    case True
    show ?thesis
      by (rule mq_inv_step[OF inv t, of s' PRefuse])
        (use st p PIn t True in \<open>auto simp: producer_routine_def in_lock_def intro!: lock_keep elim!: sems_update split: if_splits\<close>)
  next
    case False
    obtain xs where xs: "queue_rep (mqueue s) xs" "accepted s = delivered s @ xs" "\<forall>a \<in> set xs. good_array a"
      "sems_ok False (full_sem s) (empty_sem s) (length xs) (mpcs s)"
      and l: "lock_ok (mowner s) (mpcs s)" "\<forall>p \<in> set (mpcs s). good_pc p"
      using inv False by (auto simp: mq_inv_def)
    obtain q where q: "push (m @ [NUL]) (mqueue s) = Some q" "queue_rep q (xs @ [m @ [NUL]])"
      using push_rep[OF xs(1)] by blast
    have c: "copy_msg m = (m @ [NUL], 80)" using g by (simp add: copy_msg_def good_line_def)
    have s': "s' = mgo t (PPost 80) (s\<lparr>mqueue := q, accepted := accepted s @ [m @ [NUL]]\<rparr>)"
      using st PIn False q(1) by (simp add: producer_routine_def c)
    have "sems_ok False (full_sem s) (empty_sem s) (length (xs @ [m @ [NUL]])) ((mpcs s)[t := PPost 80])"
      using xs(4) t by (rule sems_update) (use p PIn in auto)
    moreover have "lock_ok (mowner s) ((mpcs s)[t := PPost 80])"
      using l(1) t p PIn by (intro lock_keep) (auto simp: in_lock_def)
    moreover have "\<forall>p \<in> set ((mpcs s)[t := PPost 80]). good_pc p" using l(2) by (rule good_update) simp
    moreover have "good_array (m @ [NUL])" using g by (auto simp: good_array_def)
    ultimately show ?thesis using xs q(2) False s' by (auto simp: mq_inv_def intro!: exI[of _ "xs @ [m @ [NUL]]"])
  qed
next
  case PRefuse
  show ?thesis
    by (rule mq_inv_step[OF inv t, of s' "PUnlock 0"])
      (use st p PRefuse t in \<open>auto simp: producer_routine_def mq_ops in_lock_def intro!: lock_keep elim!: sems_update split: if_splits\<close>)
next
  case (PPost r)
  show ?thesis
    by (rule mq_inv_step[OF inv t, of s' "PUnlock r"])
      (use st p PPost t in \<open>auto simp: producer_routine_def mq_ops in_lock_def intro!: lock_keep elim!: sems_update split: if_splits\<close>)
next
  case (PUnlock r)
  show ?thesis
    by (rule mq_inv_step[OF inv t, of s' "if r = 0 then Ended else PLoop"])
      (use st p PUnlock t in \<open>auto simp: producer_routine_def mq_ops in_lock_def intro!: lock_release elim!: sems_update split: if_splits\<close>)
qed (use p in \<open>auto simp: is_producer_def\<close>)

lemma consumer_inv:
  assumes inv: "mq_inv s" and t: "t < length (mpcs s)" and p: "mpcs s ! t = p" "is_consumer p"
    and st: "consumer_routine p t s = Some s'"
  shows "mq_inv s'"
proof (cases p)
  case CLoop
  show ?thesis
    by (rule mq_inv_step[OF inv t, of s' "if dropped s then Ended else CWait"])
      (use st p CLoop t in \<open>auto simp: consumer_routine_def in_lock_def intro!: lock_keep elim!: sems_update split: if_splits\<close>)
next
  case CWait
  have f: "0 < empty_sem s" "s' = mgo t CLock (s\<lparr>empty_sem := empty_sem s - 1\<rparr>)"
    using st CWait by (auto simp: consumer_routine_def mq_ops split: if_splits)
  show ?thesis
    by (rule mq_inv_step[OF inv t, of s' CLock])
      (use f p CWait t in \<open>auto simp: in_lock_def intro!: lock_keep elim!: sems_update split: if_splits\<close>)
next
  case CLock
  have f: "mowner s = None" "s' = mgo t CIn (s\<lparr>mowner := Some t\<rparr>)"
    using st CLock by (auto simp: consumer_routine_def mq_ops split: if_splits)
  show ?thesis
    by (rule mq_inv_step[OF inv t, of s' CIn])
      (use f p CLock t in \<open>auto simp: in_lock_def intro!: lock_take elim!: sems_update split: if_splits\<close>)
next
  case CIn
  show ?thesis
  proof (cases "dropped s")
    case True
    show ?thesis
      by (rule mq_inv_step[OF inv t, of s' CRefuse])
        (use st p CIn t True in \<open>auto simp: consumer_routine_def in_lock_def intro!: lock_keep elim!: sems_update split: if_splits\<close>)
  next
    case False
    obtain xs where xs: "queue_rep (mqueue s) xs" "accepted s = delivered s @ xs" "\<forall>a \<in> set xs. good_array a"
      "sems_ok False (full_sem s) (empty_sem s) (length xs) (mpcs s)"
      and l: "lock_ok (mowner s) (mpcs s)" "\<forall>p \<in> set (mpcs s). good_pc p"
      using inv False by (auto simp: mq_inv_def)
    have "0 < num claimed (mpcs s)" using num_pos[OF t, of claimed] p CIn by simp
    then obtain x ys where x: "xs = x # ys" using xs(4) by (cases xs) (auto simp: sems_ok_def)
    obtain q where q: "pop (mqueue s) = Some (Some x, q)" "queue_rep q ys" using msg_pop_rep[of "mqueue s" x ys] xs(1) x by auto
    obtain m where m: "good_line m" "x = m @ [NUL]" using xs(3) x by (auto simp: good_array_def)
    have b: "take_msg 80 x = Some m"
      using take_whole[of m 80] m by (simp add: good_line_def)
    have s': "s' = mgo t (CPost 80) (s\<lparr>mqueue := q, delivered := delivered s @ [x]\<rparr>)"
      using st CIn False q(1) b m by (simp add: consumer_routine_def good_line_def)
    have "sems_ok False (full_sem s) (empty_sem s) (length ys) ((mpcs s)[t := CPost 80])"
      using xs(4) t by (rule sems_update) (use p CIn x in auto)
    moreover have "lock_ok (mowner s) ((mpcs s)[t := CPost 80])"
      using l(1) t p CIn by (intro lock_keep) (auto simp: in_lock_def)
    moreover have "\<forall>p \<in> set ((mpcs s)[t := CPost 80]). good_pc p" using l(2) by (rule good_update) simp
    ultimately show ?thesis using xs q(2) False s' x by (auto simp: mq_inv_def intro!: exI[of _ ys])
  qed
next
  case (CPost r)
  show ?thesis
    by (rule mq_inv_step[OF inv t, of s' "CUnlock r"])
      (use st p CPost t in \<open>auto simp: consumer_routine_def mq_ops in_lock_def intro!: lock_keep elim!: sems_update split: if_splits\<close>)
next
  case CRefuse
  show ?thesis
    by (rule mq_inv_step[OF inv t, of s' "CUnlock 0"])
      (use st p CRefuse t in \<open>auto simp: consumer_routine_def mq_ops in_lock_def intro!: lock_keep elim!: sems_update split: if_splits\<close>)
next
  case (CUnlock r)
  show ?thesis
    by (rule mq_inv_step[OF inv t, of s' "if r = 0 then Ended else CLoop"])
      (use st p CUnlock t in \<open>auto simp: consumer_routine_def mq_ops in_lock_def intro!: lock_release elim!: sems_update split: if_splits\<close>)
qed (use p in \<open>auto simp: is_consumer_def\<close>)

lemma drop_inv:
  assumes inv: "mq_inv s" and t: "t < length (mpcs s)" and p: "mpcs s ! t = p"
    and st: "my_msg_drop p t s = Some s'"
  shows "mq_inv s'"
proof (cases p)
  case MLock
  have f: "mowner s = None" "s' = mgo t MSet (s\<lparr>mowner := Some t\<rparr>)"
    using st MLock by (auto simp: mq_ops split: if_splits)
  show ?thesis
    by (rule mq_inv_step[OF inv t, of s' MSet])
      (use f p MLock t in \<open>auto simp: in_lock_def intro!: lock_take elim!: sems_update split: if_splits\<close>)
next
  case MSet
  show ?thesis
    by (rule mq_inv_step[OF inv t, of s' MPostEmpty])
      (use st p MSet t in \<open>auto simp: in_lock_def intro!: lock_keep elim!: sems_update split: if_splits\<close>)
next
  case MPostEmpty
  show ?thesis
    by (rule mq_inv_step[OF inv t, of s' MPostFull])
      (use st p MPostEmpty t in \<open>auto simp: mq_ops in_lock_def intro!: lock_keep elim!: sems_update split: if_splits\<close>)
next
  case MPostFull
  show ?thesis
    by (rule mq_inv_step[OF inv t, of s' MUnlock])
      (use st p MPostFull t in \<open>auto simp: mq_ops in_lock_def intro!: lock_keep elim!: sems_update split: if_splits\<close>)
next
  case MUnlock
  show ?thesis
    by (rule mq_inv_step[OF inv t, of s' Ended])
      (use st p MUnlock t in \<open>auto simp: mq_ops in_lock_def intro!: lock_release elim!: sems_update split: if_splits\<close>)
qed (use st in auto)

lemma mq_step_inv: "mq_inv s \<Longrightarrow> mq_step rand t s = Some s' \<Longrightarrow> mq_inv s'"
  using producer_inv[of s t "mpcs s ! t" rand s'] consumer_inv[of s t "mpcs s ! t" s'] drop_inv[of s t "mpcs s ! t" s']
  by (auto simp: mq_step_def fault_simps mem_simps split: if_splits)

lemma main25_inv: "mq_inv main25"
  by (auto simp: mq_inv_def main25_def my_msg_init_def lock_ok_def in_lock_def sems_ok_def num_def nth_Cons'
      less_Suc_eq numeral_eq_Suc intro!: exI[of _ "[]"] create_rep)

lemma mq_reach_inv: "mq_reach main25 s \<Longrightarrow> mq_inv s"
  by (induction rule: mq_reach.induct) (auto simp: main25_inv dest: mq_step_inv)

subsection \<open>What a thread waits for\<close>

text \<open>The steps of a schedule; each entry has the thread and, for a producer, its random numbers.\<close>

fun mq_run :: "((nat \<Rightarrow> nat) \<times> nat) list \<Rightarrow> mq \<Rightarrow> mq option" where
  "mq_run [] s = Some s"
| "mq_run ((rand, t) # sched) s = do { s \<leftarrow> mq_step rand t s; mq_run sched s }"

fun waits :: "mpc \<Rightarrow> mq \<Rightarrow> bool" where
  "waits (PWait m) s = (full_sem s = 0)"
| "waits CWait s = (empty_sem s = 0)"
| "waits (PLock m) s = (mowner s \<noteq> None)"
| "waits CLock s = (mowner s \<noteq> None)"
| "waits MLock s = (mowner s \<noteq> None)"
| "waits Ended s = True"
| "waits p s = False"

lemma mq_run_reach: "mq_reach s0 s \<Longrightarrow> mq_run sched s = Some s' \<Longrightarrow> mq_reach s0 s'"
  by (induction sched s rule: mq_run.induct) (auto simp: fault_simps intro: mq_next split: option.splits)

lemma in_queue:
  assumes inv: "mq_inv s" and t: "t < length (mpcs s)" and p: "mpcs s ! t = CIn" and d: "\<not> dropped s"
  shows "\<exists>m q. pop (mqueue s) = Some (Some (m @ [NUL]), q) \<and> take_msg 80 (m @ [NUL]) = Some m"
proof -
  obtain xs where xs: "queue_rep (mqueue s) xs" "\<forall>a \<in> set xs. good_array a"
    "sems_ok False (full_sem s) (empty_sem s) (length xs) (mpcs s)" using inv d by (auto simp: mq_inv_def)
  have "0 < num claimed (mpcs s)" using num_pos[OF t, of claimed] p by simp
  then obtain x ys where x: "xs = x # ys" using xs(3) by (cases xs) (auto simp: sems_ok_def)
  obtain m where m: "good_line m" "x = m @ [NUL]" using xs(2) x by (auto simp: good_array_def)
  have "take_msg 80 x = Some m" using take_whole[of m 80] m by (simp add: good_line_def)
  then show ?thesis using msg_pop_rep[of "mqueue s" x ys] xs(1) x m by blast
qed

lemma step_or_waits:
  assumes inv: "mq_inv s" and t: "t < length (mpcs s)"
  shows "mq_step rand t s = None \<longleftrightarrow> waits (mpcs s ! t) s"
proof -
  obtain xs where xs: "queue_rep (mqueue s) xs" using inv by (auto simp: mq_inv_def)
  note d = mq_step_def mem_simps fault_simps producer_routine_def consumer_routine_def mq_ops is_producer_def is_consumer_def
  show ?thesis
  proof (cases "mpcs s ! t")
    case (PIn m)
    then show ?thesis using t push_rep[OF xs, of "fst (copy_msg m)"] by (auto simp: d split: prod.splits)
  next
    case CIn
    then show ?thesis using t in_queue[OF inv t CIn] by (cases "dropped s") (auto simp: d)
  qed (use t in \<open>auto simp: d\<close>)
qed


text \<open>The threads keep their roles: two producers, two consumers, and the main thread.\<close>

datatype role = Producer | Consumer | Dropper

fun role_of :: "mpc \<Rightarrow> role option" where
  "role_of Ended = None"
| "role_of p = Some (if is_producer p then Producer else if is_consumer p then Consumer else Dropper)"

definition roles_ok :: "mpc list \<Rightarrow> bool" where
  "roles_ok ps \<longleftrightarrow> length ps = 5 \<and>
     (\<forall>t < 5. ps ! t = Ended \<or> role_of (ps ! t) = Some ([Producer, Producer, Consumer, Consumer, Dropper] ! t))"

lemma roles_keep:
  "roles_ok ps \<Longrightarrow> t < length ps \<Longrightarrow> p = Ended \<or> role_of p = role_of (ps ! t) \<Longrightarrow> ps ! t \<noteq> Ended \<Longrightarrow> roles_ok (ps[t := p])"
  by (auto simp: roles_ok_def nth_list_update)

lemma roles_at:
  "roles_ok ps \<Longrightarrow> t < 5 \<Longrightarrow> ps ! t \<noteq> Ended \<Longrightarrow> role_of (ps ! t) = Some ([Producer, Producer, Consumer, Consumer, Dropper] ! t)"
  by (auto simp: roles_ok_def)

text \<open>What a step does to the program counters.\<close>

fun mrank :: "mpc \<Rightarrow> nat" where
  "mrank (PWait m) = 6"
| "mrank (PLock m) = 5"
| "mrank (PIn m) = 4"
| "mrank (PPost r) = 3"
| "mrank PRefuse = 3"
| "mrank (PUnlock r) = 2"
| "mrank PLoop = 1"
| "mrank CWait = 6"
| "mrank CLock = 5"
| "mrank CIn = 4"
| "mrank (CPost r) = 3"
| "mrank CRefuse = 3"
| "mrank (CUnlock r) = 2"
| "mrank CLoop = 1"
| "mrank MLock = 5"
| "mrank MSet = 4"
| "mrank MPostEmpty = 3"
| "mrank MPostFull = 2"
| "mrank MUnlock = 1"
| "mrank Ended = 0"

lemma mq_step_pc:
  assumes "mq_step rand t s = Some s'"
  shows "\<exists>p. t < length (mpcs s) \<and> mpcs s ! t \<noteq> Ended \<and> mpcs s' = (mpcs s)[t := p] \<and>
    (p = Ended \<or> role_of p = role_of (mpcs s ! t)) \<and>
    (dropped s \<longrightarrow> dropped s' \<and> mrank p < mrank (mpcs s ! t))"
proof -
  have t: "t < length (mpcs s)" using assms by (auto simp: mq_step_def mem_simps fault_simps split: if_splits)
  note d = mq_step_def mem_simps fault_simps producer_routine_def consumer_routine_def mq_ops is_producer_def is_consumer_def
  show ?thesis
  proof (cases "mpcs s ! t")
    case CIn
    then obtain p where "mpcs s' = (mpcs s)[t := p]" "role_of p = Some Consumer" "mrank p < 4" "dropped s' = dropped s"
      using assms t by (auto simp: d split: if_splits option.splits prod.splits)
    then show ?thesis using CIn t by (auto simp: is_producer_def is_consumer_def)
  qed (use assms t in \<open>auto simp: d split: if_splits option.splits prod.splits\<close>)
qed

lemma mq_reach_roles: "mq_reach main25 s \<Longrightarrow> roles_ok (mpcs s)"
proof (induction rule: mq_reach.induct)
  case mq_init
  have "t < 5 \<longleftrightarrow> t \<in> {0, 1, 2, 3, 4}" for t :: nat by auto
  then show ?case
    by (simp add: roles_ok_def main25_def my_msg_init_def is_producer_def is_consumer_def)
next
  case (mq_next s rand t s')
  then show ?case using mq_step_pc[of rand t s s'] roles_keep by metis
qed


text \<open>
  C14: The queue between the two producers and the two consumers is a bounded buffer: in every reachable
  state the messages taken out, followed by those in the list, are the messages accepted, in order, and
  the list never holds more than the ten that \<open>full_sem\<close> starts with, even while the queue is dropped.
\<close>

theorem mq_bounded_fifo:
  assumes "mq_reach main25 s"
  shows "\<exists>xs. queue_rep (mqueue s) xs \<and> length xs \<le> 10 \<and> accepted s = delivered s @ xs"
  using mq_reach_inv[OF assms] by (fastforce simp: mq_inv_def sems_ok_def split: if_splits)

theorem mq_bounded_fifo_witness:
  "\<exists>s xs. mq_run (replicate 6 (\<lambda>_. 0, 0)) main25 = Some s \<and> length (accepted s) = 1 \<and> queue_rep (mqueue s) xs \<and>
     length xs \<le> 10 \<and> accepted s = delivered s @ xs"
proof -
  have "(case mq_run (replicate 6 (\<lambda>_. 0, 0)) main25 of Some s \<Rightarrow> length (accepted s) = 1 | None \<Rightarrow> False)" by code_simp
  then obtain s where s: "mq_run (replicate 6 (\<lambda>_. 0, 0)) main25 = Some s" "length (accepted s) = 1"
    unfolding case_True by blast
  from mq_bounded_fifo[OF mq_run_reach[OF mq_init s(1)]] show ?thesis using s by blast
qed



lemma owner_steps:
  assumes "mq_inv s" "mowner s = Some t"
  shows "t < length (mpcs s) \<and> \<not> waits (mpcs s ! t) s"
proof -
  have "t < length (mpcs s)" "in_lock (mpcs s ! t)" using assms by (auto simp: mq_inv_def lock_ok_def)
  then show ?thesis by (cases "mpcs s ! t") (auto simp: in_lock_def)
qed

lemma no_owner: "mq_inv s \<Longrightarrow> mowner s = None \<Longrightarrow> t < length (mpcs s) \<Longrightarrow> \<not> in_lock (mpcs s ! t)"
  by (auto simp: mq_inv_def lock_ok_def)

text \<open>Nobody is between a semaphore and its post: the counts of \<open>sems_ok\<close> are the semaphores.\<close>

lemma num_zero: "num P ps = 0 \<longleftrightarrow> (\<forall>t < length ps. \<not> P (ps ! t))"
  by (auto simp: num_def filter_empty_conv all_set_conv_all_nth)

lemma all_wait:
  assumes "mq_inv s" "mowner s = None" "\<forall>t < length (mpcs s). t \<in> T \<longrightarrow> waits (mpcs s ! t) s"
    and "\<forall>t < length (mpcs s). t \<notin> T \<longrightarrow> mpcs s ! t = MLock"
  shows "num reserved (mpcs s) = 0 \<and> num claimed (mpcs s) = 0 \<and> num frees_full (mpcs s) = 0 \<and> num frees_empty (mpcs s) = 0"
proof -
  have "\<not> reserved p \<and> \<not> claimed p \<and> \<not> frees_full p \<and> \<not> frees_empty p" if "waits p s \<or> p = MLock" for p
    using that assms(2) by (cases p) auto
  then show ?thesis using assms(3,4) unfolding num_zero by blast
qed


lemma waits_role:
  "waits p s \<Longrightarrow> mowner s = None \<Longrightarrow>
     (role_of p = Some Producer \<longrightarrow> full_sem s = 0) \<and> (role_of p = Some Consumer \<longrightarrow> empty_sem s = 0)"
  by (cases p) (auto simp: is_producer_def is_consumer_def)

text \<open>
  C24: Before the drop, as long as the main thread sleeps, the queue is never stuck: one of the two
  producers and two consumers can take a step, whatever they did so far.
\<close>

theorem mq_not_stuck:
  assumes "mq_reach main25 s" "\<not> dropped s" "mpcs s ! 4 = MLock"
  shows "\<exists>t < 4. mq_step rand t s \<noteq> None"
proof (rule ccontr)
  assume stuck: "\<not> ?thesis"
  have inv: "mq_inv s" and r: "roles_ok (mpcs s)" using assms(1) by (auto intro: mq_reach_inv mq_reach_roles)
  have w: "waits (mpcs s ! t) s" if "t < 4" for t
    using stuck that step_or_waits[OF inv, of t rand] r by (auto simp: roles_ok_def)
  have own: "mowner s = None"
  proof (rule ccontr)
    assume "mowner s \<noteq> None"
    then obtain t where "mowner s = Some t" by blast
    with owner_steps[OF inv this] have "t < 5" "\<not> t < 4" "mpcs s ! t \<noteq> MLock" using w r by (auto simp: roles_ok_def)
    then show False using assms(3) by (cases "t = 4") auto
  qed
  have "t < 4 \<or> mpcs s ! t = MLock" if "t < length (mpcs s)" for t
    using that assms(3) r by (cases "t = 4") (auto simp: roles_ok_def)
  then have "num reserved (mpcs s) = 0" "num claimed (mpcs s) = 0"
    using all_wait[OF inv own, of "{..<4}"] w by auto
  then obtain n where n: "full_sem s + n = 10" "n = empty_sem s" "num after_drop (mpcs s) = 0"
    using inv assms(2) by (auto simp: mq_inv_def sems_ok_def)
  have ended: "mpcs s ! t \<noteq> Ended" if "t < 5" for t using n(3) that r by (auto simp: num_zero roles_ok_def)
  have "role_of (mpcs s ! 0) = Some Producer" "role_of (mpcs s ! 2) = Some Consumer"
    using roles_at[OF r, of 0] roles_at[OF r, of 2] ended[of 0] ended[of 2] by auto
  then have "full_sem s = 0" "empty_sem s = 0"
    using waits_role[OF _ own] w[of 0] w[of 2] by auto
  then show False using n by simp
qed

theorem mq_not_stuck_witness: "\<exists>t < 4. mq_step (\<lambda>_. 0) t main25 \<noteq> None"
  by (rule mq_not_stuck[OF mq_init]) (simp_all add: main25_def my_msg_init_def)

text \<open>After the drop every step brings its thread closer to its end.\<close>

lemma mrank_bound: "sum_list (map mrank ps) \<le> 6 * length ps"
proof (induction ps)
  case (Cons p ps)
  then show ?case by (cases p) auto
qed simp

lemma mq_run_rank:
  "mq_run sched s = Some s' \<Longrightarrow> dropped s \<Longrightarrow>
     length sched + sum_list (map mrank (mpcs s')) \<le> sum_list (map mrank (mpcs s)) \<and> dropped s'"
proof (induction sched s rule: mq_run.induct)
  case (2 rand t sched s)
  then obtain s1 where s1: "mq_step rand t s = Some s1" "mq_run sched s1 = Some s'" by (auto simp: fault_simps split: option.splits)
  obtain p where p: "t < length (mpcs s)" "mpcs s1 = (mpcs s)[t := p]" "dropped s1" "mrank p < mrank (mpcs s ! t)"
    using mq_step_pc[OF s1(1)] "2.prems"(2) by auto
  have "sum_list (map mrank (mpcs s1)) + mrank (mpcs s ! t) = sum_list (map mrank (mpcs s)) + mrank p"
    using p(1,2) member_le_sum_list[of "mrank (mpcs s ! t)" "map mrank (mpcs s)"]
    by (simp add: map_update sum_list_update)
  then show ?case using "2.IH"[OF s1 p(3)] p(4) by simp
qed simp



end
