(* ===== verification/LineList.thy ===== *)
theory LineList
  imports Prelude "HOL-Library.Multiset" "HOL-Library.List_Lexorder" "HOL-Library.Char_ord"
begin

text \<open>
  What the list labs of \<open>Shinkevich\<close> (17, 18 and 19) share: lines of input in a linked list that threads
  sort by exchanging neighbours. \<open>strcmp\<close> orders lines as \<open>List_Lexorder\<close> does; exchanging two
  neighbours that are out of order takes one inversion away, so that the loop that runs passes until
  one of them changes nothing ends, with the list sorted.
\<close>

abbreviation NUL :: char where "NUL \<equiv> CHR 0x00"

subsection \<open>Strings\<close>

text \<open>\<open>strcmp\<close> on the characters before the NUL, compared as \<open>unsigned char\<close>.\<close>

fun strcmp :: "string \<Rightarrow> string \<Rightarrow> int" where
  "strcmp [] [] = 0"
| "strcmp [] (b # bs) = - int (byte b)"
| "strcmp (a # as) [] = int (byte a)"
| "strcmp (a # as) (b # bs) = (if a = b then strcmp as bs else int (byte a) - int (byte b))"

text \<open>\<open>strcpy\<close> into a block of \<open>room\<close> bytes needs room for the NUL.\<close>

definition strcpy :: "nat \<Rightarrow> string \<Rightarrow> string option" where
  "strcpy room line = (if length line < room then Some line else None)"

text \<open>
  What \<open>main\<close> takes from \<open>read(STDIN_FILENO, line, 80)\<close>, \<open>None\<close> for the result -1: a line that starts
  with a newline asks for the list, any other is cut before its last character, \<open>line[readbytes - 1] = 0\<close>.
  At the end of the input and when the call is interrupted that is in front of the array.
\<close>

datatype input = Show | Line string

definition take_input :: "string option \<Rightarrow> input option" where
  "take_input r =
     (case r of None \<Rightarrow> None
      | Some bytes \<Rightarrow>
          if bytes = [] then None
          else if hd bytes = CHR 0x0A then Some Show
          else Some (Line (takeWhile (\<lambda>c. c \<noteq> NUL) (butlast bytes))))"

lemma not_Line [simp]: "(\<forall>l. i \<noteq> Line l) \<longleftrightarrow> i = Show"
  by (cases i) auto

lemma strcmp_greater: "NUL \<notin> set a \<Longrightarrow> NUL \<notin> set b \<Longrightarrow> 0 < strcmp a b \<longleftrightarrow> b < a"
proof (induction a b rule: strcmp.induct)
  case (3 a as)
  then have "(of_char a :: nat) \<noteq> of_char NUL" unfolding of_char_eq_iff by auto
  then show ?case by simp
qed (auto simp: less_char_def)

definition c_strings :: "string list \<Rightarrow> bool" where
  "c_strings xs \<longleftrightarrow> (\<forall>x \<in> set xs. NUL \<notin> set x)"

lemma c_strings_mset: "mset ys = mset xs \<Longrightarrow> c_strings ys = c_strings xs"
  using mset_eq_setD unfolding c_strings_def by blast

lemma strcmp_nth:
  "c_strings xs \<Longrightarrow> i < length xs \<Longrightarrow> j < length xs \<Longrightarrow> 0 < strcmp (xs ! i) (xs ! j) \<longleftrightarrow> xs ! j < xs ! i"
  by (rule strcmp_greater) (auto simp: c_strings_def)

lemma take_input_no_NUL: "take_input r = Some (Line l) \<Longrightarrow> NUL \<notin> set l"
  by (auto simp: take_input_def split: option.splits if_splits dest: set_takeWhileD)

subsection \<open>Inversions\<close>

fun inversions :: "'a :: linorder list \<Rightarrow> nat" where
  "inversions [] = 0"
| "inversions (x # xs) = length (filter (\<lambda>y. y < x) xs) + inversions xs"

definition exchange :: "nat \<Rightarrow> 'a list \<Rightarrow> 'a list" where
  "exchange i xs = xs[i := xs ! Suc i, Suc i := xs ! i]"

lemma exchange_length [simp]: "length (exchange i xs) = length xs"
  by (simp add: exchange_def)

lemma exchange_Cons [simp]:
  "exchange 0 (x # y # xs) = y # x # xs"
  "exchange (Suc i) (x # xs) = x # exchange i xs"
  by (simp_all add: exchange_def)

lemma exchange_mset: "Suc i < length xs \<Longrightarrow> mset (exchange i xs) = mset xs"
  unfolding exchange_def by (rule mset_swap) auto

lemma exchange_inversions:
  "Suc i < length xs \<Longrightarrow> xs ! Suc i < xs ! i \<Longrightarrow> Suc (inversions (exchange i xs)) = inversions xs"
proof (induction xs arbitrary: i)
  case (Cons x xs)
  show ?case
  proof (cases i)
    case 0
    then obtain y ys where "xs = y # ys" using Cons.prems by (cases xs) auto
    then show ?thesis using Cons.prems 0 by auto
  next
    case (Suc j)
    have "mset (filter (\<lambda>y. y < x) (exchange j xs)) = mset (filter (\<lambda>y. y < x) xs)"
      using Cons.prems Suc exchange_mset[of j xs] by simp
    then have "length (filter (\<lambda>y. y < x) (exchange j xs)) = length (filter (\<lambda>y. y < x) xs)" by (metis size_mset)
    then show ?thesis using Cons Suc by simp
  qed
qed simp

lemma sorted_inversions: "inversions xs = 0 \<longleftrightarrow> sorted xs"
  by (induction xs) (auto simp: filter_empty_conv not_less)

lemma inversions_bound: "inversions xs \<le> length xs * length xs"
proof (induction xs)
  case (Cons x xs)
  have "length (filter (\<lambda>y. y < x) xs) + inversions xs \<le> length xs + length xs * length xs"
    by (rule add_mono[OF length_filter_le Cons.IH])
  then show ?case by simp
qed simp

text \<open>One pass over a list, from the front: what is left, and whether it was in order.\<close>

fun bubble :: "'a :: linorder list \<Rightarrow> 'a list \<times> bool" where
  "bubble (x # y # zs) =
     (if y < x then (y # fst (bubble (x # zs)), False)
      else (x # fst (bubble (y # zs)), snd (bubble (y # zs))))"
| "bubble xs = (xs, True)"

lemma bubble_mset [simp]: "mset (fst (bubble xs)) = mset xs"
  by (induction xs rule: bubble.induct) (auto simp: add_mset_commute)

lemma bubble_length [simp]: "length (fst (bubble xs)) = length xs"
  by (metis bubble_mset size_mset)

lemma bubble_True: "snd (bubble xs) \<Longrightarrow> sorted xs \<and> fst (bubble xs) = xs"
proof (induction xs rule: bubble.induct)
  case (1 x y zs)
  then show ?case by (auto split: if_splits)
qed auto

lemma bubble_filter: "length (filter P (fst (bubble xs))) = length (filter P xs)"
  by (metis bubble_mset mset_filter size_mset)

lemma bubble_inversions: "inversions (fst (bubble xs)) + (if snd (bubble xs) then 0 else 1) \<le> inversions xs"
proof (induction xs rule: bubble.induct)
  case (1 x y zs)
  show ?case
  proof (cases "y < x")
    case True
    then show ?thesis using "1.IH"(1) bubble_filter[of "\<lambda>z. z < y" "x # zs"] by (auto split: if_splits)
  next
    case False
    then show ?thesis using "1.IH"(2) bubble_filter[of "\<lambda>z. z < x" "y # zs"] by (auto split: if_splits)
  qed
qed auto

subsection \<open>Nodes\<close>

text \<open>
  The nodes in the order in which they were allocated, which are their addresses. A node is \<open>Fresh\<close>
  from \<open>malloc\<close> until its fields are set; \<open>node_at\<close> follows a pointer.
\<close>

datatype 'a cell = Fresh | Cell 'a | Freed

definition node_at :: "'a cell list \<Rightarrow> nat \<Rightarrow> 'a option" where
  "node_at h p = (case get_at h p of Some (Cell n) \<Rightarrow> Some n | _ \<Rightarrow> None)"

definition set_node :: "'a cell list \<Rightarrow> nat \<Rightarrow> 'a \<Rightarrow> 'a cell list option" where
  "set_node h p n = do { old \<leftarrow> node_at h p; put_at h p (Cell n) }"

lemma node_at_Some [fault_simps]: "node_at h p = Some n \<longleftrightarrow> p < length h \<and> h ! p = Cell n"
  by (auto simp: node_at_def split: option.splits cell.splits)

lemma set_node_Some [fault_simps]: "set_node h p n = Some h' \<longleftrightarrow> p < length h \<and> (\<exists>m. h ! p = Cell m) \<and> h' = h[p := Cell n]"
  by (auto simp: set_node_def fault_simps)

lemma node_at_in: "p < length h \<Longrightarrow> h ! p = Cell n \<Longrightarrow> node_at h p = Some n"
  by (simp add: fault_simps)

lemma set_node_in: "p < length h \<Longrightarrow> h ! p = Cell m \<Longrightarrow> set_node h p n = Some (h[p := Cell n])"
  by (simp add: fault_simps)

text \<open>The pointer to the node after number \<open>i\<close> of \<open>k\<close>.\<close>

definition next_of :: "nat \<Rightarrow> nat \<Rightarrow> nat option" where
  "next_of k i = (if Suc i < k then Some (Suc i) else None)"

definition first_of :: "nat \<Rightarrow> nat option" where
  "first_of k = (if k = 0 then None else Some 0)"

lemma first_of_simps [simp]: "first_of 0 = None" "first_of (Suc k) = Some 0"
  by (simp_all add: first_of_def)

lemma next_of_in [simp]: "Suc i < k \<Longrightarrow> next_of k i = Some (Suc i)"
  by (simp add: next_of_def)

lemma next_of_last [simp]: "k \<le> Suc i \<Longrightarrow> next_of k i = None"
  by (simp add: next_of_def)

lemma next_of_Some [simp]: "next_of k i = Some j \<longleftrightarrow> j = Suc i \<and> Suc i < k"
  by (auto simp: next_of_def)

lemma next_of_None [simp]: "next_of k i = None \<longleftrightarrow> k \<le> Suc i"
  by (auto simp: next_of_def)

end
