(* ===== verification/ListLab17.thy ===== *)
theory ListLab17
  imports LineList
begin

text \<open>
  \<open>Shinkevich/17\<close>: one list and one mutex around everything that is done with it, so that each critical
  section is one step here. The main thread reads lines and appends them, a second thread sorts the
  list every five seconds. \<open>pad\<close> is the number of bytes that \<open>malloc\<close> leaves usable behind what it was
  asked for: the program asks for \<open>strlen(line)\<close> bytes and copies one more.
\<close>

subsection \<open>The list\<close>

record List =
  lline :: string
  lnext :: "nat option"

record list17 =
  heap17 :: "List cell list"
  mainlist :: "nat option"

definition new_node :: "nat \<Rightarrow> string \<Rightarrow> list17 \<Rightarrow> (nat \<times> list17) option" where
  "new_node pad str s = do {
     l \<leftarrow> strcpy (length str + pad) str;
     Some (length (heap17 s), s\<lparr>heap17 := heap17 s @ [Cell \<lparr>lline = l, lnext = None\<rparr>]\<rparr>) }"

fun pushLine :: "nat \<Rightarrow> nat \<Rightarrow> nat option \<Rightarrow> string \<Rightarrow> list17 \<Rightarrow> list17 option" where
  "pushLine pad 0 list str s = None"
| "pushLine pad (Suc fuel) None str s = do {
     (p, s) \<leftarrow> new_node pad str s;
     Some (s\<lparr>mainlist := Some p\<rparr>) }"
| "pushLine pad (Suc fuel) (Some p) str s = do {
     n \<leftarrow> node_at (heap17 s) p;
     case lnext n of
       None \<Rightarrow> do {
         (q, s) \<leftarrow> new_node pad str s;
         h \<leftarrow> set_node (heap17 s) p (n\<lparr>lnext := Some q\<rparr>);
         Some (s\<lparr>heap17 := h\<rparr>) }
     | Some q \<Rightarrow> pushLine pad fuel (Some q) str s }"

text \<open>The lines \<open>printList\<close> prints; the pointer is followed before it is compared with NULL.\<close>

fun printList :: "nat \<Rightarrow> List cell list \<Rightarrow> nat option \<Rightarrow> string list option" where
  "printList 0 h list = None"
| "printList (Suc fuel) h list = do {
     p \<leftarrow> list;
     n \<leftarrow> node_at h p;
     if lnext n \<noteq> None then do { out \<leftarrow> printList fuel h (lnext n); Some (lline n # out) }
     else Some [lline n] }"

fun clearList :: "nat \<Rightarrow> nat option \<Rightarrow> List cell list \<Rightarrow> List cell list option" where
  "clearList 0 list h = None"
| "clearList (Suc fuel) None h = Some h"
| "clearList (Suc fuel) (Some p) h = do {
     n \<leftarrow> node_at h p;
     if lnext n = None then put_at h p Freed else clearList fuel (lnext n) h }"

text \<open>The pass of \<open>sortThread\<close>, lines 78 to 88, and the loop around it.\<close>

fun sort_pass :: "nat \<Rightarrow> nat option \<Rightarrow> bool \<Rightarrow> List cell list \<Rightarrow> (bool \<times> List cell list) option" where
  "sort_pass 0 node srt h = None"
| "sort_pass (Suc fuel) None srt h = Some (srt, h)"
| "sort_pass (Suc fuel) (Some p) srt h = do {
     n \<leftarrow> node_at h p;
     (srt, h) \<leftarrow> (case lnext n of
         None \<Rightarrow> Some (srt, h)
       | Some q \<Rightarrow> do {
           m \<leftarrow> node_at h q;
           if strcmp (lline n) (lline m) > 0 then do {
             h \<leftarrow> set_node h p (n\<lparr>lline := lline m\<rparr>);
             h \<leftarrow> set_node h q (m\<lparr>lline := lline n\<rparr>);
             Some (False, h) }
           else Some (srt, h) });
     n \<leftarrow> node_at h p;
     sort_pass fuel (lnext n) srt h }"

partial_function (option) sort_loop :: "nat option \<Rightarrow> List cell list \<Rightarrow> List cell list option" where
  "sort_loop first h = do {
     (srt, h) \<leftarrow> sort_pass (Suc (length h)) first True h;
     if srt then Some h else sort_loop first h }"

subsection \<open>The threads\<close>

datatype spc17 = STest | SPrint | SEnd
datatype mpc17 = MTest | MRead | MJoin | MEnd

record lab17 = list17 +
  finished :: bool
  sorter :: spc17
  mainpc :: mpc17
  pushed :: "string list"
  printed :: "string list option"

definition fuel17 :: "lab17 \<Rightarrow> nat" where
  "fuel17 s = Suc (length (heap17 s))"

definition sortThread_step :: "lab17 \<Rightarrow> lab17 option" where
  "sortThread_step s =
     (case sorter s of
        STest \<Rightarrow>
          if finished s then Some (s\<lparr>sorter := SPrint\<rparr>)
          else do { h \<leftarrow> sort_loop (mainlist s) (heap17 s); Some (s\<lparr>heap17 := h\<rparr>) }
      | SPrint \<Rightarrow> do {
          out \<leftarrow> printList (fuel17 s) (heap17 s) (mainlist s);
          Some (s\<lparr>printed := Some out, sorter := SEnd\<rparr>) }
      | SEnd \<Rightarrow> None)"

definition push_main :: "nat \<Rightarrow> string \<Rightarrow> lab17 \<Rightarrow> lab17 option" where
  "push_main pad str s = do {
     l \<leftarrow> pushLine pad (fuel17 s) (mainlist s) str \<lparr>heap17 = heap17 s, mainlist = mainlist s\<rparr>;
     Some (s\<lparr>heap17 := heap17 l, mainlist := mainlist l, pushed := pushed s @ [str]\<rparr>) }"

definition main17_step :: "nat \<Rightarrow> string option \<Rightarrow> lab17 \<Rightarrow> lab17 option" where
  "main17_step pad bytes s =
     (case mainpc s of
        MTest \<Rightarrow> Some (s\<lparr>mainpc := if finished s then MJoin else MRead\<rparr>)
      | MRead \<Rightarrow> do {
          i \<leftarrow> take_input bytes;
          s \<leftarrow> (case i of
              Show \<Rightarrow> do { out \<leftarrow> printList (fuel17 s) (heap17 s) (mainlist s); Some s }
            | Line str \<Rightarrow> push_main pad str s);
          Some (s\<lparr>mainpc := MTest\<rparr>) }
      | MJoin \<Rightarrow>
          if sorter s = SEnd then do {
            h \<leftarrow> clearList (fuel17 s) (mainlist s) (heap17 s);
            Some (s\<lparr>heap17 := h, mainpc := MEnd\<rparr>) }
          else None
      | MEnd \<Rightarrow> None)"

text \<open>\<open>sig_handler\<close> for \<open>SIGINT\<close>.\<close>

definition sig_handler :: "lab17 \<Rightarrow> lab17" where
  "sig_handler s = s\<lparr>finished := True\<rparr>"

datatype actor17 = Sorter | Main "string option" | Signal

fun step17 :: "nat \<Rightarrow> actor17 \<Rightarrow> lab17 \<Rightarrow> lab17 option" where
  "step17 pad Sorter s = sortThread_step s"
| "step17 pad (Main bytes) s = main17_step pad bytes s"
| "step17 pad Signal s = Some (sig_handler s)"

fun run17 :: "nat \<Rightarrow> actor17 list \<Rightarrow> lab17 \<Rightarrow> lab17 option" where
  "run17 pad [] s = Some s"
| "run17 pad (a # as) s = do { s \<leftarrow> step17 pad a s; run17 pad as s }"

definition main17 :: lab17 where
  "main17 = \<lparr>heap17 = [], mainlist = None, finished = False, sorter = STest, mainpc = MTest,
     pushed = [], printed = None\<rparr>"

subsection \<open>Lists of lines\<close>

definition chain_heap :: "string list \<Rightarrow> List cell list" where
  "chain_heap xs = map (\<lambda>i. Cell \<lparr>lline = xs ! i, lnext = next_of (length xs) i\<rparr>) [0..<length xs]"

lemma chain_heap_length [simp]: "length (chain_heap xs) = length xs"
  by (simp add: chain_heap_def)

lemma chain_heap_nth [simp]: "i < length xs \<Longrightarrow> chain_heap xs ! i = Cell \<lparr>lline = xs ! i, lnext = next_of (length xs) i\<rparr>"
  by (simp add: chain_heap_def)

lemma node_at_chain [simp]:
  "i < length xs \<Longrightarrow> node_at (chain_heap xs) i = Some \<lparr>lline = xs ! i, lnext = next_of (length xs) i\<rparr>"
  by (rule node_at_in) simp_all

lemma heap_eqI:
  "length h = length xs \<Longrightarrow> (\<And>i. i < length xs \<Longrightarrow> h ! i = Cell \<lparr>lline = xs ! i, lnext = next_of (length xs) i\<rparr>) \<Longrightarrow>
     h = chain_heap xs"
  by (intro nth_equalityI) auto

text \<open>
  \<open>pushLine\<close> appends the line, walking to the last node, if \<open>malloc\<close> left room for the NUL.
\<close>

lemma push_walk:
  assumes "i < length xs" "length xs - i \<le> fuel"
  shows "pushLine pad fuel (Some i) str \<lparr>heap17 = chain_heap xs, mainlist = m\<rparr> =
    (if pad = 0 then None else Some \<lparr>heap17 = chain_heap (xs @ [str]), mainlist = m\<rparr>)"
  using assms
proof (induction "length xs - i" arbitrary: i fuel)
  case (Suc k)
  obtain f where f: "fuel = Suc f" using Suc.prems by (cases fuel) auto
  show ?case
  proof (cases "Suc i < length xs")
    case True
    then show ?thesis using Suc.hyps(1)[of "Suc i" f] Suc.hyps(2) Suc.prems True unfolding f pushLine.simps by simp
  next
    case False
    then have last: "next_of (length xs) i = None" "i = length xs - 1" using Suc.prems by auto
    have "(chain_heap xs @ [Cell \<lparr>lline = str, lnext = None\<rparr>])[i := Cell \<lparr>lline = xs ! i, lnext = Some (length xs)\<rparr>] =
      chain_heap (xs @ [str])"
      by (rule heap_eqI) (use last Suc.prems in \<open>auto simp: nth_append nth_list_update next_of_def less_Suc_eq\<close>)
    moreover have "set_node (chain_heap xs @ [Cell \<lparr>lline = str, lnext = None\<rparr>]) i \<lparr>lline = xs ! i, lnext = Some (length xs)\<rparr> =
      Some ((chain_heap xs @ [Cell \<lparr>lline = str, lnext = None\<rparr>])[i := Cell \<lparr>lline = xs ! i, lnext = Some (length xs)\<rparr>])"
      using Suc.prems by (intro set_node_in) (auto simp: nth_append)
    ultimately show ?thesis using Suc.prems last unfolding f pushLine.simps by (simp add: new_node_def strcpy_def)
  qed
qed simp

lemma push_chain:
  "length xs < fuel \<Longrightarrow>
   pushLine pad fuel (first_of (length xs)) str \<lparr>heap17 = chain_heap xs, mainlist = first_of (length xs)\<rparr> =
    (if pad = 0 then None
     else Some \<lparr>heap17 = chain_heap (xs @ [str]), mainlist = first_of (Suc (length xs))\<rparr>)"
proof (cases xs)
  case Nil
  assume "length xs < fuel"
  then obtain f where "fuel = Suc f" by (cases fuel) auto
  then show ?thesis using Nil by (simp add: new_node_def strcpy_def chain_heap_def next_of_def)
next
  case (Cons y ys)
  assume "length xs < fuel"
  then show ?thesis using push_walk[of 0 xs fuel pad str "Some 0"] Cons by (simp add: first_of_def)
qed

subsection \<open>Sorting\<close>

lemma chain_exchange:
  assumes "Suc i < length xs"
  shows "(chain_heap xs)[i := Cell \<lparr>lline = xs ! Suc i, lnext = Some (Suc i)\<rparr>,
      Suc i := Cell \<lparr>lline = xs ! i, lnext = next_of (length xs) (Suc i)\<rparr>] = chain_heap (exchange i xs)"
  by (rule heap_eqI) (use assms in \<open>auto simp: nth_list_update exchange_def\<close>)

text \<open>From node \<open>i\<close> on, the pass does to the rest of the list what \<open>bubble\<close> does.\<close>

lemma pass_bubble:
  assumes "c_strings xs" "i < length xs" "length xs - i < fuel"
  shows "sort_pass fuel (Some i) srt (chain_heap xs) =
    Some (srt \<and> snd (bubble (drop i xs)), chain_heap (take i xs @ fst (bubble (drop i xs))))"
  using assms
proof (induction "length xs - i" arbitrary: i fuel xs srt)
  case (Suc k)
  obtain f where f: "fuel = Suc f" using Suc.prems by (cases fuel) auto
  have d: "drop i xs = xs ! i # drop (Suc i) xs" using Suc.prems(2) by (simp add: Cons_nth_drop_Suc)
  show ?case
  proof (cases "Suc i < length xs")
    case True
    then have d2: "drop (Suc i) xs = xs ! Suc i # drop (Suc (Suc i)) xs" by (simp add: Cons_nth_drop_Suc)
    show ?thesis
    proof (cases "xs ! Suc i < xs ! i")
      case sw: True
      let ?ys = "exchange i xs"
      have ys: "c_strings ?ys" using Suc.prems(1) c_strings_mset[OF exchange_mset[OF True]] by simp
      have "drop (Suc i) ?ys = xs ! i # drop (Suc (Suc i)) xs" "take (Suc i) ?ys = take i xs @ [xs ! Suc i]"
        using True by (auto simp: exchange_def take_Suc_conv_app_nth d2 Cons_nth_drop_Suc[symmetric])
      then have "sort_pass f (Some (Suc i)) False (chain_heap ?ys) =
          Some (False, chain_heap (take i xs @ fst (bubble (drop i xs))))"
        using Suc.hyps(1)[of ?ys "Suc i" f False] Suc.hyps(2) Suc.prems True ys f sw by (simp add: d d2)
      moreover have "set_node (chain_heap xs) i \<lparr>lline = xs ! Suc i, lnext = Some (Suc i)\<rparr> =
          Some ((chain_heap xs)[i := Cell \<lparr>lline = xs ! Suc i, lnext = Some (Suc i)\<rparr>])"
        using True by (intro set_node_in) auto
      moreover have "set_node ((chain_heap xs)[i := Cell \<lparr>lline = xs ! Suc i, lnext = Some (Suc i)\<rparr>]) (Suc i)
            \<lparr>lline = xs ! i, lnext = next_of (length xs) (Suc i)\<rparr> = Some (chain_heap ?ys)"
        unfolding chain_exchange[OF True, symmetric] using True by (intro set_node_in) auto
      ultimately show ?thesis
        using True Suc.prems sw unfolding f sort_pass.simps by (simp add: strcmp_nth d d2)
    next
      case sw: False
      have "take (Suc i) xs = take i xs @ [xs ! i]" using True by (simp add: take_Suc_conv_app_nth)
      then have "sort_pass f (Some (Suc i)) srt (chain_heap xs) =
          Some (srt \<and> snd (bubble (drop i xs)), chain_heap (take i xs @ fst (bubble (drop i xs))))"
        using Suc.hyps(1)[of xs "Suc i" f srt] Suc.hyps(2) Suc.prems True f sw by (simp add: d d2)
      then show ?thesis
        using True Suc.prems sw unfolding f sort_pass.simps by (simp add: strcmp_nth)
    qed
  next
    case False
    then have "drop i xs = [xs ! i]" using d by simp
    moreover obtain g where "f = Suc g" using Suc.prems f by (cases f) auto
    moreover have "take i xs @ [xs ! i] = xs" using Suc.prems False by (metis calculation(1) append_take_drop_id)
    ultimately show ?thesis using Suc.prems False unfolding f sort_pass.simps by simp
  qed
qed simp

lemma pass_whole:
  assumes "c_strings xs"
  shows "sort_pass (Suc (length xs)) (first_of (length xs)) True (chain_heap xs) =
    Some (snd (bubble xs), chain_heap (fst (bubble xs)))"
proof (cases xs)
  case Nil
  then show ?thesis by simp
next
  case (Cons y ys)
  then have "first_of (length xs) = Some 0" by simp
  then show ?thesis using pass_bubble[OF assms, of 0 "Suc (length xs)" True] Cons by simp
qed

lemma loop_sorts:
  "c_strings xs \<Longrightarrow> sort_loop (first_of (length xs)) (chain_heap xs) = Some (chain_heap (sort xs))"
proof (induction "inversions xs" arbitrary: xs rule: less_induct)
  case less
  let ?ys = "fst (bubble xs)"
  note step = sort_loop.simps[of "first_of (length xs)" "chain_heap xs"] pass_whole[OF less.prems]
  show ?case
  proof (cases "snd (bubble xs)")
    case True
    then show ?thesis using bubble_True[OF True] by (subst step(1)) (simp add: step(2) sorted_sort_id)
  next
    case False
    have "inversions ?ys < inversions xs" using bubble_inversions[of xs] False by simp
    then have "sort_loop (first_of (length ?ys)) (chain_heap ?ys) = Some (chain_heap (sort ?ys))"
      using less.hyps c_strings_mset[OF bubble_mset[of xs]] less.prems by blast
    moreover have "sort ?ys = sort xs" by (rule properties_for_sort) simp_all
    ultimately show ?thesis using False by (subst step(1)) (simp add: step(2))
  qed
qed

subsection \<open>The program\<close>

definition cleared :: "string list \<Rightarrow> List cell list" where
  "cleared xs = (chain_heap xs)[length xs - 1 := Freed]"

definition lab17_inv :: "lab17 \<Rightarrow> bool" where
  "lab17_inv s \<longleftrightarrow> (mainpc s = MEnd \<longrightarrow> sorter s = SEnd) \<and>
     (\<exists>xs. c_strings xs \<and> mset xs = mset (pushed s) \<and> mainlist s = first_of (length xs) \<and>
        heap17 s = (if mainpc s = MEnd then cleared xs else chain_heap xs))"

lemma lab17_sel [simp]:
  "heap17 main17 = []" "mainlist main17 = None" "finished main17 = False" "sorter main17 = STest"
  "mainpc main17 = MTest" "pushed main17 = []" "printed main17 = None"
  by (simp_all add: main17_def)

lemma print_walk:
  "i < length xs \<Longrightarrow> length xs - i \<le> fuel \<Longrightarrow> printList fuel (chain_heap xs) (Some i) = Some (drop i xs)"
proof (induction "length xs - i" arbitrary: i fuel)
  case (Suc k)
  obtain f where f: "fuel = Suc f" using Suc.prems by (cases fuel) auto
  have d: "drop i xs = xs ! i # drop (Suc i) xs" using Suc.prems by (simp add: Cons_nth_drop_Suc)
  show ?case
  proof (cases "Suc i < length xs")
    case True
    then show ?thesis using Suc.hyps(1)[of "Suc i" f] Suc.hyps(2) Suc.prems d unfolding f printList.simps by simp
  next
    case False
    then show ?thesis using Suc.prems d unfolding f printList.simps by simp
  qed
qed simp

lemma clear_walk:
  "i < length xs \<Longrightarrow> length xs - i \<le> fuel \<Longrightarrow> clearList fuel (Some i) (chain_heap xs) = Some (cleared xs)"
proof (induction "length xs - i" arbitrary: i fuel)
  case (Suc k)
  obtain f where f: "fuel = Suc f" using Suc.prems by (cases fuel) auto
  show ?case
  proof (cases "Suc i < length xs")
    case True
    then show ?thesis using Suc.hyps(1)[of "Suc i" f] Suc.hyps(2) Suc.prems unfolding f clearList.simps by simp
  next
    case False
    then have "i = length xs - 1" using Suc.prems by simp
    then show ?thesis using Suc.prems unfolding f clearList.simps by (simp add: cleared_def)
  qed
qed simp

lemma clear_chain: "length xs < fuel \<Longrightarrow> clearList fuel (first_of (length xs)) (chain_heap xs) = Some (cleared xs)"
proof (cases xs)
  case Nil
  assume "length xs < fuel"
  then show ?thesis using Nil by (cases fuel) (auto simp: cleared_def chain_heap_def)
next
  case (Cons y ys)
  assume "length xs < fuel"
  then show ?thesis using clear_walk[of 0 xs fuel] Cons by (simp add: first_of_def)
qed

lemma sort_step:
  assumes "sorter s = STest" "\<not> finished s" "heap17 s = chain_heap xs" "mainlist s = first_of (length xs)" "c_strings xs"
  shows "sortThread_step s = Some (s\<lparr>heap17 := chain_heap (sort xs)\<rparr>)"
  using assms loop_sorts[OF assms(5)] by (simp add: sortThread_step_def)

lemma push_main_chain:
  assumes "heap17 s = chain_heap xs" "mainlist s = first_of (length xs)"
  shows "push_main pad str s = (if pad = 0 then None
    else Some (s\<lparr>heap17 := chain_heap (xs @ [str]), mainlist := first_of (length (xs @ [str])), pushed := pushed s @ [str]\<rparr>))"
  using assms by (simp add: push_main_def fuel17_def push_chain)

lemma lab17_inv_read:
  assumes "c_strings xs" "mset xs = mset (pushed s)" "mainlist s = first_of (length xs)" "heap17 s = chain_heap xs"
    and "mainpc s = MRead" "main17_step pad bytes s = Some s'"
  shows "lab17_inv s'"
proof -
  obtain i where i: "take_input bytes = Some i" using assms(5,6) by (auto simp: main17_step_def fault_simps)
  show ?thesis
  proof (cases i)
    case Show
    then have "s' = s\<lparr>mainpc := MTest\<rparr>" using assms(5,6) i by (auto simp: main17_step_def fault_simps)
    then show ?thesis using assms by (auto simp: lab17_inv_def)
  next
    case (Line str)
    have "c_strings (xs @ [str])" using assms(1) take_input_no_NUL i Line by (auto simp: c_strings_def)
    moreover have "s' = s\<lparr>heap17 := chain_heap (xs @ [str]), mainlist := first_of (length (xs @ [str])),
        pushed := pushed s @ [str], mainpc := MTest\<rparr>"
      using assms(5,6) i Line by (auto simp: main17_step_def push_main_chain[OF assms(4,3)] split: if_splits)
    ultimately show ?thesis using assms(2) by (auto simp: lab17_inv_def intro!: exI[of _ "xs @ [str]"])
  qed
qed

lemma step17_inv: "lab17_inv s \<Longrightarrow> step17 pad a s = Some s' \<Longrightarrow> lab17_inv s'"
proof -
  assume inv: "lab17_inv s" and st: "step17 pad a s = Some s'"
  obtain xs where xs: "c_strings xs" "mset xs = mset (pushed s)" "mainlist s = first_of (length xs)"
    "heap17 s = (if mainpc s = MEnd then cleared xs else chain_heap xs)" "mainpc s = MEnd \<longrightarrow> sorter s = SEnd"
    using inv by (auto simp: lab17_inv_def)
  show ?thesis
  proof (cases a)
    case Signal
    then show ?thesis using st inv by (auto simp: sig_handler_def lab17_inv_def)
  next
    case Sorter
    show ?thesis
    proof (cases "sorter s = STest \<and> \<not> finished s")
      case True
      then have "mainpc s \<noteq> MEnd" using xs(5) by auto
      then have "s' = s\<lparr>heap17 := chain_heap (sort xs)\<rparr>" using st Sorter xs True sort_step[of s xs] by auto
      then show ?thesis using xs True \<open>mainpc s \<noteq> MEnd\<close> c_strings_mset[of "sort xs" xs]
        by (auto simp: lab17_inv_def intro!: exI[of _ "sort xs"])
    next
      case False
      then show ?thesis using st Sorter xs(5) inv
        by (auto simp: sortThread_step_def lab17_inv_def fault_simps split: spc17.splits if_splits)
    qed
  next
    case (Main bytes)
    show ?thesis
    proof (cases "mainpc s")
      case MTest
      then show ?thesis using st Main inv by (auto simp: main17_step_def lab17_inv_def split: if_splits)
    next
      case MRead
      then show ?thesis using lab17_inv_read[of xs s pad bytes s'] xs st Main by simp
    next
      case MJoin
      then have "s' = s\<lparr>heap17 := cleared xs, mainpc := MEnd\<rparr> \<and> sorter s = SEnd"
        using st Main xs clear_chain[of xs "fuel17 s"]
        by (auto simp: main17_step_def fuel17_def fault_simps split: if_splits)
      then show ?thesis using xs MJoin by (auto simp: lab17_inv_def)
    next
      case MEnd
      then show ?thesis using st Main by (simp add: main17_step_def)
    qed
  qed
qed

lemma run17_inv: "lab17_inv s \<Longrightarrow> run17 pad as s = Some s' \<Longrightarrow> lab17_inv s'"
  by (induction as arbitrary: s) (auto simp: fault_simps dest: step17_inv)

lemma main17_inv: "lab17_inv main17"
  by (auto simp: lab17_inv_def c_strings_def chain_heap_def)


text \<open>
  In \<open>Shinkevich/17\<close>, as long as \<open>malloc\<close> leaves room for the NUL, the list is at every moment a chain
  of nodes that holds exactly the lines typed so far, whatever the two threads and the signal did.
\<close>

theorem lab17_keeps_lines:
  assumes "run17 pad as main17 = Some s" "mainpc s \<noteq> MEnd"
  shows "\<exists>xs. heap17 s = chain_heap xs \<and> mainlist s = first_of (length xs) \<and> mset xs = mset (pushed s)"
  using run17_inv[OF main17_inv assms(1)] assms(2) unfolding lab17_inv_def by auto

theorem lab17_keeps_lines_witness:
  "\<exists>s xs. run17 1 [Main None, Main (Some [CHR ''b'', CHR 0x0A]), Main None, Main (Some [CHR ''a'', CHR 0x0A])] main17 = Some s \<and>
     pushed s = [''b'', ''a''] \<and> heap17 s = chain_heap xs \<and> mainlist s = first_of (length xs) \<and> mset xs = mset (pushed s)"
proof -
  let ?r = "run17 1 [Main None, Main (Some [CHR ''b'', CHR 0x0A]), Main None, Main (Some [CHR ''a'', CHR 0x0A])] main17"
  have "(case ?r of Some s \<Rightarrow> pushed s = [''b'', ''a''] \<and> mainpc s \<noteq> MEnd | None \<Rightarrow> False)" by code_simp
  then obtain s where s: "?r = Some s" "pushed s = [''b'', ''a'']" "mainpc s \<noteq> MEnd" unfolding case_True by blast
  from lab17_keeps_lines[OF s(1,3)] show ?thesis using s by blast
qed

text \<open>
  C22: A turn of the sorting thread of \<open>Shinkevich/17\<close> ends, and its passes of exchanging neighbours leave
  the list sorted in the order of \<open>strcmp\<close>: the result is that of the library's \<open>sort\<close>.
\<close>

theorem lab17_round_sorts:
  assumes "sorter s = STest" "\<not> finished s"
    and "heap17 s = chain_heap xs" "mainlist s = first_of (length xs)" "c_strings xs"
  shows "sortThread_step s = Some (s\<lparr>heap17 := chain_heap (sort xs)\<rparr>)"
  by (rule sort_step[OF assms])

theorem lab17_round_sorts_witness:
  "sortThread_step (main17\<lparr>heap17 := chain_heap [''b'', ''c'', ''a''], mainlist := Some 0\<rparr>) =
     Some (main17\<lparr>heap17 := chain_heap [''a'', ''b'', ''c''], mainlist := Some 0\<rparr>)"
proof -
  have "sort [''b'', ''c'', ''a''] = [''a'', ''b'', ''c'']" by code_simp
  then show ?thesis
    using lab17_round_sorts[of "main17\<lparr>heap17 := chain_heap [''b'', ''c'', ''a''], mainlist := Some 0\<rparr>" "[''b'', ''c'', ''a'']"]
    by (simp add: c_strings_def)
qed

lemma new_exact: "new_node 0 str s = None"
  by (simp add: new_node_def strcpy_def)

lemma push_exact: "pushLine 0 fuel list str s = None"
proof (induction fuel arbitrary: list)
  case (Suc fuel)
  show ?case
  proof (cases list)
    case (Some p)
    then show ?thesis using Suc.IH by (cases "node_at (heap17 s) p") (auto simp: new_exact split: option.splits)
  qed (simp add: new_exact)
qed simp

lemma step17_exact: "step17 0 a s = Some s' \<Longrightarrow> pushed s' = pushed s"
  by (cases a) (auto simp: sortThread_step_def main17_step_def push_main_def push_exact sig_handler_def fault_simps
      split: spc17.splits mpc17.splits if_splits input.splits)

lemma run17_exact: "run17 0 as s = Some s' \<Longrightarrow> pushed s' = pushed s"
  by (induction as arbitrary: s) (auto simp: fault_simps dest: step17_exact)

text \<open>
  \<open>pushLine\<close> of \<open>Shinkevich/17\<close> asks for \<open>strlen(line)\<close> bytes and copies one more: with an allocator that
  gives exactly what is asked for, no line gets into the list without undefined behaviour. A list that
  is still empty cannot be printed either: a newline as the first input, and \<open>SIGINT\<close> before the
  first line, make \<open>printList\<close> follow a NULL pointer.
\<close>

theorem lab17_undefined:
  assumes "run17 pad as main17 = Some s"
  shows "(pad = 0 \<longrightarrow> pushed s = []) \<and>
    (pushed s = [] \<and> mainpc s = MRead \<longrightarrow> main17_step pad (Some [CHR 0x0A]) s = None) \<and>
    (pushed s = [] \<and> sorter s = SPrint \<longrightarrow> sortThread_step s = None)"
proof -
  have "printList fuel (heap17 s) (mainlist s) = None" if "pushed s = []" for fuel
    using run17_inv[OF main17_inv assms] that by (cases fuel) (auto simp: lab17_inv_def)
  then show ?thesis
    using run17_exact[of as main17 s] assms
    by (auto simp: main17_step_def sortThread_step_def take_input_def split: spc17.splits)
qed

theorem lab17_undefined_witness:
  "\<exists>s. run17 0 [Main None, Signal, Sorter] main17 = Some s \<and> pushed s = [] \<and>
     main17_step 0 (Some [CHR 0x0A]) s = None \<and> sortThread_step s = None"
proof -
  have "(case run17 0 [Main None, Signal, Sorter] main17 of
      Some s \<Rightarrow> mainpc s = MRead \<and> sorter s = SPrint | None \<Rightarrow> False)" by code_simp
  then obtain s where s: "run17 0 [Main None, Signal, Sorter] main17 = Some s" "mainpc s = MRead" "sorter s = SPrint"
    unfolding case_True by blast
  from lab17_undefined[OF s(1)] show ?thesis using s by blast
qed

text \<open>What \<open>read\<close> gives for a line that is typed.\<close>

definition typed :: "string \<Rightarrow> bool" where
  "typed l \<longleftrightarrow> l \<noteq> [] \<and> hd l \<noteq> CHR 0x0A \<and> NUL \<notin> set l"

lemma take_typed: "typed l \<Longrightarrow> take_input (Some (l @ [CHR 0x0A])) = Some (Line l)"
  by (auto simp: take_input_def typed_def)

lemma run17_append: "run17 pad (as @ bs) s = (run17 pad as s \<bind> run17 pad bs)"
  by (induction as arbitrary: s) (auto split: bind_split)

definition type_lines :: "string list \<Rightarrow> actor17 list" where
  "type_lines ls = concat (map (\<lambda>l. [Main None, Main (Some (l @ [CHR 0x0A]))]) ls)"

lemma run17_typed:
  assumes "0 < pad" "list_all typed ls"
    and "heap17 s = chain_heap xs" "mainlist s = first_of (length xs)" "mainpc s = MTest" "\<not> finished s"
  shows "run17 pad (type_lines ls) s = Some (s\<lparr>heap17 := chain_heap (xs @ ls), mainlist := first_of (length (xs @ ls)),
    pushed := pushed s @ ls\<rparr>)"
  using assms(2-)
proof (induction ls arbitrary: s xs)
  case (Cons l ls)
  let ?s = "s\<lparr>heap17 := chain_heap (xs @ [l]), mainlist := first_of (length (xs @ [l])), pushed := pushed s @ [l]\<rparr>"
  have "push_main pad l (s\<lparr>mainpc := MRead\<rparr>) = Some (?s\<lparr>mainpc := MRead\<rparr>)"
    using assms(1) Cons.prems by (subst push_main_chain[of _ xs]) auto
  then have "step17 pad (Main (Some (l @ [CHR 0x0A]))) (s\<lparr>mainpc := MRead\<rparr>) = Some ?s"
    using Cons.prems by (simp add: main17_step_def take_typed)
  then have "run17 pad (type_lines (l # ls)) s = run17 pad (type_lines ls) ?s"
    using Cons.prems by (simp add: type_lines_def main17_step_def)
  then show ?case using Cons.IH[of ?s "xs @ [l]"] Cons.prems by simp
qed (simp add: type_lines_def)

text \<open>
  What \<open>Shinkevich/17\<close> prints under "Sorted list" need not be sorted: the sorting thread tests
  \<open>finished\<close> after its five seconds and before it sorts, so that all lines typed before its first turn
  are printed in the order in which they were typed when \<open>SIGINT\<close> comes before it.
\<close>

theorem lab17_prints_unsorted:
  assumes "0 < pad" "ls \<noteq> []" "list_all typed ls"
  shows "\<exists>s. run17 pad (type_lines ls @ [Signal, Sorter, Sorter]) main17 = Some s \<and> printed s = Some ls"
proof -
  have "run17 pad (type_lines ls) main17 =
      Some (main17\<lparr>heap17 := chain_heap ls, mainlist := first_of (length ls), pushed := ls\<rparr>)"
    using run17_typed[OF assms(1,3), of main17 "[]"] by (simp add: chain_heap_def)
  then show ?thesis
    using assms(2) print_walk[of 0 ls "Suc (length ls)"]
    by (cases ls) (auto simp: run17_append sig_handler_def sortThread_step_def fuel17_def)
qed

theorem lab17_prints_unsorted_witness:
  "\<exists>s. run17 1 (type_lines [''b'', ''a''] @ [Signal, Sorter, Sorter]) main17 = Some s \<and> printed s = Some [''b'', ''a'']"
  by (rule lab17_prints_unsorted) (simp_all add: typed_def)

text \<open>
  \<open>clearList\<close> of \<open>Shinkevich/17\<close> frees the last node only: when the main thread has ended, all nodes
  but one are still allocated.
\<close>

theorem lab17_leaks:
  assumes "run17 pad as main17 = Some s" "mainpc s = MEnd"
  shows "length (filter (\<lambda>c. c \<noteq> Freed) (heap17 s)) = length (pushed s) - 1 \<and> sorter s = SEnd"
proof -
  obtain xs where xs: "mset xs = mset (pushed s)" "heap17 s = cleared xs" "sorter s = SEnd"
    using run17_inv[OF main17_inv assms(1)] assms(2) by (auto simp: lab17_inv_def)
  have l: "length xs = length (pushed s)" using xs(1) by (metis size_mset)
  have "ys[length ys - 1 := Freed] = (if ys = [] then [] else butlast ys @ [Freed])" for ys :: "List cell list"
    by (cases ys rule: rev_cases) auto
  from this[of "chain_heap xs"] have "heap17 s = (if xs = [] then [] else butlast (chain_heap xs) @ [Freed])"
    unfolding xs(2) cleared_def by (simp add: chain_heap_def)
  moreover have "filter (\<lambda>c. c \<noteq> Freed) (butlast (chain_heap xs)) = butlast (chain_heap xs)"
    by (auto simp: filter_id_conv chain_heap_def dest!: in_set_butlastD)
  ultimately show ?thesis using l xs(3) by auto
qed

theorem lab17_leaks_witness:
  "\<exists>s. run17 1 (type_lines [''b'', ''a''] @ [Signal, Sorter, Sorter, Main None, Main None]) main17 = Some s \<and>
     length (filter (\<lambda>c. c \<noteq> Freed) (heap17 s)) = 1"
proof -
  let ?r = "run17 1 (type_lines [''b'', ''a''] @ [Signal, Sorter, Sorter, Main None, Main None]) main17"
  have "(case ?r of Some s \<Rightarrow> mainpc s = MEnd \<and> length (pushed s) = 2 | None \<Rightarrow> False)" by code_simp
  then obtain s where s: "?r = Some s" "mainpc s = MEnd" "length (pushed s) = 2" unfolding case_True by blast
  from lab17_leaks[OF s(1,2)] show ?thesis using s by auto
qed

end
