(* ===== verification/ListLab18.thy ===== *)
theory ListLab18
  imports LineList
begin

text \<open>
  \<open>Shinkevich/18\<close>: every node of the list has a mutex of its own, and a hundred threads sort the list at the
  same time while the main thread appends lines. One step is one access that another thread can see: a
  lock, an unlock, what is done between them to the node, the reading of a \<open>next\<close> pointer. A sorting
  thread locks a node and then the next one, so that the locks are taken along the list. Who holds a
  mutex is a field of the node. \<open>pad\<close> is as in \<open>ListLab17\<close>.
\<close>

subsection \<open>State\<close>

record List18 =
  sline :: string
  snext :: "nat option"
  sowner :: "nat option"

text \<open>
  Program counters; a call has the place to which it returns as its first argument. \<open>M\<close> is the main
  thread, \<open>R\<close> the reading thread of \<open>Shinkevich/19\<close> with its position in the file, \<open>S\<close> a sorting thread
  with its node and its \<open>sorted\<close>.
\<close>

datatype lpc =
    MTest | MRead | MJoin nat | MFinal | MClear "nat option" | MDestroy nat | MEnd
  | RTest nat | RRead nat | REnd
  | STest | SPass | SNode "nat option" bool | SHead nat bool | SBoth nat bool
  | SUnl2 nat bool | SUnl nat bool | SNext nat bool | SEnd
  | Push lpc "nat option" string | Fill lpc nat string | InPush lpc nat string
  | EndPush lpc nat | Hop lpc nat string | HopNext lpc nat string
  | Print lpc "nat option" | InPrint lpc nat | PrintUnl lpc nat bool | PrintHop lpc nat

record lab18 =
  nodes :: "List18 cell list"
  mainlist :: "nat option"
  finished :: bool
  threadCount :: nat
  lpcs :: "lpc list"
  pushed :: "string list"
  out :: "string list"

definition lgo :: "nat \<Rightarrow> lpc \<Rightarrow> lab18 \<Rightarrow> lab18" where
  "lgo t p s = s\<lparr>lpcs := (lpcs s)[t := p]\<rparr>"

definition lock_node :: "nat \<Rightarrow> nat \<Rightarrow> lab18 \<Rightarrow> lab18 option" where
  "lock_node t p s = do {
     n \<leftarrow> node_at (nodes s) p;
     if sowner n = None then do { h \<leftarrow> set_node (nodes s) p (n\<lparr>sowner := Some t\<rparr>); Some (s\<lparr>nodes := h\<rparr>) }
     else None }"

definition unlock_node :: "nat \<Rightarrow> nat \<Rightarrow> lab18 \<Rightarrow> lab18 option" where
  "unlock_node t p s = do {
     n \<leftarrow> node_at (nodes s) p;
     if sowner n = Some t then do { h \<leftarrow> set_node (nodes s) p (n\<lparr>sowner := None\<rparr>); Some (s\<lparr>nodes := h\<rparr>) }
     else None }"

subsection \<open>pushLine, printList, clearList\<close>

fun pushLine :: "nat \<Rightarrow> nat \<Rightarrow> lpc \<Rightarrow> lab18 \<Rightarrow> lab18 option" where
  "pushLine pad t (Push r None str) s =
     Some (lgo t (Fill r (length (nodes s)) str)
       (s\<lparr>nodes := nodes s @ [Fresh], mainlist := Some (length (nodes s))\<rparr>))"
| "pushLine pad t (Fill r p str) s = do {
     l \<leftarrow> strcpy (length str + pad) str;
     h \<leftarrow> put_at (nodes s) p (Cell \<lparr>sline = l, snext = None, sowner = None\<rparr>);
     Some (lgo t r (s\<lparr>nodes := h, pushed := pushed s @ [str]\<rparr>)) }"
| "pushLine pad t (Push r (Some p) str) s = do {
     s \<leftarrow> lock_node t p s;
     Some (lgo t (InPush r p str) s) }"
| "pushLine pad t (InPush r p str) s = do {
     n \<leftarrow> node_at (nodes s) p;
     if snext n = None then do {
       l \<leftarrow> strcpy (length str + pad) str;
       let node = length (nodes s);
       h \<leftarrow> set_node (nodes s @ [Cell \<lparr>sline = l, snext = None, sowner = None\<rparr>]) p (n\<lparr>snext := Some node\<rparr>);
       Some (lgo t (EndPush r p) (s\<lparr>nodes := h, pushed := pushed s @ [str]\<rparr>)) }
     else Some (lgo t (Hop r p str) s) }"
| "pushLine pad t (EndPush r p) s = do { s \<leftarrow> unlock_node t p s; Some (lgo t r s) }"
| "pushLine pad t (Hop r p str) s = do { s \<leftarrow> unlock_node t p s; Some (lgo t (HopNext r p str) s) }"
| "pushLine pad t (HopNext r p str) s = do { n \<leftarrow> node_at (nodes s) p; Some (lgo t (Push r (snext n) str) s) }"
| "pushLine pad t p s = None"

fun printList :: "nat \<Rightarrow> lpc \<Rightarrow> lab18 \<Rightarrow> lab18 option" where
  "printList t (Print r None) s = Some (lgo t r (s\<lparr>out := out s @ [''*Empty*'']\<rparr>))"
| "printList t (Print r (Some p)) s = do { s \<leftarrow> lock_node t p s; Some (lgo t (InPrint r p) s) }"
| "printList t (InPrint r p) s = do {
     n \<leftarrow> node_at (nodes s) p;
     Some (lgo t (PrintUnl r p (snext n \<noteq> None)) (s\<lparr>out := out s @ [sline n]\<rparr>)) }"
| "printList t (PrintUnl r p nxt) s = do {
     s \<leftarrow> unlock_node t p s;
     Some (lgo t (if nxt then PrintHop r p else r) s) }"
| "printList t (PrintHop r p) s = do { n \<leftarrow> node_at (nodes s) p; Some (lgo t (Print r (snext n)) s) }"
| "printList t p s = None"

text \<open>After \<open>free(list)\<close> the mutex in it is destroyed.\<close>

fun clearList :: "nat \<Rightarrow> lpc \<Rightarrow> lab18 \<Rightarrow> lab18 option" where
  "clearList t (MClear None) s = Some (lgo t MEnd s)"
| "clearList t (MClear (Some p)) s = do {
     n \<leftarrow> node_at (nodes s) p;
     if snext n = None then do { h \<leftarrow> put_at (nodes s) p Freed; Some (lgo t (MDestroy p) (s\<lparr>nodes := h\<rparr>)) }
     else Some (lgo t (MClear (snext n)) s) }"
| "clearList t (MDestroy p) s = do { n \<leftarrow> node_at (nodes s) p; Some (lgo t MEnd s) }"
| "clearList t p s = None"

subsection \<open>The threads\<close>

fun sortThread :: "nat \<Rightarrow> lpc \<Rightarrow> lab18 \<Rightarrow> lab18 option" where
  "sortThread t STest s = Some (lgo t (if finished s then SEnd else SPass) s)"
| "sortThread t SPass s = Some (lgo t (SNode (mainlist s) True) s)"
| "sortThread t (SNode None srt) s = Some (lgo t (if srt then STest else SPass) s)"
| "sortThread t (SNode (Some p) srt) s = do { s \<leftarrow> lock_node t p s; Some (lgo t (SHead p srt) s) }"
| "sortThread t (SHead p srt) s = do {
     n \<leftarrow> node_at (nodes s) p;
     case snext n of
       None \<Rightarrow> Some (lgo t (SUnl p srt) s)
     | Some q \<Rightarrow> do { s \<leftarrow> lock_node t q s; Some (lgo t (SBoth p srt) s) } }"
| "sortThread t (SBoth p srt) s = do {
     n \<leftarrow> node_at (nodes s) p;
     q \<leftarrow> snext n;
     m \<leftarrow> node_at (nodes s) q;
     if strcmp (sline n) (sline m) > 0 then do {
       h \<leftarrow> set_node (nodes s) p (n\<lparr>sline := sline m\<rparr>);
       h \<leftarrow> set_node h q (m\<lparr>sline := sline n\<rparr>);
       Some (lgo t (SUnl2 p False) (s\<lparr>nodes := h\<rparr>)) }
     else Some (lgo t (SUnl2 p srt) s) }"
| "sortThread t (SUnl2 p srt) s = do {
     n \<leftarrow> node_at (nodes s) p;
     q \<leftarrow> snext n;
     s \<leftarrow> unlock_node t q s;
     Some (lgo t (SUnl p srt) s) }"
| "sortThread t (SUnl p srt) s = do { s \<leftarrow> unlock_node t p s; Some (lgo t (SNext p srt) s) }"
| "sortThread t (SNext p srt) s = do { n \<leftarrow> node_at (nodes s) p; Some (lgo t (SNode (snext n) srt) s) }"
| "sortThread t p s = None"

fun in_push :: "lpc \<Rightarrow> bool" where
  "in_push (Push r l x) = True"
| "in_push (Fill r p x) = True"
| "in_push (InPush r p x) = True"
| "in_push (EndPush r p) = True"
| "in_push (Hop r p x) = True"
| "in_push (HopNext r p x) = True"
| "in_push p = False"

fun in_print :: "lpc \<Rightarrow> bool" where
  "in_print (Print r l) = True"
| "in_print (InPrint r p) = True"
| "in_print (PrintUnl r p b) = True"
| "in_print (PrintHop r p) = True"
| "in_print p = False"

fun in_clear :: "lpc \<Rightarrow> bool" where
  "in_clear (MClear l) = True"
| "in_clear (MDestroy p) = True"
| "in_clear p = False"

text \<open>The loop of \<open>main\<close>, the joins and the end; \<open>bytes\<close> is what \<open>read\<close> gives.\<close>

fun main_step :: "string option \<Rightarrow> lpc \<Rightarrow> lab18 \<Rightarrow> lab18 option" where
  "main_step bytes MTest s = Some (lgo 0 (if finished s then MJoin 0 else MRead) s)"
| "main_step bytes MRead s = do {
     i \<leftarrow> take_input bytes;
     Some (lgo 0 (case i of Show \<Rightarrow> Print MTest (mainlist s) | Line str \<Rightarrow> Push MTest (mainlist s) str) s) }"
| "main_step bytes (MJoin i) s =
     (if i < threadCount s then do {
        p \<leftarrow> get_at (lpcs s) (Suc i);
        if p = SEnd then Some (lgo 0 (MJoin (Suc i)) s) else None }
      else Some (lgo 0 (Print MFinal (mainlist s)) s))"
| "main_step bytes MFinal s = Some (lgo 0 (MClear (mainlist s)) s)"
| "main_step bytes p s = None"

definition step18 :: "nat \<Rightarrow> nat \<Rightarrow> string option \<Rightarrow> lab18 \<Rightarrow> lab18 option" where
  "step18 pad t bytes s = do {
     p \<leftarrow> get_at (lpcs s) t;
     if in_push p then pushLine pad t p s
     else if in_print p then printList t p s
     else if in_clear p then clearList t p s
     else if t = 0 then main_step bytes p s
     else sortThread t p s }"

text \<open>\<open>sig_handler\<close> for \<open>SIGINT\<close>.\<close>

definition sig_handler :: "lab18 \<Rightarrow> lab18" where
  "sig_handler s = s\<lparr>finished := True\<rparr>"

datatype act18 = Thread nat "string option" | Signal

fun act :: "nat \<Rightarrow> act18 \<Rightarrow> lab18 \<Rightarrow> lab18 option" where
  "act pad (Thread t bytes) s = step18 pad t bytes s"
| "act pad Signal s = Some (sig_handler s)"

fun run18 :: "nat \<Rightarrow> act18 list \<Rightarrow> lab18 \<Rightarrow> lab18 option" where
  "run18 pad [] s = Some s"
| "run18 pad (a # as) s = do { s \<leftarrow> act pad a s; run18 pad as s }"

text \<open>
  \<open>main\<close> up to its loop, where \<open>pthread_create\<close> succeeds \<open>created\<close> times: when it fails for thread \<open>i\<close> the
  loop ends, and \<open>threadCount\<close> is \<open>i + 1\<close>, with the thread that was not created.
\<close>

definition main18 :: "nat \<Rightarrow> lab18" where
  "main18 created =
     (let k = min created 100 in
      \<lparr>nodes = [], mainlist = None, finished = False, threadCount = (if k < 100 then k + 1 else 100),
       lpcs = MTest # replicate k STest, pushed = [], out = []\<rparr>)"

subsection \<open>The invariant\<close>

text \<open>The nodes of the lines \<open>xs\<close>, whose mutexes are held by \<open>os\<close>.\<close>

definition cells18 :: "string list \<Rightarrow> nat option list \<Rightarrow> List18 cell list" where
  "cells18 xs os = map (\<lambda>i. Cell \<lparr>sline = xs ! i, snext = next_of (length xs) i, sowner = os ! i\<rparr>) [0..<length xs]"

fun home :: "lpc \<Rightarrow> bool" where
  "home MTest = True"
| "home MFinal = True"
| "home (RTest pos) = True"
| "home p = False"

text \<open>Program counters that can occur once the list has \<open>k\<close> nodes, at least one.\<close>

fun valid :: "nat \<Rightarrow> lpc \<Rightarrow> bool" where
  "valid k (Push r l str) = (home r \<and> NUL \<notin> set str \<and> (\<exists>p < k. l = Some p))"
| "valid k (Fill r p str) = False"
| "valid k (InPush r p str) = (home r \<and> NUL \<notin> set str \<and> p < k)"
| "valid k (EndPush r p) = (home r \<and> p < k)"
| "valid k (Hop r p str) = (home r \<and> NUL \<notin> set str \<and> Suc p < k)"
| "valid k (HopNext r p str) = (home r \<and> NUL \<notin> set str \<and> Suc p < k)"
| "valid k (Print r l) = (home r \<and> (\<forall>p. l = Some p \<longrightarrow> p < k))"
| "valid k (InPrint r p) = (home r \<and> p < k)"
| "valid k (PrintUnl r p b) = (home r \<and> p < k)"
| "valid k (PrintHop r p) = (home r \<and> p < k)"
| "valid k (SNode l srt) = (\<forall>p. l = Some p \<longrightarrow> p < k)"
| "valid k (SHead p srt) = (p < k)"
| "valid k (SBoth p srt) = (Suc p < k)"
| "valid k (SUnl2 p srt) = (Suc p < k)"
| "valid k (SUnl p srt) = (p < k)"
| "valid k (SNext p srt) = (p < k)"
| "valid k (MClear l) = (\<forall>p. l = Some p \<longrightarrow> p < k)"
| "valid k (MDestroy p) = False"
| "valid k p = True"

fun held :: "lpc \<Rightarrow> nat set" where
  "held (SHead p srt) = {p}"
| "held (SBoth p srt) = {p, Suc p}"
| "held (SUnl2 p srt) = {p, Suc p}"
| "held (SUnl p srt) = {p}"
| "held (InPush r p str) = {p}"
| "held (EndPush r p) = {p}"
| "held (Hop r p str) = {p}"
| "held (InPrint r p) = {p}"
| "held (PrintUnl r p b) = {p}"
| "held p = {}"

definition owns :: "nat option list \<Rightarrow> lpc list \<Rightarrow> bool" where
  "owns os ps \<longleftrightarrow> (\<forall>i < length os. \<forall>t. os ! i = Some t \<longleftrightarrow> t < length ps \<and> i \<in> held (ps ! t))"

definition inv18 :: "string list \<Rightarrow> nat option list \<Rightarrow> lab18 \<Rightarrow> bool" where
  "inv18 xs os s \<longleftrightarrow> nodes s = cells18 xs os \<and> length os = length xs \<and> xs \<noteq> [] \<and> mainlist s = Some 0 \<and>
     c_strings xs \<and> mset xs = mset (pushed s) \<and> list_all (valid (length xs)) (lpcs s) \<and> owns os (lpcs s)"

lemma lgo_sel [simp]:
  "nodes (lgo t p s) = nodes s" "mainlist (lgo t p s) = mainlist s" "finished (lgo t p s) = finished s"
  "threadCount (lgo t p s) = threadCount s" "lpcs (lgo t p s) = (lpcs s)[t := p]" "pushed (lgo t p s) = pushed s"
  "out (lgo t p s) = out s"
  by (simp_all add: lgo_def)

lemma cells18_length [simp]: "length (cells18 xs os) = length xs"
  by (simp add: cells18_def)

lemma cells18_nth [simp]:
  "i < length xs \<Longrightarrow> cells18 xs os ! i = Cell \<lparr>sline = xs ! i, snext = next_of (length xs) i, sowner = os ! i\<rparr>"
  by (simp add: cells18_def)

lemma node_at_cells [simp]:
  "i < length xs \<Longrightarrow> node_at (cells18 xs os) i = Some \<lparr>sline = xs ! i, snext = next_of (length xs) i, sowner = os ! i\<rparr>"
  by (rule node_at_in) simp_all

lemma cells18_eqI:
  "length h = length xs \<Longrightarrow>
     (\<And>i. i < length xs \<Longrightarrow> h ! i = Cell \<lparr>sline = xs ! i, snext = next_of (length xs) i, sowner = os ! i\<rparr>) \<Longrightarrow>
     h = cells18 xs os"
  by (intro nth_equalityI) auto

lemma cells18_owner:
  "i < length xs \<Longrightarrow> length os = length xs \<Longrightarrow>
     set_node (cells18 xs os) i \<lparr>sline = xs ! i, snext = next_of (length xs) i, sowner = w\<rparr> =
     Some (cells18 xs (os[i := w]))"
proof -
  assume i: "i < length xs" "length os = length xs"
  have "(cells18 xs os)[i := Cell \<lparr>sline = xs ! i, snext = next_of (length xs) i, sowner = w\<rparr>] = cells18 xs (os[i := w])"
    by (rule cells18_eqI) (use i in \<open>auto simp: nth_list_update\<close>)
  then show ?thesis using i set_node_in[of i "cells18 xs os"] by simp
qed

lemma lock_cells:
  assumes "inv18 xs os s" "p < length xs"
  shows "lock_node t p s = (if os ! p = None then Some (s\<lparr>nodes := cells18 xs (os[p := Some t])\<rparr>) else None)"
  using assms cells18_owner[of p xs os "Some t"] by (auto simp: lock_node_def inv18_def)

lemma unlock_cells:
  assumes "inv18 xs os s" "t < length (lpcs s)" "p \<in> held (lpcs s ! t)" "p < length xs"
  shows "unlock_node t p s = Some (s\<lparr>nodes := cells18 xs (os[p := None])\<rparr>)"
proof -
  have "os ! p = Some t" using assms by (auto simp: inv18_def owns_def)
  then show ?thesis using assms cells18_owner[of p xs os None] by (auto simp: unlock_node_def inv18_def)
qed

lemma swap_cells:
  assumes "Suc p < length xs" "length os = length xs"
  shows "\<exists>h. set_node (cells18 xs os) p \<lparr>sline = xs ! Suc p, snext = next_of (length xs) p, sowner = os ! p\<rparr> = Some h \<and>
    set_node h (Suc p) \<lparr>sline = xs ! p, snext = next_of (length xs) (Suc p), sowner = os ! Suc p\<rparr> =
      Some (cells18 (exchange p xs) os)"
proof -
  let ?n = "\<lparr>sline = xs ! Suc p, snext = next_of (length xs) p, sowner = os ! p\<rparr>"
  let ?m = "\<lparr>sline = xs ! p, snext = next_of (length xs) (Suc p), sowner = os ! Suc p\<rparr>"
  have "(cells18 xs os)[p := Cell ?n, Suc p := Cell ?m] = cells18 (exchange p xs) os"
    by (rule cells18_eqI) (use assms in \<open>auto simp: nth_list_update exchange_def\<close>)
  moreover have "set_node (cells18 xs os) p ?n = Some ((cells18 xs os)[p := Cell ?n])"
    using assms by (intro set_node_in) auto
  moreover have "set_node ((cells18 xs os)[p := Cell ?n]) (Suc p) ?m = Some ((cells18 xs os)[p := Cell ?n, Suc p := Cell ?m])"
    using assms by (intro set_node_in) auto
  ultimately show ?thesis by simp
qed

lemma append_cells:
  assumes "p < length xs" "Suc p = length xs" "length os = length xs"
  shows "set_node (cells18 xs os @ [Cell \<lparr>sline = str, snext = None, sowner = None\<rparr>]) p
      \<lparr>sline = xs ! p, snext = Some (length xs), sowner = os ! p\<rparr> = Some (cells18 (xs @ [str]) (os @ [None]))"
proof -
  let ?n = "\<lparr>sline = xs ! p, snext = Some (length xs), sowner = os ! p\<rparr>"
  let ?h = "cells18 xs os @ [Cell \<lparr>sline = str, snext = None, sowner = None\<rparr>]"
  have "?h[p := Cell ?n] = cells18 (xs @ [str]) (os @ [None])"
    by (rule cells18_eqI) (use assms in \<open>auto simp: nth_append nth_list_update next_of_def less_Suc_eq\<close>)
  moreover have "set_node ?h p ?n = Some (?h[p := Cell ?n])" using assms by (intro set_node_in) (auto simp: nth_append)
  ultimately show ?thesis by simp
qed

text \<open>What a step does to the owners.\<close>

lemma owns_keep: "owns os ps \<Longrightarrow> t < length ps \<Longrightarrow> held p = held (ps ! t) \<Longrightarrow> owns os (ps[t := p])"
  by (auto simp: owns_def nth_list_update)

lemma owns_lock:
  "owns os ps \<Longrightarrow> t < length ps \<Longrightarrow> i < length os \<Longrightarrow> os ! i = None \<Longrightarrow> held p = insert i (held (ps ! t)) \<Longrightarrow>
     owns (os[i := Some t]) (ps[t := p])"
  unfolding owns_def by (auto simp: nth_list_update split: if_splits)

lemma owns_unlock:
  assumes "owns os ps" "t < length ps" "i < length os" "i \<in> held (ps ! t)" "held p = held (ps ! t) - {i}"
  shows "owns (os[i := None]) (ps[t := p])"
proof -
  have "os ! i = Some t" using assms by (auto simp: owns_def)
  then have only: "u = t" if "u < length ps" "i \<in> held (ps ! u)" for u
    using assms(1,3) that unfolding owns_def by (metis option.inject)
  have "os[i := None] ! j = Some u \<longleftrightarrow> u < length (ps[t := p]) \<and> j \<in> held (ps[t := p] ! u)" if "j < length os" for j u
  proof (cases "j = i")
    case True
    then show ?thesis using assms(3,5) only[of u] by (cases "u = t") auto
  next
    case False
    then show ?thesis using assms(1,2,5) that unfolding owns_def by (cases "u = t") auto
  qed
  then show ?thesis by (simp add: owns_def)
qed

lemma valid_held: "valid k p \<Longrightarrow> i \<in> held p \<Longrightarrow> i < k"
  by (cases p) auto

lemma owns_append:
  "owns os ps \<Longrightarrow> list_all (valid (length os)) ps \<Longrightarrow> owns (os @ [None]) ps"
  unfolding owns_def using valid_held[of "length os"]
  by (force simp: nth_append list_all_length less_Suc_eq)

lemma valid_Suc: "valid k p \<Longrightarrow> valid (Suc k) p"
  by (cases p) (auto simp: less_Suc_eq)

text \<open>The kinds of steps: only the program counter, a lock, an unlock, an exchange, a new node.\<close>

lemma list_all_update: "list_all P xs \<Longrightarrow> P x \<Longrightarrow> list_all P (xs[i := x])"
  by (auto simp: list_all_iff dest!: set_update_subset_insert[THEN subsetD])

lemma inv_go:
  "inv18 xs os s \<Longrightarrow> t < length (lpcs s) \<Longrightarrow> valid (length xs) p \<Longrightarrow> held p = held (lpcs s ! t) \<Longrightarrow>
     inv18 xs os (lgo t p s)"
  by (auto simp: inv18_def list_all_update intro: owns_keep)

lemma inv_lock:
  "inv18 xs os s \<Longrightarrow> t < length (lpcs s) \<Longrightarrow> valid (length xs) p \<Longrightarrow> i < length xs \<Longrightarrow> os ! i = None \<Longrightarrow>
     held p = insert i (held (lpcs s ! t)) \<Longrightarrow>
     inv18 xs (os[i := Some t]) (lgo t p (s\<lparr>nodes := cells18 xs (os[i := Some t])\<rparr>))"
  by (auto simp: inv18_def list_all_update intro: owns_lock)

lemma inv_unlock:
  "inv18 xs os s \<Longrightarrow> t < length (lpcs s) \<Longrightarrow> valid (length xs) p \<Longrightarrow> i < length xs \<Longrightarrow> i \<in> held (lpcs s ! t) \<Longrightarrow>
     held p = held (lpcs s ! t) - {i} \<Longrightarrow>
     inv18 xs (os[i := None]) (lgo t p (s\<lparr>nodes := cells18 xs (os[i := None])\<rparr>))"
  using owns_unlock[of os "lpcs s" t i p] by (simp add: inv18_def list_all_update)

lemma inv_swap:
  "inv18 xs os s \<Longrightarrow> t < length (lpcs s) \<Longrightarrow> valid (length xs) p \<Longrightarrow> Suc i < length xs \<Longrightarrow> held p = held (lpcs s ! t) \<Longrightarrow>
     inv18 (exchange i xs) os (lgo t p (s\<lparr>nodes := cells18 (exchange i xs) os\<rparr>))"
  using c_strings_mset[OF exchange_mset[of i xs]] exchange_mset[of i xs]
  by (auto simp: inv18_def list_all_update intro: owns_keep)

lemma inv_append:
  assumes "inv18 xs os s" "t < length (lpcs s)" "valid (Suc (length xs)) p" "NUL \<notin> set str" "held p = held (lpcs s ! t)"
  shows "inv18 (xs @ [str]) (os @ [None]) (lgo t p (s\<lparr>nodes := cells18 (xs @ [str]) (os @ [None]), pushed := pushed s @ [str]\<rparr>))"
proof -
  have "list_all (valid (Suc (length xs))) (lpcs s)" using assms(1) by (auto simp: inv18_def list_all_iff intro: valid_Suc)
  moreover have "owns (os @ [None]) ((lpcs s)[t := p])"
    using assms owns_append[of os "lpcs s"] owns_keep by (auto simp: inv18_def)
  ultimately show ?thesis using assms by (auto simp: inv18_def list_all_update c_strings_def)
qed

subsection \<open>Sorting threads on the lines\<close>

text \<open>What a sorting thread does next to its program counter and to the lines.\<close>

fun sort_next :: "bool \<Rightarrow> string list \<Rightarrow> lpc \<Rightarrow> lpc \<times> string list" where
  "sort_next fin xs STest = (if fin then SEnd else SPass, xs)"
| "sort_next fin xs SPass = (SNode (Some 0) True, xs)"
| "sort_next fin xs (SNode None srt) = (if srt then STest else SPass, xs)"
| "sort_next fin xs (SNode (Some i) srt) = (SHead i srt, xs)"
| "sort_next fin xs (SHead i srt) = (if Suc i < length xs then SBoth i srt else SUnl i srt, xs)"
| "sort_next fin xs (SBoth i srt) =
     (if xs ! Suc i < xs ! i then (SUnl2 i False, exchange i xs) else (SUnl2 i srt, xs))"
| "sort_next fin xs (SUnl2 i srt) = (SUnl i srt, xs)"
| "sort_next fin xs (SUnl i srt) = (SNext i srt, xs)"
| "sort_next fin xs (SNext i srt) = (SNode (next_of (length xs) i) srt, xs)"
| "sort_next fin xs p = (p, xs)"

fun sorting :: "lpc \<Rightarrow> bool" where
  "sorting STest = True"
| "sorting SPass = True"
| "sorting (SNode l srt) = True"
| "sorting (SHead p srt) = True"
| "sorting (SBoth p srt) = True"
| "sorting (SUnl2 p srt) = True"
| "sorting (SUnl p srt) = True"
| "sorting (SNext p srt) = True"
| "sorting SEnd = True"
| "sorting p = False"

text \<open>The node whose mutex a thread is about to lock.\<close>

fun wants :: "nat \<Rightarrow> lpc \<Rightarrow> nat option" where
  "wants k (SNode l srt) = l"
| "wants k (SHead p srt) = next_of k p"
| "wants k (Push r l str) = l"
| "wants k (Print r l) = l"
| "wants k p = None"

definition sort_result :: "nat \<Rightarrow> lpc \<Rightarrow> string list \<Rightarrow> lab18 \<Rightarrow> lab18 \<Rightarrow> bool" where
  "sort_result t p xs s s' \<longleftrightarrow> (\<exists>os. inv18 (snd (sort_next (finished s) xs p)) os s') \<and>
     lpcs s' = (lpcs s)[t := fst (sort_next (finished s) xs p)] \<and> finished s' = finished s \<and>
     pushed s' = pushed s \<and> threadCount s' = threadCount s"

lemma sort_resultI:
  "inv18 xs' os' (lgo t p' (s\<lparr>nodes := h\<rparr>)) \<Longrightarrow> sort_next (finished s) xs p = (p', xs') \<Longrightarrow>
     sort_result t p xs s (lgo t p' (s\<lparr>nodes := h\<rparr>))"
  by (auto simp: sort_result_def)

lemma sorter_step:
  assumes inv: "inv18 xs os s" and t: "t < length (lpcs s)" and p: "lpcs s ! t = p" "sorting p"
  shows "(\<exists>s'. sortThread t p s = Some s' \<and> sort_result t p xs s s') \<or>
    sortThread t p s = None \<and> (p = SEnd \<or> (\<exists>i. wants (length xs) p = Some i \<and> i < length xs \<and> os ! i \<noteq> None))"
proof -
  have v: "valid (length xs) p" using inv t p by (auto simp: inv18_def list_all_length)
  have i: "nodes s = cells18 xs os" "length os = length xs" "xs \<noteq> []" "mainlist s = Some 0" "c_strings xs"
    using inv by (auto simp: inv18_def)
  have same: "s\<lparr>nodes := cells18 xs os\<rparr> = s" using i(1) by (cases s) simp
  have go: "sort_result t p xs s (lgo t p' s)"
    if "sort_next (finished s) xs p = (p', xs)" "valid (length xs) p'" "held p' = held p" for p'
    using inv_go[OF inv t that(2)] that(1,3) p(1) by (auto simp: sort_result_def)
  show ?thesis
  proof (cases p)
    case (SNode l srt)
    show ?thesis
    proof (cases l)
      case None
      then show ?thesis using go[of "if srt then STest else SPass"] SNode v by auto
    next
      case (Some q)
      then show ?thesis
        using v SNode p lock_cells[OF inv, of q t] sort_resultI[OF inv_lock[OF inv t, of "SHead q srt" q], of xs p]
        by auto
    qed
  next
    case (SHead q srt)
    show ?thesis
    proof (cases "Suc q < length xs")
      case True
      then show ?thesis
        using v SHead p i lock_cells[OF inv, of "Suc q" t] sort_resultI[OF inv_lock[OF inv t, of "SBoth q srt" "Suc q"], of xs p]
        by auto
    next
      case False
      then show ?thesis using v SHead i go[of "SUnl q srt"] by auto
    qed
  next
    case (SBoth q srt)
    show ?thesis
    proof (cases "xs ! Suc q < xs ! q")
      case True
      then show ?thesis
        using v SBoth p i swap_cells[of q xs os] strcmp_nth[OF i(5), of q "Suc q"]
          sort_resultI[OF inv_swap[OF inv t, of "SUnl2 q False" q], of xs p]
        by auto
    next
      case False
      then show ?thesis using v SBoth i go[of "SUnl2 q srt"] strcmp_nth[OF i(5), of q "Suc q"] by auto
    qed
  next
    case (SUnl2 q srt)
    have "{q} = {q, Suc q} - {Suc q}" by auto
    then show ?thesis
      using SUnl2 v p i unlock_cells[OF inv t, of "Suc q"] sort_resultI[OF inv_unlock[OF inv t, of "SUnl q srt" "Suc q"], of xs p]
      by auto
  next
    case (SUnl q srt)
    then show ?thesis
      using v p i unlock_cells[OF inv t, of q] sort_resultI[OF inv_unlock[OF inv t, of "SNext q srt" q], of xs p]
      by auto
  next
    case (SNext q srt)
    then show ?thesis using v i go[of "SNode (next_of (length xs) q) srt"] by auto
  qed (use v i p go[of SPass] go[of SEnd] go[of "SNode (Some 0) True"] in auto)
qed


subsection \<open>The other steps\<close>

definition kept :: "string list \<Rightarrow> lab18 \<Rightarrow> lab18 \<Rightarrow> bool" where
  "kept xs s s' \<longleftrightarrow> (\<exists>os. inv18 xs os s') \<and> pushed s' = pushed s \<or>
     (\<exists>str os. inv18 (xs @ [str]) os s' \<and> pushed s' = pushed s @ [str])"

lemma keptI: "inv18 xs os (lgo t p (s\<lparr>nodes := h\<rparr>)) \<Longrightarrow> kept xs s (lgo t p (s\<lparr>nodes := h\<rparr>))"
  by (auto simp: kept_def)

lemma home_free: "home r \<Longrightarrow> valid k r \<and> held r = {}"
  by (cases r) auto

lemma push_step:
  assumes inv: "inv18 xs os s" and t: "t < length (lpcs s)" and p: "lpcs s ! t = p" "in_push p"
  shows "(\<exists>s'. pushLine pad t p s = Some s' \<and> kept xs s s') \<or>
    pushLine pad t p s = None \<and> (pad = 0 \<or> (\<exists>i. wants (length xs) p = Some i \<and> i < length xs \<and> os ! i \<noteq> None))"
proof -
  have v: "valid (length xs) p" using inv t p by (auto simp: inv18_def list_all_length)
  have i: "nodes s = cells18 xs os" "length os = length xs" "mainlist s = Some 0"
    using inv by (auto simp: inv18_def)
  show ?thesis
  proof (cases p)
    case (Push r l str)
    then obtain q where q: "l = Some q" "q < length xs" using v by auto
    show ?thesis
      using v Push q p lock_cells[OF inv, of q t] keptI[OF inv_lock[OF inv t, of "InPush r q str" q]] by auto
  next
    case (InPush r q str)
    show ?thesis
    proof (cases "Suc q < length xs")
      case True
      then have "inv18 xs os (lgo t (Hop r q str) s)" using v InPush p by (intro inv_go[OF inv t]) auto
      then show ?thesis using True v InPush i by (auto simp: kept_def)
    next
      case False
      then have q: "Suc q = length xs" using v InPush by auto
      then have "inv18 (xs @ [str]) (os @ [None])
          (lgo t (EndPush r q) (s\<lparr>nodes := cells18 (xs @ [str]) (os @ [None]), pushed := pushed s @ [str]\<rparr>))"
        using v InPush p by (intro inv_append[OF inv t]) auto
      then show ?thesis using q v InPush i append_cells[of q xs os str] by (auto simp: kept_def strcpy_def)
    qed
  next
    case (EndPush r q)
    then show ?thesis
      using v p i home_free[of r "length xs"] unlock_cells[OF inv t, of q] keptI[OF inv_unlock[OF inv t, of r q]] by auto
  next
    case (Hop r q str)
    then show ?thesis
      using v p i unlock_cells[OF inv t, of q] keptI[OF inv_unlock[OF inv t, of "HopNext r q str" q]] by auto
  next
    case (HopNext r q str)
    have "inv18 xs os (lgo t (Push r (Some (Suc q)) str) s)" using v HopNext p by (intro inv_go[OF inv t]) auto
    then show ?thesis using v HopNext i by (auto simp: kept_def)
  qed (use v p in auto)
qed

lemma print_step:
  assumes inv: "inv18 xs os s" and t: "t < length (lpcs s)" and p: "lpcs s ! t = p" "in_print p"
  shows "(\<exists>s'. printList t p s = Some s' \<and> kept xs s s') \<or>
    printList t p s = None \<and> (\<exists>i. wants (length xs) p = Some i \<and> i < length xs \<and> os ! i \<noteq> None)"
proof -
  have v: "valid (length xs) p" using inv t p by (auto simp: inv18_def list_all_length)
  have i: "nodes s = cells18 xs os" "length os = length xs" "mainlist s = Some 0"
    using inv by (auto simp: inv18_def)
  have out: "kept xs s (lgo t p' (s\<lparr>out := x\<rparr>))" if "valid (length xs) p'" "held p' = held p" for p' x
    using inv_go[OF inv t that(1)] that(2) p(1) by (auto simp: kept_def inv18_def)
  show ?thesis
  proof (cases p)
    case (Print r l)
    show ?thesis
    proof (cases l)
      case None
      then show ?thesis using Print v out[of r] home_free[of r "length xs"] by auto
    next
      case (Some q)
      then show ?thesis
        using v Print p lock_cells[OF inv, of q t] keptI[OF inv_lock[OF inv t, of "InPrint r q" q]] by auto
    qed
  next
    case (InPrint r q)
    then show ?thesis using v i out[of "PrintUnl r q (Suc q < length xs)"] by (auto simp: next_of_def)
  next
    case (PrintUnl r q b)
    have "valid (length xs) r \<and> held r = {}" using v PrintUnl home_free by auto
    then show ?thesis
      using v PrintUnl p i unlock_cells[OF inv t, of q] keptI[OF inv_unlock[OF inv t, of "if b then PrintHop r q else r" q]]
      by auto
  next
    case (PrintHop r q)
    have "inv18 xs os (lgo t (Print r (next_of (length xs) q)) s)" using v PrintHop p by (intro inv_go[OF inv t]) auto
    then show ?thesis using v PrintHop i by (auto simp: kept_def)
  qed (use p in auto)
qed

lemma clear_step:
  assumes inv: "inv18 xs os s" and t: "t < length (lpcs s)" and p: "lpcs s ! t = p" "in_clear p"
    and st: "clearList t p s = Some s'"
  shows "kept xs s s' \<or> (\<exists>q. lpcs s' ! t = MDestroy q)"
proof -
  have v: "valid (length xs) p" using inv t p by (auto simp: inv18_def list_all_length)
  have i: "nodes s = cells18 xs os" using inv by (auto simp: inv18_def)
  have go: "kept xs s (lgo t p' s)" if "valid (length xs) p'" "held p' = {}" for p'
    using inv_go[OF inv t that(1)] that(2) p by (cases p) (auto simp: kept_def)
  show ?thesis
  proof (cases p)
    case (MClear l)
    then show ?thesis
      using v p st t i go[of MEnd] go[of "MClear (Some (Suc (the l)))"]
      by (cases l) (auto simp: fault_simps split: if_splits)
  qed (use v p in auto)
qed

lemma main_step_kept:
  assumes inv: "inv18 xs os s" and t: "0 < length (lpcs s)" and p: "lpcs s ! 0 = p" "\<not> in_push p" "\<not> in_print p" "\<not> in_clear p"
    and st: "main_step bytes p s = Some s'"
  shows "kept xs s s'"
proof -
  have i: "mainlist s = Some 0" "xs \<noteq> []" using inv by (auto simp: inv18_def)
  have go: "kept xs s (lgo 0 p' s)" if "valid (length xs) p'" "held p' = held p" for p'
    using inv_go[OF inv t that(1)] that(2) p by (auto simp: kept_def)
  show ?thesis
  proof (cases p)
    case MTest
    then show ?thesis using st go[of MRead] go[of "MJoin 0"] by (auto split: if_splits)
  next
    case MRead
    then obtain i' where "take_input bytes = Some i'" using st by (auto simp: fault_simps)
    then show ?thesis using MRead st i go take_input_no_NUL by (cases i') auto
  next
    case (MJoin k)
    then show ?thesis using st i go[of "MJoin (Suc k)"] go[of "Print MFinal (Some 0)"]
      by (auto simp: fault_simps split: if_splits)
  next
    case MFinal
    then show ?thesis using st i go[of "MClear (Some 0)"] by auto
  qed (use p st in auto)
qed

subsection \<open>Runs\<close>

text \<open>The program counters of the main thread when the list is not empty.\<close>

fun main_pc :: "lpc \<Rightarrow> bool" where
  "main_pc MTest = True"
| "main_pc MRead = True"
| "main_pc (MJoin i) = True"
| "main_pc MFinal = True"
| "main_pc (MClear l) = (l \<noteq> None)"
| "main_pc (MDestroy p) = True"
| "main_pc (Push r l str) = main_pc r"
| "main_pc (InPush r p str) = main_pc r"
| "main_pc (EndPush r p) = main_pc r"
| "main_pc (Hop r p str) = main_pc r"
| "main_pc (HopNext r p str) = main_pc r"
| "main_pc (Print r l) = main_pc r"
| "main_pc (InPrint r p) = main_pc r"
| "main_pc (PrintUnl r p b) = main_pc r"
| "main_pc (PrintHop r p) = main_pc r"
| "main_pc p = False"

definition roles18 :: "lpc list \<Rightarrow> bool" where
  "roles18 ps \<longleftrightarrow> ps \<noteq> [] \<and> main_pc (ps ! 0) \<and> (\<forall>t < length ps. 0 < t \<longrightarrow> sorting (ps ! t))"

lemma roles18_update:
  "roles18 ps \<Longrightarrow> 0 < t \<Longrightarrow> t < length ps \<Longrightarrow> sorting p \<Longrightarrow> roles18 (ps[t := p])"
  by (auto simp: roles18_def nth_list_update)

lemma sorting_other: "sorting p \<Longrightarrow> \<not> in_push p \<and> \<not> in_print p \<and> \<not> in_clear p"
  by (cases p) auto

lemma sort_next_sorting: "sorting p \<Longrightarrow> sorting (fst (sort_next fin xs p))"
  by (cases "(fin, xs, p)" rule: sort_next.cases) auto

lemma step18_sorter:
  assumes "t < length (lpcs s)" "sorting (lpcs s ! t)" "0 < t"
  shows "step18 pad t bytes s = sortThread t (lpcs s ! t) s"
  using assms sorting_other by (auto simp: step18_def)

text \<open>What the steps of the main thread do to its program counter.\<close>

lemma lock_pcs: "lock_node t p s = Some s' \<Longrightarrow> lpcs s' = lpcs s"
  by (auto simp: lock_node_def fault_simps split: if_splits)

lemma unlock_pcs: "unlock_node t p s = Some s' \<Longrightarrow> lpcs s' = lpcs s"
  by (auto simp: unlock_node_def fault_simps split: if_splits)

lemma main_roles:
  assumes "inv18 xs os s" "roles18 (lpcs s)" "step18 pad 0 bytes s = Some s'"
  shows "roles18 (lpcs s')"
proof -
  let ?p = "lpcs s ! 0"
  have m: "main_pc ?p" "0 < length (lpcs s)" using assms(2) by (auto simp: roles18_def)
  have v: "valid (length xs) ?p" "mainlist s = Some 0" "nodes s = cells18 xs os"
    using assms(1) m(2) by (auto simp: inv18_def list_all_length)
  have "main_pc (lpcs s' ! 0) \<and> length (lpcs s') = length (lpcs s) \<and> (\<forall>t. 0 < t \<longrightarrow> lpcs s' ! t = lpcs s ! t)"
  proof (cases ?p)
    case MRead
    then obtain i where "take_input bytes = Some i" using assms(3) m by (auto simp: step18_def fault_simps)
    then show ?thesis using assms(3) m MRead by (cases i) (auto simp: step18_def)
  next
    case (Print r l)
    then show ?thesis
      using assms(3) m v by (cases l) (auto simp: step18_def fault_simps dest!: lock_pcs)
  qed (use assms(3) m v in \<open>auto simp: step18_def fault_simps dest!: lock_pcs unlock_pcs split: if_splits\<close>)
  then show ?thesis using assms(2) by (auto simp: roles18_def)
qed


text \<open>All steps: the lines stay, or a line is appended, or the main thread has freed the last node.\<close>

lemma step18_kept:
  assumes inv: "inv18 xs os s" "roles18 (lpcs s)" and st: "step18 pad t bytes s = Some s'"
  shows "roles18 (lpcs s') \<and> ((\<exists>q. lpcs s' ! 0 = MDestroy q) \<or>
    (if t = 0 then kept xs s s' else sort_result t (lpcs s ! t) xs s s'))"
proof -
  have t: "t < length (lpcs s)" using st by (auto simp: step18_def fault_simps)
  let ?p = "lpcs s ! t"
  show ?thesis
  proof (cases "t = 0")
    case True
    have "kept xs s s' \<or> (\<exists>q. lpcs s' ! 0 = MDestroy q)"
    proof (cases "in_push ?p \<or> in_print ?p \<or> in_clear ?p")
      case False
      then show ?thesis using st True t main_step_kept[OF inv(1), of ?p] by (auto simp: step18_def)
    next
      case c: True
      consider "in_push ?p" | "\<not> in_push ?p" "in_print ?p" | "\<not> in_push ?p" "\<not> in_print ?p" "in_clear ?p" using c by blast
      then show ?thesis
      proof cases
        case 1
        then show ?thesis using st t push_step[OF inv(1) t refl, of pad] by (auto simp: step18_def)
      next
        case 2
        then show ?thesis using st t print_step[OF inv(1) t refl] by (auto simp: step18_def)
      next
        case 3
        then show ?thesis using st t True clear_step[OF inv(1) t refl, of s'] by (auto simp: step18_def)
      qed
    qed
    then show ?thesis using main_roles[OF inv] st True by auto
  next
    case False
    then have so: "sorting ?p" using inv(2) t by (simp add: roles18_def)
    then have "sortThread t ?p s = Some s'" using step18_sorter[OF t so] st False by simp
    then have r: "sort_result t ?p xs s s'" using sorter_step[OF inv(1) t refl so] by auto
    then have "roles18 (lpcs s')"
      using roles18_update[OF inv(2) _ t] sort_next_sorting[OF so] False by (auto simp: sort_result_def)
    then show ?thesis using r False by simp
  qed
qed

lemma sort_next_lines: "valid (length xs) p \<Longrightarrow> mset (snd (sort_next fin xs p)) = mset xs \<and> length (snd (sort_next fin xs p)) = length xs"
  by (cases "(fin, xs, p)" rule: sort_next.cases) (auto simp: exchange_mset)

text \<open>Freed cells stay freed, so that a main thread that waits for a freed mutex waits forever.\<close>

definition dead :: "lab18 \<Rightarrow> bool" where
  "dead s \<longleftrightarrow> (\<exists>q < length (nodes s). lpcs s ! 0 = MDestroy q \<and> nodes s ! q = Freed)"

definition frees_kept :: "lab18 \<Rightarrow> lab18 \<Rightarrow> bool" where
  "frees_kept s s' \<longleftrightarrow> length (nodes s') = length (nodes s) \<and> (\<forall>q. nodes s ! q = Freed \<longrightarrow> nodes s' ! q = Freed)"

lemma lock_freed: "lock_node t p s = Some s' \<Longrightarrow> lpcs s' = lpcs s \<and> frees_kept s s'"
  by (auto simp: lock_node_def frees_kept_def fault_simps nth_list_update split: if_splits)

lemma unlock_freed: "unlock_node t p s = Some s' \<Longrightarrow> lpcs s' = lpcs s \<and> frees_kept s s'"
  by (auto simp: unlock_node_def frees_kept_def fault_simps nth_list_update split: if_splits)

lemma lgo_freed [simp]: "frees_kept s (lgo t p s') = frees_kept s s'"
  by (simp add: frees_kept_def)

lemma sort_freed:
  assumes "sortThread t p s = Some s'"
  shows "frees_kept s s' \<and> length (lpcs s') = length (lpcs s) \<and> (\<forall>u. u \<noteq> t \<longrightarrow> lpcs s' ! u = lpcs s ! u) \<and>
    (t < length (lpcs s) \<longrightarrow> sorting (lpcs s' ! t))"
proof (cases "\<exists>q srt. p = SBoth q srt")
  case True
  then show ?thesis using assms by (auto simp: fault_simps frees_kept_def nth_list_update split: if_splits)
next
  case False
  then show ?thesis
    using assms by (cases "(t, p, s)" rule: sortThread.cases)
      (auto simp: fault_simps frees_kept_def[of s s] dest!: lock_freed unlock_freed split: if_splits option.splits)
qed

lemma step18_dead:
  assumes d: "dead s" "roles18 (lpcs s)" and st: "step18 pad t bytes s = Some s'"
  shows "dead s' \<and> roles18 (lpcs s')"
proof -
  have t: "t < length (lpcs s)" using st by (auto simp: step18_def fault_simps)
  have t0: "0 < t" using d st t by (cases t) (auto simp: step18_def dead_def fault_simps)
  then have so: "sorting (lpcs s ! t)" using d(2) t by (simp add: roles18_def)
  then have "sortThread t (lpcs s ! t) s = Some s'" using step18_sorter[OF t so t0] st by simp
  note f = sort_freed[OF this]
  have "roles18 (lpcs s')" unfolding roles18_def
  proof (intro conjI allI impI)
    show "lpcs s' \<noteq> []" using f t by auto
    show "main_pc (lpcs s' ! 0)" using f d(2) t0 by (simp add: roles18_def)
    show "sorting (lpcs s' ! u)" if "u < length (lpcs s')" "0 < u" for u
      using f d(2) t that by (cases "u = t") (auto simp: roles18_def)
  qed
  moreover have "dead s'" using d(1) f t0 by (auto simp: dead_def frees_kept_def)
  ultimately show ?thesis by simp
qed

definition live :: "lab18 \<Rightarrow> bool" where
  "live s \<longleftrightarrow> roles18 (lpcs s) \<and> (dead s \<or> (\<exists>xs os. inv18 xs os s))"

lemma clear_dead:
  assumes "inv18 xs os s" "roles18 (lpcs s)" "step18 pad t bytes s = Some s'" "lpcs s' ! 0 = MDestroy q"
  shows "dead s'"
proof -
  have t: "t < length (lpcs s)" using assms(3) by (auto simp: step18_def fault_simps)
  have v: "valid (length xs) (lpcs s ! 0)" "nodes s = cells18 xs os" "mainlist s = Some 0"
    using assms(1,2) by (auto simp: inv18_def list_all_length roles18_def)
  have "t = 0"
  proof (rule ccontr)
    assume "t \<noteq> 0"
    then have "sorting (lpcs s ! t)" using assms(2) t by (simp add: roles18_def)
    then have "sortThread t (lpcs s ! t) s = Some s'" using step18_sorter[OF t] assms(3) \<open>t \<noteq> 0\<close> by simp
    from sort_freed[OF this] have "lpcs s' ! 0 = lpcs s ! 0" using \<open>t \<noteq> 0\<close> by simp
    then have "lpcs s ! 0 = MDestroy q" using assms(4) by simp
    then show False using v(1) by simp
  qed
  let ?p = "lpcs s ! 0"
  have p: "main_pc ?p" using assms(2) by (simp add: roles18_def)
  have "in_clear ?p"
  proof (rule ccontr)
    assume "\<not> in_clear ?p"
    then have "kept xs s s'"
      using assms \<open>t = 0\<close> step18_kept[OF assms(1-3)] t main_step_kept[OF assms(1), of ?p]
        push_step[OF assms(1) t refl, of pad] print_step[OF assms(1) t refl] by (auto simp: step18_def split: if_splits)
    then obtain ys ws where "inv18 ys ws s'" by (auto simp: kept_def)
    moreover have "lpcs s' \<noteq> []" using step18_kept[OF assms(1-3)] by (simp add: roles18_def)
    ultimately show False using assms(4) by (auto simp: inv18_def list_all_length)
  qed
  then show ?thesis
    using v t \<open>t = 0\<close> assms(3,4) p
    by (cases ?p) (auto simp: step18_def dead_def fault_simps split: if_splits)
qed

lemma act_live: "live s \<Longrightarrow> act pad a s = Some s' \<Longrightarrow> live s'"
proof (cases a)
  case Signal
  assume "live s" "act pad a s = Some s'"
  moreover have "inv18 xs os (sig_handler s) = inv18 xs os s" for xs os by (simp add: inv18_def sig_handler_def)
  moreover have "dead (sig_handler s) = dead s" "lpcs (sig_handler s) = lpcs s" by (simp_all add: dead_def sig_handler_def)
  ultimately show ?thesis using Signal by (auto simp: live_def)
next
  case (Thread t bytes)
  assume s: "live s" "act pad a s = Some s'"
  then have st: "step18 pad t bytes s = Some s'" using Thread by simp
  show ?thesis
  proof (cases "dead s")
    case True
    then show ?thesis using step18_dead[OF True _ st] s(1) by (auto simp: live_def)
  next
    case False
    then obtain xs os where inv: "inv18 xs os s" "roles18 (lpcs s)" using s(1) by (auto simp: live_def)
    show ?thesis
      using step18_kept[OF inv st] clear_dead[OF inv st]
      by (auto simp: live_def kept_def sort_result_def split: if_splits)
  qed
qed

lemma run18_live: "live s \<Longrightarrow> run18 pad as s = Some s' \<Longrightarrow> live s'"
  by (induction as arbitrary: s) (auto simp: fault_simps dest: act_live)

subsection \<open>Correctness once the list has a node\<close>

text \<open>After the first line was typed, with all sorting threads still asleep.\<close>

definition first18 :: "nat \<Rightarrow> string \<Rightarrow> lab18" where
  "first18 created l = (main18 created)\<lparr>nodes := cells18 [l] [None], mainlist := Some 0, pushed := [l]\<rparr>"

definition main_acts :: "string \<Rightarrow> act18 list" where
  "main_acts l = [Thread 0 None, Thread 0 (Some l), Thread 0 None, Thread 0 None]"

lemma main18_sel [simp]:
  "nodes (main18 n) = []" "mainlist (main18 n) = None" "finished (main18 n) = False" "pushed (main18 n) = []"
  "lpcs (main18 n) = MTest # replicate (min n 100) STest"
  "threadCount (main18 n) = (if n < 100 then n + 1 else 100)"
  by (simp_all add: main18_def Let_def)

lemma first_line:
  assumes "0 < pad" "take_input (Some line) = Some (Line l)"
  shows "run18 pad (main_acts line) (main18 created) = Some (first18 created l)"
proof -
  have "cells18 [l] [None] = [Cell \<lparr>sline = l, snext = None, sowner = None\<rparr>]" by (simp add: cells18_def)
  then show ?thesis
    using assms by (simp add: main_acts_def step18_def strcpy_def lgo_def first18_def)
qed

lemma asleep: "0 < t \<Longrightarrow> t < Suc (min n 100) \<Longrightarrow> replicate (min n 100) STest ! (t - Suc 0) = STest"
  by (rule nth_replicate) linarith

lemma first18_live: "NUL \<notin> set l \<Longrightarrow> live (first18 created l)"
proof -
  assume l: "NUL \<notin> set l"
  have "inv18 [l] [None] (first18 created l)"
    using l by (auto simp: inv18_def first18_def c_strings_def list_all_length nth_Cons' owns_def asleep)
  moreover have "roles18 (lpcs (first18 created l))" by (auto simp: roles18_def first18_def nth_Cons' asleep)
  ultimately show ?thesis by (auto simp: live_def)
qed

text \<open>
  C17: In \<open>Shinkevich/18\<close>, from the first line on and whatever the threads do: until the list is cleared it
  is a chain of initialised nodes from \<open>mainlist\<close> on that holds exactly the lines pushed. No line is
  lost or doubled by a hundred threads that exchange lines while another appends and prints them.
\<close>

theorem lab18_keeps_lines:
  assumes "NUL \<notin> set l" "run18 pad as (first18 created l) = Some s" "\<forall>q. lpcs s ! 0 \<noteq> MDestroy q"
  shows "\<exists>xs os. nodes s = cells18 xs os \<and> mainlist s = Some 0 \<and> mset xs = mset (pushed s)"
  using run18_live[OF first18_live[OF assms(1)] assms(2)] assms(3) unfolding live_def dead_def inv18_def by blast

theorem lab18_keeps_lines_witness:
  "\<exists>s xs os. run18 1 (main_acts [CHR ''a'', CHR 0x0A] @ [Thread 0 None]) (first18 2 ''b'') = Some s \<and>
     length (pushed s) = 2 \<and> nodes s = cells18 xs os \<and> mainlist s = Some 0 \<and> mset xs = mset (pushed s)"
proof -
  let ?r = "run18 1 (main_acts [CHR ''a'', CHR 0x0A] @ [Thread 0 None]) (first18 2 ''b'')"
  have "(case ?r of Some s \<Rightarrow> lpcs s ! 0 = MTest \<and> length (pushed s) = 2 | None \<Rightarrow> False)" by code_simp
  then obtain s where s: "?r = Some s" "lpcs s ! 0 = MTest" "length (pushed s) = 2" unfolding case_True by blast
  from lab18_keeps_lines[OF _ s(1)] show ?thesis using s by auto
qed

text \<open>The holder of the last mutex that is held waits for none.\<close>

lemma last_holder:
  assumes inv: "inv18 xs os s" "roles18 (lpcs s)" and held: "i < length xs" "os ! i \<noteq> None" and pad: "0 < pad"
  shows "\<exists>u < length (lpcs s). held (lpcs s ! u) \<noteq> {} \<and> step18 pad u bytes s \<noteq> None"
proof -
  define H where "H = {i. i < length xs \<and> os ! i \<noteq> None}"
  have H: "finite H" "i \<in> H" using held by (auto simp: H_def)
  define m where "m = Max H"
  have "m \<in> H" using Max_in[of H] H unfolding m_def by blast
  then have m: "m < length xs" "os ! m \<noteq> None" unfolding H_def by simp_all
  have top: "os ! j = None" if "m < j" "j < length xs" for j
  proof (rule ccontr)
    assume "os ! j \<noteq> None"
    then have "j \<in> H" using that(2) by (simp add: H_def)
    from Max_ge[OF H(1) this] that(1) show False by (simp add: m_def)
  qed
  obtain u where "os ! m = Some u" using m by blast
  then have u: "u < length (lpcs s)" "m \<in> held (lpcs s ! u)" using inv(1) m by (auto simp: inv18_def owns_def)
  have v: "valid (length xs) (lpcs s ! u)" using inv(1) u(1) by (auto simp: inv18_def list_all_length)
  have free: "wants (length xs) (lpcs s ! u) = Some j \<Longrightarrow> j < length xs \<Longrightarrow> os ! j = None" for j
    using u(2) top by (cases "lpcs s ! u") auto
  have "step18 pad u bytes s \<noteq> None"
  proof (cases "u = 0")
    case True
    have "in_push (lpcs s ! u) \<or> in_print (lpcs s ! u)"
      using inv(2) True u(2) by (cases "lpcs s ! u") (auto simp: roles18_def)
    then show ?thesis
      using push_step[OF inv(1) u(1) refl, of pad] print_step[OF inv(1) u(1) refl] free u(1) pad
      by (auto simp: step18_def)
  next
    case False
    then have "sorting (lpcs s ! u)" using inv(2) u(1) by (simp add: roles18_def)
    then show ?thesis
      using sorter_step[OF inv(1) u(1) refl] free u step18_sorter[OF u(1)] False by fastforce
  qed
  then show ?thesis using u by blast
qed



subsection \<open>The list gets sorted\<close>

text \<open>
  An inversion of neighbours \<open>i\<close> and \<open>i + 1\<close> is covered by a thread that will still come by: one that
  has to make another pass, or that has not yet compared the two in this one.
\<close>

fun covers :: "nat \<Rightarrow> lpc \<Rightarrow> bool" where
  "covers i SPass = True"
| "covers i (SNode l srt) = (\<not> srt \<or> (\<exists>q. l = Some q \<and> q \<le> i))"
| "covers i (SHead q srt) = (\<not> srt \<or> q \<le> i)"
| "covers i (SBoth q srt) = (\<not> srt \<or> q \<le> i)"
| "covers i (SUnl2 q srt) = (\<not> srt \<or> q < i)"
| "covers i (SUnl q srt) = (\<not> srt \<or> q < i)"
| "covers i (SNext q srt) = (\<not> srt \<or> q < i)"
| "covers i p = False"

definition covered :: "string list \<Rightarrow> lpc list \<Rightarrow> bool" where
  "covered xs ps \<longleftrightarrow> (\<forall>i. Suc i < length xs \<and> xs ! Suc i < xs ! i \<longrightarrow> (\<exists>t < length ps. covers i (ps ! t)))"

lemma covers_sorting: "covers i p \<Longrightarrow> sorting p"
  by (cases p) auto

lemma sort_next_covers:
  assumes "sort_next fin xs p = (p', xs')" "valid (length xs) p"
    and "Suc i < length xs" "xs' ! Suc i < xs' ! i"
  shows "covers i p' \<or> xs' = xs \<and> \<not> covers i p"
proof (cases "\<exists>q srt. p = SBoth q srt")
  case True
  then show ?thesis using assms by (auto split: if_splits simp: le_less)
next
  case False
  then show ?thesis using assms by (cases "(fin, xs, p)" rule: sort_next.cases) (auto split: if_splits)
qed

lemma covered_step:
  assumes c: "covered xs ps" and t: "t < length ps" and v: "valid (length xs) (ps ! t)"
    and n: "sort_next fin xs (ps ! t) = (p', xs')"
  shows "covered xs' (ps[t := p'])"
  unfolding covered_def
proof (intro allI impI)
  fix i assume "Suc i < length xs' \<and> xs' ! Suc i < xs' ! i"
  moreover have "length xs' = length xs" using sort_next_lines[OF v, of fin] n by simp
  ultimately have i: "Suc i < length xs" "xs' ! Suc i < xs' ! i" by auto
  from sort_next_covers[OF n v i] show "\<exists>u < length (ps[t := p']). covers i (ps[t := p'] ! u)"
  proof
    assume "covers i p'"
    then show ?thesis using t by (intro exI[of _ t]) simp
  next
    assume "xs' = xs \<and> \<not> covers i (ps ! t)"
    then obtain u where "u < length ps" "covers i (ps ! u)" "u \<noteq> t" using c i by (auto simp: covered_def)
    then show ?thesis by (intro exI[of _ u]) simp
  qed
qed

lemma covered_main: "covered xs ps \<Longrightarrow> \<not> sorting (ps ! 0) \<Longrightarrow> covered xs (ps[0 := p])"
proof -
  assume c: "covered xs ps" "\<not> sorting (ps ! 0)"
  have "u \<noteq> 0" if "covers i (ps ! u)" for i u using that c(2) covers_sorting by (cases u) auto
  then show ?thesis using c(1) unfolding covered_def by (metis length_list_update nth_list_update_neq)
qed

lemma main_not_sorting: "main_pc p \<Longrightarrow> \<not> sorting p"
  by (cases p) auto

text \<open>A step of the main thread changes no other program counter.\<close>

definition only :: "nat \<Rightarrow> lab18 \<Rightarrow> lab18 \<Rightarrow> bool" where
  "only t s s' \<longleftrightarrow> length (lpcs s') = length (lpcs s) \<and> (\<forall>u. u \<noteq> t \<longrightarrow> lpcs s' ! u = lpcs s ! u) \<and>
     finished s' = finished s"

lemma only_lgo [simp]: "lpcs s' = lpcs s \<Longrightarrow> finished s' = finished s \<Longrightarrow> only t s (lgo t p s')"
  by (simp add: only_def)

lemma only_update: "only t s s' \<Longrightarrow> t < length (lpcs s) \<Longrightarrow> lpcs s' = (lpcs s)[t := lpcs s' ! t]"
proof (intro nth_equalityI)
  fix i assume "only t s s'" "t < length (lpcs s)" "i < length (lpcs s')"
  then show "lpcs s' ! i = (lpcs s)[t := lpcs s' ! t] ! i" by (cases "i = t") (auto simp: only_def)
qed (simp add: only_def)

lemma lock_only: "lock_node t p s = Some s' \<Longrightarrow> lpcs s' = lpcs s \<and> finished s' = finished s"
  by (auto simp: lock_node_def fault_simps split: if_splits)

lemma unlock_only: "unlock_node t p s = Some s' \<Longrightarrow> lpcs s' = lpcs s \<and> finished s' = finished s"
  by (auto simp: unlock_node_def fault_simps split: if_splits)

lemma push_only: "pushLine pad t p s = Some s' \<Longrightarrow> only t s s'"
  by (cases "(pad, t, p, s)" rule: pushLine.cases) (auto simp: fault_simps dest!: lock_only unlock_only split: if_splits)

lemma print_only: "printList t p s = Some s' \<Longrightarrow> only t s s'"
  by (cases "(t, p, s)" rule: printList.cases) (auto simp: fault_simps dest!: lock_only unlock_only)

lemma clear_only: "clearList t p s = Some s' \<Longrightarrow> only t s s'"
  by (cases "(t, p, s)" rule: clearList.cases) (auto simp: fault_simps split: if_splits)

lemma main_only: "main_step bytes p s = Some s' \<Longrightarrow> only 0 s s'"
  by (cases "(bytes, p, s)" rule: main_step.cases) (auto simp: fault_simps split: if_splits)

lemma step18_only: "step18 pad 0 bytes s = Some s' \<Longrightarrow> only 0 s s'"
  by (auto simp: step18_def fault_simps split: if_splits dest: push_only print_only clear_only main_only)

text \<open>A run that pushes nothing keeps every inversion covered.\<close>

lemma step_pushes:
  assumes "inv18 xs os s" "roles18 (lpcs s)" "step18 pad t bytes s = Some s'" "\<forall>q. lpcs s' ! 0 \<noteq> MDestroy q"
  shows "(\<exists>ys. pushed s' = pushed s @ ys) \<and> (covered xs (lpcs s) \<and> pushed s' = pushed s \<longrightarrow>
    (\<exists>ys os. inv18 ys os s' \<and> covered ys (lpcs s')))"
proof -
  have t: "t < length (lpcs s)" using assms(3) by (auto simp: step18_def fault_simps)
  have v: "valid (length xs) (lpcs s ! t)" using assms(1) t by (auto simp: inv18_def list_all_length)
  note k = step18_kept[OF assms(1-3)]
  show ?thesis
  proof (cases "t = 0")
    case True
    then have "kept xs s s'" using k assms(4) by auto
    moreover have "covered xs (lpcs s')" if "covered xs (lpcs s)"
    proof -
      have o: "only 0 s s'" using step18_only assms(3) True by simp
      have "lpcs s' = (lpcs s)[0 := lpcs s' ! 0]"
        using only_update[OF o] t True by simp
      moreover have "\<not> sorting (lpcs s ! 0)" using assms(2) main_not_sorting by (simp add: roles18_def)
      ultimately show ?thesis using covered_main[OF that] by metis
    qed
    ultimately show ?thesis by (auto simp: kept_def)
  next
    case False
    then have r: "sort_result t (lpcs s ! t) xs s s'" using k assms(4) by auto
    then show ?thesis
      using covered_step[OF _ t v prod.collapse[symmetric], of "finished s"] by (auto simp: sort_result_def)
  qed
qed


lemma sig_simps [simp]:
  "nodes (sig_handler s) = nodes s" "lpcs (sig_handler s) = lpcs s" "pushed (sig_handler s) = pushed s"
  "finished (sig_handler s)" "inv18 xs os (sig_handler s) = inv18 xs os s"
  by (simp_all add: sig_handler_def inv18_def)

lemma dead_stays:
  assumes "dead s" "roles18 (lpcs s)" "act pad a s = Some s'"
  shows "dead s' \<and> roles18 (lpcs s')"
proof (cases a)
  case Signal
  then show ?thesis using assms by (auto simp: dead_def)
next
  case (Thread t bytes)
  then have "step18 pad t bytes s = Some s'" using assms(3) by simp
  from step18_dead[OF assms(1,2) this] show ?thesis .
qed

lemma dead_run: "dead s \<Longrightarrow> roles18 (lpcs s) \<Longrightarrow> run18 pad as s = Some s' \<Longrightarrow> dead s'"
  by (induction as arbitrary: s) (auto simp: fault_simps dest: dead_stays)

lemma run_covered:
  assumes "run18 pad as s = Some s'" "inv18 xs os s" "roles18 (lpcs s)" "\<forall>q. lpcs s' ! 0 \<noteq> MDestroy q"
  shows "(\<exists>ys. pushed s' = pushed s @ ys) \<and> (covered xs (lpcs s) \<and> pushed s' = pushed s \<longrightarrow>
    (\<exists>ys os. inv18 ys os s' \<and> covered ys (lpcs s')))"
  using assms
proof (induction as arbitrary: s xs os)
  case (Cons a as)
  obtain s1 where s1: "act pad a s = Some s1" "run18 pad as s1 = Some s'" using Cons.prems(1) by (auto simp: fault_simps)
  show ?case
  proof (cases a)
    case Signal
    then show ?thesis using Cons.IH[of "sig_handler s"] Cons.prems s1 by auto
  next
    case (Thread t bytes)
    then have st: "step18 pad t bytes s = Some s1" using s1(1) by simp
    have nd: "\<forall>q. lpcs s1 ! 0 \<noteq> MDestroy q"
    proof (rule ccontr)
      assume "\<not> ?thesis"
      then have "dead s1" using clear_dead[OF Cons.prems(2,3) st] by blast
      moreover have "roles18 (lpcs s1)" using step18_kept[OF Cons.prems(2,3) st] by simp
      ultimately have "dead s'" using dead_run s1(2) by blast
      then show False using Cons.prems(4) by (auto simp: dead_def)
    qed
    have r1: "roles18 (lpcs s1)" using step18_kept[OF Cons.prems(2,3) st] by simp
    obtain ys ws where i1: "inv18 ys ws s1"
      using step18_kept[OF Cons.prems(2,3) st] nd by (auto simp: kept_def sort_result_def split: if_splits)
    note p1 = step_pushes[OF Cons.prems(2,3) st nd]
    note p2 = Cons.IH[OF s1(2) _ r1 Cons.prems(4)]
    show ?thesis using p1 p2 i1 by fastforce
  qed
qed auto

text \<open>
  C4: The threads of \<open>Shinkevich/18\<close> sort the list together: once any of them has begun a turn, and as long
  as no line is pushed, the list is in the order of \<open>strcmp\<close> whenever no thread is in the middle of a
  turn, however their passes overlapped and whatever is printed meanwhile.
\<close>

theorem lab18_sorts:
  assumes "NUL \<notin> set l" "run18 pad as (first18 created l) = Some s" "0 < t" "t < length (lpcs s)" "lpcs s ! t = SPass"
    and "run18 pad bs s = Some s'" "pushed s' = pushed s" "\<forall>q. lpcs s' ! 0 \<noteq> MDestroy q"
    and "\<forall>u < length (lpcs s'). 0 < u \<longrightarrow> lpcs s' ! u \<in> {STest, SEnd}"
  shows "\<exists>xs os. nodes s' = cells18 xs os \<and> mset xs = mset (pushed s) \<and> sorted xs"
proof -
  have "live s" using run18_live[OF first18_live[OF assms(1)] assms(2)] .
  moreover have "\<not> dead s" using dead_run assms(6,8) \<open>live s\<close> by (fastforce simp: live_def dead_def)
  ultimately obtain xs os where inv: "inv18 xs os s" "roles18 (lpcs s)" by (auto simp: live_def)
  have "covered xs (lpcs s)" using assms(4,5) by (auto simp: covered_def intro!: exI[of _ t])
  then obtain ys ws where ys: "inv18 ys ws s'" "covered ys (lpcs s')"
    using run_covered[OF assms(6) inv assms(8)] assms(7) by blast
  have r: "roles18 (lpcs s')" using run18_live[OF \<open>live s\<close> assms(6)] by (simp add: live_def)
  have "\<not> covers i (lpcs s' ! u)" if "u < length (lpcs s')" for i u
    using assms(9) that r main_not_sorting covers_sorting by (cases "u = 0") (auto simp: roles18_def)
  then have "\<not> ys ! Suc i < ys ! i" if "Suc i < length ys" for i using ys(2) that unfolding covered_def by blast
  then have "sorted ys" by (simp add: sorted_iff_nth_Suc not_less)
  then show ?thesis using ys(1) assms(7) by (auto simp: inv18_def)
qed

theorem lab18_sorts_witness:
  "\<exists>s s' xs os. run18 1 (main_acts [CHR ''a'', CHR 0x0A] @ [Thread 0 None, Thread 1 None]) (first18 2 ''b'') = Some s \<and>
     run18 1 (replicate 24 (Thread 1 None)) s = Some s' \<and> nodes s' = cells18 xs os \<and> mset xs = mset (pushed s) \<and>
     sorted xs"
proof -
  let ?r = "run18 1 (main_acts [CHR ''a'', CHR 0x0A] @ [Thread 0 None, Thread 1 None]) (first18 2 ''b'')"
  have "(case ?r of Some s \<Rightarrow> lpcs s ! 1 = SPass \<and> length (lpcs s) = 3 \<and>
      (case run18 1 (replicate 24 (Thread 1 None)) s of
        Some s' \<Rightarrow> lpcs s' = [MTest, STest, STest] \<and> pushed s' = pushed s | None \<Rightarrow> False) | None \<Rightarrow> False)" by code_simp
  then obtain s s' where s: "?r = Some s" "lpcs s ! 1 = SPass" "length (lpcs s) = 3"
    "run18 1 (replicate 24 (Thread 1 None)) s = Some s'" "lpcs s' = [MTest, STest, STest]" "pushed s' = pushed s"
    unfolding case_True by blast
  have "\<exists>xs os. nodes s' = cells18 xs os \<and> mset xs = mset (pushed s) \<and> sorted xs"
    by (rule lab18_sorts[OF _ s(1) _ _ s(2) s(4)]) (use s in \<open>auto simp: less_Suc_eq numeral_eq_Suc\<close>)
  then show ?thesis using s by blast
qed

subsection \<open>The end of the program\<close>

text \<open>
  How many steps a sorting thread has left once \<open>finished\<close> is set, in a list of \<open>k\<close> nodes: six for each
  node of its pass, and another pass when it has exchanged lines in this one.
\<close>

definition again :: "nat \<Rightarrow> bool \<Rightarrow> nat" where
  "again k srt = (if srt then 0 else 6 * k + 2)"

fun srank :: "nat \<Rightarrow> lpc \<Rightarrow> nat" where
  "srank k STest = 1"
| "srank k SPass = 6 * k + 3"
| "srank k (SNode None srt) = 2 + again k srt"
| "srank k (SNode (Some q) srt) = 6 * (k - q) + 2 + again k srt"
| "srank k (SHead q srt) = 6 * (k - q) + 1 + again k srt"
| "srank k (SBoth q srt) = 6 * (k - q) + again k srt"
| "srank k (SUnl2 q srt) = 6 * (k - q) - 1 + again k srt"
| "srank k (SUnl q srt) = 6 * (k - q) - 2 + again k srt"
| "srank k (SNext q srt) = 6 * (k - q) - 3 + again k srt"
| "srank k p = 0"

lemma srank_bound: "srank k p \<le> 2 * (6 * k + 3)"
  by (cases "(k, p)" rule: srank.cases) (auto simp: again_def)

lemma sort_next_rank:
  assumes "valid (length xs) p" "sorting p" "p \<noteq> SEnd" "xs \<noteq> []" "sort_next True xs p = (p', xs')"
  shows "(6 * length xs + 3) * inversions xs' + srank (length xs) p' <
    (6 * length xs + 3) * inversions xs + srank (length xs) p"
proof (cases "\<exists>q srt. p = SBoth q srt")
  case True
  then obtain q srt where q: "p = SBoth q srt" by blast
  show ?thesis
  proof (cases "xs ! Suc q < xs ! q")
    case True
    then have "p' = SUnl2 q False" "xs' = exchange q xs" using assms(5) q by auto
    moreover have "Suc (inversions (exchange q xs)) = inversions xs" using exchange_inversions True assms(1) q by auto
    moreover have "(6 * length xs + 3) * inversions xs = (6 * length xs + 3) * inversions (exchange q xs) + (6 * length xs + 3)"
      unfolding calculation(3)[symmetric] by simp
    ultimately show ?thesis using q assms(1) by (simp add: again_def)
  next
    case False
    then show ?thesis using assms q by auto
  qed
next
  case False
  then show ?thesis
    using assms by (cases "(True, xs, p)" rule: sort_next.cases) (auto simp: again_def next_of_def split: if_splits)
qed

definition total_rank :: "string list \<Rightarrow> lpc list \<Rightarrow> nat" where
  "total_rank xs ps = (6 * length xs + 3) * inversions xs + sum_list (map (srank (length xs)) ps)"

lemma total_rank_bound: "total_rank xs ps \<le> (6 * length xs + 3) * (length xs * length xs + 2 * length ps)"
proof -
  have "sum_list (map (srank k) ps) \<le> 2 * (6 * k + 3) * length ps" for k
  proof (induction ps)
    case (Cons p ps)
    then show ?case using add_mono[OF srank_bound[of k p] Cons.IH] by (simp add: algebra_simps)
  qed simp
  moreover have "(6 * length xs + 3) * inversions xs \<le> (6 * length xs + 3) * (length xs * length xs)"
    using inversions_bound[of xs] by (rule mult_le_mono2)
  ultimately have "total_rank xs ps \<le> (6 * length xs + 3) * (length xs * length xs) + 2 * (6 * length xs + 3) * length ps"
    unfolding total_rank_def by (rule add_mono[rotated])
  then show ?thesis by (simp add: algebra_simps)
qed

lemma sorter_rank:
  assumes inv: "inv18 xs os s" and t: "t < length (lpcs s)" "sorting (lpcs s ! t)" and fin: "finished s"
    and st: "sortThread t (lpcs s ! t) s = Some s'"
  shows "\<exists>ys ws. inv18 ys ws s' \<and> length ys = length xs \<and> total_rank ys (lpcs s') < total_rank xs (lpcs s) \<and>
    finished s' \<and> length (lpcs s') = length (lpcs s) \<and> pushed s' = pushed s"
proof -
  let ?p = "lpcs s ! t"
  obtain q ys where n: "sort_next True xs ?p = (q, ys)" by fastforce
  have r: "sort_result t ?p xs s s'" using sorter_step[OF inv t(1) refl t(2)] st by auto
  then obtain ws where ws: "inv18 ys ws s'" "lpcs s' = (lpcs s)[t := q]" "finished s'" "pushed s' = pushed s"
    using n fin by (auto simp: sort_result_def)
  have v: "valid (length xs) ?p" using inv t(1) by (auto simp: inv18_def list_all_length)
  have l: "length ys = length xs" using sort_next_lines[OF v, of True] n by simp
  have "?p \<noteq> SEnd" using st by auto
  then have "(6 * length xs + 3) * inversions ys + srank (length xs) q < (6 * length xs + 3) * inversions xs + srank (length xs) ?p"
    using sort_next_rank[OF v t(2) _ _ n] inv by (simp add: inv18_def)
  moreover have "sum_list (map (srank (length xs)) (lpcs s')) + srank (length xs) ?p =
      sum_list (map (srank (length xs)) (lpcs s)) + srank (length xs) q"
    using ws(2) t(1) member_le_sum_list[of "srank (length xs) ?p" "map (srank (length xs)) (lpcs s)"]
    by (simp add: map_update sum_list_update)
  ultimately show ?thesis using ws l by (auto simp: total_rank_def)
qed

lemma sorters_run:
  assumes "run18 pad (map (\<lambda>t. Thread t None) ts) s = Some s'" "\<forall>t \<in> set ts. 0 < t"
    and "inv18 xs os s" "roles18 (lpcs s)" "finished s"
  shows "\<exists>ys ws. inv18 ys ws s' \<and> roles18 (lpcs s') \<and> length ts + total_rank ys (lpcs s') \<le> total_rank xs (lpcs s) \<and>
    lpcs s' ! 0 = lpcs s ! 0 \<and> length (lpcs s') = length (lpcs s)"
  using assms
proof (induction ts arbitrary: s xs os)
  case (Cons t ts)
  obtain s1 where s1: "step18 pad t None s = Some s1" "run18 pad (map (\<lambda>t. Thread t None) ts) s1 = Some s'"
    using Cons.prems(1) by (auto simp: fault_simps)
  have t: "t < length (lpcs s)" "0 < t" using s1(1) Cons.prems(2) by (auto simp: step18_def fault_simps)
  then have so: "sorting (lpcs s ! t)" using Cons.prems(4) by (simp add: roles18_def)
  have st: "sortThread t (lpcs s ! t) s = Some s1" using step18_sorter[OF t(1) so t(2)] s1(1) by simp
  obtain ys ws where y: "inv18 ys ws s1" "total_rank ys (lpcs s1) < total_rank xs (lpcs s)" "finished s1"
    using sorter_rank[OF Cons.prems(3) t(1) so Cons.prems(5) st] by blast
  have "roles18 (lpcs s1)" using step18_kept[OF Cons.prems(3,4) s1(1)] by simp
  then obtain zs ws where "inv18 zs ws s'" "roles18 (lpcs s')" "length ts + total_rank zs (lpcs s') \<le> total_rank ys (lpcs s1)"
    "lpcs s' ! 0 = lpcs s1 ! 0" "length (lpcs s') = length (lpcs s1)"
    using Cons.IH[OF s1(2) _ y(1) _ y(3)] Cons.prems(2) by auto
  then show ?case using y(2) sort_freed[OF st] t(2) by auto
qed auto

text \<open>
  C21: When \<open>SIGINT\<close> has come and the main thread of \<open>Shinkevich/18\<close> waits in a join, the sorting threads all end:
  with \<open>k\<close> lines and \<open>n\<close> threads they make at most \<open>(6k + 3) (k^2 + 2n)\<close> more steps in any schedule, and
  when none of them can make one, each has ended.
\<close>

theorem lab18_sorters_end:
  assumes "NUL \<notin> set l" "run18 pad as (first18 created l) = Some s" "finished s" "lpcs s ! 0 = MJoin i" "0 < pad"
    and "run18 pad (map (\<lambda>t. Thread t None) ts) s = Some s'" "\<forall>t \<in> set ts. 0 < t"
  shows "length ts \<le> (6 * length (nodes s) + 3) * (length (nodes s) * length (nodes s) + 2 * length (lpcs s)) \<and>
    ((\<forall>t > 0. step18 pad t None s' = None) \<longrightarrow> (\<forall>t < length (lpcs s'). 0 < t \<longrightarrow> lpcs s' ! t = SEnd))"
proof -
  obtain xs os where inv: "inv18 xs os s" "roles18 (lpcs s)"
    using run18_live[OF first18_live[OF assms(1)] assms(2)] assms(4) by (auto simp: live_def dead_def)
  obtain ys ws where y: "inv18 ys ws s'" "roles18 (lpcs s')" "length ts + total_rank ys (lpcs s') \<le> total_rank xs (lpcs s)"
    "lpcs s' ! 0 = lpcs s ! 0" using sorters_run[OF assms(6,7) inv assms(3)] by blast
  have "length ts \<le> (6 * length (nodes s) + 3) * (length (nodes s) * length (nodes s) + 2 * length (lpcs s))"
    using y(3) total_rank_bound[of xs "lpcs s"] inv(1) by (simp add: inv18_def)
  moreover have "lpcs s' ! t = SEnd" if stuck: "\<forall>t > 0. step18 pad t None s' = None" and t: "t < length (lpcs s')" "0 < t" for t
  proof (rule ccontr)
    assume ne: "lpcs s' ! t \<noteq> SEnd"
    have so: "sorting (lpcs s' ! t)" using y(2) t by (simp add: roles18_def)
    have "sortThread t (lpcs s' ! t) s' = None" using stuck t step18_sorter[OF t(1) so t(2), of pad None] by simp
    then obtain j where "j < length ys" "ws ! j \<noteq> None" using sorter_step[OF y(1) t(1) refl so] ne by auto
    then obtain u where u: "held (lpcs s' ! u) \<noteq> {}" "step18 pad u None s' \<noteq> None"
      using last_holder[OF y(1,2) _ _ assms(5)] by blast
    then have "u \<noteq> 0" using y(4) assms(4) by auto
    then show False using stuck u(2) by simp
  qed
  ultimately show ?thesis by blast
qed

theorem lab18_sorters_end_witness:
  "\<exists>s s'. run18 1 [Thread 1 None, Signal, Thread 0 None] (first18 1 ''b'') = Some s \<and>
     run18 1 (map (\<lambda>t. Thread t None) (replicate 7 1)) s = Some s' \<and> length (nodes s) = 1 \<and> length (lpcs s) = 2 \<and> 7 \<le> (9 * 5 :: nat)"
proof -
  let ?r = "run18 1 [Thread 1 None, Signal, Thread 0 None] (first18 1 ''b'')"
  have "(case ?r of Some s \<Rightarrow> finished s \<and> lpcs s ! 0 = MJoin 0 \<and> length (nodes s) = 1 \<and> length (lpcs s) = 2 \<and>
      (case run18 1 (map (\<lambda>t. Thread t None) (replicate 7 1)) s of Some s' \<Rightarrow> True | None \<Rightarrow> False) | None \<Rightarrow> False)" by code_simp
  then obtain s s' where s: "?r = Some s" "finished s" "lpcs s ! 0 = MJoin 0" "length (nodes s) = 1" "length (lpcs s) = 2"
    "run18 1 (map (\<lambda>t. Thread t None) (replicate 7 1)) s = Some s'" unfolding case_True by blast
  have "length (replicate 7 (1::nat)) \<le> (6 * length (nodes s) + 3) * (length (nodes s) * length (nodes s) + 2 * length (lpcs s))"
    using lab18_sorters_end[OF _ s(1-3) _ s(6)] by simp
  then show ?thesis using s by auto
qed

text \<open>
  \<open>Shinkevich/18\<close> cannot end properly: \<open>clearList\<close> frees the last node and then destroys the mutex in
  it. In every run from the first line on the main thread never gets past it.
\<close>

theorem lab18_clear_undefined:
  assumes "NUL \<notin> set l" "run18 pad as (first18 created l) = Some s"
  shows "lpcs s ! 0 \<noteq> MEnd \<and> (\<forall>q. lpcs s ! 0 = MDestroy q \<longrightarrow> nodes s ! q = Freed \<and> step18 pad 0 bytes s = None)"
proof -
  have lv: "live s" using run18_live[OF first18_live[OF assms(1)] assms(2)] .
  then have m: "main_pc (lpcs s ! 0)" "0 < length (lpcs s)" by (auto simp: live_def roles18_def)
  have "dead s" if "lpcs s ! 0 = MDestroy q" for q
  proof (rule ccontr)
    assume "\<not> dead s"
    then obtain xs os where "inv18 xs os s" using lv by (auto simp: live_def)
    then have "valid (length xs) (lpcs s ! 0)" using m(2) by (simp add: inv18_def list_all_length)
    then show False using that by simp
  qed
  then have "\<forall>q. lpcs s ! 0 = MDestroy q \<longrightarrow> nodes s ! q = Freed \<and> q < length (nodes s)" by (auto simp: dead_def)
  moreover have "lpcs s ! 0 \<noteq> MEnd" using m(1) by auto
  ultimately show ?thesis using m(2) by (auto simp: step18_def node_at_def)
qed

theorem lab18_clear_undefined_witness:
  "\<exists>s. run18 1 ([Signal] @ map (\<lambda>t. Thread t None) [1..<101] @ replicate 107 (Thread 0 None)) (first18 100 ''b'') = Some s \<and>
     lpcs s ! 0 = MDestroy 0 \<and> nodes s ! 0 = Freed \<and> step18 1 0 None s = None"
proof -
  let ?r = "run18 1 ([Signal] @ map (\<lambda>t. Thread t None) [1..<101] @ replicate 107 (Thread 0 None)) (first18 100 ''b'')"
  have "(case ?r of Some s \<Rightarrow> lpcs s ! 0 = MDestroy 0 | None \<Rightarrow> False)" by code_simp
  then obtain s where s: "?r = Some s" "lpcs s ! 0 = MDestroy 0" unfolding case_True by blast
  from lab18_clear_undefined[OF _ s(1), of None] show ?thesis using s by auto
qed

text \<open>
  \<open>pushLine\<close> of \<open>Shinkevich/18\<close> makes the first node visible before it is filled: with any number of sorting
  threads there is a schedule in which one of them locks a mutex that was never initialised.
\<close>

theorem lab18_first_node_race:
  assumes "0 < created" "take_input (Some line) = Some (Line l)"
  shows "\<exists>s. run18 pad [Thread 0 None, Thread 0 (Some line), Thread 0 None, Thread 1 None, Thread 1 None] (main18 created) = Some s \<and>
    lpcs s ! 1 = SNode (Some 0) True \<and> nodes s = [Fresh] \<and> step18 pad 1 bytes s = None"
proof -
  obtain k where k: "min created 100 = Suc k" using assms(1) by (cases created) auto
  then have "lpcs (main18 created) = MTest # STest # replicate k STest" by simp
  then show ?thesis
    using assms(2) by (simp add: step18_def lgo_def lock_node_def node_at_def)
qed

theorem lab18_first_node_race_witness:
  "\<exists>s. run18 1 [Thread 0 None, Thread 0 (Some [CHR ''a'', CHR 0x0A]), Thread 0 None, Thread 1 None, Thread 1 None] (main18 100) = Some s \<and>
    lpcs s ! 1 = SNode (Some 0) True \<and> nodes s = [Fresh] \<and> step18 1 1 None s = None"
  by (rule lab18_first_node_race[of _ _ "''a''"]) (simp_all add: take_input_def)

end
