(* ===== verification/ListLab19.thy ===== *)
theory ListLab19
  imports ListLab18
begin

text \<open>
  \<open>Shinkevich/19\<close>: the list of \<open>Shinkevich/18\<close> with two threads that push lines, the main thread and one that
  reads \<open>input.txt\<close>, and with sorting threads that leave their pass when \<open>finished\<close> is set. Thread 0 is the
  main thread, thread 1 the reader. The sleeps are left out: every thread may be slow.
\<close>

subsection \<open>Reading the file\<close>

text \<open>
  One turn of \<open>readThread\<close> at position \<open>pos\<close>, lines 101 to 119: what it got and its next position;
  \<open>None\<close> at the end of the file. At an empty line the position stays.
\<close>

definition read_line :: "string \<Rightarrow> nat \<Rightarrow> (input \<times> nat) option" where
  "read_line file pos =
     (let line = take 80 (drop pos file) in
      if line = [] then None
      else if hd line = CHR 0x0A then Some (Show, pos)
      else (let readBytes = Suc (length (takeWhile (\<lambda>c. c \<noteq> CHR 0x0A) (tl line))) in
            Some (Line (takeWhile (\<lambda>c. c \<noteq> NUL) (take readBytes line)), pos + readBytes + 1)))"

fun readThread :: "string \<Rightarrow> nat \<Rightarrow> lpc \<Rightarrow> lab18 \<Rightarrow> lab18 option" where
  "readThread file t (RTest pos) s = Some (lgo t (if finished s then REnd else RRead pos) s)"
| "readThread file t (RRead pos) s =
     (case read_line file pos of
        None \<Rightarrow> Some (lgo t REnd s)
      | Some (Show, pos) \<Rightarrow> Some (lgo t (Print (RTest pos) (mainlist s)) s)
      | Some (Line str, pos) \<Rightarrow> Some (lgo t (Push (RTest pos) (mainlist s) str) s))"
| "readThread file t p s = None"

subsection \<open>The list\<close>

fun pushLine :: "nat \<Rightarrow> nat \<Rightarrow> lpc \<Rightarrow> lab18 \<Rightarrow> lab18 option" where
  "pushLine pad t (Push r None str) s =
     Some (lgo t (Fill r (length (nodes s)) str)
       (s\<lparr>nodes := nodes s @ [Fresh], mainlist := Some (length (nodes s))\<rparr>))"
| "pushLine pad t (Fill r p str) s = do {
     l \<leftarrow> strcpy (length str + pad) str;
     h \<leftarrow> put_at (nodes s) p (Cell \<lparr>sline = l, snext = None, sowner = None\<rparr>);
     Some (lgo t r (s\<lparr>nodes := h, pushed := pushed s @ [str]\<rparr>)) }"
| "pushLine pad t (Push r (Some p) str) s = do {
     s \<leftarrow> lock_node t p s;
     Some (lgo t (InPush r p str) s) }"
| "pushLine pad t (InPush r p str) s = do {
     n \<leftarrow> node_at (nodes s) p;
     if snext n = None then do {
       l \<leftarrow> strcpy (length str + pad) str;
       let node = length (nodes s);
       h \<leftarrow> set_node (nodes s @ [Cell \<lparr>sline = l, snext = None, sowner = None\<rparr>]) p (n\<lparr>snext := Some node\<rparr>);
       Some (lgo t (EndPush r p) (s\<lparr>nodes := h, pushed := pushed s @ [str]\<rparr>)) }
     else Some (lgo t (Hop r p str) s) }"
| "pushLine pad t (EndPush r p) s = do { s \<leftarrow> unlock_node t p s; Some (lgo t r s) }"
| "pushLine pad t (Hop r p str) s = do { s \<leftarrow> unlock_node t p s; Some (lgo t (HopNext r p str) s) }"
| "pushLine pad t (HopNext r p str) s = do { n \<leftarrow> node_at (nodes s) p; Some (lgo t (Push r (snext n) str) s) }"
| "pushLine pad t p s = None"

text \<open>Here \<open>printList\<close> unlocks the node before it looks at \<open>next\<close>; the flag of \<open>PrintUnl\<close> is not used.\<close>

fun printList :: "nat \<Rightarrow> lpc \<Rightarrow> lab18 \<Rightarrow> lab18 option" where
  "printList t (Print r None) s = Some (lgo t r (s\<lparr>out := out s @ [''*Empty*'']\<rparr>))"
| "printList t (Print r (Some p)) s = do { s \<leftarrow> lock_node t p s; Some (lgo t (InPrint r p) s) }"
| "printList t (InPrint r p) s = do {
     n \<leftarrow> node_at (nodes s) p;
     Some (lgo t (PrintUnl r p True) (s\<lparr>out := out s @ [sline n]\<rparr>)) }"
| "printList t (PrintUnl r p b) s = do { s \<leftarrow> unlock_node t p s; Some (lgo t (PrintHop r p) s) }"
| "printList t (PrintHop r p) s = do {
     n \<leftarrow> node_at (nodes s) p;
     Some (lgo t (if snext n \<noteq> None then Print r (snext n) else r) s) }"
| "printList t p s = None"

fun clearList :: "nat \<Rightarrow> lpc \<Rightarrow> lab18 \<Rightarrow> lab18 option" where
  "clearList t (MClear None) s = Some (lgo t MEnd s)"
| "clearList t (MClear (Some p)) s = do {
     n \<leftarrow> node_at (nodes s) p;
     if snext n = None then do { h \<leftarrow> put_at (nodes s) p Freed; Some (lgo t (MDestroy p) (s\<lparr>nodes := h\<rparr>)) }
     else Some (lgo t (MClear (snext n)) s) }"
| "clearList t (MDestroy p) s = do { n \<leftarrow> node_at (nodes s) p; Some (lgo t MEnd s) }"
| "clearList t p s = None"

text \<open>A break out of the pass goes on as at its end.\<close>

fun sortThread :: "nat \<Rightarrow> lpc \<Rightarrow> lab18 \<Rightarrow> lab18 option" where
  "sortThread t STest s = Some (lgo t (if finished s then SEnd else SPass) s)"
| "sortThread t SPass s = Some (lgo t (SNode (mainlist s) True) s)"
| "sortThread t (SNode None srt) s = Some (lgo t (if srt then STest else SPass) s)"
| "sortThread t (SNode (Some p) srt) s = do { s \<leftarrow> lock_node t p s; Some (lgo t (SHead p srt) s) }"
| "sortThread t (SHead p srt) s = do {
     n \<leftarrow> node_at (nodes s) p;
     case snext n of
       None \<Rightarrow> Some (lgo t (SUnl p srt) s)
     | Some q \<Rightarrow> do { s \<leftarrow> lock_node t q s; Some (lgo t (SBoth p srt) s) } }"
| "sortThread t (SBoth p srt) s = do {
     n \<leftarrow> node_at (nodes s) p;
     q \<leftarrow> snext n;
     m \<leftarrow> node_at (nodes s) q;
     if strcmp (sline n) (sline m) > 0 then do {
       h \<leftarrow> set_node (nodes s) p (n\<lparr>sline := sline m\<rparr>);
       h \<leftarrow> set_node h q (m\<lparr>sline := sline n\<rparr>);
       Some (lgo t (SUnl2 p False) (s\<lparr>nodes := h\<rparr>)) }
     else Some (lgo t (SUnl2 p srt) s) }"
| "sortThread t (SUnl2 p srt) s = do {
     n \<leftarrow> node_at (nodes s) p;
     q \<leftarrow> snext n;
     s \<leftarrow> unlock_node t q s;
     Some (lgo t (SUnl p srt) s) }"
| "sortThread t (SUnl p srt) s = do { s \<leftarrow> unlock_node t p s; Some (lgo t (SNext p srt) s) }"
| "sortThread t (SNext p srt) s = do {
     n \<leftarrow> node_at (nodes s) p;
     Some (lgo t (SNode (if finished s then None else snext n) srt) s) }"
| "sortThread t p s = None"

subsection \<open>The program\<close>

text \<open>\<open>main\<close> joins the reader first.\<close>

fun main_step :: "string option \<Rightarrow> lpc \<Rightarrow> lab18 \<Rightarrow> lab18 option" where
  "main_step bytes MTest s = Some (lgo 0 (if finished s then MJoin 0 else MRead) s)"
| "main_step bytes MRead s = do {
     i \<leftarrow> take_input bytes;
     Some (lgo 0 (case i of Show \<Rightarrow> Print MTest (mainlist s) | Line str \<Rightarrow> Push MTest (mainlist s) str) s) }"
| "main_step bytes (MJoin i) s =
     (if i \<le> threadCount s then do {
        p \<leftarrow> get_at (lpcs s) (Suc i);
        if p = (if i = 0 then REnd else SEnd) then Some (lgo 0 (MJoin (Suc i)) s) else None }
      else Some (lgo 0 (Print MFinal (mainlist s)) s))"
| "main_step bytes MFinal s = Some (lgo 0 (MClear (mainlist s)) s)"
| "main_step bytes p s = None"

definition step19 :: "string \<Rightarrow> nat \<Rightarrow> nat \<Rightarrow> string option \<Rightarrow> lab18 \<Rightarrow> lab18 option" where
  "step19 file pad t bytes s = do {
     p \<leftarrow> get_at (lpcs s) t;
     if in_push p then pushLine pad t p s
     else if in_print p then printList t p s
     else if t = 0 then (if in_clear p then clearList t p s else main_step bytes p s)
     else if t = 1 then readThread file t p s
     else sortThread t p s }"

fun run19 :: "string \<Rightarrow> nat \<Rightarrow> act18 list \<Rightarrow> lab18 \<Rightarrow> lab18 option" where
  "run19 file pad [] s = Some s"
| "run19 file pad (Thread t bytes # as) s = do { s \<leftarrow> step19 file pad t bytes s; run19 file pad as s }"
| "run19 file pad (Signal # as) s = run19 file pad as (sig_handler s)"

text \<open>\<open>main\<close> up to its loop; \<open>opened\<close> tells whether \<open>input.txt\<close> could be opened.\<close>

definition main19 :: "bool \<Rightarrow> nat \<Rightarrow> lab18" where
  "main19 opened created =
     (let k = min created 5 in
      \<lparr>nodes = [], mainlist = None, finished = False, threadCount = (if k < 5 then k + 1 else 5),
       lpcs = MTest # (if opened then RTest 0 else REnd) # replicate k STest, pushed = [], out = []\<rparr>)"

subsection \<open>The steps of \<open>Shinkevich/18\<close> again\<close>

lemma pushLine_same: "pushLine pad t p s = ListLab18.pushLine pad t p s"
  by (cases "(pad, t, p, s)" rule: pushLine.cases) simp_all

lemma clearList_same: "clearList t p s = ListLab18.clearList t p s"
  by (cases "(t, p, s)" rule: clearList.cases) simp_all

lemma sortThread_same:
  "sortThread t p s = (case p of
     SNext q srt \<Rightarrow> if finished s then do { n \<leftarrow> node_at (nodes s) q; Some (lgo t (SNode None srt) s) }
       else ListLab18.sortThread t p s
   | _ \<Rightarrow> ListLab18.sortThread t p s)"
  by (cases "(t, p, s)" rule: sortThread.cases) simp_all

lemma sorter19_kept:
  assumes inv: "inv18 xs os s" and t: "t < length (lpcs s)" and st: "sortThread t (lpcs s ! t) s = Some s'"
  shows "\<exists>ys ws. inv18 ys ws s'"
proof -
  let ?p = "lpcs s ! t"
  have so: "sorting ?p" using st by (cases ?p) auto
  have v: "valid (length xs) ?p" using inv t by (auto simp: inv18_def list_all_length)
  show ?thesis
  proof (cases "\<exists>q srt. ?p = SNext q srt \<and> finished s")
    case True
    then obtain q srt where q: "?p = SNext q srt" "finished s" by blast
    then have "s' = lgo t (SNode None srt) s" using st by (auto simp: fault_simps)
    then show ?thesis using inv_go[OF inv t, of "SNode None srt"] q(1) by auto
  next
    case False
    then have "ListLab18.sortThread t ?p s = Some s'" using st by (auto simp: sortThread_same split: lpc.splits if_splits)
    then show ?thesis using sorter_step[OF inv t refl so] by (auto simp: sort_result_def)
  qed
qed

lemma print19_kept:
  assumes inv: "inv18 xs os s" and t: "t < length (lpcs s)" and p: "lpcs s ! t = p"
    and st: "printList t p s = Some s'"
  shows "\<exists>ys ws. inv18 ys ws s'"
proof -
  have v: "valid (length xs) p" using inv t p by (auto simp: inv18_def list_all_length)
  have i: "nodes s = cells18 xs os" "length os = length xs" using inv by (auto simp: inv18_def)
  have out: "\<exists>ys ws. inv18 ys ws (lgo t p' (s\<lparr>out := x\<rparr>))" if "valid (length xs) p'" "held p' = held p" for p' x
    using inv_go[OF inv t that(1)] that(2) p by (auto simp: inv18_def)
  show ?thesis
  proof (cases p)
    case (Print r l)
    show ?thesis
    proof (cases l)
      case None
      then show ?thesis using Print v st out[of r] home_free[of r "length xs"] by auto
    next
      case (Some q)
      then show ?thesis
        using v Print p st lock_cells[OF inv, of q t] inv_lock[OF inv t, of "InPrint r q" q] by (auto split: if_splits)
    qed
  next
    case (InPrint r q)
    then show ?thesis using v i st out[of "PrintUnl r q True"] by auto
  next
    case (PrintUnl r q b)
    then show ?thesis
      using v p i st unlock_cells[OF inv t, of q] inv_unlock[OF inv t, of "PrintHop r q" q] by auto
  next
    case (PrintHop r q)
    then have "inv18 xs os (lgo t (Print r (next_of (length xs) q)) s)" "inv18 xs os (lgo t r s)"
      using v p home_free[of r "length xs"] by (auto intro!: inv_go[OF inv t])
    then show ?thesis using v PrintHop i st by (auto split: if_splits)
  qed (use p st in auto)
qed

lemma main19_kept:
  assumes inv: "inv18 xs os s" and t: "0 < length (lpcs s)" and p: "lpcs s ! 0 = p" and st: "main_step bytes p s = Some s'"
  shows "\<exists>ys ws. inv18 ys ws s'"
proof -
  have i: "mainlist s = Some 0" "xs \<noteq> []" using inv by (auto simp: inv18_def)
  have go: "inv18 xs os (lgo 0 p' s)" if "valid (length xs) p'" "held p' = held p" for p'
    using inv_go[OF inv t that(1)] that(2) p by auto
  show ?thesis
  proof (cases p)
    case MTest
    then show ?thesis using st go[of MRead] go[of "MJoin 0"] by (auto split: if_splits)
  next
    case MRead
    then obtain i' where "take_input bytes = Some i'" using st by (auto simp: fault_simps)
    then show ?thesis
      using MRead st i go[of "Print MTest (Some 0)"] go[of "Push MTest (Some 0) (case i' of Line l \<Rightarrow> l)"] take_input_no_NUL
      by (cases i') auto
  next
    case (MJoin k)
    then show ?thesis using st i go[of "MJoin (Suc k)"] go[of "Print MFinal (Some 0)"]
      by (auto simp: fault_simps split: if_splits)
  next
    case MFinal
    then show ?thesis using st i go[of "MClear (Some 0)"] by auto
  qed (use p st in auto)
qed

lemma read_line_no_NUL: "read_line file pos = Some (Line str, pos') \<Longrightarrow> NUL \<notin> set str"
  by (auto simp: read_line_def Let_def split: if_splits dest: set_takeWhileD)

lemma reader_kept:
  assumes inv: "inv18 xs os s" and t: "1 < length (lpcs s)" and p: "lpcs s ! 1 = p" and st: "readThread file 1 p s = Some s'"
  shows "\<exists>ys ws. inv18 ys ws s'"
proof -
  have i: "mainlist s = Some 0" "xs \<noteq> []" using inv by (auto simp: inv18_def)
  have go: "inv18 xs os (lgo 1 p' s)" if "valid (length xs) p'" "held p' = held p" for p'
    using inv_go[OF inv t that(1)] that(2) p by auto
  show ?thesis
  proof (cases p)
    case (RTest pos)
    then show ?thesis using st go[of REnd] go[of "RRead pos"] by (auto split: if_splits)
  next
    case (RRead pos)
    show ?thesis
    proof (cases "read_line file pos")
      case None
      then show ?thesis using RRead st go[of REnd] by auto
    next
      case (Some r)
      obtain inp pos' where r: "r = (inp, pos')" by fastforce
      then show ?thesis
        using RRead Some st i go[of "Print (RTest pos') (Some 0)"] go[of "Push (RTest pos') (Some 0) (case inp of Line l \<Rightarrow> l)"]
          read_line_no_NUL by (cases inp) auto
    qed
  qed (use p st in auto)
qed

subsection \<open>Correctness once the list has a node\<close>

fun over :: "lpc \<Rightarrow> bool" where
  "over (MDestroy q) = True"
| "over MEnd = True"
| "over p = False"

lemma step19_kept:
  assumes inv: "inv18 xs os s" and st: "step19 file pad t bytes s = Some s'"
  shows "(\<exists>ys ws. inv18 ys ws s') \<or> over (lpcs s' ! 0)"
proof -
  have t: "t < length (lpcs s)" using st by (auto simp: step19_def fault_simps)
  let ?p = "lpcs s ! t"
  have g: "get_at (lpcs s) t = Some ?p" using t by simp
  have kept: "kept xs s s' \<Longrightarrow> \<exists>ys ws. inv18 ys ws s'" by (auto simp: kept_def)
  consider (push) "in_push ?p" | (print) "\<not> in_push ?p" "in_print ?p"
    | (clear) "\<not> in_push ?p" "\<not> in_print ?p" "t = 0" "in_clear ?p"
    | (main) "\<not> in_push ?p" "\<not> in_print ?p" "t = 0" "\<not> in_clear ?p"
    | (reader) "\<not> in_push ?p" "\<not> in_print ?p" "t = 1" | (sorter) "\<not> in_push ?p" "\<not> in_print ?p" "1 < t" by fastforce
  then show ?thesis
  proof cases
    case push
    then show ?thesis
      using st g kept push_step[OF inv t refl push, of pad] by (auto simp: step19_def pushLine_same)
  next
    case print
    then show ?thesis using st g print19_kept[OF inv t refl, of s'] by (simp add: step19_def)
  next
    case clear
    then have "ListLab18.clearList 0 ?p s = Some s'" using st g by (simp add: step19_def clearList_same)
    then show ?thesis using clear_step[OF inv t refl, of s'] clear kept by (metis over.simps(1))
  next
    case main
    then show ?thesis using st g t main19_kept[OF inv, of "lpcs s ! 0" bytes s'] by (simp add: step19_def)
  next
    case reader
    then show ?thesis using st g t reader_kept[OF inv, of "lpcs s ! 1" "file" s'] by (simp add: step19_def)
  next
    case sorter
    then show ?thesis using st g sorter19_kept[OF inv t, of s'] by (simp add: step19_def)
  qed
qed

lemma only_pc:
  "only t s s' \<Longrightarrow> t \<noteq> 0 \<Longrightarrow> lpcs s' ! 0 = lpcs s ! 0"
  by (simp add: only_def)

lemma sortThread_only: "sortThread t p s = Some s' \<Longrightarrow> only t s s'"
  by (cases "(t, p, s)" rule: sortThread.cases)
    (auto simp: fault_simps dest!: lock_only unlock_only split: if_splits option.splits)

lemma printList_only: "printList t p s = Some s' \<Longrightarrow> only t s s'"
  by (cases "(t, p, s)" rule: printList.cases) (auto simp: fault_simps dest!: lock_only unlock_only split: if_splits)

lemma readThread_only: "readThread file t p s = Some s' \<Longrightarrow> only t s s'"
  by (cases "(file, t, p, s)" rule: readThread.cases) (auto split: option.splits input.splits)

lemma main_step_only: "main_step bytes p s = Some s' \<Longrightarrow> only 0 s s'"
  by (cases "(bytes, p, s)" rule: main_step.cases) (auto simp: fault_simps split: if_splits)

lemma step19_only: "step19 file pad t bytes s = Some s' \<Longrightarrow> only t s s'"
  by (auto simp: step19_def fault_simps pushLine_same clearList_same split: if_splits
      dest: push_only printList_only clear_only main_step_only readThread_only sortThread_only)

lemma step19_over: "over (lpcs s ! 0) \<Longrightarrow> step19 file pad t bytes s = Some s' \<Longrightarrow> over (lpcs s' ! 0)"
proof (cases "t = 0")
  case True
  assume "over (lpcs s ! 0)" "step19 file pad t bytes s = Some s'"
  then show ?thesis using True by (cases "lpcs s ! 0") (auto simp: step19_def fault_simps split: if_splits)
next
  case False
  assume o: "over (lpcs s ! 0)" and st: "step19 file pad t bytes s = Some s'"
  show ?thesis using only_pc[OF step19_only[OF st] False] o by simp
qed

lemma run19_kept:
  "run19 file pad as s = Some s' \<Longrightarrow> over (lpcs s ! 0) \<or> (\<exists>xs os. inv18 xs os s) \<Longrightarrow>
     over (lpcs s' ! 0) \<or> (\<exists>xs os. inv18 xs os s')"
proof (induction "file" pad as s rule: run19.induct)
  case (2 "file" pad t bytes as s)
  then show ?case using step19_kept step19_over by (fastforce simp: fault_simps)
next
  case (3 "file" pad as s)
  then show ?case by auto
qed simp

definition first19 :: "bool \<Rightarrow> nat \<Rightarrow> string \<Rightarrow> lab18" where
  "first19 opened created l = (main19 opened created)\<lparr>nodes := cells18 [l] [None], mainlist := Some 0, pushed := [l]\<rparr>"

lemma main19_sel [simp]:
  "nodes (main19 b n) = []" "mainlist (main19 b n) = None" "finished (main19 b n) = False" "pushed (main19 b n) = []"
  "lpcs (main19 b n) = MTest # (if b then RTest 0 else REnd) # replicate (min n 5) STest" "out (main19 b n) = []"
  by (simp_all add: main19_def Let_def)

lemma first19_inv: "NUL \<notin> set l \<Longrightarrow> inv18 [l] [None] (first19 opened created l)"
proof -
  assume l: "NUL \<notin> set l"
  have f: "valid (Suc 0) p \<and> held p = {}" if "p \<in> set (lpcs (first19 opened created l))" for p
    using that by (auto simp: first19_def split: if_splits)
  have "list_all (valid (length [l])) (lpcs (first19 opened created l))" using f by (auto simp: list_all_iff)
  moreover have "owns [None] (lpcs (first19 opened created l))" using f by (auto simp: owns_def)
  ultimately show ?thesis using l by (auto simp: inv18_def first19_def c_strings_def)
qed



subsection \<open>The reader\<close>

abbreviation NL :: char where "NL \<equiv> CHR 0x0A"

fun read_all :: "nat \<Rightarrow> string \<Rightarrow> nat \<Rightarrow> string list" where
  "read_all 0 file pos = []"
| "read_all (Suc n) file pos =
     (case read_line file pos of Some (Line l, pos') \<Rightarrow> l # read_all n file pos' | _ \<Rightarrow> [])"

definition short_line :: "string \<Rightarrow> bool" where
  "short_line l \<longleftrightarrow> l \<noteq> [] \<and> NL \<notin> set l \<and> NUL \<notin> set l \<and> length l \<le> 80"

lemma takeWhile_all: "c \<notin> set xs \<Longrightarrow> takeWhile (\<lambda>x. x \<noteq> c) xs = xs"
  by (induction xs) auto

lemma takeWhile_to: "c \<notin> set xs \<Longrightarrow> takeWhile (\<lambda>x. x \<noteq> c) (xs @ c # ys) = xs"
  by (induction xs) auto

lemma read_line_step:
  assumes "short_line l" "drop pos src = l @ NL # rest"
  shows "read_line src pos = Some (Line l, pos + length l + 1)"
proof -
  obtain c cs where l: "l = c # cs" using assms(1) by (cases l) (auto simp: short_line_def)
  have cs: "NL \<notin> set cs" "c \<noteq> NL" "NUL \<notin> set l" "length cs \<le> 79" using assms(1) l by (auto simp: short_line_def)
  have line: "take 80 (drop pos src) = c # take 79 (cs @ NL # rest)" using assms(2) l by simp
  have "takeWhile (\<lambda>x. x \<noteq> NL) (take 79 (cs @ NL # rest)) = cs"
  proof (cases "length cs = 79")
    case True
    then show ?thesis using takeWhile_all[OF cs(1)] by simp
  next
    case False
    then obtain k where k: "79 - length cs = Suc k" using cs(4) by (cases "79 - length cs") auto
    then have "take 79 (cs @ NL # rest) = cs @ NL # take k rest" using cs(4) by simp
    then show ?thesis using takeWhile_to[OF cs(1)] by simp
  qed
  moreover have "take (Suc (length cs)) (c # take 79 (cs @ NL # rest)) = l"
    using l cs(4) by (simp add: min_def)
  ultimately show ?thesis
    using cs l takeWhile_all[OF cs(3)] by (simp add: read_line_def Let_def line)
qed

lemma read_all_lines:
  "\<forall>l \<in> set ls. short_line l \<Longrightarrow> drop pos src = concat (map (\<lambda>l. l @ [NL]) ls) \<Longrightarrow> length ls < n \<Longrightarrow>
     read_all n src pos = ls"
proof (induction ls arbitrary: pos n)
  case Nil
  then show ?case by (cases n) (auto simp: read_line_def)
next
  case (Cons l ls)
  obtain m where m: "n = Suc m" "length ls < m" using Cons.prems(3) by (cases n) auto
  have d: "drop pos src = l @ NL # concat (map (\<lambda>l. l @ [NL]) ls)" using Cons.prems(2) by simp
  have "drop (pos + length l + 1) src = drop (Suc (length l)) (drop pos src)" by (simp add: add.commute)
  then have "drop (pos + length l + 1) src = concat (map (\<lambda>l. l @ [NL]) ls)" unfolding d by simp
  from Cons.IH[OF _ this m(2)] show ?case
    using Cons.prems(1) read_line_step[OF _ d] unfolding m(1) by simp
qed

text \<open>
  The reader of \<open>Shinkevich/19\<close> gets the lines of a file of non-empty lines of at most 80 characters, each
  one once and in order, although it reads 80 bytes at a time and finds its place again by \<open>lseek\<close>.
\<close>

theorem lab19_reads_lines:
  assumes "\<forall>l \<in> set ls. short_line l"
  shows "read_all (Suc (length ls)) (concat (map (\<lambda>l. l @ [NL]) ls)) 0 = ls"
  by (rule read_all_lines[OF assms]) simp_all

theorem lab19_reads_lines_witness: "read_all 3 [CHR ''b'', NL, CHR ''a'', NL] 0 = [''b'', ''a'']"
  using lab19_reads_lines[of "[''b'', ''a'']"] by (simp add: short_line_def numeral_eq_Suc)

text \<open>The reader is at position \<open>pos\<close> and pushes nothing.\<close>

fun at_line :: "nat \<Rightarrow> lpc \<Rightarrow> bool" where
  "at_line pos (RTest q) = (q = pos)"
| "at_line pos (RRead q) = (q = pos)"
| "at_line pos REnd = True"
| "at_line pos (Print r l) = (r = RTest pos)"
| "at_line pos (InPrint r p) = (r = RTest pos)"
| "at_line pos (PrintUnl r p b) = (r = RTest pos)"
| "at_line pos (PrintHop r p) = (r = RTest pos)"
| "at_line pos p = False"

lemma printList_at:
  assumes "at_line pos p" "in_print p" "t < length (lpcs s)" "printList t p s = Some s'"
  shows "at_line pos (lpcs s' ! t)"
  using assms by (cases "(t, p, s)" rule: printList.cases)
    (auto simp: fault_simps dest!: lock_only unlock_only split: if_splits)

lemma step19_at:
  assumes blank: "read_line src pos = Some (Show, pos)" and at: "at_line pos (lpcs s ! 1)"
    and st: "step19 src pad t bytes s = Some s'"
  shows "at_line pos (lpcs s' ! 1)"
proof (cases "t = 1")
  case True
  let ?p = "lpcs s ! 1"
  have t: "1 < length (lpcs s)" using st True by (auto simp: step19_def fault_simps)
  have np: "\<not> in_push ?p" using at by (cases ?p) auto
  show ?thesis
  proof (cases "in_print ?p")
    case True
    then show ?thesis using st \<open>t = 1\<close> t np printList_at[OF at True t] by (simp add: step19_def)
  next
    case False
    then have "readThread src 1 ?p s = Some s'" using st \<open>t = 1\<close> t np by (simp add: step19_def)
    then show ?thesis using at blank t by (cases ?p) (auto split: if_splits)
  qed
next
  case False
  then show ?thesis using at step19_only[OF st] by (simp add: only_def)
qed

lemma run19_at:
  "run19 src pad as s = Some s' \<Longrightarrow> read_line src pos = Some (Show, pos) \<Longrightarrow> at_line pos (lpcs s ! 1) \<Longrightarrow>
     at_line pos (lpcs s' ! 1)"
proof (induction src pad as s rule: run19.induct)
  case (2 src pad t bytes as s)
  then show ?case using step19_at by (auto simp: fault_simps)
next
  case (3 src pad as s)
  then show ?case by simp
qed simp

text \<open>
  The reader of \<open>Shinkevich/19\<close> never gets past an empty line: \<open>pos\<close> stays there, and until the program
  ends it prints the list again and again and pushes no line that comes later in the file.
\<close>

theorem lab19_stops_at_empty_line:
  assumes "pos < length src" "src ! pos = NL" "lpcs s ! 1 = RTest pos" "run19 src pad as s = Some s'"
  shows "at_line pos (lpcs s' ! 1)"
proof -
  have "take 80 (drop pos src) \<noteq> []" "hd (take 80 (drop pos src)) = NL" using assms(1,2) by (simp_all add: hd_drop_conv_nth)
  then have "read_line src pos = Some (Show, pos)" by (simp add: read_line_def Let_def)
  then show ?thesis using run19_at[OF assms(4)] assms(3) by simp
qed

theorem lab19_stops_at_empty_line_witness:
  "\<exists>s s'. run19 [CHR ''x'', NL, NL, CHR ''y''] 1 (replicate 5 (Thread 1 None)) (first19 True 1 ''b'') = Some s \<and>
     run19 [CHR ''x'', NL, NL, CHR ''y''] 1 (replicate 10 (Thread 1 None)) s = Some s' \<and> at_line 2 (lpcs s' ! 1)"
proof -
  let ?f = "[CHR ''x'', NL, NL, CHR ''y'']"
  have "(case run19 ?f 1 (replicate 5 (Thread 1 None)) (first19 True 1 ''b'') of
      Some s \<Rightarrow> lpcs s ! 1 = RTest 2 \<and> (case run19 ?f 1 (replicate 10 (Thread 1 None)) s of Some s' \<Rightarrow> True | None \<Rightarrow> False)
    | None \<Rightarrow> False)" by code_simp
  then obtain s s' where s: "run19 ?f 1 (replicate 5 (Thread 1 None)) (first19 True 1 ''b'') = Some s" "lpcs s ! 1 = RTest 2"
    "run19 ?f 1 (replicate 10 (Thread 1 None)) s = Some s'" unfolding case_True by blast
  have "2 < length ?f" "?f ! 2 = NL" by simp_all
  from lab19_stops_at_empty_line[OF this s(2,3)] show ?thesis using s(1,3) by blast
qed

text \<open>
  C35: On an empty list the two threads of \<open>Shinkevich/19\<close> that push can lose a line: there is a schedule in which
  both have pushed theirs, and the list that starts at \<open>mainlist\<close> has only the second one.
\<close>

theorem lab19_loses_line:
  assumes "take_input (Some line) = Some (Line l1)" "read_line src 0 = Some (Line l2, pos)" "0 < pad"
  shows "\<exists>s. run19 src pad [Thread 0 None, Thread 0 (Some line), Thread 1 None, Thread 1 None,
      Thread 0 None, Thread 1 None, Thread 0 None, Thread 1 None] (main19 True created) = Some s \<and>
    pushed s = [l1, l2] \<and> mainlist s = Some 1 \<and> node_at (nodes s) 1 = Some \<lparr>sline = l2, snext = None, sowner = None\<rparr>"
  using assms by (simp add: step19_def lgo_def strcpy_def node_at_def)

theorem lab19_loses_line_witness:
  "\<exists>s. run19 [CHR ''x'', NL] 1 [Thread 0 None, Thread 0 (Some [CHR ''a'', NL]), Thread 1 None, Thread 1 None,
      Thread 0 None, Thread 1 None, Thread 0 None, Thread 1 None] (main19 True 5) = Some s \<and>
    pushed s = [''a'', ''x''] \<and> mainlist s = Some 1 \<and> node_at (nodes s) 1 = Some \<lparr>sline = ''x'', snext = None, sowner = None\<rparr>"
  by (rule lab19_loses_line) (simp_all add: take_input_def read_line_def)

end
