(* ===== verification/MutexPrinting.thy ===== *)
theory MutexPrinting
  imports TurnTaking
begin

text \<open>
  The labs that print in turn with mutexes. Their threads hand three or more mutexes round, and why
  this works differs from one to the next; but for a given number of threads the states are few. So the
  promise of \<open>TurnTaking\<close> is checked here by exploring all states, level by level: \<open>explore\<close> computes the
  states after each number of steps and tests them, and \<open>explored\<close> says what its answer means.
  Below it, error checking mutexes: \<open>lock\<close> and \<open>unlock\<close> say whether the call succeeds.
\<close>

subsection \<open>Exploring all schedules\<close>

definition succs :: "nat \<Rightarrow> nat \<Rightarrow> (nat \<Rightarrow> 's \<Rightarrow> 's option) \<Rightarrow> 's \<Rightarrow> 's list" where
  "succs i n step s = List.map_filter (\<lambda>t. step t s) [i..<n]"

text \<open>A state with its successors: by a step of thread 0, and by a step of another thread.\<close>

definition expand :: "nat \<Rightarrow> (nat \<Rightarrow> 's \<Rightarrow> 's option) \<Rightarrow> 's \<Rightarrow> 's \<times> 's list \<times> 's list" where
  "expand n step s = (s, succs 0 1 step s, succs 1 n step s)"

fun starts :: "'a list \<Rightarrow> 'a list \<Rightarrow> bool" where
  "starts [] ys = True"
| "starts (x # xs) [] = False"
| "starts (x # xs) (y # ys) = (x = y \<and> starts xs ys)"

fun state_ok :: "(nat \<times> nat) list \<Rightarrow> ('s \<Rightarrow> (nat \<times> nat) list) \<Rightarrow> 's \<times> 's list \<times> 's list \<Rightarrow> bool" where
  "state_ok all_lines out (s, here, there) =
     (starts (out s) all_lines \<and> (here = [] \<and> there = [] \<longrightarrow> length (out s) = length all_lines))"

text \<open>
  The states after some number of steps come in classes, by how many of the steps were thread 0's: two
  states of different classes are rarely equal, so duplicates are dropped within a class only.
  \<open>advance\<close> makes the next step; \<open>moved\<close> are the states that enter the next class.
\<close>

fun advance :: "'s list \<Rightarrow> ('s \<times> 's list \<times> 's list) list list \<Rightarrow> 's list list" where
  "advance moved [] = (if moved = [] then [] else [moved])"
| "advance moved (c # cs) =
     (if moved = [] \<and> c = [] then advance [] cs
      else remdups (moved @ concat (map (\<lambda>(s, here, there). there) c)) #
        advance (concat (map (\<lambda>(s, here, there). here) c)) cs)"

definition next_level ::
    "(nat \<times> nat) list \<Rightarrow> ('s \<Rightarrow> (nat \<times> nat) list) \<Rightarrow> ('s \<times> 's list \<times> 's list) list list \<Rightarrow> 's list list option" where
  "next_level all_lines out es =
     (if list_all (list_all (state_ok all_lines out)) es then Some (advance [] es) else None)"

fun explore_from ::
    "nat \<Rightarrow> (nat \<times> nat) list \<Rightarrow> (nat \<Rightarrow> 's \<Rightarrow> 's option) \<Rightarrow> ('s \<Rightarrow> (nat \<times> nat) list) \<Rightarrow> nat \<Rightarrow> 's list list \<Rightarrow> bool" where
  "explore_from n all_lines step out 0 cs = list_all (\<lambda>c. c = []) cs"
| "explore_from n all_lines step out (Suc k) cs =
     (case next_level all_lines out (map (map (expand n step)) cs) of
        Some cs' \<Rightarrow> explore_from n all_lines step out k cs'
      | None \<Rightarrow> False)"

definition explore ::
    "nat \<Rightarrow> nat \<Rightarrow> (nat \<Rightarrow> nat \<Rightarrow> nat) \<Rightarrow> (nat \<Rightarrow> 's \<Rightarrow> 's option) \<Rightarrow> ('s \<Rightarrow> (nat \<times> nat) list) \<Rightarrow> nat \<Rightarrow> 's \<Rightarrow> bool" where
  "explore n lines line step out k s = explore_from n (round_robin n line (n * lines)) step out k [[s]]"

lemma succs_in: "i \<le> t \<Longrightarrow> t < n \<Longrightarrow> step t s = Some s' \<Longrightarrow> s' \<in> set (succs i n step s)"
  by (force simp: succs_def map_filter_def)

lemma succs_empty: "(\<forall>t < n. step t s = None) \<Longrightarrow> 0 < n \<Longrightarrow> succs 0 1 step s = [] \<and> succs 1 n step s = []"
  by (auto simp: succs_def map_filter_def filter_empty_conv)

lemma starts_take: "starts xs ys \<longleftrightarrow> xs = take (length xs) ys"
  by (induction xs ys rule: starts.induct) auto

lemma starts_round_robin: "starts xs (round_robin n line k) \<Longrightarrow> xs = round_robin n line (length xs)"
  by (metis length_take min.absorb2 min.commute round_robin_length round_robin_take starts_take nat_le_linear take_all)

lemma advance_set: "set (concat (advance moved es)) = set moved \<union> (\<Union>c \<in> set es. \<Union>e \<in> set c. set (fst (snd e)) \<union> set (snd (snd e)))"
  by (induction moved es rule: advance.induct) (auto simp: case_prod_beta)

lemma explored_from:
  assumes "explore_from n (round_robin n line (n * lines)) step out k cs" "s0 \<in> set (concat cs)" "set ts \<subseteq> {..<n}" "0 < n"
    "run_schedule step ts s0 = Some s"
  shows "out s = round_robin n line (length (out s)) \<and> length ts < k \<and>
    ((\<forall>t < n. step t s = None) \<longrightarrow> out s = round_robin n line (n * lines))"
  using assms
proof (induction ts arbitrary: k cs s0)
  case Nil
  then obtain j where k: "k = Suc j" by (cases k) (auto simp: list_all_iff)
  then have "state_ok (round_robin n line (n * lines)) out (expand n step s)"
    using Nil by (auto simp: list_all_iff next_level_def split: if_splits)
  then show ?case using k starts_round_robin[of "out s" n line "n * lines"] succs_empty[of n step s] Nil.prems(4)
    by (auto simp: expand_def)
next
  case (Cons t ts)
  obtain j where k: "k = Suc j" using Cons.prems(1,2) by (cases k) (auto simp: list_all_iff)
  obtain s1 where s1: "step t s0 = Some s1" "run_schedule step ts s1 = Some s" using Cons.prems(5) by (auto simp: fault_simps)
  have "s1 \<in> set (succs 0 1 step s0) \<union> set (succs 1 n step s0)"
    using succs_in[of 0 t 1 step s0 s1] succs_in[of 1 t n step s0 s1] s1(1) Cons.prems(3) by (cases t) auto
  then have "s1 \<in> set (concat (advance [] (map (map (expand n step)) cs)))"
    unfolding advance_set using Cons.prems(2) by (auto simp: expand_def)
  then show ?case using Cons.IH[OF _ _ _ Cons.prems(4) s1(2), of j "advance [] (map (map (expand n step)) cs)"] Cons.prems(1,3) k
    by (simp add: next_level_def split: if_splits)
qed

lemma explored:
  "explore n lines line step out k s0 \<Longrightarrow> 0 < n \<Longrightarrow> set ts \<subseteq> {..<n} \<Longrightarrow> run_schedule step ts s0 = Some s \<Longrightarrow>
     out s = round_robin n line (length (out s)) \<and> length ts < k \<and>
     ((\<forall>t < n. step t s = None) \<longrightarrow> out s = round_robin n line (n * lines))"
  unfolding explore_def by (erule explored_from) auto

subsection \<open>Error checking mutexes\<close>

text \<open>\<open>None\<close>: the call does not return (yet), or there is no such mutex.\<close>

definition lock :: "nat \<Rightarrow> nat \<Rightarrow> nat option list \<Rightarrow> (bool \<times> nat option list) option" where
  "lock t m os = do {
     w \<leftarrow> get_at os m;
     case w of
       None \<Rightarrow> Some (True, os[m := Some t])
     | Some u \<Rightarrow> if u = t then Some (False, os) else None }"

definition unlock :: "nat \<Rightarrow> nat \<Rightarrow> nat option list \<Rightarrow> (bool \<times> nat option list) option" where
  "unlock t m os = do {
     w \<leftarrow> get_at os m;
     Some (if w = Some t then (True, os[m := None]) else (False, os)) }"

end
