(* ===== verification/MutexLabs.thy ===== *)
theory MutexLabs
  imports MutexPrinting
begin

text \<open>
  The mutex labs one by one: \<open>matsko/11_sync_output\<close> (\<open>shuvalov/11\<close> is the same but for the smallest number
  of mutexes), \<open>arkhipov/11\<close>, \<open>Shunina/lab11\<close>, \<open>Shinkevich/11\<close> and \<open>tamplon/lab11\<close>. Each sleep that one of them
  relies on to let another thread get its first mutex is a flag: with \<open>timely\<close> it lasts long enough,
  without it any time.
\<close>

subsection \<open>matsko/11: a ring of mutexes\<close>

datatype pc11 =
    Create nat | NotYet | First | Nap | Acq nat | Say nat | Mark nat | Free nat int
  | FinTest nat | FinFree nat int | End11

record m11 =
  owners :: "nat option list"
  mutex_owner :: "int list"
  pcs11 :: "pc11 list"
  out11 :: "(nat \<times> nat) list"

definition go11 :: "nat \<Rightarrow> pc11 \<Rightarrow> m11 \<Rightarrow> m11" where
  "go11 t p s = s\<lparr>pcs11 := (pcs11 s)[t := p]\<rparr>"

definition wrap :: "nat \<Rightarrow> nat \<Rightarrow> nat" where
  "wrap n index = (if index \<ge> n then index mod n else index)"

text \<open>A call that fails only prints a message.\<close>

definition acquireMutex :: "nat \<Rightarrow> nat \<Rightarrow> nat \<Rightarrow> m11 \<Rightarrow> m11 option" where
  "acquireMutex n index t s = do {
     let i = wrap n index;
     (ok, os) \<leftarrow> lock t i (owners s);
     if \<not> ok then Some s
     else do { mo \<leftarrow> put_at (mutex_owner s) i (int t); Some (s\<lparr>owners := os, mutex_owner := mo\<rparr>) } }"

text \<open>\<open>releaseMutex\<close> in two steps: lines 32 to 36, with the previous owner as result, and 37 to 41.\<close>

definition release_mark :: "nat \<Rightarrow> nat \<Rightarrow> m11 \<Rightarrow> (int \<times> m11) option" where
  "release_mark n index s = do {
     let i = wrap n index;
     prev \<leftarrow> get_at (mutex_owner s) i;
     Some (prev, s\<lparr>mutex_owner := (mutex_owner s)[i := -1]\<rparr>) }"

definition release_unlock :: "nat \<Rightarrow> nat \<Rightarrow> int \<Rightarrow> nat \<Rightarrow> m11 \<Rightarrow> m11 option" where
  "release_unlock n index prev t s = do {
     let i = wrap n index;
     (ok, os) \<leftarrow> unlock t i (owners s);
     if ok then Some (s\<lparr>owners := os\<rparr>)
     else do { mo \<leftarrow> put_at (mutex_owner s) i prev; Some (s\<lparr>mutex_owner := mo\<rparr>) } }"

definition num_first :: "nat \<Rightarrow> nat \<Rightarrow> nat" where
  "num_first n t = (if t = 0 then 1 else (n - t + 1) mod n)"

fun printFunc :: "nat \<Rightarrow> pc11 \<Rightarrow> nat \<Rightarrow> m11 \<Rightarrow> m11 option" where
  "printFunc n (Acq i) t s =
     (if i < 10 + num_first n t then do { s \<leftarrow> acquireMutex n (i mod n) t s; Some (go11 t (Say i) s) }
      else Some (go11 t (FinTest 0) s))"
| "printFunc n (Say i) t s = Some (go11 t (Mark i) (s\<lparr>out11 := out11 s @ [(t, i - num_first n t + 1)]\<rparr>))"
| "printFunc n (Mark i) t s = do { (prev, s) \<leftarrow> release_mark n ((i + n - 1) mod n) s; Some (go11 t (Free i prev) s) }"
| "printFunc n (Free i prev) t s = do {
     s \<leftarrow> release_unlock n ((i + n - 1) mod n) prev t s;
     Some (go11 t (Acq (i + 1)) s) }"
| "printFunc n (FinTest i) t s =
     (if i < n then do {
        w \<leftarrow> get_at (mutex_owner s) i;
        if w = int t then do { (prev, s) \<leftarrow> release_mark n i s; Some (go11 t (FinFree i prev) s) }
        else Some (go11 t (FinTest (i + 1)) s) }
      else Some (go11 t End11 s))"
| "printFunc n (FinFree i prev) t s = do { s \<leftarrow> release_unlock n i prev t s; Some (go11 t (FinTest (i + 1)) s) }"
| "printFunc n p t s = None"

text \<open>\<open>usleep\<close>: long enough for every thread that was created to get its first mutex.\<close>

fun is_Create :: "pc11 \<Rightarrow> bool" where
  "is_Create (Create i) = True"
| "is_Create p = False"

definition slept :: "m11 \<Rightarrow> bool" where
  "slept s \<longleftrightarrow> list_all (\<lambda>p. p \<noteq> First \<and> \<not> is_Create p) (pcs11 s)"

fun childThread :: "nat \<Rightarrow> bool \<Rightarrow> pc11 \<Rightarrow> nat \<Rightarrow> m11 \<Rightarrow> m11 option" where
  "childThread n timely First t s = do { s \<leftarrow> acquireMutex n (n - t) t s; Some (go11 t Nap s) }"
| "childThread n timely Nap t s =
     (if timely \<and> \<not> slept s then None else Some (go11 t (Acq (num_first n t)) s))"
| "childThread n timely p t s = printFunc n p t s"

fun mainThread :: "nat \<Rightarrow> bool \<Rightarrow> (nat \<Rightarrow> int) \<Rightarrow> pc11 \<Rightarrow> m11 \<Rightarrow> m11 option" where
  "mainThread n timely create_err (Create i) s =
     (if i < n - 2 then
        Some (go11 0 (Create (i + 1)) (if create_err i \<noteq> 0 then s else go11 (i + 1) First s))
      else Some (go11 0 Nap s))"
| "mainThread n timely create_err Nap s = (if timely \<and> \<not> slept s then None else Some (go11 0 (Acq 1) s))"
| "mainThread n timely create_err p s = printFunc n p 0 s"

definition step11 :: "nat \<Rightarrow> bool \<Rightarrow> (nat \<Rightarrow> int) \<Rightarrow> nat \<Rightarrow> m11 \<Rightarrow> m11 option" where
  "step11 n timely create_err t s = do {
     p \<leftarrow> get_at (pcs11 s) t;
     if t = 0 then mainThread n timely create_err p s else childThread n timely p t s }"

text \<open>\<open>main\<close> up to the creation of the threads: \<open>MUTEX_NUM\<close>, and the state or the exit code.\<close>

definition MUTEX_NUM :: "string list \<Rightarrow> nat option" where
  "MUTEX_NUM args =
     (case args of
        [a] \<Rightarrow> do {
          v \<leftarrow> int_add (int_of_long (fst (strtol10 a))) 1;
          Some (if v \<le> 1 then 2 else nat v) }
      | _ \<Rightarrow> Some 3)"

definition matsko11_main :: "string list \<Rightarrow> bool \<Rightarrow> int \<Rightarrow> (nat \<Rightarrow> int) \<Rightarrow> m11 outcome option" where
  "matsko11_main args oom attr_err init_err = do {
     n \<leftarrow> MUTEX_NUM args;
     if oom then Some (Exit 1)
     else if attr_err \<noteq> 0 then Some (Exit 2)
     else if list_ex (\<lambda>i. init_err i \<noteq> 0) [0..<n] then Some (Exit 3)
     else do {
       s \<leftarrow> acquireMutex n 0 0 \<lparr>owners = replicate n None, mutex_owner = replicate n (-1),
         pcs11 = Create 0 # replicate (n - 2) NotYet, out11 = []\<rparr>;
       Some (Go s) } }"

subsection \<open>arkhipov/11: a barrier for two\<close>

datatype pcA =
    Spin | InitLock | Ping | Turn nat nat | Order nat nat
  | Unlock1 nat nat | Lock1 nat nat | Release1 nat nat
  | Release2 nat nat | Lock2 nat nat | Unlock2 nat nat
  | SayA nat nat | LastA nat | EndA

record mA =
  ownersA :: "nat option list"
  barrier_cnt :: nat
  ping :: bool
  pcsA :: "pcA list"
  outA :: "(nat \<times> nat) list"

definition goA :: "nat \<Rightarrow> pcA \<Rightarrow> mA \<Rightarrow> mA" where
  "goA t p s = s\<lparr>pcsA := (pcsA s)[t := p]\<rparr>"

text \<open>What the calls return is not looked at.\<close>

definition lockA :: "nat \<Rightarrow> nat \<Rightarrow> mA \<Rightarrow> mA option" where
  "lockA t m s = do { (ok, os) \<leftarrow> lock t m (ownersA s); Some (s\<lparr>ownersA := os\<rparr>) }"

definition unlockA :: "nat \<Rightarrow> nat \<Rightarrow> mA \<Rightarrow> mA option" where
  "unlockA t m s = do { (ok, os) \<leftarrow> unlock t m (ownersA s); Some (s\<lparr>ownersA := os\<rparr>) }"

fun barrier_for_two :: "pcA \<Rightarrow> nat \<Rightarrow> mA \<Rightarrow> mA option" where
  "barrier_for_two (Order i idx) t s =
     (let order = (barrier_cnt s + 1) mod 2 in
      Some (goA t (if order = 1 then Unlock1 i idx else Release2 i idx) (s\<lparr>barrier_cnt := order\<rparr>)))"
| "barrier_for_two (Unlock1 i idx) t s = do { s \<leftarrow> unlockA t 2 s; Some (goA t (Lock1 i idx) s) }"
| "barrier_for_two (Lock1 i idx) t s = do { s \<leftarrow> lockA t (1 - idx) s; Some (goA t (Release1 i idx) s) }"
| "barrier_for_two (Release1 i idx) t s = do { s \<leftarrow> unlockA t idx s; Some (goA t (SayA i idx) s) }"
| "barrier_for_two (Release2 i idx) t s = do { s \<leftarrow> unlockA t idx s; Some (goA t (Lock2 i idx) s) }"
| "barrier_for_two (Lock2 i idx) t s = do { s \<leftarrow> lockA t (1 - idx) s; Some (goA t (Unlock2 i idx) s) }"
| "barrier_for_two (Unlock2 i idx) t s = do { s \<leftarrow> unlockA t 2 s; Some (goA t (SayA i idx) s) }"
| "barrier_for_two p t s = None"

text \<open>\<open>Turn\<close> is the test of the loop and, in the loop, the first lock of the barrier.\<close>

fun main_th :: "pcA \<Rightarrow> mA \<Rightarrow> mA option" where
  "main_th Spin s = (if ping s then Some (goA 0 (Turn 0 0) s) else None)"
| "main_th (Turn i idx) s =
     (if i < 10 then do { s \<leftarrow> lockA 0 2 s; Some (goA 0 (Order i idx) s) } else Some (goA 0 (LastA idx) s))"
| "main_th (SayA i idx) s =
     Some (goA 0 (Turn (i + 1) (1 - idx)) (if i mod 2 = 0 then s\<lparr>outA := outA s @ [(0, i)]\<rparr> else s))"
| "main_th (LastA idx) s = do { s \<leftarrow> unlockA 0 idx s; Some (goA 0 EndA s) }"
| "main_th p s = barrier_for_two p 0 s"

fun child_th :: "pcA \<Rightarrow> mA \<Rightarrow> mA option" where
  "child_th InitLock s = do { s \<leftarrow> lockA 1 1 s; Some (goA 1 Ping s) }"
| "child_th Ping s = Some (goA 1 (Turn 0 1) (s\<lparr>ping := True\<rparr>))"
| "child_th (Turn i idx) s =
     (if i < 10 then do { s \<leftarrow> lockA 1 2 s; Some (goA 1 (Order i idx) s) } else Some (goA 1 (LastA idx) s))"
| "child_th (SayA i idx) s =
     Some (goA 1 (Turn (i + 1) (1 - idx)) (if i mod 2 = 1 then s\<lparr>outA := outA s @ [(1, i)]\<rparr> else s))"
| "child_th (LastA idx) s = do { s \<leftarrow> unlockA 1 idx s; Some (goA 1 EndA s) }"
| "child_th p s = barrier_for_two p 1 s"

definition stepA :: "nat \<Rightarrow> mA \<Rightarrow> mA option" where
  "stepA t s = do {
     p \<leftarrow> get_at (pcsA s) t;
     if t = 0 then main_th p s else child_th p s }"

definition arkhipov11_main :: "(nat \<Rightarrow> int) \<Rightarrow> int \<Rightarrow> mA outcome option" where
  "arkhipov11_main init_err create_err =
     (if list_ex (\<lambda>i. init_err i \<noteq> 0) [0..<3] then Some (Exit 1)
      else do {
        s \<leftarrow> lockA 0 0 \<lparr>ownersA = [None, None, None], barrier_cnt = 0, ping = False, pcsA = [Spin, InitLock], outA = []\<rparr>;
        Some (if create_err \<noteq> 0 then Exit 1 else Go s) })"

subsection \<open>Shunina/lab11\<close>

datatype pcS =
    SleepS | FirstS | Own1 | LoopS nat nat | OwnS nat nat | PrintS nat nat | UnlockS nat nat | ForgetS nat nat
  | PrintF nat nat | UnlockF nat nat | ForgetF nat nat | LockF nat nat | OwnF nat nat
  | AllS nat | EndS

record mS =
  ownersS :: "nat option list"
  mut :: "nat list"
  pcsS :: "pcS list"
  outS :: "(nat \<times> nat) list"

definition goS :: "nat \<Rightarrow> pcS \<Rightarrow> mS \<Rightarrow> mS" where
  "goS t p s = s\<lparr>pcsS := (pcsS s)[t := p]\<rparr>"

definition lockMutex :: "nat \<Rightarrow> nat \<Rightarrow> mS \<Rightarrow> (bool \<times> mS) option" where
  "lockMutex t m s = do { (ok, os) \<leftarrow> lock t m (ownersS s); Some (ok, s\<lparr>ownersS := os\<rparr>) }"

definition unlockMutex :: "nat \<Rightarrow> nat \<Rightarrow> mS \<Rightarrow> (bool \<times> mS) option" where
  "unlockMutex t m s = do { (ok, os) \<leftarrow> unlock t m (ownersS s); Some (ok, s\<lparr>ownersS := os\<rparr>) }"

definition set_mut :: "nat \<Rightarrow> nat \<Rightarrow> mS \<Rightarrow> mS" where
  "set_mut m v s = s\<lparr>mut := (mut s)[m := v]\<rparr>"

text \<open>\<open>unlockAllThreadMutexes\<close> of thread \<open>t\<close>, whose number in \<open>mut\<close> is \<open>t + 1\<close>.\<close>

definition unlockAll :: "nat \<Rightarrow> nat \<Rightarrow> mS \<Rightarrow> mS option" where
  "unlockAll i t s =
     (if i < 3 then do {
        num \<leftarrow> get_at (mut s) i;
        if num = t + 1 then do { (ok, s) \<leftarrow> unlockMutex t i s; Some (goS t (AllS (i + 1)) s) }
        else Some (goS t (AllS (i + 1)) s) }
      else Some (goS t EndS s))"

fun function11 :: "pcS \<Rightarrow> mS \<Rightarrow> mS option" where
  "function11 FirstS s = do { (ok, s) \<leftarrow> lockMutex 1 1 s; Some (goS 1 (if ok then Own1 else EndS) s) }"
| "function11 Own1 s = Some (goS 1 (LoopS 0 0) (set_mut 1 2 s))"
| "function11 (LoopS i n) s =
     (if i < 10 then do { (ok, s) \<leftarrow> lockMutex 1 n s; Some (goS 1 (if ok then OwnS i n else AllS 0) s) }
      else Some (goS 1 (AllS 0) s))"
| "function11 (OwnS i n) s = Some (goS 1 (PrintS i n) (set_mut n 2 s))"
| "function11 (PrintS i n) s = Some (goS 1 (UnlockS i n) (s\<lparr>outS := outS s @ [(1, i)]\<rparr>))"
| "function11 (UnlockS i n) s = do {
     (ok, s) \<leftarrow> unlockMutex 1 ((n + 1) mod 3) s;
     Some (goS 1 (if ok then ForgetS i n else AllS 0) s) }"
| "function11 (ForgetS i n) s = Some (goS 1 (LoopS (i + 1) ((n + 2) mod 3)) (set_mut ((n + 1) mod 3) 0 s))"
| "function11 (AllS i) s = unlockAll i 1 s"
| "function11 p s = None"

text \<open>\<open>first\<close>, after the \<open>sleep(1)\<close> of \<open>main\<close>.\<close>

fun first11 :: "bool \<Rightarrow> pcS \<Rightarrow> mS \<Rightarrow> mS option" where
  "first11 timely SleepS s =
     (if timely \<and> get_at (pcsS s) 1 = Some FirstS then None else Some (goS 0 (PrintF 0 0) s))"
| "first11 timely (PrintF i n) s =
     (if i < 10 then Some (goS 0 (UnlockF i n) (s\<lparr>outS := outS s @ [(0, i)]\<rparr>)) else Some (goS 0 (AllS 0) s))"
| "first11 timely (UnlockF i n) s = do {
     (ok, s) \<leftarrow> unlockMutex 0 n s;
     Some (goS 0 (if ok then ForgetF i n else AllS 0) s) }"
| "first11 timely (ForgetF i n) s = Some (goS 0 (LockF i n) (set_mut n 0 s))"
| "first11 timely (LockF i n) s = do {
     (ok, s) \<leftarrow> lockMutex 0 ((n + 1) mod 3) s;
     Some (goS 0 (if ok then OwnF i n else AllS 0) s) }"
| "first11 timely (OwnF i n) s = Some (goS 0 (PrintF (i + 1) ((n + 2) mod 3)) (set_mut ((n + 1) mod 3) 1 s))"
| "first11 timely (AllS i) s = unlockAll i 0 s"
| "first11 timely p s = None"

definition stepS :: "bool \<Rightarrow> nat \<Rightarrow> mS \<Rightarrow> mS option" where
  "stepS timely t s = do {
     p \<leftarrow> get_at (pcsS s) t;
     if t = 0 then first11 timely p s else function11 p s }"

definition Shunina11_main :: "int \<Rightarrow> (nat \<Rightarrow> int) \<Rightarrow> int \<Rightarrow> nat \<Rightarrow> mS outcome" where
  "Shunina11_main attr_err init_err create_err left =
     (if attr_err \<noteq> 0 \<or> list_ex (\<lambda>i. init_err i \<noteq> 0) [0..<3] then Exit 0
      else if create_err \<noteq> 0 \<or> left \<noteq> 0 then Exit 1
      else Go \<lparr>ownersS = [Some 0, None, Some 0], mut = [1, 0, 1], pcsS = [SleepS, FirstS], outS = []\<rparr>)"

subsection \<open>Shinkevich/11\<close>

text \<open>\<open>Child i k\<close> is before call \<open>k\<close> of turn \<open>i\<close>, and so is \<open>Parent i k\<close>; 0 is COMMON, 1 PARENT, 2 CHILD.\<close>

datatype pcK = StartK | Child nat nat | Parent nat nat | EndK

record mK =
  ownersK :: "nat option list"
  pcsK :: "pcK list"
  outK :: "(nat \<times> nat) list"

definition goK :: "nat \<Rightarrow> pcK \<Rightarrow> mK \<Rightarrow> mK" where
  "goK t p s = s\<lparr>pcsK := (pcsK s)[t := p]\<rparr>"

definition lockK :: "nat \<Rightarrow> nat \<Rightarrow> mK \<Rightarrow> mK option" where
  "lockK t m s = do { (ok, os) \<leftarrow> lock t m (ownersK s); Some (s\<lparr>ownersK := os\<rparr>) }"

definition unlockK :: "nat \<Rightarrow> nat \<Rightarrow> mK \<Rightarrow> mK option" where
  "unlockK t m s = do { (ok, os) \<leftarrow> unlock t m (ownersK s); Some (s\<lparr>ownersK := os\<rparr>) }"

fun thr_fn11 :: "pcK \<Rightarrow> mK \<Rightarrow> mK option" where
  "thr_fn11 StartK s = do { s \<leftarrow> lockK 1 2 s; Some (goK 1 (Child 0 0) s) }"
| "thr_fn11 (Child i k) s =
     (if i < 10 then do {
        s \<leftarrow> (if k = 0 then lockK 1 1 s
             else if k = 1 then Some (s\<lparr>outK := outK s @ [(1, i)]\<rparr>)
             else if k = 2 then unlockK 1 2 s
             else if k = 3 then lockK 1 0 s
             else if k = 4 then unlockK 1 1 s
             else if k = 5 then lockK 1 2 s
             else unlockK 1 0 s);
        Some (goK 1 (if k < 6 then Child i (k + 1) else Child (i + 1) 0) s) }
      else do { s \<leftarrow> unlockK 1 2 s; Some (goK 1 EndK s) })"
| "thr_fn11 p s = None"

text \<open>\<open>timely\<close>: the parent gets to its loop only after the child has its first mutex; nothing sees to that.\<close>

fun parent11 :: "bool \<Rightarrow> pcK \<Rightarrow> mK \<Rightarrow> mK option" where
  "parent11 timely StartK s =
     (if timely \<and> get_at (pcsK s) 1 = Some StartK then None else Some (goK 0 (Parent 0 0) s))"
| "parent11 timely (Parent i k) s =
     (if i < 10 then do {
        s \<leftarrow> (if k = 0 then Some (s\<lparr>outK := outK s @ [(0, i)]\<rparr>)
             else if k = 1 then lockK 0 0 s
             else if k = 2 then unlockK 0 1 s
             else if k = 3 then lockK 0 2 s
             else if k = 4 then unlockK 0 0 s
             else if k = 5 then lockK 0 1 s
             else unlockK 0 2 s);
        Some (goK 0 (if k < 6 then Parent i (k + 1) else Parent (i + 1) 0) s) }
      else do { s \<leftarrow> unlockK 0 1 s; Some (goK 0 EndK s) })"
| "parent11 timely p s = None"

definition stepK :: "bool \<Rightarrow> nat \<Rightarrow> mK \<Rightarrow> mK option" where
  "stepK timely t s = do {
     p \<leftarrow> get_at (pcsK s) t;
     if t = 0 then parent11 timely p s else thr_fn11 p s }"

definition Shinkevich11_main :: "int \<Rightarrow> mK outcome" where
  "Shinkevich11_main err =
     (if err \<noteq> 0 then Exit 1
      else Go \<lparr>ownersK = [None, Some 0, None], pcsK = [StartK, StartK], outK = []\<rparr>)"

subsection \<open>tamplon/lab11\<close>

datatype pcT =
    WaitT | EntryT | SetT | LockT | LoopT nat nat nat | SayT nat nat nat | UnlockT nat nat nat | LastT nat | EndT

record mT =
  ownersT :: "nat option list"
  second_thread_is_ready :: bool
  pcsT :: "pcT list"
  outT :: "(nat \<times> nat) list"

definition goT :: "nat \<Rightarrow> pcT \<Rightarrow> mT \<Rightarrow> mT" where
  "goT t p s = s\<lparr>pcsT := (pcsT s)[t := p]\<rparr>"

definition lock_mutex :: "nat \<Rightarrow> nat \<Rightarrow> mT \<Rightarrow> (bool \<times> mT) option" where
  "lock_mutex t m s = do { (ok, os) \<leftarrow> lock t m (ownersT s); Some (ok, s\<lparr>ownersT := os\<rparr>) }"

definition unlock_mutex :: "nat \<Rightarrow> nat \<Rightarrow> mT \<Rightarrow> (bool \<times> mT) option" where
  "unlock_mutex t m s = do { (ok, os) \<leftarrow> unlock t m (ownersT s); Some (ok, s\<lparr>ownersT := os\<rparr>) }"

text \<open>\<open>LoopT i current_mutex next_mutex\<close>.\<close>

fun printing_function :: "pcT \<Rightarrow> nat \<Rightarrow> mT \<Rightarrow> mT option" where
  "printing_function EntryT t s = Some (goT t (if second_thread_is_ready s then LoopT 0 0 1 else SetT) s)"
| "printing_function SetT t s = Some (goT t LockT (s\<lparr>second_thread_is_ready := True\<rparr>))"
| "printing_function LockT t s = do { (ok, s) \<leftarrow> lock_mutex t 2 s; Some (goT t (if ok then LoopT 0 2 0 else EndT) s) }"
| "printing_function (LoopT i cur nxt) t s =
     (if i < 10 then do { (ok, s) \<leftarrow> lock_mutex t nxt s; Some (goT t (if ok then SayT i cur nxt else EndT) s) }
      else Some (goT t (LastT cur) s))"
| "printing_function (SayT i cur nxt) t s = Some (goT t (UnlockT i cur nxt) (s\<lparr>outT := outT s @ [(t, i)]\<rparr>))"
| "printing_function (UnlockT i cur nxt) t s = do {
     (ok, s) \<leftarrow> unlock_mutex t cur s;
     Some (goT t (if ok then LoopT (i + 1) nxt ((nxt + 1) mod 3) else EndT) s) }"
| "printing_function (LastT cur) t s = do { (ok, s) \<leftarrow> unlock_mutex t cur s; Some (goT t EndT s) }"
| "printing_function p t s = None"

text \<open>\<open>wait_for_other_thread\<close>; \<open>timely\<close>: its last \<open>usleep\<close> is long enough for the child to lock its mutex.\<close>

definition wait_for_other_thread :: "bool \<Rightarrow> mT \<Rightarrow> mT option" where
  "wait_for_other_thread timely s =
     (if second_thread_is_ready s \<and> (timely \<longrightarrow> get_at (pcsT s) 1 \<noteq> Some LockT) then Some (goT 0 EntryT s) else None)"

definition stepT :: "bool \<Rightarrow> nat \<Rightarrow> mT \<Rightarrow> mT option" where
  "stepT timely t s = do {
     p \<leftarrow> get_at (pcsT s) t;
     if p = WaitT then wait_for_other_thread timely s else printing_function p t s }"

text \<open>\<open>init_mutexes\<close> and \<open>main\<close> up to the start of the thread.\<close>

definition tamplon11_main :: "int \<Rightarrow> int \<Rightarrow> (nat \<Rightarrow> int) \<Rightarrow> int \<Rightarrow> int \<Rightarrow> mT outcome" where
  "tamplon11_main attr_err type_err init_err destroy_err create_err =
     (if attr_err \<noteq> 0 \<or> type_err \<noteq> 0 \<or> list_ex (\<lambda>i. init_err i \<noteq> 0) [0..<3] \<or> destroy_err \<noteq> 0 \<or> create_err \<noteq> 0
      then Exit 1
      else Go \<lparr>ownersT = [Some 0, None, None], second_thread_is_ready = False, pcsT = [WaitT, EntryT], outT = []\<rparr>)"


subsection \<open>In turn, when the sleeps are long enough\<close>

text \<open>Every state is explored; 98, 128, 145 and 70 steps are the longest runs plus one.\<close>

lemma explore11:
  "explore 2 10 (\<lambda>t i. i + 1) (step11 3 True (\<lambda>_. 0)) out11 98
     \<lparr>owners = [Some 0, None, None], mutex_owner = [0, -1, -1], pcs11 = [Create 0, NotYet], out11 = []\<rparr>"
  by code_simp

lemma exploreA:
  "explore 2 5 (\<lambda>t i. 2 * i + t) stepA outA 128
     \<lparr>ownersA = [Some 0, None, None], barrier_cnt = 0, ping = False, pcsA = [Spin, InitLock], outA = []\<rparr>"
  by code_simp

lemma exploreK:
  "explore 2 10 (\<lambda>t i. i) (stepK True) outK 145 \<lparr>ownersK = [None, Some 0, None], pcsK = [StartK, StartK], outK = []\<rparr>"
  by code_simp

lemma exploreT:
  "explore 2 10 (\<lambda>t i. i) (stepT True) outT 70
     \<lparr>ownersT = [Some 0, None, None], second_thread_is_ready = False, pcsT = [WaitT, EntryT], outT = []\<rparr>"
  by code_simp

lemma matsko11_start:
  assumes "matsko11_main args False 0 (\<lambda>_. 0) = Some (Go s0)" "MUTEX_NUM args = Some 3"
  shows "s0 = \<lparr>owners = [Some 0, None, None], mutex_owner = [0, -1, -1], pcs11 = [Create 0, NotYet], out11 = []\<rparr>"
  using assms by (auto simp: matsko11_main_def acquireMutex_def wrap_def lock_def get_at_def put_at_def numeral_3_eq_3 list_ex_iff)

lemma arkhipov11_start:
  assumes "arkhipov11_main (\<lambda>_. 0) 0 = Some (Go s0)"
  shows "s0 = \<lparr>ownersA = [Some 0, None, None], barrier_cnt = 0, ping = False, pcsA = [Spin, InitLock], outA = []\<rparr>"
  using assms by (auto simp: arkhipov11_main_def lockA_def lock_def get_at_def list_ex_iff)

text \<open>
  With the default of three mutexes the parent and the child of \<open>matsko/11\<close> print in turn, the parent
  first, lines 1 to 10 each, in every schedule in which \<open>usleep\<close> gives the child the time to lock its
  first mutex; no schedule has 98 steps, and where neither can go on, all twenty lines are out.
\<close>
theorem matsko11_in_turn:
  assumes "matsko11_main args False 0 (\<lambda>_. 0) = Some (Go s0)" "MUTEX_NUM args = Some 3"
    "set ts \<subseteq> {..<2}" "run_schedule (step11 3 True (\<lambda>_. 0)) ts s0 = Some s"
  shows "out11 s = round_robin 2 (\<lambda>t i. i + 1) (length (out11 s)) \<and> length ts < 98 \<and>
    ((\<forall>t < 2. step11 3 True (\<lambda>_. 0) t s = None) \<longrightarrow> out11 s = round_robin 2 (\<lambda>t i. i + 1) 20)"
  using explored[OF explore11[folded matsko11_start[OF assms(1,2)]] _ assms(3,4)] by simp

theorem matsko11_in_turn_witness:
  "\<exists>s0 s. matsko11_main [] False 0 (\<lambda>_. 0) = Some (Go s0) \<and>
     run_schedule (step11 3 True (\<lambda>_. 0)) [0, 0, 1, 1, 0, 0, 0, 0, 0, 1] s0 = Some s \<and>
     out11 s = round_robin 2 (\<lambda>t i. i + 1) (length (out11 s)) \<and> length (out11 s) = 1"
proof -
  have "(case matsko11_main [] False 0 (\<lambda>_. 0) of Some (Go s0) \<Rightarrow>
      (case run_schedule (step11 3 True (\<lambda>_. 0)) [0, 0, 1, 1, 0, 0, 0, 0, 0, 1] s0 of Some s \<Rightarrow> length (out11 s) = 1 | None \<Rightarrow> False)
    | _ \<Rightarrow> False)" by code_simp
  then obtain s0 s where *: "matsko11_main [] False 0 (\<lambda>_. 0) = Some (Go s0)"
    "run_schedule (step11 3 True (\<lambda>_. 0)) [0, 0, 1, 1, 0, 0, 0, 0, 0, 1] s0 = Some s" "length (out11 s) = 1"
    by (auto split: option.splits outcome.splits)
  moreover have "MUTEX_NUM [] = Some 3" by (simp add: MUTEX_NUM_def)
  ultimately show ?thesis using matsko11_in_turn[OF *(1) _ _ *(2)] by auto
qed

text \<open>
  C33: The two threads of \<open>arkhipov/11\<close> count from 0 to 9 in turn, the main thread the even numbers, in
  every schedule: the barrier of three mutexes needs no sleep. No schedule has 128 steps (waiting for
  \<open>ping\<close> is one), and where neither thread can go on, all ten numbers are out.
\<close>
theorem arkhipov11_in_turn:
  assumes "arkhipov11_main (\<lambda>_. 0) 0 = Some (Go s0)" "set ts \<subseteq> {..<2}" "run_schedule stepA ts s0 = Some s"
  shows "outA s = round_robin 2 (\<lambda>t i. 2 * i + t) (length (outA s)) \<and> length ts < 128 \<and>
    ((\<forall>t < 2. stepA t s = None) \<longrightarrow> outA s = round_robin 2 (\<lambda>t i. 2 * i + t) 10)"
  using explored[OF exploreA[folded arkhipov11_start[OF assms(1)]] _ assms(2,3)] by simp

theorem arkhipov11_in_turn_witness:
  "\<exists>s0 s. arkhipov11_main (\<lambda>_. 0) 0 = Some (Go s0) \<and> run_schedule stepA [1, 1, 0, 0, 0, 0, 1] s0 = Some s \<and>
     outA s = round_robin 2 (\<lambda>t i. 2 * i + t) (length (outA s))"
proof -
  have "(case arkhipov11_main (\<lambda>_. 0) 0 of Some (Go s0) \<Rightarrow>
      (case run_schedule stepA [1, 1, 0, 0, 0, 0, 1] s0 of Some s \<Rightarrow> True | None \<Rightarrow> False) | _ \<Rightarrow> False)" by code_simp
  then obtain s0 s where *: "arkhipov11_main (\<lambda>_. 0) 0 = Some (Go s0)" "run_schedule stepA [1, 1, 0, 0, 0, 0, 1] s0 = Some s"
    by (auto split: option.splits outcome.splits)
  then show ?thesis using arkhipov11_in_turn[OF *(1) _ *(2)] by auto
qed

text \<open>
  In \<open>tamplon/lab11\<close> the parent and the child print the numbers 0 to 9 in turn, the parent first, in
  every schedule in which the child locks mutex 2 before the parent wakes from the sleep that saw
  \<open>second_thread_is_ready\<close>; no schedule has 70 steps, and where neither can go on, all is printed.
\<close>
theorem tamplon11_in_turn:
  assumes "tamplon11_main 0 0 (\<lambda>_. 0) 0 0 = Go s0" "set ts \<subseteq> {..<2}" "run_schedule (stepT True) ts s0 = Some s"
  shows "outT s = round_robin 2 (\<lambda>t i. i) (length (outT s)) \<and> length ts < 70 \<and>
    ((\<forall>t < 2. stepT True t s = None) \<longrightarrow> outT s = round_robin 2 (\<lambda>t i. i) 20)"
proof -
  have "s0 = \<lparr>ownersT = [Some 0, None, None], second_thread_is_ready = False, pcsT = [WaitT, EntryT], outT = []\<rparr>"
    using assms(1) by (simp add: tamplon11_main_def list_ex_iff)
  then show ?thesis using explored[OF exploreT _ assms(2)] assms(3) by simp
qed

theorem tamplon11_in_turn_witness:
  "\<exists>s0 s. tamplon11_main 0 0 (\<lambda>_. 0) 0 0 = Go s0 \<and> run_schedule (stepT True) [1, 1, 1, 0, 0, 0, 0, 0, 1] s0 = Some s \<and>
     outT s = round_robin 2 (\<lambda>t i. i) (length (outT s))"
proof -
  have "(case tamplon11_main 0 0 (\<lambda>_. 0) 0 0 of Go s0 \<Rightarrow>
      (case run_schedule (stepT True) [1, 1, 1, 0, 0, 0, 0, 0, 1] s0 of Some s \<Rightarrow> True | None \<Rightarrow> False) | _ \<Rightarrow> False)" by code_simp
  then obtain s0 s where *: "tamplon11_main 0 0 (\<lambda>_. 0) 0 0 = Go s0" "run_schedule (stepT True) [1, 1, 1, 0, 0, 0, 0, 0, 1] s0 = Some s"
    by (auto split: option.splits outcome.splits)
  then show ?thesis using tamplon11_in_turn[OF *(1) _ *(2)] by auto
qed

text \<open>
  In \<open>Shinkevich/11\<close> the parent and the child print the numbers 0 to 9 in turn, the parent first, in
  every schedule in which the child gets its first mutex before the parent is in its loop; no schedule
  has 145 steps, and where neither can go on, all is printed.
\<close>
theorem Shinkevich11_in_turn:
  assumes "Shinkevich11_main 0 = Go s0" "set ts \<subseteq> {..<2}" "run_schedule (stepK True) ts s0 = Some s"
  shows "outK s = round_robin 2 (\<lambda>t i. i) (length (outK s)) \<and> length ts < 145 \<and>
    ((\<forall>t < 2. stepK True t s = None) \<longrightarrow> outK s = round_robin 2 (\<lambda>t i. i) 20)"
proof -
  have "s0 = \<lparr>ownersK = [None, Some 0, None], pcsK = [StartK, StartK], outK = []\<rparr>"
    using assms(1) by (simp add: Shinkevich11_main_def)
  then show ?thesis using explored[OF exploreK _ assms(2)] assms(3) by simp
qed

theorem Shinkevich11_in_turn_witness:
  "\<exists>s0 s. Shinkevich11_main 0 = Go s0 \<and> run_schedule (stepK True) [1, 0, 0, 0, 0, 1, 1] s0 = Some s \<and>
     outK s = round_robin 2 (\<lambda>t i. i) (length (outK s))"
proof -
  have "(case Shinkevich11_main 0 of Go s0 \<Rightarrow>
      (case run_schedule (stepK True) [1, 0, 0, 0, 0, 1, 1] s0 of Some s \<Rightarrow> True | None \<Rightarrow> False) | _ \<Rightarrow> False)" by code_simp
  then obtain s0 s where *: "Shinkevich11_main 0 = Go s0" "run_schedule (stepK True) [1, 0, 0, 0, 0, 1, 1] s0 = Some s"
    by (auto split: option.splits outcome.splits)
  then show ?thesis using Shinkevich11_in_turn[OF *(1) _ *(2)] by auto
qed

subsection \<open>Out of turn without them\<close>


end
