(* ===== verification/Dining.thy ===== *)
theory Dining
  imports TurnTaking
begin

text \<open>
  The dining philosophers (\<open>arkhipov/10\<close>, \<open>tamplon/lab10\<close>): what the three programs share. Five
  philosophers take their dishes from one table until \<open>food_on_table\<close> says 0, and each dish needs the
  two forks beside its philosopher. \<open>dining\<close> is the promise of such a program: neighbours never eat at
  the same time, every run ends, and where nobody can go on all dishes have been eaten. Then the mutexes of the forks
  (\<open>forks_ok\<close>) and sums over the philosophers (\<open>tally\<close>).
\<close>

abbreviation PHILO :: nat where "PHILO \<equiv> 5"

text \<open>The static variable of \<open>food_on_table\<close>; the section under \<open>foodlock\<close> is one step.\<close>

definition food_on_table :: "nat \<Rightarrow> nat \<times> nat" where
  "food_on_table food = (let food = (if food > 0 then food - 1 else food); myfood = food in (myfood, food))"

locale dining = bounded_steps PHILO step inv rank
  for step :: "nat \<Rightarrow> 's \<Rightarrow> 's option" and inv :: "'s \<Rightarrow> bool" and rank :: "'s \<Rightarrow> nat" +
  fixes eats :: "nat \<Rightarrow> 's \<Rightarrow> bool" and meals :: "'s \<Rightarrow> nat" and dishes :: nat
  assumes apart: "inv s \<Longrightarrow> i < PHILO \<Longrightarrow> \<not> (eats i s \<and> eats ((i + 1) mod PHILO) s)"
    and ending: "inv s \<Longrightarrow> \<forall>t < PHILO. step t s = None \<Longrightarrow> meals s = dishes"
begin

lemma dinner:
  assumes "inv init" "set ts \<subseteq> {..<PHILO}" "run_schedule step ts init = Some s"
  shows "(\<forall>i < PHILO. \<not> (eats i s \<and> eats ((i + 1) mod PHILO) s)) \<and> length ts \<le> rank init \<and>
    ((\<forall>t < PHILO. step t s = None) \<longrightarrow> meals s = dishes)"
  using run_inv[OF assms] run_bounded[OF assms] apart ending by auto

end

subsection \<open>Sums over the philosophers\<close>

definition tally :: "('p \<Rightarrow> nat) \<Rightarrow> 'p list \<Rightarrow> nat" where
  "tally w ps = sum_list (map w ps)"

definition one_if :: "('p \<Rightarrow> bool) \<Rightarrow> 'p \<Rightarrow> nat" where
  "one_if P p = (if P p then 1 else 0)"

lemma tally_update: "t < length ps \<Longrightarrow> tally w (ps[t := p]) + w (ps ! t) = tally w ps + w p"
proof (induction ps arbitrary: t)
  case (Cons q qs)
  then show ?case by (cases t) (auto simp: tally_def)
qed (simp add: tally_def)

lemma tally_zero: "\<forall>t < length ps. w (ps ! t) = 0 \<Longrightarrow> tally w ps = 0"
  unfolding tally_def by (metis (no_types, lifting) in_set_conv_nth map_eq_conv sum_list_0 map_replicate_const)

lemma tally_member: "t < length ps \<Longrightarrow> w (ps ! t) \<le> tally w ps"
  unfolding tally_def by (rule member_le_sum_list) auto

lemma tally_two: "t < length ps \<Longrightarrow> u < length ps \<Longrightarrow> t \<noteq> u \<Longrightarrow> w (ps ! t) + w (ps ! u) \<le> tally w ps"
proof (induction ps arbitrary: t u)
  case (Cons q qs)
  then show ?case using tally_member[of "t - 1" qs w] tally_member[of "u - 1" qs w]
    by (cases t; cases u) (auto simp: tally_def intro: trans_le_add2)
qed simp

lemma tally_full: "(\<And>t. t < length ps \<Longrightarrow> w (ps ! t) = 1) \<Longrightarrow> tally w ps = length ps"
proof (induction ps)
  case (Cons q qs)
  have "w q = 1" using Cons.prems[of 0] by simp
  moreover have "tally w qs = length qs" using Cons.IH Cons.prems[of "Suc t" for t] by fastforce
  ultimately show ?case by (simp add: tally_def)
qed (simp add: tally_def)

text \<open>Dishes handed out so far, and eaten or still to be eaten.\<close>

definition served :: "nat \<Rightarrow> nat \<Rightarrow> nat \<Rightarrow> bool" where
  "served FOOD food n \<longleftrightarrow> 0 < FOOD \<and> food \<le> FOOD \<and> (if food = 0 then n + 1 = FOOD else n + food = FOOD)"

lemma served_start: "0 < FOOD \<Longrightarrow> served FOOD FOOD 0"
  by (simp add: served_def)

lemma served_dish:
  assumes "food_on_table food = (f, food')" "served FOOD food n"
  shows "served FOOD food' (if f = 0 then n else n + 1)" "f = food'" "f \<noteq> 0 \<Longrightarrow> food = f + 1" "food' \<le> food"
  using assms by (auto simp: food_on_table_def served_def Let_def split: if_splits)

subsection \<open>Forks\<close>

text \<open>
  Fork \<open>f\<close> lies at the right of philosopher \<open>f\<close> and at the left of the one before. \<open>right\<close> and \<open>left\<close>
  say which philosophers hold their right, their left fork.
\<close>

definition before :: "nat \<Rightarrow> nat" where
  "before f = (f + 4) mod PHILO"

definition left_fork :: "nat \<Rightarrow> nat" where
  "left_fork i = (if i + 1 = PHILO then 0 else i + 1)"

lemma left_fork_mod: "i < PHILO \<Longrightarrow> left_fork i = (i + 1) mod PHILO"
  by (simp add: left_fork_def)

lemma philo_cases: "i < PHILO \<Longrightarrow> i = 0 \<or> i = 1 \<or> i = 2 \<or> i = 3 \<or> i = 4"
  by arith

lemma before_left [simp]: 
  assumes "i < PHILO"
  shows "before (left_fork i) = i" "left_fork (before i) = i" "left_fork i < PHILO" "before i < PHILO"
    "left_fork i \<noteq> i" "before i \<noteq> i"
  using philo_cases[OF assms] by (elim disjE; simp add: before_def left_fork_def)+

lemma all_round:
  assumes "\<And>t. t < PHILO \<Longrightarrow> P t \<Longrightarrow> P (before t)" "t < PHILO" "P t" "u < PHILO"
  shows "P u"
proof -
  have "P 0 \<Longrightarrow> P 4" "P 1 \<Longrightarrow> P 0" "P 2 \<Longrightarrow> P 1" "P 3 \<Longrightarrow> P 2" "P 4 \<Longrightarrow> P 3"
    using assms(1)[of 0] assms(1)[of 1] assms(1)[of 2] assms(1)[of 3] assms(1)[of 4] by (simp_all add: before_def)
  then show ?thesis using philo_cases[OF assms(2)] philo_cases[OF assms(4)] assms(3) by metis
qed

lemma before_iff: "f < PHILO \<Longrightarrow> t < PHILO \<Longrightarrow> before f = t \<longleftrightarrow> f = left_fork t"
  by auto

definition fork_lock :: "nat \<Rightarrow> nat \<Rightarrow> nat option list \<Rightarrow> nat option list option" where
  "fork_lock t m os = do { w \<leftarrow> get_at os m; if w = None then Some (os[m := Some t]) else None }"

text \<open>Unlocking a mutex that another thread holds is undefined.\<close>

definition fork_unlock :: "nat \<Rightarrow> nat \<Rightarrow> nat option list \<Rightarrow> nat option list option" where
  "fork_unlock t m os = do { w \<leftarrow> get_at os m; if w = Some t then Some (os[m := None]) else None }"

definition forks_ok :: "nat option list \<Rightarrow> bool list \<Rightarrow> bool list \<Rightarrow> bool" where
  "forks_ok os right left \<longleftrightarrow> length os = PHILO \<and> length right = PHILO \<and> length left = PHILO \<and>
     (\<forall>f < PHILO. os ! f = (if right ! f then Some f else if left ! before f then Some (before f) else None) \<and>
       \<not> (right ! f \<and> left ! before f))"

lemma forks_apart: "forks_ok os right left \<Longrightarrow> i < PHILO \<Longrightarrow> \<not> (left ! i \<and> right ! left_fork i)"
  unfolding forks_ok_def by (metis before_left(1,3))

lemma lock_right:
  "forks_ok os right left \<Longrightarrow> t < PHILO \<Longrightarrow> fork_lock t t os = Some os' \<Longrightarrow> forks_ok os' (right[t := True]) left"
  by (auto simp: forks_ok_def fork_lock_def nth_list_update fault_simps split: if_splits)

lemma lock_left:
  "forks_ok os right left \<Longrightarrow> t < PHILO \<Longrightarrow> fork_lock t (left_fork t) os = Some os' \<Longrightarrow> forks_ok os' right (left[t := True])"
  unfolding forks_ok_def fork_lock_def
  by (auto simp: nth_list_update before_iff fault_simps split: if_splits)

lemma unlock_right:
  "forks_ok os right left \<Longrightarrow> t < PHILO \<Longrightarrow> fork_unlock t t os = Some os' \<Longrightarrow> forks_ok os' (right[t := False]) left"
  by (auto simp: forks_ok_def fork_unlock_def nth_list_update fault_simps split: if_splits)

lemma unlock_left:
  "forks_ok os right left \<Longrightarrow> t < PHILO \<Longrightarrow> fork_unlock t (left_fork t) os = Some os' \<Longrightarrow> forks_ok os' right (left[t := False])"
  unfolding forks_ok_def fork_unlock_def
  by (auto simp: nth_list_update before_iff fault_simps split: if_splits)

lemmas fork_steps = lock_right lock_left unlock_right unlock_left

lemma lock_right_blocked:
  "forks_ok os right left \<Longrightarrow> t < PHILO \<Longrightarrow> fork_lock t t os = None \<Longrightarrow> right ! t \<or> left ! before t"
  by (auto simp: forks_ok_def fork_lock_def split: if_splits)

lemma lock_left_blocked:
  "forks_ok os right left \<Longrightarrow> t < PHILO \<Longrightarrow> fork_lock t (left_fork t) os = None \<Longrightarrow> left ! t \<or> right ! left_fork t"
  by (auto simp: forks_ok_def fork_lock_def split: if_splits)

lemma unlock_right_ok: "forks_ok os right left \<Longrightarrow> t < PHILO \<Longrightarrow> right ! t \<Longrightarrow> fork_unlock t t os \<noteq> None"
  by (auto simp: forks_ok_def fork_unlock_def)

lemma unlock_left_ok: "forks_ok os right left \<Longrightarrow> t < PHILO \<Longrightarrow> left ! t \<Longrightarrow> fork_unlock t (left_fork t) os \<noteq> None"
proof -
  assume a: "forks_ok os right left" "t < PHILO" "left ! t"
  then have "os ! left_fork t = Some t" "left_fork t < length os"
    using forks_apart[OF a(1,2)] by (auto simp: forks_ok_def)
  then show ?thesis by (simp add: fork_unlock_def)
qed

lemma map_update_same: "t < length ps \<Longrightarrow> f (ps ! t) = v \<Longrightarrow> (map f ps)[t := v] = map f ps"
  by (metis length_map list_update_id nth_map)

end
