(* ===== verification/DiningForks.thy ===== *)
theory DiningForks
  imports Dining
begin

text \<open>
  The two programs whose forks are mutexes: \<open>arkhipov/10\<close>, where a semaphore, the waiter, lets only four
  philosophers near the forks, and \<open>tamplon/lab10/slow.c\<close>, where the two forks are taken under one more
  mutex. Both are instances of \<open>dining\<close>: neither can deadlock. The mutexes are of the default kind and
  their calls do not fail; \<open>usleep\<close> and \<open>sleep\<close> are steps without an effect.
\<close>

subsection \<open>arkhipov/10: a waiter\<close>

datatype phil10 =
    Begin | AtTable | GotDish | WaitWaiter | LockLeft | GotLeft | LockRight | GotRight | StartEating | Eat
  | UnlockLeft | SayLeft | UnlockRight | SayRight | PostWaiter | SayDone | Gone

datatype line10 =
    PhStart nat | PhGetDish nat nat | PhGotFork nat string nat | PhEating nat | Released nat | PhDone nat nat

record hall =
  food :: nat
  waiter :: nat
  forks :: "nat option list"
  phils :: "phil10 list"
  dish :: "nat list"
  counter :: "nat list"
  out10 :: "line10 list"

definition go10 :: "nat \<Rightarrow> phil10 \<Rightarrow> hall \<Rightarrow> hall" where
  "go10 t p s = s\<lparr>phils := (phils s)[t := p]\<rparr>"

definition say10 :: "line10 \<Rightarrow> hall \<Rightarrow> hall" where
  "say10 l s = s\<lparr>out10 := out10 s @ [l]\<rparr>"

text \<open>\<open>get_fork\<close> and \<open>down_forks\<close> call by call; the first dish is taken and the loop tested at \<open>AtTable\<close>.\<close>

fun get_fork :: "phil10 \<Rightarrow> nat \<Rightarrow> hall \<Rightarrow> hall option" where
  "get_fork LockLeft t s = do { fs \<leftarrow> fork_lock t (left_fork t) (forks s); Some (go10 t GotLeft (s\<lparr>forks := fs\<rparr>)) }"
| "get_fork GotLeft t s = Some (go10 t LockRight (say10 (PhGotFork t ''l'' (left_fork t)) s))"
| "get_fork LockRight t s = do { fs \<leftarrow> fork_lock t t (forks s); Some (go10 t GotRight (s\<lparr>forks := fs\<rparr>)) }"
| "get_fork GotRight t s = Some (go10 t StartEating (say10 (PhGotFork t ''r'' t) s))"
| "get_fork p t s = None"

fun down_forks :: "phil10 \<Rightarrow> nat \<Rightarrow> hall \<Rightarrow> hall option" where
  "down_forks UnlockLeft t s = do { fs \<leftarrow> fork_unlock t (left_fork t) (forks s); Some (go10 t SayLeft (s\<lparr>forks := fs\<rparr>)) }"
| "down_forks SayLeft t s = Some (go10 t UnlockRight (say10 (Released (left_fork t)) s))"
| "down_forks UnlockRight t s = do { fs \<leftarrow> fork_unlock t t (forks s); Some (go10 t SayRight (s\<lparr>forks := fs\<rparr>)) }"
| "down_forks SayRight t s = Some (go10 t PostWaiter (say10 (Released t) s))"
| "down_forks PostWaiter t s = Some (go10 t AtTable (s\<lparr>waiter := waiter s + 1\<rparr>))"
| "down_forks p t s = None"

fun philosopher10 :: "phil10 \<Rightarrow> nat \<Rightarrow> hall \<Rightarrow> hall option" where
  "philosopher10 Begin t s = Some (go10 t AtTable (say10 (PhStart t) s))"
| "philosopher10 AtTable t s =
     (let (f, fd) = food_on_table (food s);
          s = s\<lparr>food := fd, dish := (dish s)[t := f]\<rparr>
      in Some (go10 t (if f \<noteq> 0 then GotDish else SayDone) s))"
| "philosopher10 GotDish t s = do { f \<leftarrow> get_at (dish s) t; Some (go10 t WaitWaiter (say10 (PhGetDish t f) s)) }"
| "philosopher10 WaitWaiter t s = (if waiter s = 0 then None else Some (go10 t LockLeft (s\<lparr>waiter := waiter s - 1\<rparr>)))"
| "philosopher10 StartEating t s = Some (go10 t Eat (say10 (PhEating t) s))"
| "philosopher10 Eat t s = do {
     c \<leftarrow> get_at (counter s) t;
     Some (go10 t UnlockLeft (s\<lparr>counter := (counter s)[t := c + 1]\<rparr>)) }"
| "philosopher10 SayDone t s = do { c \<leftarrow> get_at (counter s) t; Some (go10 t Gone (say10 (PhDone t c) s)) }"
| "philosopher10 Gone t s = None"
| "philosopher10 LockLeft t s = get_fork LockLeft t s"
| "philosopher10 GotLeft t s = get_fork GotLeft t s"
| "philosopher10 LockRight t s = get_fork LockRight t s"
| "philosopher10 GotRight t s = get_fork GotRight t s"
| "philosopher10 UnlockLeft t s = down_forks UnlockLeft t s"
| "philosopher10 SayLeft t s = down_forks SayLeft t s"
| "philosopher10 UnlockRight t s = down_forks UnlockRight t s"
| "philosopher10 SayRight t s = down_forks SayRight t s"
| "philosopher10 PostWaiter t s = down_forks PostWaiter t s"

definition step10 :: "nat \<Rightarrow> hall \<Rightarrow> hall option" where
  "step10 t s = do { p \<leftarrow> get_at (phils s) t; philosopher10 p t s }"

definition arkhipov10_main :: hall where
  "arkhipov10_main = \<lparr>food = 500, waiter = PHILO - 1, forks = replicate PHILO None, phils = replicate PHILO Begin,
     dish = replicate PHILO 0, counter = replicate PHILO 0, out10 = []\<rparr>"

text \<open>Who holds which fork, who is behind the waiter, and who has a dish that is not counted yet.\<close>

definition has_left :: "phil10 \<Rightarrow> bool" where
  "has_left p \<longleftrightarrow> p \<in> {GotLeft, LockRight, GotRight, StartEating, Eat, UnlockLeft}"

definition has_right :: "phil10 \<Rightarrow> bool" where
  "has_right p \<longleftrightarrow> p \<in> {GotRight, StartEating, Eat, UnlockLeft, SayLeft, UnlockRight}"

definition admitted :: "phil10 \<Rightarrow> bool" where
  "admitted p \<longleftrightarrow> has_left p \<or> has_right p \<or> p \<in> {LockLeft, SayRight, PostWaiter}"

definition uneaten :: "phil10 \<Rightarrow> bool" where
  "uneaten p \<longleftrightarrow> p \<in> {GotDish, WaitWaiter, LockLeft, GotLeft, LockRight, GotRight, StartEating, Eat}"

definition eating10 :: "nat \<Rightarrow> hall \<Rightarrow> bool" where
  "eating10 i s \<longleftrightarrow> phils s ! i \<in> {StartEating, Eat}"

definition meals10 :: "hall \<Rightarrow> nat" where
  "meals10 s = sum_list (counter s)"

definition inv10 :: "hall \<Rightarrow> bool" where
  "inv10 s \<longleftrightarrow> length (phils s) = PHILO \<and> length (dish s) = PHILO \<and> length (counter s) = PHILO \<and>
     forks_ok (forks s) (map has_right (phils s)) (map has_left (phils s)) \<and>
     waiter s + tally (one_if admitted) (phils s) = PHILO - 1 \<and>
     served 500 (food s) (meals10 s + tally (one_if uneaten) (phils s)) \<and>
     (\<forall>t < PHILO. phils s ! t \<in> {SayDone, Gone} \<longrightarrow> food s = 0)"

lemmas phil10_defs = has_left_def has_right_def admitted_def uneaten_def

fun phil_rank10 :: "phil10 \<Rightarrow> nat" where
  "phil_rank10 Begin = 3" | "phil_rank10 AtTable = 2" | "phil_rank10 GotDish = 15" | "phil_rank10 WaitWaiter = 14"
| "phil_rank10 LockLeft = 13" | "phil_rank10 GotLeft = 12" | "phil_rank10 LockRight = 11" | "phil_rank10 GotRight = 10"
| "phil_rank10 StartEating = 9" | "phil_rank10 Eat = 8" | "phil_rank10 UnlockLeft = 7" | "phil_rank10 SayLeft = 6"
| "phil_rank10 UnlockRight = 5" | "phil_rank10 SayRight = 4" | "phil_rank10 PostWaiter = 3" | "phil_rank10 SayDone = 1"
| "phil_rank10 Gone = 0"

definition rank10 :: "hall \<Rightarrow> nat" where
  "rank10 s = 14 * food s + tally phil_rank10 (phils s)"


lemma inv10_start: "inv10 arkhipov10_main"
proof -
  have "tally w (replicate PHILO Begin) = 5 * w Begin" for w by (simp add: tally_def sum_list_replicate)
  moreover have "forks_ok (replicate PHILO None) (map has_right (replicate PHILO Begin)) (map has_left (replicate PHILO Begin))"
    by (auto simp: forks_ok_def phil10_defs)
  ultimately show ?thesis
    by (auto simp: inv10_def arkhipov10_main_def served_def meals10_def sum_list_replicate one_if_def phil10_defs)
qed

lemma inv10D:
  assumes "inv10 s" "t < PHILO"
  shows "length (phils s) = PHILO" "length (dish s) = PHILO" "length (counter s) = PHILO" "t < length (phils s)"
    "forks_ok (forks s) (map has_right (phils s)) (map has_left (phils s))"
    "waiter s + tally (one_if admitted) (phils s) = PHILO - 1"
    "served 500 (food s) (meals10 s + tally (one_if uneaten) (phils s))"
    "\<forall>t < PHILO. phils s ! t \<in> {SayDone, Gone} \<longrightarrow> food s = 0"
  using assms by (auto simp: inv10_def)

lemma inv10_go:
  assumes i: "inv10 s" and t: "t < PHILO"
    and s': "phils s' = (phils s)[t := p]" "length (dish s') = PHILO" "length (counter s') = PHILO"
    and forks: "forks_ok (forks s') ((map has_right (phils s))[t := has_right p]) ((map has_left (phils s))[t := has_left p])"
    and waiter: "waiter s' + one_if admitted p = waiter s + one_if admitted ((phils s ! t))"
    and food: "food s' \<le> food s" "p \<in> {SayDone, Gone} \<longrightarrow> food s' = 0"
    and meals: "\<And>n. meals10 s + tally (one_if uneaten) (phils s) = n + one_if uneaten ((phils s ! t)) + meals10 s \<Longrightarrow>
      served 500 (food s') (n + one_if uneaten p + meals10 s')"
  shows "inv10 s'"
proof -
  note d = inv10D[OF i t]
  note u = tally_update[OF d(4)]
  have "one_if uneaten ((phils s ! t)) \<le> tally (one_if uneaten) (phils s)" using tally_member[OF d(4), of "one_if uneaten"] .
  then obtain n where n: "tally (one_if uneaten) (phils s) = n + one_if uneaten ((phils s ! t))"
    using le_iff_add by (metis add.commute)
  then have "tally (one_if uneaten) ((phils s)[t := p]) = n + one_if uneaten p" using u[of "one_if uneaten" p] by simp
  moreover have "served 500 (food s') (n + one_if uneaten p + meals10 s')" using meals[of n] n by simp
  moreover have "waiter s' + tally (one_if admitted) ((phils s)[t := p]) = PHILO - 1"
    using u[of "one_if admitted" p] waiter d(6) by simp
  moreover have "\<forall>u < PHILO. phils s' ! u \<in> {SayDone, Gone} \<longrightarrow> food s' = 0"
    using d(8) food s'(1) d(1) t by (auto simp: nth_list_update)
  ultimately show ?thesis using forks d(1) s' by (simp add: inv10_def map_update add.commute)
qed

lemmas step10_defs = step10_def go10_def say10_def Let_def fault_simps

lemma inv10_step: "inv10 s \<Longrightarrow> t < PHILO \<Longrightarrow> step10 t s = Some s' \<Longrightarrow> inv10 s'"
proof -
  assume a: "inv10 s" "t < PHILO" "step10 t s = Some s'"
  note d = inv10D[OF a(1,2)]
  have go: "inv10 s'" if p: "phils s' = (phils s)[t := p]" "length (dish s') = PHILO" "counter s' = counter s" "food s' = food s"
      "forks_ok (forks s') ((map has_right (phils s))[t := has_right p]) ((map has_left (phils s))[t := has_left p])"
      "waiter s' + one_if admitted p = waiter s + one_if admitted (phils s ! t)"
      "uneaten p = uneaten (phils s ! t)" "p \<in> {SayDone, Gone} \<longrightarrow> phils s ! t \<in> {SayDone, Gone}" for p
    using p d a(2) by (intro inv10_go[OF a(1,2) p(1,2)]) (auto simp: meals10_def one_if_def add_ac)

  show ?thesis
  proof (cases "phils s ! t")
    case AtTable
    obtain f fd where f: "food_on_table (food s) = (f, fd)" by fastforce
    note sv = served_dish[OF f d(7)]
    show ?thesis
    proof (rule inv10_go[OF a(1,2), where p = "if f \<noteq> 0 then GotDish else SayDone"])
    qed (use a(3) AtTable f sv d in \<open>auto simp: step10_defs map_update_same phil10_defs one_if_def meals10_def add_ac split: if_splits\<close>)
  next
    case Eat
    show ?thesis
    proof (rule inv10_go[OF a(1,2), where p = UnlockLeft])
    qed (use a(3) Eat d in \<open>auto simp: step10_defs map_update_same phil10_defs one_if_def meals10_def sum_list_update add_ac split: if_splits\<close>)
  qed (rule go[of "phils s' ! t"]; use a(3) d(1-5) fork_steps[OF d(5) a(2)] in
    \<open>auto simp: step10_defs map_update_same phil10_defs one_if_def split: if_splits\<close>)+
qed
lemma step10_rank: "inv10 s \<Longrightarrow> t < PHILO \<Longrightarrow> step10 t s = Some s' \<Longrightarrow> rank10 s' < rank10 s"
proof -
  assume a: "inv10 s" "t < PHILO" "step10 t s = Some s'"
  note d = inv10D[OF a(1,2)]
  have go: "rank10 s' < rank10 s" if "phils s' = (phils s)[t := p]" "14 * food s' + phil_rank10 p < 14 * food s + phil_rank10 (phils s ! t)" for p
    using that tally_update[OF d(4), of phil_rank10 p] by (simp add: rank10_def)
  show ?thesis
  proof (cases "phils s ! t")
    case AtTable
    obtain f fd where f: "food_on_table (food s) = (f, fd)" by fastforce
    show ?thesis
      by (rule go[of "if f \<noteq> 0 then GotDish else SayDone"])
        (use a(3) AtTable f served_dish[OF f d(7)] d in \<open>auto simp: step10_defs\<close>)
  qed (rule go[of "phils s' ! t"]; use a(3) d in \<open>auto simp: step10_defs split: if_splits\<close>)+
qed

lemma stuck10:
  assumes "inv10 s" "t < PHILO" "step10 t s = None"
  shows "phils s ! t \<in> {WaitWaiter, LockLeft, LockRight, Gone}" "phils s ! t = WaitWaiter \<Longrightarrow> waiter s = 0"
    "phils s ! t = LockLeft \<Longrightarrow> has_right (phils s ! left_fork t)" "phils s ! t = LockRight \<Longrightarrow> has_left (phils s ! before t)"
proof -
  note d = inv10D[OF assms(1,2)]
  note forks = d(5) assms(2)
  show "phils s ! t \<in> {WaitWaiter, LockLeft, LockRight, Gone}"
    using assms(3) d unlock_right_ok[OF forks] unlock_left_ok[OF forks]
    by (cases "phils s ! t") (auto simp: step10_def go10_def say10_def Let_def phil10_defs split: bind_splits prod.splits)
  show "phils s ! t = WaitWaiter \<Longrightarrow> waiter s = 0" using assms(3) d by (auto simp: step10_def split: if_splits)
  show "phils s ! t = LockLeft \<Longrightarrow> has_right (phils s ! left_fork t)"
    using assms(2,3) d(1,4) lock_left_blocked[OF forks] by (auto simp: step10_def phil10_defs split: bind_splits)
  show "phils s ! t = LockRight \<Longrightarrow> has_left (phils s ! before t)"
    using assms(2,3) d(1,4) lock_right_blocked[OF forks] by (auto simp: step10_def phil10_defs split: bind_splits)
qed

lemma blocked10:
  assumes "p \<in> {WaitWaiter, LockLeft, LockRight, Gone}"
  shows "\<not> has_right p" "has_left p \<Longrightarrow> p = LockRight"
  using assms by (auto simp: phil10_defs)

lemma outside10: "p \<in> {WaitWaiter, Gone} \<Longrightarrow> one_if admitted p = 0"
  by (auto simp: one_if_def phil10_defs)

text \<open>If everybody waits, nobody waits for a left fork; whoever waits for the right one makes the one before wait for his, and so all five.\<close>

lemma all_gone10:
  assumes i: "inv10 s" and stuck: "\<forall>t < PHILO. step10 t s = None"
  shows "\<forall>t < PHILO. phils s ! t = Gone"
proof -
  note d = inv10D[OF i, of 0, simplified]
  note none = stuck[rule_format]
  have pc: "phils s ! t \<in> {WaitWaiter, LockLeft, LockRight, Gone}" if "t < PHILO" for t
    by (rule stuck10(1)[OF i that none[OF that]])
  have noleft: "phils s ! t \<noteq> LockLeft" if "t < PHILO" for t
    using stuck10(3)[OF i that none[OF that]] blocked10(1)[OF pc[OF before_left(3)[OF that]]] by auto
  have chain: "phils s ! before t = LockRight" if "t < PHILO" "phils s ! t = LockRight" for t
    by (rule blocked10(2)[OF pc[OF before_left(4)[OF that(1)]] stuck10(4)[OF i that(1) none[OF that(1)] that(2)]])
  have noright: "phils s ! t \<noteq> LockRight" if t: "t < PHILO" for t
  proof
    assume here: "phils s ! t = LockRight"
    have all: "phils s ! u = LockRight" if "u < PHILO" for u
      by (rule all_round[of "\<lambda>u. phils s ! u = LockRight", OF chain t here that])
    have "tally (one_if admitted) (phils s) = length (phils s)"
      by (intro tally_full) (use d(1) all in \<open>auto simp: one_if_def phil10_defs\<close>)
    then show False using d by simp
  qed
  have wg: "phils s ! t \<in> {WaitWaiter, Gone}" if "t < PHILO" for t using pc[OF that] noleft[OF that] noright[OF that] by simp
  have "tally (one_if admitted) (phils s) = 0" by (intro tally_zero allI impI outside10 wg) (simp add: d(1))
  then have "waiter s \<noteq> 0" using d by simp
  then have "phils s ! t \<noteq> WaitWaiter" if "t < PHILO" for t using stuck10(2)[OF i that none[OF that]] by auto
  then show ?thesis using wg by simp
qed

lemma ending10: "inv10 s \<Longrightarrow> \<forall>t < PHILO. step10 t s = None \<Longrightarrow> meals10 s = 499"
proof -
  assume a: "inv10 s" "\<forall>t < PHILO. step10 t s = None"
  note g = all_gone10[OF a] and d = inv10D[OF a(1), of 0, simplified]
  have "tally (one_if uneaten) (phils s) = 0" by (intro tally_zero) (use g d in \<open>auto simp: one_if_def phil10_defs\<close>)
  moreover have "food s = 0" using g[rule_format, of 0] d(8) by force
  ultimately show ?thesis using d(7) by (simp add: served_def)
qed

lemma apart10: "inv10 s \<Longrightarrow> i < PHILO \<Longrightarrow> \<not> (eating10 i s \<and> eating10 ((i + 1) mod PHILO) s)"
  using forks_apart[OF inv10D(5), of s i i] inv10D(1,4)[of s "left_fork i"] inv10D(4)[of s i] left_fork_mod[of i, symmetric]
  by (simp add: eating10_def phil10_defs) blast

interpretation w10: dining step10 inv10 rank10 eating10 meals10 499
  by unfold_locales (use inv10_step step10_rank apart10 ending10 in blast)+

text \<open>
  C18: In \<open>arkhipov/10\<close> two philosophers who share a fork never eat at the same time, in no schedule; no
  schedule has more than 7015 steps; and a state where nobody can go on is no deadlock but the end,
  with 499 dishes eaten (the program puts 500 on the table, and the last one is never handed out).
\<close>
theorem arkhipov10_dinner:
  assumes "set ts \<subseteq> {..<PHILO}" "run_schedule step10 ts arkhipov10_main = Some s"
  shows "(\<forall>i < PHILO. \<not> (eating10 i s \<and> eating10 ((i + 1) mod PHILO) s)) \<and> length ts \<le> 7015 \<and>
    ((\<forall>t < PHILO. step10 t s = None) \<longrightarrow> meals10 s = 499)"
proof -
  have "rank10 arkhipov10_main = 7015" by (simp add: rank10_def arkhipov10_main_def tally_def sum_list_replicate)
  then show ?thesis using w10.dinner[OF inv10_start assms] by simp
qed

theorem arkhipov10_dinner_witness:
  "\<exists>s. run_schedule step10 (replicate 9 1 @ replicate 6 2) arkhipov10_main = Some s \<and> eating10 1 s \<and> \<not> eating10 2 s"
proof -
  have "(case run_schedule step10 (replicate 9 1 @ replicate 6 2) arkhipov10_main of Some s \<Rightarrow> eating10 1 s | None \<Rightarrow> False)"
    by code_simp
  then obtain s where s: "run_schedule step10 (replicate 9 1 @ replicate 6 2) arkhipov10_main = Some s" "eating10 1 s"
    by (auto split: option.splits)
  moreover have "\<not> (eating10 1 s \<and> eating10 ((1 + 1) mod PHILO) s)"
    using arkhipov10_dinner[OF _ s(1), THEN conjunct1, rule_format, of 1] by simp
  ultimately show ?thesis by (auto simp: numeral_2_eq_2)
qed


subsection \<open>tamplon/lab10/slow.c: both forks under one mutex\<close>

datatype phils =
    STable | STaking | SLockRight | SGotRight | SLockLeft | SGotLeft | SFree | SSayEating | SEat
  | SUnlockLeft | SUnlockRight | SSayPut | SSayThinking | SSayDone | SGone

datatype lines = TakeOne nat nat | Put nat nat nat | EATING nat | THINKING nat | DoneEating nat

record slow =
  sfood :: nat
  taking_forks :: "nat option"
  sforks :: "nat option list"
  sphils :: "phils list"
  sout :: "lines list"

definition sgo :: "nat \<Rightarrow> phils \<Rightarrow> slow \<Rightarrow> slow" where
  "sgo t p s = s\<lparr>sphils := (sphils s)[t := p]\<rparr>"

definition put_line :: "lines \<Rightarrow> slow \<Rightarrow> slow" where
  "put_line l s = s\<lparr>sout := sout s @ [l]\<rparr>"

fun slow_get_fork :: "phils \<Rightarrow> nat \<Rightarrow> slow \<Rightarrow> slow option" where
  "slow_get_fork SLockRight t s = do { fs \<leftarrow> fork_lock t t (sforks s); Some (sgo t SGotRight (s\<lparr>sforks := fs\<rparr>)) }"
| "slow_get_fork SGotRight t s = Some (sgo t SLockLeft (put_line (TakeOne t t) s))"
| "slow_get_fork SLockLeft t s = do { fs \<leftarrow> fork_lock t (left_fork t) (sforks s); Some (sgo t SGotLeft (s\<lparr>sforks := fs\<rparr>)) }"
| "slow_get_fork SGotLeft t s = Some (sgo t SFree (put_line (TakeOne t (left_fork t)) s))"
| "slow_get_fork p t s = None"

fun slow_down_forks :: "phils \<Rightarrow> nat \<Rightarrow> slow \<Rightarrow> slow option" where
  "slow_down_forks SUnlockLeft t s = do { fs \<leftarrow> fork_unlock t (left_fork t) (sforks s); Some (sgo t SUnlockRight (s\<lparr>sforks := fs\<rparr>)) }"
| "slow_down_forks SUnlockRight t s = do { fs \<leftarrow> fork_unlock t t (sforks s); Some (sgo t SSayPut (s\<lparr>sforks := fs\<rparr>)) }"
| "slow_down_forks SSayPut t s = Some (sgo t SSayThinking (put_line (Put t (left_fork t) t) s))"
| "slow_down_forks p t s = None"

fun slow_philosopher :: "phils \<Rightarrow> nat \<Rightarrow> slow \<Rightarrow> slow option" where
  "slow_philosopher STable t s =
     (let (f, fd) = food_on_table (sfood s) in Some (sgo t (if f \<noteq> 0 then STaking else SSayDone) (s\<lparr>sfood := fd\<rparr>)))"
| "slow_philosopher STaking t s =
     (if taking_forks s = None then Some (sgo t SLockRight (s\<lparr>taking_forks := Some t\<rparr>)) else None)"
| "slow_philosopher SFree t s =
     (if taking_forks s = Some t then Some (sgo t SSayEating (s\<lparr>taking_forks := None\<rparr>)) else None)"
| "slow_philosopher SSayEating t s = Some (sgo t SEat (put_line (EATING t) s))"
| "slow_philosopher SEat t s = Some (sgo t SUnlockLeft s)"
| "slow_philosopher SSayThinking t s = Some (sgo t STable (put_line (THINKING t) s))"
| "slow_philosopher SSayDone t s = Some (sgo t SGone (put_line (DoneEating t) s))"
| "slow_philosopher SGone t s = None"
| "slow_philosopher SLockRight t s = slow_get_fork SLockRight t s"
| "slow_philosopher SGotRight t s = slow_get_fork SGotRight t s"
| "slow_philosopher SLockLeft t s = slow_get_fork SLockLeft t s"
| "slow_philosopher SGotLeft t s = slow_get_fork SGotLeft t s"
| "slow_philosopher SUnlockLeft t s = slow_down_forks SUnlockLeft t s"
| "slow_philosopher SUnlockRight t s = slow_down_forks SUnlockRight t s"
| "slow_philosopher SSayPut t s = slow_down_forks SSayPut t s"

definition slow_step :: "nat \<Rightarrow> slow \<Rightarrow> slow option" where
  "slow_step t s = do { p \<leftarrow> get_at (sphils s) t; slow_philosopher p t s }"

definition slow_main :: "int \<Rightarrow> int \<Rightarrow> (nat \<Rightarrow> int) \<Rightarrow> (nat \<Rightarrow> int) \<Rightarrow> slow outcome" where
  "slow_main food_err taking_err fork_err create_err =
     (if food_err \<noteq> 0 \<or> taking_err \<noteq> 0 \<or> list_ex (\<lambda>i. fork_err i \<noteq> 0) [0..<PHILO] \<or> list_ex (\<lambda>i. create_err i \<noteq> 0) [0..<PHILO]
      then Exit 1
      else Go \<lparr>sfood = 50, taking_forks = None, sforks = replicate PHILO None, sphils = replicate PHILO STable, sout = []\<rparr>)"

definition shas_right :: "phils \<Rightarrow> bool" where
  "shas_right p \<longleftrightarrow> p \<in> {SGotRight, SLockLeft, SGotLeft, SFree, SSayEating, SEat, SUnlockLeft, SUnlockRight}"

definition shas_left :: "phils \<Rightarrow> bool" where
  "shas_left p \<longleftrightarrow> p \<in> {SGotLeft, SFree, SSayEating, SEat, SUnlockLeft}"

definition staking :: "phils \<Rightarrow> bool" where
  "staking p \<longleftrightarrow> p \<in> {SLockRight, SGotRight, SLockLeft, SGotLeft, SFree}"

definition suneaten :: "phils \<Rightarrow> bool" where
  "suneaten p \<longleftrightarrow> staking p \<or> p \<in> {STaking, SSayEating}"

lemmas slow_defs = shas_right_def shas_left_def staking_def suneaten_def

definition slow_eats :: "nat \<Rightarrow> slow \<Rightarrow> bool" where
  "slow_eats i s \<longleftrightarrow> sphils s ! i \<in> {SSayEating, SEat}"

text \<open>The lines \<open>EATING\<close> of the output.\<close>

definition slow_meals :: "slow \<Rightarrow> nat" where
  "slow_meals s = length (filter (\<lambda>l. case l of EATING i \<Rightarrow> True | _ \<Rightarrow> False) (sout s))"

definition slow_inv :: "slow \<Rightarrow> bool" where
  "slow_inv s \<longleftrightarrow> length (sphils s) = PHILO \<and>
     forks_ok (sforks s) (map shas_right (sphils s)) (map shas_left (sphils s)) \<and>
     (\<forall>t < PHILO. staking (sphils s ! t) \<longleftrightarrow> taking_forks s = Some t) \<and>
     (\<forall>u. taking_forks s = Some u \<longrightarrow> u < PHILO) \<and>
     served 50 (sfood s) (slow_meals s + tally (one_if suneaten) (sphils s)) \<and>
     (\<forall>t < PHILO. sphils s ! t \<in> {SSayDone, SGone} \<longrightarrow> sfood s = 0)"

fun slow_phil_rank :: "phils \<Rightarrow> nat" where
  "slow_phil_rank STable = 2" | "slow_phil_rank STaking = 14" | "slow_phil_rank SLockRight = 13" | "slow_phil_rank SGotRight = 12"
| "slow_phil_rank SLockLeft = 11" | "slow_phil_rank SGotLeft = 10" | "slow_phil_rank SFree = 9" | "slow_phil_rank SSayEating = 8"
| "slow_phil_rank SEat = 7" | "slow_phil_rank SUnlockLeft = 6" | "slow_phil_rank SUnlockRight = 5" | "slow_phil_rank SSayPut = 4"
| "slow_phil_rank SSayThinking = 3" | "slow_phil_rank SSayDone = 1" | "slow_phil_rank SGone = 0"

definition slow_rank :: "slow \<Rightarrow> nat" where
  "slow_rank s = 13 * sfood s + tally slow_phil_rank (sphils s)"

lemma slow_invD:
  assumes "slow_inv s" "t < PHILO"
  shows "length (sphils s) = PHILO" "t < length (sphils s)"
    "forks_ok (sforks s) (map shas_right (sphils s)) (map shas_left (sphils s))"
    "\<forall>t < PHILO. staking (sphils s ! t) \<longleftrightarrow> taking_forks s = Some t"
    "served 50 (sfood s) (slow_meals s + tally (one_if suneaten) (sphils s))"
    "\<forall>t < PHILO. sphils s ! t \<in> {SSayDone, SGone} \<longrightarrow> sfood s = 0"
    "\<forall>u. taking_forks s = Some u \<longrightarrow> u < PHILO"
  using assms by (auto simp: slow_inv_def)

lemmas slow_step_defs = slow_step_def sgo_def put_line_def Let_def fault_simps

lemma slow_start:
  assumes "slow_main food_err taking_err fork_err create_err = Go s"
  shows "slow_inv s" "slow_rank s = 660"
proof -
  have s: "s = \<lparr>sfood = 50, taking_forks = None, sforks = replicate PHILO None, sphils = replicate PHILO STable, sout = []\<rparr>"
    using assms by (simp add: slow_main_def split: if_splits)
  have "tally w (replicate PHILO STable) = 5 * w STable" for w by (simp add: tally_def sum_list_replicate)
  moreover have "forks_ok (replicate PHILO None) (map shas_right (replicate PHILO STable)) (map shas_left (replicate PHILO STable))"
    by (auto simp: forks_ok_def slow_defs)
  ultimately show "slow_inv s" "slow_rank s = 660"
    by (auto simp: s slow_inv_def served_def slow_meals_def one_if_def slow_defs slow_rank_def)
qed

lemma slow_go:
  assumes i: "slow_inv s" and t: "t < PHILO"
    and s': "sphils s' = (sphils s)[t := p]"
    and forks: "forks_ok (sforks s') ((map shas_right (sphils s))[t := shas_right p]) ((map shas_left (sphils s))[t := shas_left p])"
    and taking: "staking p \<longleftrightarrow> taking_forks s' = Some t" "\<forall>u. u \<noteq> t \<longrightarrow> taking_forks s' = Some u \<longleftrightarrow> taking_forks s = Some u"
    and food: "sfood s' \<le> sfood s" "p \<in> {SSayDone, SGone} \<longrightarrow> sfood s' = 0"
    and meals: "\<And>n. slow_meals s + tally (one_if suneaten) (sphils s) = n + one_if suneaten (sphils s ! t) + slow_meals s \<Longrightarrow>
      served 50 (sfood s') (n + one_if suneaten p + slow_meals s')"
  shows "slow_inv s'"
proof -
  note d = slow_invD[OF i t]
  obtain n where n: "tally (one_if suneaten) (sphils s) = n + one_if suneaten (sphils s ! t)"
    using tally_member[OF d(2), of "one_if suneaten"] le_iff_add by (metis add.commute)
  then have "tally (one_if suneaten) ((sphils s)[t := p]) = n + one_if suneaten p"
    using tally_update[OF d(2), of "one_if suneaten" p] by simp
  moreover have "served 50 (sfood s') (n + one_if suneaten p + slow_meals s')" using meals[of n] n by simp
  moreover have "\<forall>u < PHILO. sphils s' ! u \<in> {SSayDone, SGone} \<longrightarrow> sfood s' = 0"
    using d(6) food s' d(1) t by (auto simp: nth_list_update)
  moreover have "\<forall>u < PHILO. staking (sphils s' ! u) \<longleftrightarrow> taking_forks s' = Some u"
    using d(4) taking s' d(1) t by (auto simp: nth_list_update)
  moreover have "\<forall>u. taking_forks s' = Some u \<longrightarrow> u < PHILO" using taking(2) d(7) t by metis
  ultimately show ?thesis using forks d(1) s' by (simp add: slow_inv_def map_update add.commute)
qed

lemma slow_inv_step: "slow_inv s \<Longrightarrow> t < PHILO \<Longrightarrow> slow_step t s = Some s' \<Longrightarrow> slow_inv s'"
proof -
  assume a: "slow_inv s" "t < PHILO" "slow_step t s = Some s'"
  note d = slow_invD[OF a(1,2)]
  have tk: "staking (sphils s ! t) \<longleftrightarrow> taking_forks s = Some t" using d(4) a(2) by blast
  have go: "slow_inv s'" if p: "sphils s' = (sphils s)[t := p]" "slow_meals s' = slow_meals s" "sfood s' = sfood s"
      "forks_ok (sforks s') ((map shas_right (sphils s))[t := shas_right p]) ((map shas_left (sphils s))[t := shas_left p])"
      "staking p \<longleftrightarrow> taking_forks s' = Some t" "\<forall>u. u \<noteq> t \<longrightarrow> taking_forks s' = Some u \<longleftrightarrow> taking_forks s = Some u"
      "suneaten p = suneaten (sphils s ! t)" "p \<in> {SSayDone, SGone} \<longrightarrow> sphils s ! t \<in> {SSayDone, SGone}" for p
    using p d a(2) by (intro slow_go[OF a(1,2) p(1)]) (auto simp: one_if_def add_ac)
  show ?thesis
  proof (cases "sphils s ! t")
    case STable
    obtain f fd where f: "food_on_table (sfood s) = (f, fd)" by fastforce
    show ?thesis
      by (rule slow_go[OF a(1,2), where p = "if f \<noteq> 0 then STaking else SSayDone"])
        (use a(3) STable f served_dish[OF f d(5)] d tk in
          \<open>auto simp: slow_step_defs map_update_same slow_defs one_if_def slow_meals_def add_ac split: if_splits\<close>)
  next
    case SSayEating
    show ?thesis
      by (rule slow_go[OF a(1,2), where p = SEat])
        (use a(3) SSayEating d tk in \<open>auto simp: slow_step_defs map_update_same slow_defs one_if_def slow_meals_def add_ac\<close>)
  qed (rule go[of "sphils s' ! t"]; use a(3) d(1-3) tk fork_steps[OF d(3) a(2)] in
    \<open>auto simp: slow_step_defs map_update_same slow_defs slow_meals_def split: if_splits\<close>)+
qed

lemma slow_step_rank: "slow_inv s \<Longrightarrow> t < PHILO \<Longrightarrow> slow_step t s = Some s' \<Longrightarrow> slow_rank s' < slow_rank s"
proof -
  assume a: "slow_inv s" "t < PHILO" "slow_step t s = Some s'"
  note d = slow_invD[OF a(1,2)]
  have go: "slow_rank s' < slow_rank s" if "sphils s' = (sphils s)[t := p]"
      "13 * sfood s' + slow_phil_rank p < 13 * sfood s + slow_phil_rank (sphils s ! t)" for p
    using that tally_update[OF d(2), of slow_phil_rank p] by (simp add: slow_rank_def)
  show ?thesis
  proof (cases "sphils s ! t")
    case STable
    obtain f fd where f: "food_on_table (sfood s) = (f, fd)" by fastforce
    show ?thesis
      by (rule go[of "if f \<noteq> 0 then STaking else SSayDone"])
        (use a(3) STable f served_dish[OF f d(5)] d in \<open>auto simp: slow_step_defs\<close>)
  qed (rule go[of "sphils s' ! t"]; use a(3) d(1,2) in \<open>auto simp: slow_step_defs split: if_splits\<close>)+
qed

lemma slow_stuck:
  assumes "slow_inv s" "t < PHILO" "slow_step t s = None"
  shows "sphils s ! t \<in> {STaking, SLockRight, SLockLeft, SGone}" "sphils s ! t = STaking \<Longrightarrow> taking_forks s \<noteq> None"
    "sphils s ! t = SLockLeft \<Longrightarrow> shas_right (sphils s ! left_fork t)"
    "sphils s ! t = SLockRight \<Longrightarrow> shas_left (sphils s ! before t)"
proof -
  note d = slow_invD[OF assms(1,2)]
  note forks = d(3) assms(2)
  have tk: "staking (sphils s ! t) \<longleftrightarrow> taking_forks s = Some t" using d(4) assms(2) by blast
  show "sphils s ! t \<in> {STaking, SLockRight, SLockLeft, SGone}"
    using assms(3) d(1,2) tk unlock_right_ok[OF forks] unlock_left_ok[OF forks]
    by (cases "sphils s ! t") (auto simp: slow_step_def sgo_def put_line_def Let_def slow_defs split: bind_splits prod.splits)
  show "sphils s ! t = STaking \<Longrightarrow> taking_forks s \<noteq> None" using assms(3) d(1,2) by (auto simp: slow_step_def split: if_splits)
  show "sphils s ! t = SLockLeft \<Longrightarrow> shas_right (sphils s ! left_fork t)"
    using assms(2,3) d(1,2) lock_left_blocked[OF forks] by (auto simp: slow_step_def slow_defs split: bind_splits)
  show "sphils s ! t = SLockRight \<Longrightarrow> shas_left (sphils s ! before t)"
    using assms(2,3) d(1,2) lock_right_blocked[OF forks] by (auto simp: slow_step_def slow_defs split: bind_splits)
qed

lemma slow_blocked:
  assumes "p \<in> {STaking, SLockRight, SLockLeft, SGone}"
  shows "shas_right p \<Longrightarrow> p = SLockLeft" "\<not> shas_left p" "staking p \<Longrightarrow> p = SLockRight \<or> p = SLockLeft"
  using assms by (auto simp: slow_defs)

text \<open>Whoever is at the forks holds \<open>taking_forks\<close>, so he waits for nobody but one who eats.\<close>

lemma slow_all_gone:
  assumes i: "slow_inv s" and stuck: "\<forall>t < PHILO. slow_step t s = None"
  shows "\<forall>t < PHILO. sphils s ! t = SGone"
proof -
  note d = slow_invD[OF i, of 0, simplified] and none = stuck[rule_format]
  have pc: "sphils s ! t \<in> {STaking, SLockRight, SLockLeft, SGone}" if "t < PHILO" for t
    by (rule slow_stuck(1)[OF i that none[OF that]])
  have tk: "staking (sphils s ! t) \<longleftrightarrow> taking_forks s = Some t" if "t < PHILO" for t using slow_invD(4)[OF i that] that by blast
  have noright: "sphils s ! t \<noteq> SLockRight" if "t < PHILO" for t
    using slow_stuck(4)[OF i that none[OF that]] slow_blocked(2)[OF pc[OF before_left(4)[OF that]]] by blast
  have noleft: "sphils s ! t \<noteq> SLockLeft" if t: "t < PHILO" for t
  proof
    assume here: "sphils s ! t = SLockLeft"
    then have "sphils s ! left_fork t = SLockLeft"
      using slow_blocked(1)[OF pc[OF before_left(3)[OF t]] slow_stuck(3)[OF i t none[OF t]]] by blast
    then show False using tk[OF t] tk[OF before_left(3)[OF t]] here before_left(5)[OF t] by (simp add: staking_def)
  qed
  have "taking_forks s = None"
  proof (cases "taking_forks s")
    case (Some u)
    then have u: "u < PHILO" using slow_invD(7)[OF i, of 0] by simp
    then have "staking (sphils s ! u)" using tk Some by simp
    then show ?thesis using slow_blocked(3)[OF pc[OF u]] noright[OF u] noleft[OF u] by blast
  qed
  then have "sphils s ! t \<noteq> STaking" if "t < PHILO" for t using slow_stuck(2)[OF i that none[OF that]] by auto
  then show ?thesis using pc noright noleft by auto
qed

lemma slow_ending: "slow_inv s \<Longrightarrow> \<forall>t < PHILO. slow_step t s = None \<Longrightarrow> slow_meals s = 49"
proof -
  assume a: "slow_inv s" "\<forall>t < PHILO. slow_step t s = None"
  note g = slow_all_gone[OF a] and d = slow_invD[OF a(1), of 0, simplified]
  have "tally (one_if suneaten) (sphils s) = 0" by (intro tally_zero) (use g d in \<open>auto simp: one_if_def slow_defs\<close>)
  moreover have "sfood s = 0" using g[rule_format, of 0] d(6) by force
  ultimately show ?thesis using d(5) by (simp add: served_def)
qed

lemma slow_apart: "slow_inv s \<Longrightarrow> i < PHILO \<Longrightarrow> \<not> (slow_eats i s \<and> slow_eats ((i + 1) mod PHILO) s)"
  using forks_apart[OF slow_invD(3), of s i i] slow_invD(1,2)[of s "left_fork i"] slow_invD(2)[of s i] left_fork_mod[of i, symmetric]
  by (simp add: slow_eats_def slow_defs) blast

interpretation sl: dining slow_step slow_inv slow_rank slow_eats slow_meals 49
  by unfold_locales (use slow_inv_step slow_step_rank slow_apart slow_ending in blast)+

text \<open>
  C19: In \<open>tamplon/lab10/slow.c\<close> two philosophers who share a fork never eat at the same time, in no
  schedule; no schedule has more than 660 steps; and a state where nobody can go on is no deadlock but
  the end, with 49 lines \<open>EATING\<close> in the output (the last of the 50 dishes is never handed out).
\<close>
theorem slow_dinner:
  assumes "slow_main food_err taking_err fork_err create_err = Go s0"
    "set ts \<subseteq> {..<PHILO}" "run_schedule slow_step ts s0 = Some s"
  shows "(\<forall>i < PHILO. \<not> (slow_eats i s \<and> slow_eats ((i + 1) mod PHILO) s)) \<and> length ts \<le> 660 \<and>
    ((\<forall>t < PHILO. slow_step t s = None) \<longrightarrow> slow_meals s = 49)"
  using sl.dinner[OF slow_start(1)[OF assms(1)] assms(2,3)] slow_start(2)[OF assms(1)] by simp

theorem slow_dinner_witness:
  "\<exists>s0 s. slow_main 0 0 (\<lambda>_. 0) (\<lambda>_. 0) = Go s0 \<and>
     run_schedule slow_step (replicate 7 1 @ replicate 2 2) s0 = Some s \<and> slow_eats 1 s \<and> \<not> slow_eats 2 s"
proof -
  have "(case slow_main 0 0 (\<lambda>_. 0) (\<lambda>_. 0) of Go s0 \<Rightarrow>
      (case run_schedule slow_step (replicate 7 1 @ replicate 2 2) s0 of Some s \<Rightarrow> slow_eats 1 s | None \<Rightarrow> False) | _ \<Rightarrow> False)"
    by code_simp
  then obtain s0 s where s: "slow_main 0 0 (\<lambda>_. 0) (\<lambda>_. 0) = Go s0"
    "run_schedule slow_step (replicate 7 1 @ replicate 2 2) s0 = Some s" "slow_eats 1 s"
    by (auto split: option.splits outcome.splits)
  moreover have "\<not> (slow_eats 1 s \<and> slow_eats ((1 + 1) mod PHILO) s)"
    using slow_dinner[OF s(1) _ s(2), THEN conjunct1, rule_format, of 1] by simp
  ultimately show ?thesis by (auto simp: numeral_2_eq_2)
qed

end
