(* ===== verification/DiningStates.thy ===== *)
theory DiningStates
  imports Dining
begin

text \<open>
  \<open>tamplon/lab10/fast.c\<close>: the philosophers have no forks but states. Under the semaphore \<open>sem\<close> a hungry
  philosopher eats if neither neighbour does, and one who stops eating lets his hungry neighbours try.
  The section under \<open>sem\<close> is one step; the calls of the semaphores do not fail.
\<close>

datatype seat = THINKING | HUNGRY | EATING

datatype philf =
    FTable | FWaitSem | FHungry | FPost | FWaitS | FSayEating | FEat | FWaitSem2 | FPut | FPost2 | FGone

datatype linef = Take nat nat nat | Hungry nat | Eating nat | Put nat nat nat | Thinking nat

record fast =
  ffood :: nat
  states :: "seat list"
  sem :: nat
  S :: "nat list"
  fphils :: "philf list"
  fout :: "linef list"

definition fgo :: "nat \<Rightarrow> philf \<Rightarrow> fast \<Rightarrow> fast" where
  "fgo t p s = s\<lparr>fphils := (fphils s)[t := p]\<rparr>"

definition fline :: "linef \<Rightarrow> fast \<Rightarrow> fast" where
  "fline l s = s\<lparr>fout := fout s @ [l]\<rparr>"

definition test :: "nat \<Rightarrow> fast \<Rightarrow> fast option" where
  "test i s = do {
     x \<leftarrow> get_at (states s) i;
     y \<leftarrow> get_at (states s) ((i + 1) mod PHILO);
     z \<leftarrow> get_at (states s) ((i + PHILO - 1) mod PHILO);
     v \<leftarrow> get_at (S s) i;
     Some (if x = HUNGRY \<and> y \<noteq> EATING \<and> z \<noteq> EATING
           then fline (Take i (i mod PHILO) ((i + 1) mod PHILO)) (s\<lparr>states := (states s)[i := EATING], S := (S s)[i := v + 1]\<rparr>)
           else s) }"

fun get_forks :: "philf \<Rightarrow> nat \<Rightarrow> fast \<Rightarrow> fast option" where
  "get_forks FWaitSem t s = (if sem s = 0 then None else Some (fgo t FHungry (s\<lparr>sem := sem s - 1\<rparr>)))"
| "get_forks FHungry t s = do {
     ss \<leftarrow> put_at (states s) t HUNGRY;
     s \<leftarrow> test t (fline (Hungry t) (s\<lparr>states := ss\<rparr>));
     Some (fgo t FPost s) }"
| "get_forks FPost t s = Some (fgo t FWaitS (s\<lparr>sem := sem s + 1\<rparr>))"
| "get_forks FWaitS t s = do {
     v \<leftarrow> get_at (S s) t;
     if v = 0 then None else Some (fgo t FSayEating (s\<lparr>S := (S s)[t := v - 1]\<rparr>)) }"
| "get_forks p t s = None"

fun put_forks :: "philf \<Rightarrow> nat \<Rightarrow> fast \<Rightarrow> fast option" where
  "put_forks FWaitSem2 t s = (if sem s = 0 then None else Some (fgo t FPut (s\<lparr>sem := sem s - 1\<rparr>)))"
| "put_forks FPut t s = do {
     ss \<leftarrow> put_at (states s) t THINKING;
     s \<leftarrow> test ((t + 1) mod PHILO)
       (fline (Thinking t) (fline (Put t (t mod PHILO) ((t + 1) mod PHILO)) (s\<lparr>states := ss\<rparr>)));
     s \<leftarrow> test ((t + PHILO - 1) mod PHILO) s;
     Some (fgo t FPost2 s) }"
| "put_forks FPost2 t s = Some (fgo t FTable (s\<lparr>sem := sem s + 1\<rparr>))"
| "put_forks p t s = None"

fun fast_philosopher :: "philf \<Rightarrow> nat \<Rightarrow> fast \<Rightarrow> fast option" where
  "fast_philosopher FTable t s =
     (let (f, fd) = food_on_table (ffood s) in Some (fgo t (if f \<noteq> 0 then FWaitSem else FGone) (s\<lparr>ffood := fd\<rparr>)))"
| "fast_philosopher FSayEating t s = Some (fgo t FEat (fline (Eating t) s))"
| "fast_philosopher FEat t s = Some (fgo t FWaitSem2 s)"
| "fast_philosopher FGone t s = None"
| "fast_philosopher FWaitSem t s = get_forks FWaitSem t s"
| "fast_philosopher FHungry t s = get_forks FHungry t s"
| "fast_philosopher FPost t s = get_forks FPost t s"
| "fast_philosopher FWaitS t s = get_forks FWaitS t s"
| "fast_philosopher FWaitSem2 t s = put_forks FWaitSem2 t s"
| "fast_philosopher FPut t s = put_forks FPut t s"
| "fast_philosopher FPost2 t s = put_forks FPost2 t s"

definition fast_step :: "nat \<Rightarrow> fast \<Rightarrow> fast option" where
  "fast_step t s = do { p \<leftarrow> get_at (fphils s) t; fast_philosopher p t s }"

definition fast_main :: "int \<Rightarrow> int \<Rightarrow> (nat \<Rightarrow> int) \<Rightarrow> (nat \<Rightarrow> int) \<Rightarrow> fast outcome" where
  "fast_main food_err sem_err S_err create_err =
     (if food_err \<noteq> 0 \<or> sem_err \<noteq> 0 \<or> list_ex (\<lambda>i. S_err i \<noteq> 0) [0..<PHILO] \<or> list_ex (\<lambda>i. create_err i \<noteq> 0) [0..<PHILO]
      then Exit 1
      else Go \<lparr>ffood = 50, states = replicate PHILO THINKING, sem = 1, S = replicate PHILO 0,
             fphils = replicate PHILO FTable, fout = []\<rparr>)"

subsection \<open>The invariant\<close>

definition in_sem :: "philf \<Rightarrow> bool" where
  "in_sem p \<longleftrightarrow> p \<in> {FHungry, FPost, FPut, FPost2}"

definition funeaten :: "philf \<Rightarrow> bool" where
  "funeaten p \<longleftrightarrow> p \<in> {FWaitSem, FHungry, FPost, FWaitS, FSayEating}"

text \<open>The state and the semaphore of a philosopher, by where he is.\<close>

fun fits :: "philf \<Rightarrow> seat \<Rightarrow> nat \<Rightarrow> bool" where
  "fits FPost x v = (x = HUNGRY \<and> v = 0 \<or> x = EATING \<and> v = 1)"
| "fits FWaitS x v = (x = HUNGRY \<and> v = 0 \<or> x = EATING \<and> v = 1)"
| "fits FSayEating x v = (x = EATING \<and> v = 0)"
| "fits FEat x v = (x = EATING \<and> v = 0)"
| "fits FWaitSem2 x v = (x = EATING \<and> v = 0)"
| "fits FPut x v = (x = EATING \<and> v = 0)"
| "fits p x v = (x = THINKING \<and> v = 0)"

definition apart :: "seat list \<Rightarrow> bool" where
  "apart xs \<longleftrightarrow> (\<forall>i < PHILO. \<not> (xs ! i = EATING \<and> xs ! left_fork i = EATING))"

definition waits_for :: "seat list \<Rightarrow> nat \<Rightarrow> bool" where
  "waits_for xs i \<longleftrightarrow> (xs ! i = HUNGRY \<longrightarrow> xs ! left_fork i = EATING \<or> xs ! before i = EATING)"

definition fast_meals :: "fast \<Rightarrow> nat" where
  "fast_meals s = length (filter (\<lambda>l. case l of Eating i \<Rightarrow> True | _ \<Rightarrow> False) (fout s))"

definition fast_eats :: "nat \<Rightarrow> fast \<Rightarrow> bool" where
  "fast_eats i s \<longleftrightarrow> fphils s ! i \<in> {FSayEating, FEat}"

text \<open>The part on which \<open>test\<close> works, and the rest.\<close>

definition seats_inv :: "philf list \<Rightarrow> seat list \<Rightarrow> nat list \<Rightarrow> bool" where
  "seats_inv ps xs vs \<longleftrightarrow> length ps = PHILO \<and> length xs = PHILO \<and> length vs = PHILO \<and>
     (\<forall>i < PHILO. fits (ps ! i) (xs ! i) (vs ! i)) \<and> apart xs"

definition fast_inv :: "fast \<Rightarrow> bool" where
  "fast_inv s \<longleftrightarrow> seats_inv (fphils s) (states s) (S s) \<and> (\<forall>i < PHILO. waits_for (states s) i) \<and>
     sem s + tally (one_if in_sem) (fphils s) = 1 \<and>
     served 50 (ffood s) (fast_meals s + tally (one_if funeaten) (fphils s)) \<and>
     (\<forall>t < PHILO. fphils s ! t = FGone \<longrightarrow> ffood s = 0)"

fun fast_phil_rank :: "philf \<Rightarrow> nat" where
  "fast_phil_rank FTable = 1" | "fast_phil_rank FWaitSem = 10" | "fast_phil_rank FHungry = 9" | "fast_phil_rank FPost = 8"
| "fast_phil_rank FWaitS = 7" | "fast_phil_rank FSayEating = 6" | "fast_phil_rank FEat = 5" | "fast_phil_rank FWaitSem2 = 4"
| "fast_phil_rank FPut = 3" | "fast_phil_rank FPost2 = 2" | "fast_phil_rank FGone = 0"

definition fast_rank :: "fast \<Rightarrow> nat" where
  "fast_rank s = 10 * ffood s + tally fast_phil_rank (fphils s)"

lemma around [simp]:
  "i < PHILO \<Longrightarrow> (i + 1) mod PHILO = left_fork i" "i < PHILO \<Longrightarrow> Suc i mod PHILO = left_fork i"
  "(i + PHILO - 1) mod PHILO = before i" "(4 + i) mod PHILO = before i"
  by (simp_all add: left_fork_mod before_def add.commute)

text \<open>What \<open>test\<close> does to the states and the semaphores.\<close>

lemma test_cases:
  assumes "test i s = Some s'" "i < PHILO"
  shows "fphils s' = fphils s" "ffood s' = ffood s" "sem s' = sem s" "fast_meals s' = fast_meals s"
    "(states s' = states s \<and> S s' = S s \<and> waits_for (states s) i) \<or>
     (states s ! i = HUNGRY \<and> states s ! left_fork i \<noteq> EATING \<and> states s ! before i \<noteq> EATING \<and>
      states s' = (states s)[i := EATING] \<and> S s' = (S s)[i := S s ! i + 1])"
  using assms by (auto simp: test_def fline_def fast_meals_def waits_for_def fault_simps split: if_splits)

lemma test_seats:
  assumes t: "test i s = Some s'" "i < PHILO" and inv: "seats_inv ps (states s) (S s)"
  shows "seats_inv ps (states s') (S s')" "waits_for (states s') i"
    "\<And>j. j < PHILO \<Longrightarrow> waits_for (states s) j \<Longrightarrow> waits_for (states s') j"
    "\<And>j. states s' ! j = HUNGRY \<Longrightarrow> states s ! j = HUNGRY"
proof -
  note d = inv[unfolded seats_inv_def]
  have fit: "states s ! i = HUNGRY \<longrightarrow> ps ! i \<in> {FPost, FWaitS}"
    using d t(2) by (cases "ps ! i") auto
  from test_cases(5)[OF t] consider "states s' = states s" "S s' = S s" "waits_for (states s) i"
    | "states s ! i = HUNGRY" "states s ! left_fork i \<noteq> EATING" "states s ! before i \<noteq> EATING"
      "states s' = (states s)[i := EATING]" "S s' = (S s)[i := S s ! i + 1]" by blast
  note cases = this
  show "seats_inv ps (states s') (S s')"
  proof (cases rule: cases)
    case 2
    have "fits (ps ! i) EATING (S s ! i + 1)" using d fit 2(1) t(2) by auto
    moreover have "apart (states s')" unfolding apart_def
    proof (intro allI impI)
      fix j assume j: "j < PHILO"
      have "\<not> (states s ! j = EATING \<and> states s ! left_fork j = EATING)" using d j by (simp add: apart_def)
      moreover have "left_fork j = i \<Longrightarrow> j = before i" using j by auto
      ultimately show "\<not> (states s' ! j = EATING \<and> states s' ! left_fork j = EATING)"
        using 2 d j t(2) before_left(3)[OF j] before_left(5)[OF j, symmetric] by (auto simp: nth_list_update split: if_splits)
    qed
    ultimately show ?thesis using 2(4,5) d t(2) by (auto simp: seats_inv_def nth_list_update)
  qed (use inv in simp)
  show "waits_for (states s') i"
    using t(2) d by (cases rule: cases) (auto simp: waits_for_def)
  show "waits_for (states s') j" if "j < PHILO" "waits_for (states s) j" for j
    using that t(2) d by (cases rule: cases) (auto simp: waits_for_def nth_list_update split: if_splits)
  show "states s ! j = HUNGRY" if "states s' ! j = HUNGRY" for j
    using that t(2) d by (cases rule: cases) (auto simp: nth_list_update split: if_splits)
qed


lemma fast_invD:
  assumes "fast_inv s" "t < PHILO"
  shows "t < length (fphils s)" "t < length (states s)" "t < length (S s)" "fits (fphils s ! t) (states s ! t) (S s ! t)"
    "seats_inv (fphils s) (states s) (S s)" "\<forall>i < PHILO. waits_for (states s) i"
    "sem s + tally (one_if in_sem) (fphils s) = 1"
    "served 50 (ffood s) (fast_meals s + tally (one_if funeaten) (fphils s))"
    "\<forall>t < PHILO. fphils s ! t = FGone \<longrightarrow> ffood s = 0" "length (fphils s) = PHILO"
  using assms by (auto simp: fast_inv_def seats_inv_def)

lemmas fast_step_defs = fast_step_def fgo_def fline_def Let_def fault_simps

lemma fast_start:
  assumes "fast_main food_err sem_err S_err create_err = Go s"
  shows "fast_inv s" "fast_rank s = 505"
proof -
  have s: "s = \<lparr>ffood = 50, states = replicate PHILO THINKING, sem = 1, S = replicate PHILO 0,
      fphils = replicate PHILO FTable, fout = []\<rparr>"
    using assms by (simp add: fast_main_def split: if_splits)
  have "tally w (replicate PHILO FTable) = 5 * w FTable" for w by (simp add: tally_def sum_list_replicate)
  then show "fast_inv s" "fast_rank s = 505"
    by (auto simp: s fast_inv_def seats_inv_def apart_def waits_for_def served_def fast_meals_def one_if_def in_sem_def
        funeaten_def fast_rank_def)
qed

lemma seats_put:
  assumes "seats_inv ps xs vs" "t < PHILO" "fits p x (vs ! t)" "x = EATING \<longrightarrow> xs ! t = EATING"
  shows "seats_inv (ps[t := p]) (xs[t := x]) vs"
proof -
  have "apart (xs[t := x])"
    using assms before_left(3) unfolding apart_def seats_inv_def by (auto simp: nth_list_update)
  then show ?thesis using assms by (auto simp: seats_inv_def nth_list_update)
qed

lemma fast_go:
  assumes i: "fast_inv s" and t: "t < PHILO"
    and s': "fphils s' = (fphils s)[t := p]"
    and seats: "seats_inv ((fphils s)[t := p]) (states s') (S s')" "\<forall>i < PHILO. waits_for (states s') i"
    and sem: "sem s' + one_if in_sem p = sem s + one_if in_sem (fphils s ! t)"
    and food: "ffood s' \<le> ffood s" "p = FGone \<longrightarrow> ffood s' = 0"
    and meals: "\<And>n. fast_meals s + tally (one_if funeaten) (fphils s) = n + one_if funeaten (fphils s ! t) + fast_meals s \<Longrightarrow>
      served 50 (ffood s') (n + one_if funeaten p + fast_meals s')"
  shows "fast_inv s'"
proof -
  note d = fast_invD[OF i t]
  note u = tally_update[OF d(1)]
  obtain n where n: "tally (one_if funeaten) (fphils s) = n + one_if funeaten (fphils s ! t)"
    using tally_member[OF d(1), of "one_if funeaten"] le_iff_add by (metis add.commute)
  then have "tally (one_if funeaten) ((fphils s)[t := p]) = n + one_if funeaten p" using u[of "one_if funeaten" p] by simp
  moreover have "served 50 (ffood s') (n + one_if funeaten p + fast_meals s')" using meals[of n] n by simp
  moreover have "\<forall>u < PHILO. fphils s' ! u = FGone \<longrightarrow> ffood s' = 0"
    using d(9,10) food s' t by (auto simp: nth_list_update)
  moreover have "sem s' + tally (one_if in_sem) ((fphils s)[t := p]) = 1" using u[of "one_if in_sem" p] sem d(7) by simp
  ultimately show ?thesis using seats s' by (simp add: fast_inv_def add.commute)
qed

lemma fast_inv_step: "fast_inv s \<Longrightarrow> t < PHILO \<Longrightarrow> fast_step t s = Some s' \<Longrightarrow> fast_inv s'"
proof -
  assume a: "fast_inv s" "t < PHILO" "fast_step t s = Some s'"
  note d = fast_invD[OF a(1,2)]
  have go: "fast_inv s'" if p: "fphils s' = (fphils s)[t := p]" "fast_meals s' = fast_meals s" "ffood s' = ffood s"
      "seats_inv ((fphils s)[t := p]) (states s') (S s')" "\<forall>i < PHILO. waits_for (states s') i"
      "sem s' + one_if in_sem p = sem s + one_if in_sem (fphils s ! t)"
      "funeaten p = funeaten (fphils s ! t)" "p = FGone \<longrightarrow> fphils s ! t = FGone" for p
    using p d a(2) by (intro fast_go[OF a(1,2) p(1)]) (auto simp: one_if_def add_ac)
  have keep: "seats_inv ((fphils s)[t := p]) (states s) (S s)" if "fits p (states s ! t) (S s ! t)" for p
    using seats_put[OF d(5) a(2) that] by simp
  show ?thesis
  proof (cases "fphils s ! t")
    case FTable
    obtain f fd where f: "food_on_table (ffood s) = (f, fd)" by fastforce
    show ?thesis
      by (rule fast_go[OF a(1,2), where p = "if f \<noteq> 0 then FWaitSem else FGone"])
        (use a(3) FTable f served_dish[OF f d(8)] d keep in
          \<open>auto simp: fast_step_defs in_sem_def funeaten_def one_if_def fast_meals_def add_ac split: if_splits\<close>)
  next
    case FSayEating
    show ?thesis
      by (rule fast_go[OF a(1,2), where p = FEat])
        (use a(3) FSayEating d keep in \<open>auto simp: fast_step_defs in_sem_def funeaten_def one_if_def fast_meals_def add_ac\<close>)
  next
    case FWaitS
    have "seats_inv ((fphils s)[t := FSayEating]) (states s) ((S s)[t := S s ! t - 1])" if "S s ! t \<noteq> 0"
      using that d a(2) FWaitS by (auto simp: seats_inv_def nth_list_update)
    then show ?thesis
      by (intro go[of FSayEating]) (use a(3) FWaitS d in \<open>auto simp: fast_step_defs in_sem_def funeaten_def one_if_def fast_meals_def split: if_splits\<close>)
  next
    case FHungry
    define s1 where "s1 = fline (Hungry t) (s\<lparr>states := (states s)[t := HUNGRY]\<rparr>)"
    obtain s2 where s2: "test t s1 = Some s2" "s' = fgo t FPost s2"
      using a(3) FHungry d by (auto simp: fast_step_def s1_def fault_simps)
    have i1: "seats_inv ((fphils s)[t := FPost]) (states s1) (S s1)"
      using seats_put[OF d(5) a(2), of FPost HUNGRY] d(4) FHungry by (simp add: s1_def fline_def)
    have w1: "waits_for (states s1) j" if "j < PHILO" "j \<noteq> t" for j
      using d that FHungry by (auto simp: waits_for_def s1_def fline_def nth_list_update)
    have "\<forall>j < PHILO. waits_for (states s2) j"
      using test_seats(2,3)[OF s2(1) a(2) i1] w1 by blast
    then show ?thesis using test_seats(1)[OF s2(1) a(2) i1] test_cases(1-4)[OF s2(1) a(2)] FHungry s2(2)
      by (intro go[of FPost]) (auto simp: fgo_def s1_def fline_def fast_meals_def in_sem_def funeaten_def one_if_def)
  next
    case FPut
    define s1 where "s1 = fline (Thinking t) (fline (Put t (t mod PHILO) ((t + 1) mod PHILO)) (s\<lparr>states := (states s)[t := THINKING]\<rparr>))"
    obtain s2 s3 where s2: "test (left_fork t) s1 = Some s2" "test (before t) s2 = Some s3" "s' = fgo t FPost2 s3"
      using a(3) FPut d a(2) by (auto simp: fast_step_def s1_def fault_simps)
    note l = before_left(3)[OF a(2)] and b = before_left(4)[OF a(2)]
    have i1: "seats_inv ((fphils s)[t := FPost2]) (states s1) (S s1)"
      using seats_put[OF d(5) a(2), of FPost2 THINKING] d(4) FPut by (simp add: s1_def fline_def)
    note i2 = test_seats(1)[OF s2(1) l i1]
    have w1: "waits_for (states s1) j" if "j < PHILO" "j \<noteq> left_fork t" "j \<noteq> before t" for j
    proof -
      have "left_fork j \<noteq> t" "before j \<noteq> t" using that a(2) by auto
      then show ?thesis using d that by (auto simp: waits_for_def s1_def fline_def nth_list_update)
    qed
    have w2: "waits_for (states s2) j" if "j < PHILO" "j \<noteq> before t" for j
      using test_seats(2,3)[OF s2(1) l i1] w1 that by blast
    have "\<forall>j < PHILO. waits_for (states s3) j"
      using test_seats(2,3)[OF s2(2) b i2] w2 by blast
    then show ?thesis using test_seats(1)[OF s2(2) b i2] test_cases(1-4)[OF s2(1) l] test_cases(1-4)[OF s2(2) b] FPut s2(3)
      by (intro go[of FPost2]) (auto simp: fgo_def s1_def fline_def fast_meals_def in_sem_def funeaten_def one_if_def)
  qed (rule go[of "fphils s' ! t"]; use a(3) d(1-7) keep in
    \<open>auto simp: fast_step_defs in_sem_def funeaten_def one_if_def fast_meals_def split: if_splits\<close>)+
qed


lemma fast_step_rank: "fast_inv s \<Longrightarrow> t < PHILO \<Longrightarrow> fast_step t s = Some s' \<Longrightarrow> fast_rank s' < fast_rank s"
proof -
  assume a: "fast_inv s" "t < PHILO" "fast_step t s = Some s'"
  note d = fast_invD[OF a(1,2)]
  have go: "fast_rank s' < fast_rank s" if "fphils s' = (fphils s)[t := p]"
      "10 * ffood s' + fast_phil_rank p < 10 * ffood s + fast_phil_rank (fphils s ! t)" for p
    using that tally_update[OF d(1), of fast_phil_rank p] by (simp add: fast_rank_def)
  have tested: "fphils s2 = fphils s1 \<and> ffood s2 = ffood s1" if "test i s1 = Some s2" for i s1 s2
    using that by (auto simp: test_def fline_def fault_simps split: if_splits)
  show ?thesis
  proof (cases "fphils s ! t")
    case FTable
    obtain f fd where f: "food_on_table (ffood s) = (f, fd)" by fastforce
    show ?thesis
      by (rule go[of "if f \<noteq> 0 then FWaitSem else FGone"])
        (use a(3) FTable f served_dish[OF f d(8)] d(1) in \<open>auto simp: fast_step_defs\<close>)
  next
    case FHungry
    then show ?thesis by (intro go[of FPost]) (use a(3) d(1) in \<open>auto simp: fast_step_defs dest!: tested\<close>)
  next
    case FPut
    then show ?thesis by (intro go[of FPost2]) (use a(3) d(1) in \<open>auto simp: fast_step_defs dest!: tested\<close>)
  qed (rule go[of "fphils s' ! t"]; use a(3) d(1) in \<open>auto simp: fast_step_defs split: if_splits\<close>)+
qed

lemma test_defined:
  "length (states s) = PHILO \<Longrightarrow> length (S s) = PHILO \<Longrightarrow> i < PHILO \<Longrightarrow>
     \<exists>s'. test i s = Some s' \<and> length (states s') = PHILO \<and> length (S s') = PHILO"
  by (auto simp: test_def fline_def)

lemma fast_stuck:
  assumes "fast_inv s" "t < PHILO" "fast_step t s = None"
  shows "fphils s ! t \<in> {FWaitSem, FWaitSem2, FWaitS, FGone}" "fphils s ! t \<in> {FWaitSem, FWaitSem2} \<Longrightarrow> sem s = 0"
    "fphils s ! t = FWaitS \<Longrightarrow> S s ! t = 0"
proof -
  note d = fast_invD[OF assms(1,2)]
  have l: "length (states s) = PHILO" "length (S s) = PHILO" using d(5) by (auto simp: seats_inv_def)
  show "fphils s ! t \<in> {FWaitSem, FWaitSem2, FWaitS, FGone}"
  proof (cases "fphils s ! t")
    case FHungry
    then show ?thesis
      using assms(3) d(1-3) test_defined[of "fline (Hungry t) (s\<lparr>states := (states s)[t := HUNGRY]\<rparr>)" t] l assms(2)
      by (auto simp: fast_step_def fline_def)
  next
    case FPut
    define s1 where "s1 = fline (Thinking t) (fline (Put t (t mod PHILO) ((t + 1) mod PHILO)) (s\<lparr>states := (states s)[t := THINKING]\<rparr>))"
    obtain s2 where s2: "test (left_fork t) s1 = Some s2" "length (states s2) = PHILO" "length (S s2) = PHILO"
      using test_defined[of s1 "left_fork t"] l assms(2) by (auto simp: s1_def fline_def)
    obtain s3 where "test (before t) s2 = Some s3" using test_defined[OF s2(2,3), of "before t"] assms(2) by auto
    then show ?thesis using assms(2,3) d(1-3) FPut s2 by (auto simp: fast_step_def s1_def)
  qed (use assms(3) d(1-3) in \<open>auto simp: fast_step_def fgo_def fline_def Let_def split: prod.splits if_splits\<close>)
  show "fphils s ! t \<in> {FWaitSem, FWaitSem2} \<Longrightarrow> sem s = 0" using assms(3) d(1) by (auto simp: fast_step_def split: if_splits)
  show "fphils s ! t = FWaitS \<Longrightarrow> S s ! t = 0" using assms(3) d(1-3) by (auto simp: fast_step_def split: if_splits)
qed

text \<open>Whoever waits for his own semaphore waits for a neighbour who eats; and that one can go on.\<close>

lemma fast_all_gone:
  assumes i: "fast_inv s" and stuck: "\<forall>t < PHILO. fast_step t s = None"
  shows "\<forall>t < PHILO. fphils s ! t = FGone"
proof -
  note none = stuck[rule_format] and d = fast_invD[OF i, of 0, simplified]
  have pc: "fphils s ! t \<in> {FWaitSem, FWaitSem2, FWaitS, FGone}" if "t < PHILO" for t
    by (rule fast_stuck(1)[OF i that none[OF that]])
  have "tally (one_if in_sem) (fphils s) = 0"
  proof (intro tally_zero allI impI)
    fix t assume "t < length (fphils s)"
    then have "t < PHILO" using d(10) by simp
    then show "one_if in_sem (fphils s ! t) = 0" using pc[of t] by (auto simp: one_if_def in_sem_def)
  qed
  then have "sem s \<noteq> 0" using d(7) by simp
  then have pc2: "fphils s ! t \<in> {FWaitS, FGone}" if "t < PHILO" for t
    using pc[OF that] fast_stuck(2)[OF i that none[OF that]] by auto
  have noeat: "states s ! t \<noteq> EATING" if "t < PHILO" for t
    using pc2[OF that] fast_stuck(3)[OF i that none[OF that]] fast_invD(4)[OF i that] by auto
  have "fphils s ! t \<noteq> FWaitS" if t: "t < PHILO" for t
  proof
    assume "fphils s ! t = FWaitS"
    then have "states s ! t = HUNGRY" using fast_invD(4)[OF i t] noeat[OF t] by simp
    then show False using d(6) t noeat[OF before_left(3)[OF t]] noeat[OF before_left(4)[OF t]] by (auto simp: waits_for_def)
  qed
  then show ?thesis using pc2 by auto
qed

lemma fast_ending: "fast_inv s \<Longrightarrow> \<forall>t < PHILO. fast_step t s = None \<Longrightarrow> fast_meals s = 49"
proof -
  assume a: "fast_inv s" "\<forall>t < PHILO. fast_step t s = None"
  note g = fast_all_gone[OF a] and d = fast_invD[OF a(1), of 0, simplified]
  have "tally (one_if funeaten) (fphils s) = 0" by (intro tally_zero) (use g d(10) in \<open>auto simp: one_if_def funeaten_def\<close>)
  moreover have "ffood s = 0" using g[rule_format, of 0] d(9) by force
  ultimately show ?thesis using d(8) by (simp add: served_def)
qed

lemma fast_eats_state: "fast_inv s \<Longrightarrow> i < PHILO \<Longrightarrow> fast_eats i s \<Longrightarrow> states s ! i = EATING"
  using fast_invD(4)[of s i] by (auto simp: fast_eats_def)

lemma fast_apart: "fast_inv s \<Longrightarrow> i < PHILO \<Longrightarrow> \<not> (fast_eats i s \<and> fast_eats ((i + 1) mod PHILO) s)"
proof
  assume a: "fast_inv s" "i < PHILO" "fast_eats i s \<and> fast_eats ((i + 1) mod PHILO) s"
  then have "states s ! i = EATING" "states s ! left_fork i = EATING" by (auto intro!: fast_eats_state)
  moreover have "apart (states s)" using fast_invD(5)[OF a(1,2)] by (simp add: seats_inv_def)
  ultimately show False using a(2) by (auto simp: apart_def)
qed

interpretation fa: dining fast_step fast_inv fast_rank fast_eats fast_meals 49
  by unfold_locales (use fast_inv_step fast_step_rank fast_apart fast_ending in blast)+

text \<open>
  C6: In \<open>tamplon/lab10/fast.c\<close> two neighbours never eat at the same time, in no schedule; no schedule
  has more than 505 steps; and a state where nobody can go on is no deadlock but the end, with 49
  lines \<open>EATING\<close> in the output (the last of the 50 dishes is never handed out).
\<close>
theorem fast_dinner:
  assumes "fast_main food_err sem_err S_err create_err = Go s0"
    "set ts \<subseteq> {..<PHILO}" "run_schedule fast_step ts s0 = Some s"
  shows "(\<forall>i < PHILO. \<not> (fast_eats i s \<and> fast_eats ((i + 1) mod PHILO) s)) \<and> length ts \<le> 505 \<and>
    ((\<forall>t < PHILO. fast_step t s = None) \<longrightarrow> fast_meals s = 49)"
  using fa.dinner[OF fast_start(1)[OF assms(1)] assms(2,3)] fast_start(2)[OF assms(1)] by simp

theorem fast_dinner_witness:
  "\<exists>s0 s. fast_main 0 0 (\<lambda>_. 0) (\<lambda>_. 0) = Go s0 \<and>
     run_schedule fast_step (replicate 5 1 @ replicate 4 2) s0 = Some s \<and> fast_eats 1 s \<and> \<not> fast_eats 2 s"
proof -
  have "(case fast_main 0 0 (\<lambda>_. 0) (\<lambda>_. 0) of Go s0 \<Rightarrow>
      (case run_schedule fast_step (replicate 5 1 @ replicate 4 2) s0 of Some s \<Rightarrow> fast_eats 1 s | None \<Rightarrow> False) | _ \<Rightarrow> False)"
    by code_simp
  then obtain s0 s where s: "fast_main 0 0 (\<lambda>_. 0) (\<lambda>_. 0) = Go s0"
    "run_schedule fast_step (replicate 5 1 @ replicate 4 2) s0 = Some s" "fast_eats 1 s"
    by (auto split: option.splits outcome.splits)
  moreover have "\<not> (fast_eats 1 s \<and> fast_eats ((1 + 1) mod PHILO) s)"
    using fast_dinner[OF s(1) _ s(2), THEN conjunct1, rule_format, of 1] by simp
  ultimately show ?thesis by (auto simp: numeral_2_eq_2)
qed

end
