(* ===== verification/RybTables.thy ===== *)
theory RybTables
  imports PollTable FdTables
begin

text \<open>
  The tables of \<open>rybalko/31/server.c\<close>, a proxy with one thread: the array given to \<open>poll\<close>, the clients
  and the hosts. The C variable \<open>TOTAL_FDS_AMOUNT\<close> is always the number of allocated elements of
  \<open>server_fds\<close>, here the length of the list, and so are \<open>CURRENT_CLIENTS_AMOUNT\<close> and
  \<open>CURRENT_HOSTS_AMOUNT\<close>. The tables keep the promises that \<open>PollTable\<close> and \<open>FdTables\<close> state for the other
  proxy: the poll table is a finite map (\<open>poll_map\<close>), and a new descriptor gets a slot of its own
  (\<open>fd_table\<close>). The empty poll table is outside of the first: taking a descriptor from it makes
  \<open>CURRENT_POLL_FDS\<close> wrap around; but the program always watches its pipe first.
\<close>

subsection \<open>The poll table\<close>

record fd_array =
  server_fds :: "pollfd list"
  CURRENT_POLL_FDS :: nat
  closed_fds :: "int list"

abbreviation TOTAL_FDS_AMOUNT :: "fd_array \<Rightarrow> nat" where
  "TOTAL_FDS_AMOUNT t \<equiv> length (server_fds t)"

definition SERVICE_FDS_AMOUNT :: nat where "SERVICE_FDS_AMOUNT = 2"

text \<open>\<open>InitServerFd\<close> writes \<open>free_slot\<close>; \<open>InitServerFds\<close> starts with 16 + 2 of them.\<close>

definition InitServerFds :: "bool \<Rightarrow> fd_array option" where
  "InitServerFds oom =
     (if oom then None
      else Some \<lparr>server_fds = replicate (16 + SERVICE_FDS_AMOUNT) free_slot, CURRENT_POLL_FDS = 0, closed_fds = []\<rparr>)"

text \<open>\<open>SERVER_FDS_AMOUNT\<close> is \<open>TOTAL_FDS_AMOUNT - 2\<close>; the new elements start at \<open>CURRENT_POLL_FDS\<close>.\<close>

definition ReallocServerFds :: "fd_array \<Rightarrow> fd_array" where
  "ReallocServerFds t =
     (let n = (TOTAL_FDS_AMOUNT t - SERVICE_FDS_AMOUNT) * 2 + SERVICE_FDS_AMOUNT in
      t\<lparr>server_fds := take (CURRENT_POLL_FDS t) (realloc_list (server_fds t) n free_slot) @
          replicate (n - CURRENT_POLL_FDS t) free_slot\<rparr>)"

definition AddFdTOServerFds :: "int \<Rightarrow> 16 word \<Rightarrow> fd_array \<Rightarrow> fd_array option" where
  "AddFdTOServerFds fd ev t = do {
     hole \<leftarrow> (if CURRENT_POLL_FDS t < TOTAL_FDS_AMOUNT t
             then loop_find (\<lambda>p. pfd p = -1) (CURRENT_POLL_FDS t) (server_fds t)
             else Some (CURRENT_POLL_FDS t));
     if hole < CURRENT_POLL_FDS t then do {
       ps \<leftarrow> put_at (server_fds t) hole \<lparr>pfd = fd, events = ev, revents = 0\<rparr>;
       Some (t\<lparr>server_fds := ps\<rparr>) }
     else do {
       let t = (if TOTAL_FDS_AMOUNT t \<le> CURRENT_POLL_FDS t then ReallocServerFds t else t);
       ps \<leftarrow> put_at (server_fds t) (CURRENT_POLL_FDS t) \<lparr>pfd = fd, events = ev, revents = 0\<rparr>;
       Some (t\<lparr>server_fds := ps, CURRENT_POLL_FDS := CURRENT_POLL_FDS t + 1\<rparr>) } }"

text \<open>
  The loop of \<open>UpdatePollFdsAmount\<close> over \<open>i\<close>, \<open>i - 1\<close>, ..., 1. Before it, \<open>CURRENT_POLL_FDS\<close> is lowered
  when the deleted index is equal to it: that never is the case in a table that is not empty, and in
  an empty one \<open>CURRENT_POLL_FDS\<close> becomes the largest \<open>size_t\<close>.
\<close>

fun update_loop :: "pollfd list \<Rightarrow> nat \<Rightarrow> nat \<Rightarrow> nat option" where
  "update_loop ps 0 cur = Some cur"
| "update_loop ps (Suc i) cur = do {
     p \<leftarrow> get_at ps (Suc i);
     if pfd p = -1 then update_loop ps i (cur - 1) else Some cur }"

definition UpdatePollFdsAmount :: "nat \<Rightarrow> fd_array \<Rightarrow> fd_array option" where
  "UpdatePollFdsAmount deleted_idx t =
     (if CURRENT_POLL_FDS t = 0 then Some (if deleted_idx = 0 then t\<lparr>CURRENT_POLL_FDS := 2 ^ 64 - 1\<rparr> else t)
      else do {
        let cur = (if deleted_idx = CURRENT_POLL_FDS t then CURRENT_POLL_FDS t - 1 else CURRENT_POLL_FDS t);
        cur \<leftarrow> update_loop (server_fds t) (cur - 1) cur;
        Some (t\<lparr>CURRENT_POLL_FDS := cur\<rparr>) })"

definition DeleteFromPoll :: "int \<Rightarrow> fd_array \<Rightarrow> fd_array option" where
  "DeleteFromPoll fd t =
     (if fd < 0 then Some t
      else do {
        i \<leftarrow> loop_find (\<lambda>p. pfd p = fd) (CURRENT_POLL_FDS t) (server_fds t);
        if i < CURRENT_POLL_FDS t then do {
          ps \<leftarrow> put_at (server_fds t) i free_slot;
          UpdatePollFdsAmount i (t\<lparr>server_fds := ps, closed_fds := fd # closed_fds t\<rparr>) }
        else UpdatePollFdsAmount 0 t })"

text \<open>\<open>SetEventForFd\<close> goes on after the first match.\<close>

definition SetEventForFd :: "int \<Rightarrow> 16 word \<Rightarrow> fd_array \<Rightarrow> fd_array option" where
  "SetEventForFd fd ev t = do {
     assertm (CURRENT_POLL_FDS t \<le> TOTAL_FDS_AMOUNT t);
     Some (t\<lparr>server_fds :=
       map (\<lambda>p. if pfd p = fd then p\<lparr>events := ev, revents := 0\<rparr> else p) (take (CURRENT_POLL_FDS t) (server_fds t)) @
       drop (CURRENT_POLL_FDS t) (server_fds t)\<rparr>) }"

definition UpdateRevents :: "fd_array \<Rightarrow> fd_array" where
  "UpdateRevents t = t\<lparr>server_fds := map (\<lambda>p. p\<lparr>revents := 0\<rparr>) (server_fds t)\<rparr>"

text \<open>\<open>FreeServerFds\<close>: the array is freed; \<open>CURRENT_POLL_FDS\<close> is set to -1, the largest \<open>size_t\<close>.\<close>

definition FreeServerFds :: "fd_array \<Rightarrow> fd_array option" where
  "FreeServerFds t = do {
     cl \<leftarrow> close_all (CURRENT_POLL_FDS t) (server_fds t) (closed_fds t);
     Some \<lparr>server_fds = [], CURRENT_POLL_FDS = 2 ^ 64 - 1, closed_fds = cl\<rparr> }"

definition in_use :: "fd_array \<Rightarrow> pollfd list" where
  "in_use t = take (CURRENT_POLL_FDS t) (server_fds t)"

definition polled :: "fd_array \<Rightarrow> int \<Rightarrow> 16 word option" where
  "polled t = pfds_map (in_use t)"

definition fds_ok :: "fd_array \<Rightarrow> bool" where
  "fds_ok t \<longleftrightarrow> 0 < CURRENT_POLL_FDS t \<and> CURRENT_POLL_FDS t \<le> TOTAL_FDS_AMOUNT t \<and>
     SERVICE_FDS_AMOUNT < TOTAL_FDS_AMOUNT t \<and> unique_fds (in_use t)"

lemma update_loop_spec:
  "k < length ps \<Longrightarrow> \<exists>j \<le> k. update_loop ps k (Suc k) = Some (Suc j) \<and> (\<forall>m. j < m \<longrightarrow> m \<le> k \<longrightarrow> pfd (ps ! m) = -1)"
proof (induction k)
  case (Suc k)
  show ?case
  proof (cases "pfd (ps ! Suc k) = -1")
    case True
    obtain j where "j \<le> k" "update_loop ps k (Suc k) = Some (Suc j)" "\<forall>m. j < m \<longrightarrow> m \<le> k \<longrightarrow> pfd (ps ! m) = -1"
      using Suc by auto
    then show ?thesis using Suc.prems True by (intro exI[of _ j]) (auto simp: le_Suc_eq)
  next
    case False
    then show ?thesis using Suc.prems by (intro exI[of _ "Suc k"]) auto
  qed
qed simp

lemma fds_shrink:
  assumes "fds_ok t" "i < CURRENT_POLL_FDS t"
  shows "\<exists>t'. UpdatePollFdsAmount i t = Some t' \<and> fds_ok t' \<and> polled t' = polled t \<and> closed_fds t' = closed_fds t"
proof -
  let ?n = "CURRENT_POLL_FDS t"
  have n: "0 < ?n" "?n \<le> length (server_fds t)" using assms by (auto simp: fds_ok_def)
  then obtain j where j: "j \<le> ?n - 1" "update_loop (server_fds t) (?n - 1) ?n = Some (Suc j)"
      "\<forall>m. j < m \<longrightarrow> m \<le> ?n - 1 \<longrightarrow> pfd (server_fds t ! m) = -1"
    using update_loop_spec[of "?n - 1" "server_fds t"] by force
  let ?t = "t\<lparr>CURRENT_POLL_FDS := Suc j\<rparr>"
  let ?r = "drop (Suc j) (in_use t)"
  have f: "\<forall>p \<in> set ?r. pfd p = -1" using j(3) n by (auto simp: in_set_conv_nth in_use_def)
  have u: "in_use t = in_use ?t @ ?r" using j(1) n by (simp add: in_use_def min_def)
     (metis Suc_leI Suc_pred append_take_drop_id le_imp_less_Suc min.absorb1 take_take)
  have "unique_fds (in_use ?t)" using assms(1) unique_fds_append_free[OF f] u by (metis fds_ok_def)
  moreover have "polled ?t = polled t" using pfds_map_all_free[OF f] by (subst (2) polled_def, subst u) (simp add: pfds_map_append polled_def)
  ultimately have "fds_ok ?t \<and> polled ?t = polled t" using assms(1) j(1) n by (auto simp: fds_ok_def)
  then show ?thesis using j(2) n assms(2) by (intro exI[of _ ?t]) (simp add: UpdatePollFdsAmount_def Let_def)
qed

text \<open>Where a search of the used part stops.\<close>

lemma find_in_use:
  assumes "fds_ok t"
  obtains (found) a p b where "loop_find (\<lambda>p. pfd p = fd) (CURRENT_POLL_FDS t) (server_fds t) = Some (length a)"
      "in_use t = a @ p # b" "pfd p = fd" "length a < CURRENT_POLL_FDS t"
      "server_fds t = a @ p # b @ drop (CURRENT_POLL_FDS t) (server_fds t)"
  | (missing) "loop_find (\<lambda>p. pfd p = fd) (CURRENT_POLL_FDS t) (server_fds t) = Some (CURRENT_POLL_FDS t)"
      "fd \<notin> pfd ` set (in_use t)"
proof -
  let ?n = "CURRENT_POLL_FDS t"
  have n: "?n \<le> length (server_fds t)" using assms by (auto simp: fds_ok_def)
  then obtain i where i: "loop_find (\<lambda>p. pfd p = fd) ?n (server_fds t) = Some i" using loop_find_total by blast
  show thesis
  proof (cases "i < ?n")
    case True
    let ?u = "in_use t"
    have "length ?u = ?n" "?u ! i = server_fds t ! i" using n True by (simp_all add: in_use_def)
    then have "?u = take i ?u @ ?u ! i # drop (Suc i) ?u" "pfd (?u ! i) = fd" "length (take i ?u) = i"
      using True loop_find_hit[OF i] id_take_nth_drop[of i ?u] by auto
    moreover have "server_fds t = ?u @ drop ?n (server_fds t)" by (simp add: in_use_def)
    ultimately show thesis using found[of "take i ?u" "?u ! i" "drop (Suc i) ?u"] i True by (metis append.assoc append_Cons)
  next
    case False
    then have e: "i = ?n" using loop_find_le[OF i] by simp
    then have "\<forall>j < ?n. pfd (server_fds t ! j) \<noteq> fd" using i n loop_find_none[of ?n "server_fds t"] by simp
    then have "fd \<notin> pfd ` set (in_use t)" using n by (fastforce simp: in_use_def in_set_conv_nth)
    then show thesis using missing i e by simp
  qed
qed

lemma polled_None: "polled t fd = None \<longleftrightarrow> fd = -1 \<or> fd \<notin> pfd ` set (in_use t)"
  by (simp add: polled_def pfds_map_None)

lemma in_use_length: "fds_ok t \<Longrightarrow> length (in_use t) = CURRENT_POLL_FDS t"
  by (simp add: in_use_def fds_ok_def)

lemma update_at: "(a @ p # b @ r)[length a := q] = a @ q # b @ r"
  by simp

lemma take_front: "take (length (a @ q # b)) (a @ q # b @ r) = a @ q # b"
  by (metis append.assoc append_Cons append_eq_conv_conj)

lemma AddFd_polled:
  assumes ok: "fds_ok t" and fd: "is_fd fd" and new: "polled t fd = None"
  shows "\<exists>t'. AddFdTOServerFds fd e t = Some t' \<and> fds_ok t' \<and> polled t' = (polled t)(fd \<mapsto> e)"
proof -
  let ?n = "CURRENT_POLL_FDS t"
  let ?p = "\<lparr>pfd = fd, events = e, revents = 0\<rparr>"
  have nfd: "fd \<notin> pfd ` set (in_use t)" "fd \<noteq> -1" using fd new by (auto simp: polled_None is_fd_def)
  have append: ?thesis if r: "AddFdTOServerFds fd e t = Some (t\<lparr>server_fds := ps[?n := ?p], CURRENT_POLL_FDS := ?n + 1\<rparr>)"
      and ps: "?n < length ps" "take ?n ps = in_use t" "SERVICE_FDS_AMOUNT < length ps" for ps
  proof -
    let ?t = "t\<lparr>server_fds := ps[?n := ?p], CURRENT_POLL_FDS := ?n + 1\<rparr>"
    have u: "in_use ?t = in_use t @ [?p]" using ps by (simp add: in_use_def take_Suc_conv_app_nth)
    then have "unique_fds (in_use ?t)" "polled ?t = (polled t)(fd \<mapsto> e)"
      using ok nfd fd by (simp_all add: fds_ok_def unique_fds_split[of _ _ "[]"] polled_def pfds_map_split)
    then show ?thesis using r ps by (intro exI[of _ ?t]) (auto simp: fds_ok_def)
  qed
  have n: "0 < ?n" "?n \<le> length (server_fds t)" "SERVICE_FDS_AMOUNT < length (server_fds t)" using ok by (auto simp: fds_ok_def)
  show ?thesis
  proof (cases "?n < TOTAL_FDS_AMOUNT t")
    case True
    show ?thesis
      using ok
    proof (cases rule: find_in_use[where fd = "-1", consumes 1, case_names found missing])
      case (found a p b)
      let ?rest = "drop ?n (server_fds t)"
      let ?t = "t\<lparr>server_fds := a @ ?p # b @ ?rest\<rparr>"
      have l: "length (a @ ?p # b) = ?n" using in_use_length[OF ok] found(2) by simp
      have at: "(server_fds t)[length a := ?p] = a @ ?p # b @ ?rest"
        using arg_cong[OF found(5), of "\<lambda>xs. xs[length a := ?p]"] by simp
      have r: "AddFdTOServerFds fd e t = Some ?t"
        using True found(1,4) n at by (simp add: AddFdTOServerFds_def)
      have "in_use ?t = take ?n (a @ ?p # b @ ?rest)" by (simp add: in_use_def)
      then have u: "in_use ?t = a @ ?p # b" using take_front[of a ?p b ?rest] l by metis
      have "unique_fds (in_use ?t)" using u found(2,3) ok nfd fd by (auto simp: fds_ok_def unique_fds_split)
      moreover have "polled ?t = (polled t)(fd \<mapsto> e)"
        using u found(2,3) nfd pfds_map_split[of ?p a b] pfds_map_split[of p a b]
        by (simp add: polled_def image_Un del: fun_upd_apply)
      moreover have "length (server_fds ?t) = length (server_fds t)" by (subst found(5)) simp
      ultimately show ?thesis using r n by (intro exI[of _ ?t]) (auto simp: fds_ok_def)
    next
      case missing
      show ?thesis
        by (rule append[of "server_fds t"]) (use True missing n in \<open>auto simp: AddFdTOServerFds_def in_use_def\<close>)
    qed
  next
    case False
    let ?m = "(TOTAL_FDS_AMOUNT t - SERVICE_FDS_AMOUNT) * 2 + SERVICE_FDS_AMOUNT"
    let ?ps = "in_use t @ replicate (?m - ?n) free_slot"
    have m: "?n < ?m" using False n by (simp add: SERVICE_FDS_AMOUNT_def)
    have tk: "take ?n (realloc_list (server_fds t) ?m free_slot) = in_use t"
      using m n by (simp add: in_use_def mem_simps)
    have e: "?n = TOTAL_FDS_AMOUNT t" using False n by simp
    have l: "length ?ps = ?m" using in_use_length[OF ok] m by simp
    have "ReallocServerFds t = t\<lparr>server_fds := ?ps\<rparr>" using tk by (simp add: ReallocServerFds_def Let_def)
    then show ?thesis
      by (intro append[of ?ps]) (use e m l n in_use_length[OF ok] in \<open>auto simp: AddFdTOServerFds_def Let_def SERVICE_FDS_AMOUNT_def\<close>)
  qed
qed

lemma DeleteFromPoll_polled:
  assumes ok: "fds_ok t" and fd: "is_fd fd"
  shows "\<exists>t'. DeleteFromPoll fd t = Some t' \<and> fds_ok t' \<and> polled t' = (polled t)(fd := None) \<and>
    closed_fds t' = (if polled t fd = None then closed_fds t else fd # closed_fds t)"
proof -
  let ?n = "CURRENT_POLL_FDS t"
  have nfd: "\<not> fd < 0" "fd \<noteq> -1" using fd by (auto simp: is_fd_def)
  have n: "0 < ?n" using ok by (simp add: fds_ok_def)
  show ?thesis
    using ok
  proof (cases rule: find_in_use[where fd = fd, consumes 1, case_names found missing])
    case (found a p b)
    let ?rest = "drop ?n (server_fds t)"
    let ?t = "t\<lparr>server_fds := a @ free_slot # b @ ?rest, closed_fds := fd # closed_fds t\<rparr>"
    have l: "length (a @ free_slot # b) = ?n" using in_use_length[OF ok] found(2) by simp
    have len: "length (server_fds ?t) = length (server_fds t)" by (subst found(5)) simp
    have "in_use ?t = take ?n (a @ free_slot # b @ ?rest)" by (simp add: in_use_def)
    then have u: "in_use ?t = a @ free_slot # b" using take_front[of a free_slot b ?rest] l by metis
    have d: "unique_fds (a @ b)" "pfd p \<notin> pfd ` set (a @ b)"
      using ok found(2,3) nfd by (auto simp: fds_ok_def unique_fds_split)
    have "unique_fds (in_use ?t)" using u d by (simp add: unique_fds_split free_slot_def)
    then have ok': "fds_ok ?t" using ok len by (simp add: fds_ok_def)
    have w: "polled ?t = (polled t)(fd := None)"
      using pfds_map_drop[of p a b] d found(2,3) fd u pfds_map_split[of free_slot a b]
      by (simp add: polled_def free_slot_def del: fun_upd_apply)
    have wt: "polled t fd \<noteq> None" using found(2,3) nfd by (simp add: polled_None)
    obtain t' where t': "UpdatePollFdsAmount (length a) ?t = Some t'" "fds_ok t'" "polled t' = polled ?t" "closed_fds t' = closed_fds ?t"
      using fds_shrink[OF ok', of "length a"] found(4) by auto
    have "put_at (server_fds t) (length a) free_slot = Some (a @ free_slot # b @ ?rest)"
      using found(4) ok arg_cong[OF found(5), of "\<lambda>xs. xs[length a := free_slot]"] by (simp add: fds_ok_def)
    then have "DeleteFromPoll fd t = Some t'" using found(1,4) nfd t'(1) by (simp add: DeleteFromPoll_def)
    then show ?thesis using t' w wt by simp
  next
    case missing
    have wt: "polled t fd = None" using missing by (simp add: polled_None)
    then have "(polled t)(fd := None) = polled t" by (rule fun_upd_idem)
    then show ?thesis using fds_shrink[OF ok n] missing n nfd wt by (simp add: DeleteFromPoll_def)
  qed
qed

lemma pfds_map_rearm:
  "pfds_map (map (\<lambda>p. if pfd p = fd then p\<lparr>events := e, revents := 0\<rparr> else p) ps) =
     (\<lambda>x. if x = fd \<and> pfds_map ps x \<noteq> None then Some e else pfds_map ps x)"
  by (induction ps) (auto simp: fun_eq_iff)

lemma SetEvent_any:
  assumes ok: "fds_ok t"
  shows "\<exists>t'. SetEventForFd fd e t = Some t' \<and> fds_ok t' \<and> closed_fds t' = closed_fds t \<and>
    polled t' = (\<lambda>x. if x = fd \<and> polled t x \<noteq> None then Some e else polled t x)"
proof -
  let ?f = "\<lambda>p. if pfd p = fd then p\<lparr>events := e, revents := 0\<rparr> else p"
  let ?t = "t\<lparr>server_fds := map ?f (in_use t) @ drop (CURRENT_POLL_FDS t) (server_fds t)\<rparr>"
  have n: "CURRENT_POLL_FDS t \<le> length (server_fds t)" using ok by (simp add: fds_ok_def)
  have r: "SetEventForFd fd e t = Some ?t" using n by (simp add: SetEventForFd_def in_use_def)
  have u: "in_use ?t = map ?f (in_use t)" using n by (simp add: in_use_def)
  have pf: "map pfd (map ?f ps) = map pfd ps" for ps by simp
  have "unique_fds (map ?f ps) = unique_fds ps" for ps
    using unique_fds_map[OF pf] .
  then have "fds_ok ?t" using ok u n by (simp add: fds_ok_def in_use_def)
  then show ?thesis using r pfds_map_rearm[of fd e "in_use t"] unfolding polled_def by (intro exI[of _ ?t]) (simp add: u)
qed

lemma SetEvent_polled:
  assumes ok: "fds_ok t" and fd: "is_fd fd"
  shows "\<exists>t'. SetEventForFd fd e t = Some t' \<and> fds_ok t' \<and> closed_fds t' = closed_fds t \<and>
    polled t' = (if polled t fd = None then polled t else (polled t)(fd \<mapsto> e))"
  using SetEvent_any[OF ok, of fd e] by (auto simp: fun_eq_iff)

interpretation rp: poll_map fds_ok polled AddFdTOServerFds DeleteFromPoll SetEventForFd
  by unfold_locales (use AddFd_polled DeleteFromPoll_polled SetEvent_polled in blast)+

lemma first_watch:
  assumes "InitServerFds False = Some t0" "is_fd pipe"
  shows "\<exists>t. AddFdTOServerFds pipe e t0 = Some t \<and> fds_ok t \<and> polled t = [pipe \<mapsto> e]"
proof -
  have t0: "t0 = \<lparr>server_fds = replicate 18 free_slot, CURRENT_POLL_FDS = 0, closed_fds = []\<rparr>"
    using assms(1) by (simp add: InitServerFds_def SERVICE_FDS_AMOUNT_def)
  let ?t = "\<lparr>server_fds = (replicate 18 free_slot)[0 := \<lparr>pfd = pipe, events = e, revents = 0\<rparr>], CURRENT_POLL_FDS = 1, closed_fds = []\<rparr>"
  have "replicate 18 free_slot = free_slot # replicate 17 free_slot" by (simp add: numeral_eq_Suc)
  then have u: "in_use ?t = [\<lparr>pfd = pipe, events = e, revents = 0\<rparr>]" by (simp add: in_use_def)
  have "AddFdTOServerFds pipe e t0 = Some ?t" by (simp add: t0 AddFdTOServerFds_def)
  moreover have "fds_ok ?t" using assms(2) u by (simp add: fds_ok_def unique_fds_def SERVICE_FDS_AMOUNT_def)
  moreover have "polled ?t = [pipe \<mapsto> e]" using assms(2) u by (simp add: polled_def is_fd_def)
  ultimately show ?thesis by blast
qed

text \<open>
  The poll table of \<open>rybalko/31\<close>: once its pipe is watched, any sequence of watching new descriptors,
  giving up and re-arming descriptors runs without an index out of bounds, and the table then watches
  exactly the descriptors with the events that the same sequence leaves in a finite map.
\<close>
theorem rybalko_poll_table:
  assumes "InitServerFds False = Some t0" "is_fd pipe" "poll_allowed ops [pipe \<mapsto> e]"
  shows "\<exists>t. run_poll AddFdTOServerFds DeleteFromPoll SetEventForFd (Watch pipe e # ops) t0 = Some t \<and>
    fds_ok t \<and> polled t = fold poll_spec (Watch pipe e # ops) Map.empty"
proof -
  obtain t1 where t1: "AddFdTOServerFds pipe e t0 = Some t1" "fds_ok t1" "polled t1 = [pipe \<mapsto> e]"
    using first_watch[OF assms(1,2)] by blast
  then show ?thesis using rp.run_view[of t1 ops] assms(3) by simp
qed

theorem rybalko_poll_table_witness:
  "\<exists>t. run_poll AddFdTOServerFds DeleteFromPoll SetEventForFd (Watch 3 POLLIN # [Watch 5 POLLIN, Unwatch 3, Rewatch 5 POLLOUT])
      (the (InitServerFds False)) = Some t \<and> fds_ok t \<and> polled t = [5 \<mapsto> POLLOUT]"
proof -
  have m: "fold poll_spec (Watch 3 POLLIN # [Watch 5 POLLIN, Unwatch 3, Rewatch 5 POLLOUT]) Map.empty = [5 \<mapsto> POLLOUT]"
    by (auto simp: fun_eq_iff)
  show ?thesis unfolding m[symmetric]
    by (rule rybalko_poll_table) (simp_all add: is_fd_def INT_MAX_def InitServerFds_def)
qed

text \<open>Without the pipe the first descriptor that is given up makes the number of used slots wrap around.\<close>

lemma empty_table_wraps:
  "0 \<le> fd \<Longrightarrow> InitServerFds False = Some t \<Longrightarrow> map_option CURRENT_POLL_FDS (DeleteFromPoll fd t) = Some (2 ^ 64 - 1)"
  by (auto simp: InitServerFds_def DeleteFromPoll_def UpdatePollFdsAmount_def)

subsection \<open>Hosts\<close>

record host =
  hfd :: int
  hcache_idx :: int
  hlast_written_idx :: int
  header_parsed :: bool

definition InitHost :: host where
  "InitHost = \<lparr>hfd = -1, hcache_idx = -1, hlast_written_idx = -1, header_parsed = False\<rparr>"

definition InitHosts :: "bool \<Rightarrow> host list option" where
  "InitHosts oom = (if oom then None else Some (replicate 8 InitHost))"

definition ReallocHosts :: "host list \<Rightarrow> host list" where
  "ReallocHosts = grow_table InitHost"

definition SetForFreeHostId :: "int \<Rightarrow> host list \<Rightarrow> (int \<times> host list) option" where
  "SetForFreeHostId = table_alloc hfd (\<lambda>fd h. h\<lparr>hfd := fd\<rparr>) InitHost"

definition GetHostId :: "int \<Rightarrow> host list \<Rightarrow> int option" where
  "GetHostId = table_find hfd"

interpretation rh: fd_table "map hfd" SetForFreeHostId GetHostId
proof unfold_locales
  fix fd :: int and t :: "host list"
  assume "0 \<le> fd"
  then show "\<exists>r. GetHostId fd t = Some r \<and> first_index (map hfd t) fd r"
    unfolding GetHostId_def by (rule table_find_first)
  assume "map hfd t \<noteq> []"
  then show "\<exists>i t'. SetForFreeHostId fd t = Some (int i, t') \<and> slot_taken fd i (map hfd t) (map hfd t')"
    using table_alloc_slot[OF \<open>0 \<le> fd\<close>, of t hfd "\<lambda>fd h. h\<lparr>hfd := fd\<rparr>" InitHost]
    by (auto simp: SetForFreeHostId_def InitHost_def)
qed

subsection \<open>Clients\<close>

text \<open>\<open>rrequest\<close> is the block of \<open>URL_SIZE\<close> bytes, or NULL.\<close>

record rclient =
  rfd :: int
  rrequest :: "string option"
  rrequest_size :: nat
  rcache_idx :: int
  rlast_written_idx :: int

definition InitClient :: rclient where
  "InitClient = \<lparr>rfd = -1, rrequest = None, rrequest_size = 0, rcache_idx = -1, rlast_written_idx = -1\<rparr>"

definition InitClients :: "bool \<Rightarrow> rclient list option" where
  "InitClients oom = (if oom then None else Some (replicate 8 InitClient))"

definition ReallocClients :: "rclient list \<Rightarrow> rclient list" where
  "ReallocClients = grow_table InitClient"

definition SetForFreeClientId :: "int \<Rightarrow> rclient list \<Rightarrow> (int \<times> rclient list) option" where
  "SetForFreeClientId = table_alloc rfd (\<lambda>fd c. c\<lparr>rfd := fd\<rparr>) InitClient"

definition GetClientId :: "int \<Rightarrow> rclient list \<Rightarrow> int option" where
  "GetClientId = table_find rfd"

interpretation rc: fd_table "map rfd" SetForFreeClientId GetClientId
proof unfold_locales
  fix fd :: int and t :: "rclient list"
  assume "0 \<le> fd"
  then show "\<exists>r. GetClientId fd t = Some r \<and> first_index (map rfd t) fd r"
    unfolding GetClientId_def by (rule table_find_first)
  assume "map rfd t \<noteq> []"
  then show "\<exists>i t'. SetForFreeClientId fd t = Some (int i, t') \<and> slot_taken fd i (map rfd t) (map rfd t')"
    using table_alloc_slot[OF \<open>0 \<le> fd\<close>, of t rfd "\<lambda>fd c. c\<lparr>rfd := fd\<rparr>" InitClient]
    by (auto simp: SetForFreeClientId_def InitClient_def)
qed

end
