(* ===== verification/RybCache.thy ===== *)
theory RybCache
  imports RybTables
begin

text \<open>
  The state of \<open>rybalko/31/server.c\<close>, the string functions that take a request or a response apart, and
  the operations on cache records and their subscribers. A record is a slot of an array; its request,
  its response and its array of subscribers are blocks of memory or NULL (\<open>None\<close>). What the calls of the system return
  is an argument: \<open>now\<close> is the result of \<open>time\<close> during one handler, \<open>oom\<close> makes the next allocation fail.
  \<open>opened\<close> are the descriptors that \<open>socket\<close> and \<open>accept\<close> returned, \<open>sent\<close> the bytes that \<open>write\<close> took.
\<close>

record cache_item =
  request_hash :: "64 word"
  host_idx :: int
  subscribers :: "int list option"
  subs_size :: nat
  curr_subs :: nat
  irequest :: "string option"
  irequest_size :: nat
  response :: "string option"
  response_size :: nat
  response_idx :: nat
  full_time :: int
  full :: bool
  valid :: bool
  successful_request :: bool

record rybalko =
  fds :: fd_array
  clients :: "rclient list"
  hosts :: "host list"
  cache :: "cache_item list"
  MAX_CACHE :: "64 word"
  CURRENT_CACHE_SIZE :: "64 word"
  opened :: "int list"
  sent :: "(int \<times> string) list"

abbreviation URL_SIZE :: nat where "URL_SIZE \<equiv> 1024"
abbreviation SUB_SIZE :: nat where "SUB_SIZE \<equiv> 8"

definition on_fds :: "(fd_array \<Rightarrow> fd_array option) \<Rightarrow> rybalko \<Rightarrow> rybalko option" where
  "on_fds f s = map_option (\<lambda>t. s\<lparr>fds := t\<rparr>) (f (fds s))"

definition on_client :: "nat \<Rightarrow> (rclient \<Rightarrow> rclient) \<Rightarrow> rybalko \<Rightarrow> rybalko option" where
  "on_client i f s = do { c \<leftarrow> get_at (clients s) i; Some (s\<lparr>clients := (clients s)[i := f c]\<rparr>) }"

definition on_host :: "nat \<Rightarrow> (host \<Rightarrow> host) \<Rightarrow> rybalko \<Rightarrow> rybalko option" where
  "on_host i f s = do { h \<leftarrow> get_at (hosts s) i; Some (s\<lparr>hosts := (hosts s)[i := f h]\<rparr>) }"

definition on_item :: "nat \<Rightarrow> (cache_item \<Rightarrow> cache_item) \<Rightarrow> rybalko \<Rightarrow> rybalko option" where
  "on_item i f s = do { r \<leftarrow> get_at (cache s) i; Some (s\<lparr>cache := (cache s)[i := f r]\<rparr>) }"

text \<open>An element at an \<open>int\<close> index.\<close>

definition item :: "int \<Rightarrow> rybalko \<Rightarrow> cache_item option" where
  "item i s = (if i < 0 then None else get_at (cache s) (nat i))"

subsection \<open>Strings\<close>

text \<open>The string in a buffer: up to the first NUL, which must be there.\<close>

definition c_string :: "string \<Rightarrow> string option" where
  "c_string buf = (if CHR 0x00 \<in> set buf then Some (takeWhile (\<lambda>c. c \<noteq> CHR 0x00) buf) else None)"

fun strstr :: "string \<Rightarrow> string \<Rightarrow> string option" where
  "strstr [] needle = (if needle = [] then Some [] else None)"
| "strstr (c # cs) needle = (if take (length needle) (c # cs) = needle then Some (c # cs) else strstr cs needle)"

definition schar :: "char \<Rightarrow> int" where
  "schar c = (if byte c < 128 then int (byte c) else int (byte c) - 256)"

fun djb2 :: "64 word \<Rightarrow> string \<Rightarrow> 64 word" where
  "djb2 h [] = h"
| "djb2 h (c # cs) = djb2 ((push_bit 5 h + h) + word_of_int (schar c)) cs"

text \<open>The copy into \<open>tmp\<close> needs room for the NUL.\<close>

definition hash :: "string option \<Rightarrow> (64 word) option" where
  "hash str =
     (case str of
        None \<Rightarrow> Some (-1)
      | Some s \<Rightarrow> if length s + 1 \<le> URL_SIZE then Some (djb2 5381 s) else None)"

definition ParseInt :: "string \<Rightarrow> int" where
  "ParseInt str = (case strtol10 str of (v, _, rest) \<Rightarrow> if rest = [] then int_of_long v else -1)"

definition HTTP_DELIM :: string where "HTTP_DELIM = ''://''"
definition GET_PREFIX :: string where "GET_PREFIX = ''GET ''"

definition skip_scheme :: "string \<Rightarrow> string" where
  "skip_scheme s = (case strstr s HTTP_DELIM of None \<Rightarrow> s | Some r \<Rightarrow> drop (length HTTP_DELIM) r)"

text \<open>\<open>Some None\<close>: an unsupported method; \<open>None\<close>: no \<open>HTTP\<close> behind the URL, or no room for it.\<close>

definition ExtractUrl :: "string \<Rightarrow> string option option" where
  "ExtractUrl full_url =
     (if take (length GET_PREFIX) full_url \<noteq> GET_PREFIX then Some None
      else do {
        let url_without_http = skip_scheme (drop (length GET_PREFIX) full_url);
        end \<leftarrow> strstr url_without_http '' HTTP'';
        let part_url_size = length url_without_http - length end;
        assertm (part_url_size + 1 \<le> URL_SIZE);
        Some (Some (take part_url_size url_without_http)) })"

text \<open>
  \<open>sscanf(s, ":%99d/%99[^\n]", port, path)\<close> on a string that starts with a colon: the values assigned.
  A number that is no \<open>int\<close> is undefined.
\<close>

definition scan_port_path :: "string \<Rightarrow> (int option \<times> string option) option" where
  "scan_port_path s =
     (let s1 = dropWhile (\<lambda>c. c = CHR 0x20 \<or> (9 \<le> byte c \<and> byte c \<le> 13)) (tl s);
          sign = (if s1 \<noteq> [] \<and> (hd s1 = CHR ''-'' \<or> hd s1 = CHR ''+'') then 1 else 0);
          ds = takeWhile is_digit (take (99 - sign) (drop sign s1));
          v = (if s1 \<noteq> [] \<and> hd s1 = CHR ''-'' then - fst (digits_value ds 0) else fst (digits_value ds 0));
          rest = drop (sign + length ds) s1;
          path = take 99 (takeWhile (\<lambda>c. c \<noteq> CHR 0x0A) (tl rest)) in
      if ds = [] then Some (None, None)
      else if \<not> (INT_MIN \<le> v \<and> v \<le> INT_MAX) then None
      else if rest = [] \<or> hd rest \<noteq> CHR ''/'' \<or> path = [] then Some (Some v, None)
      else Some (Some v, Some path))"

text \<open>Host, path (\<open>None\<close>: not assigned) and port.\<close>

definition DEFAULT_PORT :: int where "DEFAULT_PORT = 80"

definition ParseFullURL :: "string \<Rightarrow> (string \<times> string option \<times> int) option" where
  "ParseFullURL full_url =
     (let url_without_http = skip_scheme full_url;
          host = takeWhile (\<lambda>c. c \<noteq> CHR '':'' \<and> c \<noteq> CHR ''/'') url_without_http;
          url_tmp = drop (length host) url_without_http in
      if url_tmp = [] then Some (host, Some ''/'', DEFAULT_PORT)
      else if hd url_tmp = CHR ''/'' then Some (host, Some url_tmp, DEFAULT_PORT)
      else do {
        (port, path) \<leftarrow> scan_port_path url_tmp;
        Some (host, path, case port of None \<Rightarrow> DEFAULT_PORT | Some p \<Rightarrow> p) })"

text \<open>A response without \<open>Content-Length\<close> makes the function read from NULL.\<close>

definition GetResponseLenght :: "string \<Rightarrow> (64 word) option" where
  "GetResponseLenght header = do {
     len_start \<leftarrow> strstr header ''Content-Length: '';
     len_end \<leftarrow> strstr len_start [CHR 0x0D, CHR 0x0A];
     let tmp = take (length len_start - length len_end - 16) (drop 16 len_start);
     assertm (length tmp + 1 \<le> URL_SIZE);
     Some (word_of_int (ParseInt tmp)) }"

text \<open>
  \<open>first_str\<close> is a copy without NUL; the searches stop at the two blanks, which must be in the first line.
\<close>

definition GetResponseStatus :: "string \<Rightarrow> int option" where
  "GetResponseStatus header = do {
     end \<leftarrow> strstr header [CHR 0x0A];
     let first_str = take (length header - length end) header;
     status_str \<leftarrow> strstr first_str '' '';
     let status_str = tl status_str;
     tmp \<leftarrow> strstr status_str '' '';
     Some (ParseInt (take (length status_str - length tmp) status_str)) }"

subsection \<open>Records\<close>

text \<open>\<open>request_hash\<close> is reset to -1, the largest \<open>size_t\<close>, and \<open>host_idx\<close> to what compares equal to -1.\<close>

definition InitCacheItem :: cache_item where
  "InitCacheItem = \<lparr>request_hash = -1, host_idx = -1, subscribers = None, subs_size = 0, curr_subs = 0,
     irequest = None, irequest_size = 0, response = None, response_size = 0, response_idx = 0,
     full_time = -1, full = False, valid = False, successful_request = False\<rparr>"

definition InitCache :: "bool \<Rightarrow> cache_item list option" where
  "InitCache oom = (if oom then None else Some (replicate 16 InitCacheItem))"

definition ReallocCache :: "cache_item list \<Rightarrow> cache_item list" where
  "ReallocCache = grow_table InitCacheItem"

definition TryToFindAtCache :: "int \<Rightarrow> string \<Rightarrow> rybalko \<Rightarrow> (int \<times> rybalko) option" where
  "TryToFindAtCache now req s = do {
     h \<leftarrow> hash (Some req);
     i \<leftarrow> loop_find (\<lambda>r. valid r \<and> request_hash r = h) (length (cache s)) (cache s);
     if i < length (cache s) then do {
       s \<leftarrow> on_item i (\<lambda>r. r\<lparr>full_time := now\<rparr>) s;
       Some (int i, s) }
     else Some (-1, s) }"

definition AddToCache :: "bool \<Rightarrow> string \<Rightarrow> rybalko \<Rightarrow> (int \<times> rybalko) option" where
  "AddToCache oom req s = do {
     h \<leftarrow> hash (Some req);
     i \<leftarrow> loop_find (\<lambda>r. \<not> valid r) (length (cache s)) (cache s);
     let s = (if i < length (cache s) then s else s\<lparr>cache := ReallocCache (cache s)\<rparr>);
     s \<leftarrow> on_item i (\<lambda>r. r\<lparr>request_hash := h, valid := True\<rparr>) s;
     r \<leftarrow> get_at (cache s) i;
     if irequest r = None then
       if oom then do {
         s \<leftarrow> on_item i (\<lambda>r. r\<lparr>irequest_size := length req, valid := False\<rparr>) s;
         Some (-1, s) }
       else do {
         s \<leftarrow> on_item i (\<lambda>r. r\<lparr>irequest_size := length req, irequest := Some req\<rparr>) s;
         Some (int i, s) }
     else Some (int i, s) }"

subsection \<open>Subscribers\<close>

definition DeleteSub :: "int \<Rightarrow> int \<Rightarrow> rybalko \<Rightarrow> rybalko option" where
  "DeleteSub client_idx cache_idx s =
     (if cache_idx < 0 \<or> int (length (cache s)) < cache_idx \<or> client_idx < 0 \<or> int (length (clients s)) < client_idx then Some s
      else do {
        r \<leftarrow> item cache_idx s;
        if subs_size r = 0 then Some s
        else do {
          xs \<leftarrow> subscribers r;
          assertm (subs_size r \<le> length xs);
          let hits = length (filter (\<lambda>x. x = client_idx) (take (subs_size r) xs));
          on_item (nat cache_idx) (\<lambda>r. r\<lparr>
            subscribers := Some (map (\<lambda>x. if x = client_idx then -1 else x) (take (subs_size r) xs) @ drop (subs_size r) xs),
            curr_subs := (size_dec ^^ hits) (curr_subs r)\<rparr>) s } })"

definition DisconnectClient :: "int \<Rightarrow> rybalko \<Rightarrow> rybalko option" where
  "DisconnectClient idx s =
     (if idx < 0 \<or> int (length (clients s)) < idx then Some s
      else do {
        let i = nat idx;
        c \<leftarrow> get_at (clients s) i;
        s \<leftarrow> (if rrequest c \<noteq> None
             then on_client i (\<lambda>c. c\<lparr>rrequest := None, rrequest_size := 0, rlast_written_idx := 0\<rparr>) s else Some s);
        s \<leftarrow> (if rfd c \<noteq> -1 then do {
               s \<leftarrow> on_fds (DeleteFromPoll (rfd c)) s;
               on_client i (\<lambda>c. c\<lparr>rfd := -1\<rparr>) s }
             else Some s);
        if rcache_idx c \<noteq> -1 then do {
          s \<leftarrow> DeleteSub idx (rcache_idx c) s;
          on_client i (\<lambda>c. c\<lparr>rcache_idx := -1, rlast_written_idx := -1\<rparr>) s }
        else Some s })"

text \<open>The new part of the array is filled with -1; a failure leaves NULL, which the caller then reads.\<close>

definition ReallocSubs :: "bool \<Rightarrow> nat \<Rightarrow> rybalko \<Rightarrow> rybalko option" where
  "ReallocSubs oom i s = do {
     assertm (\<not> oom);
     r \<leftarrow> get_at (cache s) i;
     xs \<leftarrow> subscribers r;
     on_item i (\<lambda>r. r\<lparr>subs_size := subs_size r * 2,
       subscribers := Some (take (subs_size r) xs @ replicate (subs_size r) (-1))\<rparr>) s }"

definition AddSub :: "bool \<Rightarrow> int \<Rightarrow> int \<Rightarrow> rybalko \<Rightarrow> rybalko option" where
  "AddSub oom client_idx cache_idx s =
     (if cache_idx < 0 \<or> int (length (cache s)) < cache_idx \<or> client_idx < 0 \<or> int (length (clients s)) < client_idx then Some s
      else do {
        let i = nat cache_idx;
        r \<leftarrow> get_at (cache s) i;
        if \<not> valid r then Some s
        else do {
          s \<leftarrow> on_item i (\<lambda>r. r\<lparr>curr_subs := curr_subs r + 1\<rparr>) s;
          s \<leftarrow> (if subs_size r = 0 then do {
                 assertm (\<not> oom);
                 on_item i (\<lambda>r. r\<lparr>subs_size := SUB_SIZE, subscribers := Some (replicate SUB_SIZE (-1))\<rparr>) s }
               else Some s);
          r \<leftarrow> get_at (cache s) i;
          s \<leftarrow> (if subs_size r \<le> curr_subs r then ReallocSubs oom i s else Some s);
          r \<leftarrow> get_at (cache s) i;
          xs \<leftarrow> subscribers r;
          k \<leftarrow> loop_find (\<lambda>x. x = client_idx \<or> x = -1) (subs_size r) xs;
          if k < subs_size r then do {
            x \<leftarrow> get_at xs k;
            on_item i (\<lambda>r. r\<lparr>curr_subs := (if x = -1 then curr_subs r + 1 else curr_subs r),
              subscribers := Some (xs[k := client_idx])\<rparr>) s }
          else Some s } })"

fun notify_loop :: "int list \<Rightarrow> 16 word \<Rightarrow> rybalko \<Rightarrow> rybalko option" where
  "notify_loop [] ev s = Some s"
| "notify_loop (x # xs) ev s =
     (if x = -1 then notify_loop xs ev s
      else do {
        assertm (0 \<le> x);
        c \<leftarrow> get_at (clients s) (nat x);
        s \<leftarrow> on_fds (SetEventForFd (rfd c) ev) s;
        s \<leftarrow> (if rlast_written_idx c < 0 then on_client (nat x) (\<lambda>c. c\<lparr>rlast_written_idx := 0\<rparr>) s else Some s);
        notify_loop xs ev s })"

definition NotifySub :: "int \<Rightarrow> 16 word \<Rightarrow> rybalko \<Rightarrow> rybalko option" where
  "NotifySub cache_idx ev s = do {
     r \<leftarrow> item cache_idx s;
     if subs_size r = 0 then Some s
     else do {
       xs \<leftarrow> subscribers r;
       assertm (subs_size r \<le> length xs);
       notify_loop (take (subs_size r) xs) ev s } }"

subsection \<open>Giving up hosts and records\<close>

definition DisconnectHost :: "int \<Rightarrow> rybalko \<Rightarrow> rybalko option" where
  "DisconnectHost idx s =
     (if idx < 0 \<or> int (length (hosts s)) < idx then Some s
      else do {
        let i = nat idx;
        s \<leftarrow> on_host i (\<lambda>h. h\<lparr>hlast_written_idx := -1, header_parsed := False\<rparr>) s;
        h \<leftarrow> get_at (hosts s) i;
        s \<leftarrow> (if 0 \<le> hcache_idx h then do {
               s \<leftarrow> on_item (nat (hcache_idx h)) (\<lambda>r. r\<lparr>host_idx := -1\<rparr>) s;
               s \<leftarrow> NotifySub (hcache_idx h) (POLLIN OR POLLOUT) s;
               on_host i (\<lambda>h. h\<lparr>hcache_idx := -1\<rparr>) s }
             else Some s);
        if hfd h \<noteq> -1 then do {
          s \<leftarrow> on_fds (DeleteFromPoll (hfd h)) s;
          on_host i (\<lambda>h. h\<lparr>hfd := -1\<rparr>) s }
        else Some s })"

fun oldest_loop :: "nat \<Rightarrow> cache_item list \<Rightarrow> int \<Rightarrow> int \<Rightarrow> int" where
  "oldest_loop i [] max_timeout res = res"
| "oldest_loop i (r # rs) max_timeout res =
     (if full_time r < max_timeout \<and> full_time r \<noteq> -1 then oldest_loop (i + 1) rs (full_time r) (int i)
      else oldest_loop (i + 1) rs max_timeout res)"

definition GetOldestRecord :: "int \<Rightarrow> rybalko \<Rightarrow> int" where
  "GetOldestRecord now s = oldest_loop 0 (cache s) now (-1)"

fun disconnect_loop :: "int list \<Rightarrow> rybalko \<Rightarrow> rybalko option" where
  "disconnect_loop [] s = Some s"
| "disconnect_loop (x # xs) s = do {
     s \<leftarrow> (if x \<noteq> -1 then DisconnectClient x s else Some s);
     disconnect_loop xs s }"

text \<open>
  \<open>subs_size\<close> is 0 while the subscribers are disconnected, so that \<open>DeleteSub\<close> leaves the array alone.
\<close>

definition CleanCacheItem :: "int \<Rightarrow> rybalko \<Rightarrow> rybalko option" where
  "CleanCacheItem cache_idx s =
     (if cache_idx < 0 \<or> int (length (cache s)) < cache_idx then Some s
      else do {
        let i = nat cache_idx;
        s \<leftarrow> on_item i (\<lambda>r. r\<lparr>full := False, full_time := -1, valid := False, successful_request := False, request_hash := -1,
               irequest := None, irequest_size := 0, response := None, response_size := 0, response_idx := 0\<rparr>) s;
        r \<leftarrow> get_at (cache s) i;
        s \<leftarrow> (if host_idx r \<noteq> -1 then do {
               s \<leftarrow> DisconnectHost (host_idx r) s;
               on_item i (\<lambda>r. r\<lparr>host_idx := -1\<rparr>) s }
             else Some s);
        r \<leftarrow> get_at (cache s) i;
        case subscribers r of
          None \<Rightarrow> Some s
        | Some xs \<Rightarrow> do {
            s \<leftarrow> on_item i (\<lambda>r. r\<lparr>subs_size := 0\<rparr>) s;
            assertm (subs_size r \<le> length xs);
            s \<leftarrow> disconnect_loop (take (subs_size r) xs) s;
            on_item i (\<lambda>r. r\<lparr>subscribers := None, curr_subs := 0\<rparr>) s } })"

text \<open>\<open>needed_bytes\<close> is compared as \<open>size_t\<close>. Each turn gives up a record that is full, so \<open>CACHE_SIZE\<close> turns are enough.\<close>

definition too_little :: "int \<Rightarrow> 64 word \<Rightarrow> rybalko \<Rightarrow> bool" where
  "too_little now needed s \<longleftrightarrow> MAX_CACHE s - CURRENT_CACHE_SIZE s < needed \<and> GetOldestRecord now s \<noteq> -1"

fun free_loop :: "nat \<Rightarrow> int \<Rightarrow> 64 word \<Rightarrow> rybalko \<Rightarrow> rybalko option" where
  "free_loop 0 now needed s = (if too_little now needed s then None else Some s)"
| "free_loop (Suc fuel) now needed s =
     (if too_little now needed s then do {
        r \<leftarrow> item (GetOldestRecord now s) s;
        s \<leftarrow> CleanCacheItem (GetOldestRecord now s)
             (s\<lparr>CURRENT_CACHE_SIZE := CURRENT_CACHE_SIZE s - of_nat (response_size r)\<rparr>);
        free_loop fuel now needed s }
      else Some s)"

definition FreeMemoryForNewCacheRecord :: "int \<Rightarrow> 64 word \<Rightarrow> rybalko \<Rightarrow> (int \<times> rybalko) option" where
  "FreeMemoryForNewCacheRecord now needed s = do {
     s \<leftarrow> free_loop (length (cache s)) now needed s;
     Some (if needed < MAX_CACHE s - CURRENT_CACHE_SIZE s then 0 else -1, s) }"

end
