(* ===== verification/RybServer.thy ===== *)
theory RybServer
  imports RybCache
begin

text \<open>
  The handlers of \<open>rybalko/31/server.c\<close> and its main loop. \<open>env\<close> is what the calls of the system
  return to one handler: the bytes that \<open>read\<close> stored (\<open>None\<close> is an error, the empty string the end of the
  stream) and the old contents of the rest of the buffer, the result of \<open>write\<close>, the time, which
  allocations fail (named by the variable that is assigned), and the results of the calls that open a connection.
\<close>

record env =
  bytes_read :: "string option"
  junk :: string
  written :: int
  now :: int
  no_mem :: "string \<Rightarrow> bool"
  known_host :: "string \<Rightarrow> bool"
  new_socket :: int
  connect_result :: int

subsection \<open>Clients\<close>

text \<open>The socket is not closed when \<open>connect\<close> fails.\<close>

definition ConnectToHost :: "env \<Rightarrow> string \<Rightarrow> int \<Rightarrow> rybalko \<Rightarrow> int \<times> rybalko" where
  "ConnectToHost e host port s =
     (if port < 0 \<or> 65535 < port then (-1, s)
      else if \<not> known_host e host then (-1, s)
      else if new_socket e = -1 then (-1, s)
      else if connect_result e = -1 then (-1, s\<lparr>opened := new_socket e # opened s\<rparr>)
      else (new_socket e, s\<lparr>opened := new_socket e # opened s\<rparr>))"

text \<open>Lines 846 to 856: the NUL behind the bytes, and their copy.\<close>

definition store_request :: "env \<Rightarrow> nat \<Rightarrow> string \<Rightarrow> rybalko \<Rightarrow> (string option \<times> rybalko) option" where
  "store_request e i bs s = do {
     assertm (length bs + length (junk e) = URL_SIZE);
     buf \<leftarrow> put_at (bs @ junk e) (length bs) (CHR 0x00);
     c \<leftarrow> get_at (clients s) i;
     if rrequest_size c = 0 \<and> no_mem e ''request'' then do {
       s \<leftarrow> on_client i (\<lambda>c. c\<lparr>rrequest_size := URL_SIZE, rrequest := None\<rparr>) s;
       s \<leftarrow> DisconnectClient (int i) s;
       Some (None, s) }
     else do {
       s \<leftarrow> (if rrequest_size c = 0
            then on_client i (\<lambda>c. c\<lparr>rrequest_size := URL_SIZE, rrequest := Some (replicate URL_SIZE (CHR 0x00))\<rparr>) s
            else Some s);
       c \<leftarrow> get_at (clients s) i;
       r \<leftarrow> rrequest c;
       r \<leftarrow> memcpy_to r 0 bs;
       s \<leftarrow> on_client i (\<lambda>c. c\<lparr>rrequest := Some r\<rparr>) s;
       str \<leftarrow> c_string buf;
       Some (Some str, s) } }"

text \<open>Lines 868 to 874: the client joins a record.\<close>

definition join_item :: "env \<Rightarrow> nat \<Rightarrow> int \<Rightarrow> rybalko \<Rightarrow> rybalko option" where
  "join_item e i k s = do {
     s \<leftarrow> AddSub (no_mem e ''subscribers'') (int i) k s;
     s \<leftarrow> on_client i (\<lambda>c. c\<lparr>rcache_idx := k, rlast_written_idx := 0\<rparr>) s;
     r \<leftarrow> item k s;
     c \<leftarrow> get_at (clients s) i;
     if response_idx r \<noteq> 0 then on_fds (SetEventForFd (rfd c) (POLLIN OR POLLOUT)) s else Some s }"

text \<open>Lines 898 to 907: a host for a new record.\<close>

definition attach_host :: "env \<Rightarrow> nat \<Rightarrow> int \<Rightarrow> int \<Rightarrow> rybalko \<Rightarrow> rybalko option" where
  "attach_host e i k host_fd s = do {
     (h, hs) \<leftarrow> SetForFreeHostId host_fd (hosts s);
     s \<leftarrow> on_host (nat h) (\<lambda>h. h\<lparr>hcache_idx := k, hlast_written_idx := 0\<rparr>) (s\<lparr>hosts := hs\<rparr>);
     s \<leftarrow> on_item (nat k) (\<lambda>r. r\<lparr>host_idx := h\<rparr>) s;
     s \<leftarrow> AddSub (no_mem e ''subscribers'') (int i) k s;
     s \<leftarrow> on_client i (\<lambda>c. c\<lparr>rcache_idx := k, rlast_written_idx := 0\<rparr>) s;
     on_fds (AddFdTOServerFds host_fd (POLLIN OR POLLOUT)) s }"

text \<open>Lines 858 to 908; the path is printed, so it must be assigned.\<close>

definition serve_request :: "env \<Rightarrow> nat \<Rightarrow> string \<Rightarrow> rybalko \<Rightarrow> rybalko option" where
  "serve_request e i buf s = do {
     u \<leftarrow> ExtractUrl buf;
     case u of
       None \<Rightarrow> DisconnectClient (int i) s
     | Some url \<Rightarrow> do {
         (k, s) \<leftarrow> TryToFindAtCache (now e) buf s;
         if k \<noteq> -1 then join_item e i k s
         else do {
           (k, s) \<leftarrow> AddToCache (no_mem e ''item'') buf s;
           if k = -1 then DisconnectClient (int i) s
           else do {
             (host, path, port) \<leftarrow> ParseFullURL url;
             assertm (path \<noteq> None);
             let (host_fd, s) = ConnectToHost e host port s;
             if host_fd = -1 then do {
               s \<leftarrow> DisconnectClient (int i) s;
               CleanCacheItem k s }
             else attach_host e i k host_fd s } } } }"

definition ReadFromClient :: "env \<Rightarrow> int \<Rightarrow> rybalko \<Rightarrow> rybalko option" where
  "ReadFromClient e idx s =
     (if idx < 0 \<or> int (length (clients s)) < idx then Some s
      else do {
        c \<leftarrow> get_at (clients s) (nat idx);
        case bytes_read e of
          None \<Rightarrow> DisconnectClient idx s
        | Some bs \<Rightarrow>
            if bs = [] then DisconnectClient idx s
            else do {
              (buf, s) \<leftarrow> store_request e (nat idx) bs s;
              case buf of
                None \<Rightarrow> Some s
              | Some buf \<Rightarrow> serve_request e (nat idx) buf s } })"

text \<open>\<open>write(fd, &block[from], n)\<close> that returns \<open>w\<close>: nothing is read from the block if \<open>n\<close> is 0.\<close>

definition bytes_taken :: "string option \<Rightarrow> int \<Rightarrow> int \<Rightarrow> int \<Rightarrow> string option" where
  "bytes_taken block from n w = do {
     assertm (0 \<le> n \<and> w \<le> n);
     if w \<le> 0 then Some [] else do { b \<leftarrow> block; assertm (0 \<le> from); read_bytes b (nat from) (nat w) } }"

definition WriteToClient :: "env \<Rightarrow> int \<Rightarrow> rybalko \<Rightarrow> rybalko option" where
  "WriteToClient e idx s =
     (if idx < 0 \<or> int (length (clients s)) < idx then Some s
      else do {
        let i = nat idx;
        c \<leftarrow> get_at (clients s) i;
        let k = rcache_idx c;
        r \<leftarrow> item k s;
        if host_idx r = -1 \<and> \<not> valid r then CleanCacheItem k s
        else do {
          bs \<leftarrow> bytes_taken (response r) (rlast_written_idx c) (int (response_idx r) - rlast_written_idx c) (written e);
          if written e = -1 then DisconnectClient idx s
          else do {
            s \<leftarrow> on_client i (\<lambda>c. c\<lparr>rlast_written_idx := rlast_written_idx c + written e\<rparr>) (s\<lparr>sent := sent s @ [(rfd c, bs)]\<rparr>);
            s \<leftarrow> (if rlast_written_idx c + written e = int (response_idx r) then on_fds (SetEventForFd (rfd c) POLLIN) s else Some s);
            if \<not> successful_request r \<and> full r then do {
              s \<leftarrow> CleanCacheItem k s;
              on_client i (\<lambda>c. c\<lparr>rcache_idx := -1\<rparr>) s }
            else Some s } } })"

subsection \<open>Hosts\<close>

text \<open>
  Lines 967 to 994: the first bytes of a response. The flag says whether the handler goes on.
\<close>

definition start_response :: "env \<Rightarrow> int \<Rightarrow> int \<Rightarrow> string \<Rightarrow> rybalko \<Rightarrow> (bool \<times> rybalko) option" where
  "start_response e idx k buf s = do {
     header \<leftarrow> c_string buf;
     content_len \<leftarrow> GetResponseLenght header;
     if content_len = -1 then do { s \<leftarrow> DisconnectHost idx s; Some (False, s) }
     else if MAX_CACHE s < content_len then do { s \<leftarrow> CleanCacheItem k s; Some (False, s) }
     else do {
       (err, s) \<leftarrow> (if MAX_CACHE s - CURRENT_CACHE_SIZE s < content_len
                   then FreeMemoryForNewCacheRecord (now e) content_len s else Some (0, s));
       if err \<noteq> 0 then do { s \<leftarrow> DisconnectHost idx s; Some (False, s) }
       else do {
         s \<leftarrow> on_item (nat k) (\<lambda>r. r\<lparr>response_size := BUFSIZ,
                response := (if no_mem e ''response'' then None else Some (replicate BUFSIZ (CHR 0x00)))\<rparr>)
                (s\<lparr>CURRENT_CACHE_SIZE := CURRENT_CACHE_SIZE s + content_len\<rparr>);
         if no_mem e ''response'' then do { s \<leftarrow> DisconnectHost idx s; Some (False, s) }
         else Some (True, s) } } }"

text \<open>Lines 996 to 1006; \<open>response_size * 2\<close> is an \<open>int\<close>.\<close>

definition grow_response :: "env \<Rightarrow> int \<Rightarrow> int \<Rightarrow> nat \<Rightarrow> rybalko \<Rightarrow> (bool \<times> rybalko) option" where
  "grow_response e idx k n s = do {
     r \<leftarrow> item k s;
     if n + response_idx r < response_size r then Some (True, s)
     else do {
       assertm (int (response_size r * 2) \<le> INT_MAX);
       old \<leftarrow> response r;
       s \<leftarrow> on_item (nat k) (\<lambda>r. r\<lparr>response_size := response_size r * 2,
              response := (if no_mem e ''grow'' then None else Some (realloc_list old (response_size r * 2) (CHR 0x00)))\<rparr>) s;
       if no_mem e ''grow'' then do { s \<leftarrow> DisconnectHost idx s; Some (False, s) }
       else Some (True, s) } }"

text \<open>Lines 1007 to 1016.\<close>

definition append_bytes :: "int \<Rightarrow> int \<Rightarrow> string \<Rightarrow> string \<Rightarrow> rybalko \<Rightarrow> rybalko option" where
  "append_bytes idx k bs buf s = do {
     r \<leftarrow> item k s;
     block \<leftarrow> response r;
     block \<leftarrow> memcpy_to block (response_idx r) bs;
     s \<leftarrow> on_item (nat k) (\<lambda>r. r\<lparr>response := Some block, response_idx := response_idx r + length bs\<rparr>) s;
     s \<leftarrow> NotifySub k (POLLIN OR POLLOUT) s;
     h \<leftarrow> get_at (hosts s) (nat idx);
     if header_parsed h then Some s
     else do {
       s \<leftarrow> on_host (nat idx) (\<lambda>h. h\<lparr>header_parsed := True\<rparr>) s;
       header \<leftarrow> c_string buf;
       status \<leftarrow> GetResponseStatus header;
       if 200 \<le> status \<and> status < 300 then on_item (nat k) (\<lambda>r. r\<lparr>successful_request := True\<rparr>) s else Some s } }"

definition ReadFromHost :: "env \<Rightarrow> int \<Rightarrow> rybalko \<Rightarrow> rybalko option" where
  "ReadFromHost e idx s =
     (if idx < 0 \<or> int (length (hosts s)) < idx then Some s
      else do {
        h \<leftarrow> get_at (hosts s) (nat idx);
        let k = hcache_idx h;
        case bytes_read e of
          None \<Rightarrow> Some s
        | Some bs \<Rightarrow> do {
            r \<leftarrow> item k s;
            if bs = [] then do {
              s \<leftarrow> on_item (nat k) (\<lambda>r. r\<lparr>full := True, full_time := now e, response_size := response_idx r\<rparr>) s;
              s \<leftarrow> NotifySub k (POLLIN OR POLLOUT) s;
              DisconnectHost idx s }
            else do {
              let buf = bs @ junk e;
              assertm (length buf = BUFSIZ);
              (go, s) \<leftarrow> (if response_size r = 0 then start_response e idx k buf s else Some (True, s));
              if \<not> go then Some s
              else do {
                (go, s) \<leftarrow> grow_response e idx k (length bs) s;
                if \<not> go then Some s else append_bytes idx k bs buf s } } } })"

definition WriteToHost :: "env \<Rightarrow> int \<Rightarrow> rybalko \<Rightarrow> rybalko option" where
  "WriteToHost e idx s =
     (if idx < 0 \<or> int (length (hosts s)) < idx then Some s
      else do {
        let i = nat idx;
        h \<leftarrow> get_at (hosts s) i;
        r \<leftarrow> item (hcache_idx h) s;
        bs \<leftarrow> bytes_taken (irequest r) (hlast_written_idx h) (int (irequest_size r) - hlast_written_idx h) (written e);
        if written e = -1 then DisconnectHost idx s
        else do {
          s \<leftarrow> on_host i (\<lambda>h. h\<lparr>hlast_written_idx := hlast_written_idx h + written e\<rparr>) (s\<lparr>sent := sent s @ [(hfd h, bs)]\<rparr>);
          if hlast_written_idx h + written e = int (irequest_size r) then on_fds (SetEventForFd (hfd h) POLLIN) s
          else Some s } })"

subsection \<open>The main loop\<close>

definition AcceptClient :: "int \<Rightarrow> rybalko \<Rightarrow> rybalko option" where
  "AcceptClient new_fd s =
     (if new_fd = -1 then Some s
      else do {
        (i, cs) \<leftarrow> SetForFreeClientId new_fd (clients s);
        on_fds (AddFdTOServerFds new_fd POLLIN) (s\<lparr>clients := cs, opened := new_fd # opened s\<rparr>) })"

text \<open>
  One turn of the inner loop on slot \<open>i\<close>: \<open>new_fd\<close> is what \<open>accept\<close> returns. The result says whether
  the program goes on (the pipe of the signal handler is not readable) and whether a descriptor was handled.
\<close>

definition handle_slot :: "int \<Rightarrow> int \<Rightarrow> env \<Rightarrow> env \<Rightarrow> int \<Rightarrow> nat \<Rightarrow> rybalko \<Rightarrow> (bool \<times> bool \<times> rybalko) option" where
  "handle_slot pipe_fd listen_fd e_in e_out new_fd i s = do {
     p \<leftarrow> get_at (server_fds (fds s)) i;
     let curr_fd = pfd p;
     if curr_fd = pipe_fd \<and> revents p AND POLLIN \<noteq> 0 then Some (False, True, s)
     else if curr_fd = listen_fd \<and> revents p AND POLLIN \<noteq> 0 then do {
       s \<leftarrow> AcceptClient new_fd s;
       Some (True, True, s) }
     else do {
       client_idx \<leftarrow> GetClientId curr_fd (clients s);
       host_idx \<leftarrow> GetHostId curr_fd (hosts s);
       s \<leftarrow> (if revents p AND POLLIN = 0 then Some s
            else if client_idx \<noteq> -1 then ReadFromClient e_in client_idx s
            else if host_idx \<noteq> -1 then ReadFromHost e_in host_idx s else Some s);
       q \<leftarrow> get_at (server_fds (fds s)) i;
       s \<leftarrow> (if revents q AND POLLOUT = 0 then Some s
            else if client_idx \<noteq> -1 then WriteToClient e_out client_idx s
            else if host_idx \<noteq> -1 then WriteToHost e_out host_idx s else Some s);
       s \<leftarrow> (if 0 \<le> curr_fd \<and> client_idx = -1 \<and> host_idx = -1 \<and> curr_fd \<noteq> pipe_fd \<and> curr_fd \<noteq> listen_fd
            then on_fds (DeleteFromPoll curr_fd) s else Some s);
       Some (True, revents p AND POLLIN \<noteq> 0 \<or> revents q AND POLLOUT \<noteq> 0, s) } }"

subsection \<open>Start and end\<close>

definition FreeClients :: "rybalko \<Rightarrow> rybalko option" where
  "FreeClients s = do {
     t \<leftarrow> fold (\<lambda>c t. t \<bind> (\<lambda>t. if rfd c \<noteq> -1 then DeleteFromPoll (rfd c) t else Some t)) (clients s) (Some (fds s));
     Some (s\<lparr>fds := t, clients := []\<rparr>) }"

definition FreeHosts :: "rybalko \<Rightarrow> rybalko option" where
  "FreeHosts s = do {
     t \<leftarrow> fold (\<lambda>h t. t \<bind> (\<lambda>t. if hfd h \<noteq> -1 then DeleteFromPoll (hfd h) t else Some t)) (hosts s) (Some (fds s));
     Some (s\<lparr>fds := t, hosts := []\<rparr>) }"

text \<open>The blocks of a record are freed only if it has subscribers; the result are the blocks that stay.\<close>

definition FreeCache :: "rybalko \<Rightarrow> string list \<times> rybalko" where
  "FreeCache s =
     (concat (map (\<lambda>r. if subscribers r \<noteq> None then []
        else (case response r of None \<Rightarrow> [] | Some b \<Rightarrow> [b]) @ (case irequest r of None \<Rightarrow> [] | Some b \<Rightarrow> [b])) (cache s)),
      s\<lparr>cache := []\<rparr>)"

definition CleanUp :: "rybalko \<Rightarrow> (string list \<times> rybalko) option" where
  "CleanUp s = do {
     s \<leftarrow> FreeClients s;
     s \<leftarrow> FreeHosts s;
     t \<leftarrow> FreeServerFds (fds s);
     Some (FreeCache (s\<lparr>fds := t\<rparr>)) }"

text \<open>
  \<open>main\<close> up to its loop; \<open>args\<close> are the arguments, the flags say which call fails. The product
  \<open>ParseInt(argv[2]) * 1024 * 1024\<close> is an \<open>int\<close>.
\<close>

definition rybalko_main :: "string list \<Rightarrow> bool \<Rightarrow> bool \<Rightarrow> bool \<Rightarrow> bool \<Rightarrow> int \<Rightarrow> int \<Rightarrow> rybalko outcome option" where
  "rybalko_main args fds_oom pipe_fails listen_fails oom pipe_fd listen_fd =
     (case args of
        [port, mb] \<Rightarrow>
          if ParseInt port = -1 \<or> 65535 < ParseInt port then Some (Exit 1)
          else do {
            assertm (INT_MIN \<le> ParseInt mb * 1024 * 1024 \<and> ParseInt mb * 1024 * 1024 \<le> INT_MAX);
            case InitServerFds fds_oom of
              None \<Rightarrow> Some (Exit 1)
            | Some t \<Rightarrow>
                if pipe_fails then Some (Exit 1)
                else do {
                  t \<leftarrow> AddFdTOServerFds pipe_fd POLLIN t;
                  if listen_fails then Some (Exit 1)
                  else do {
                    t \<leftarrow> AddFdTOServerFds listen_fd POLLIN t;
                    case (InitClients oom, InitHosts oom, InitCache oom) of
                      (Some cs, Some hs, Some ch) \<Rightarrow>
                        Some (Go \<lparr>fds = t, clients = cs, hosts = hs, cache = ch,
                          MAX_CACHE = word_of_int (ParseInt mb * 1024 * 1024), CURRENT_CACHE_SIZE = 0,
                          opened = [listen_fd, pipe_fd], sent = []\<rparr>)
                    | _ \<Rightarrow> Some (Exit 1) } } }
      | _ \<Rightarrow> Some (Exit 1))"

end
