(* ===== verification/RybDescriptors.thy ===== *)
theory RybDescriptors
  imports RybServer FdOwners
begin

text \<open>
  The descriptors of \<open>rybalko/31/server.c\<close>. Every handler is a walk through steps that change one record,
  one client, one host or the poll table. \<open>item_frame\<close> and \<open>handler_frame\<close> say which steps a relation between
  states must allow, and prove once that the helpers (subscribing, notifying, disconnecting) then stay in
  the relation. They are interpreted with \<open>same_links\<close> (descriptors and poll table are the same), \<open>calm\<close> (the records
  keep their request and response) and \<open>stays\<close>, the relation \<open>kept\<close> of \<open>fd_owner\<close>. \<open>rybalko_run\<close> are
  the states of the main loop: \<open>poll\<close> returns, or one slot of the table is handled, in any order.
\<close>

subsection \<open>Steps that leave the records alone\<close>

text \<open>What a record says of its request and its response.\<close>

definition item_data :: "cache_item \<Rightarrow> (64 word \<times> string option \<times> nat) \<times> (string option \<times> nat \<times> nat) \<times> int \<times> bool \<times> bool \<times> bool" where
  "item_data r = ((request_hash r, irequest r, irequest_size r), (response r, response_size r, response_idx r),
     full_time r, full r, valid r, successful_request r)"

locale item_frame =
  fixes R :: "rybalko \<Rightarrow> rybalko \<Rightarrow> bool"
  assumes refl [simp]: "R s s"
    and trans: "R a b \<Longrightarrow> R b c \<Longrightarrow> R a c"
    and item: "(\<And>r. item_data (f r) = item_data r) \<Longrightarrow> post (on_item i f s) (R s)"
begin

lemma seq:
  "post m (R s) \<Longrightarrow> (\<And>s1. R s s1 \<Longrightarrow> m = Some s1 \<Longrightarrow> post (f s1) (R s1)) \<Longrightarrow> post (m \<bind> f) (R s)"
  by (rule post_chain[of R]) (auto intro: trans)

lemma DeleteSub_frame: "post (DeleteSub c k s) (R s)"
  unfolding DeleteSub_def Let_def
  by (intro post_if post_pure item) (simp_all add: item_data_def)

lemma ReallocSubs_frame: "post (ReallocSubs oom k s) (R s)"
  unfolding ReallocSubs_def by (intro post_pure item) (simp add: item_data_def)

lemma AddSub_frame: "post (AddSub oom c k s) (R s)"
proof -
  have room: "post (if b then do { assertm q; on_item i f s } else Some s) (R s)" if "\<And>r. item_data (f r) = item_data r" for b q i f s
    by (intro post_if post_pure item that) simp
  have more: "post (if b then ReallocSubs oom i s else Some s) (R s)" for b i s
    by (simp add: ReallocSubs_frame)
  show ?thesis unfolding AddSub_def Let_def
    by (intro post_if seq[OF item] seq[OF room] seq[OF more] post_pure item) (simp_all add: item_data_def)
qed

end

locale handler_frame = item_frame +
  assumes client: "(\<And>c. rfd (f' c) = rfd c) \<Longrightarrow> post (on_client i f' s) (R s)"
    and host: "(\<And>h. hfd (f'' h) = hfd h) \<Longrightarrow> post (on_host i f'' s) (R s)"
    and event: "post (on_fds (SetEventForFd fd e) s) (R s)"
    and close_client: "i < length (clients s) \<Longrightarrow> rfd (clients s ! i) \<noteq> -1 \<Longrightarrow>
      post (on_fds (DeleteFromPoll (rfd (clients s ! i))) s \<bind> on_client i (\<lambda>c. c\<lparr>rfd := -1\<rparr>)) (R s)"
    and close_host: "i < length (hosts s) \<Longrightarrow> hfd (hosts s ! i) \<noteq> -1 \<Longrightarrow>
      post (on_fds (DeleteFromPoll (hfd (hosts s ! i))) s \<bind> on_host i (\<lambda>h. h\<lparr>hfd := -1\<rparr>)) (R s)"
begin

lemma on_client_if: "(\<And>c. rfd (f c) = rfd c) \<Longrightarrow> post (if b then on_client i f s else Some s) (R s)"
  by (simp add: client)

lemma notify_frame: "post (notify_loop xs e s) (R s)"
proof (induction xs e s rule: notify_loop.induct)
  case (2 x xs ev s)
  show ?case unfolding notify_loop.simps
    by (intro post_if post_pure seq[OF event] seq[OF on_client_if] 2) simp_all
qed simp

lemma NotifySub_frame: "post (NotifySub k e s) (R s)"
  unfolding NotifySub_def by (intro post_if post_pure notify_frame) simp

lemma DisconnectClient_frame: "post (DisconnectClient c s) (R s)"
proof -
  have sub: "post (if b then do { s \<leftarrow> DeleteSub c k s; on_client i f s } else Some s) (R s)"
    if "\<And>c. rfd (f c) = rfd c" for b k i f s
    by (intro post_if seq[OF DeleteSub_frame] client that) simp
  have fd: "post (if rfd x \<noteq> -1 then on_fds (DeleteFromPoll (rfd x)) s1 \<bind> on_client i (\<lambda>c. c\<lparr>rfd := -1\<rparr>) else Some s1) (R s1)"
    if "i < length (clients s1)" "rfd (clients s1 ! i) = rfd x" for i s1 x
    using close_client[OF that(1)] that(2) by simp
  show ?thesis unfolding DisconnectClient_def Let_def
  proof (rule post_if, simp, rule post_pure)
    fix x assume x: "get_at (clients s) (nat c) = Some x"
    let ?a = "if rrequest x \<noteq> None then on_client (nat c) (\<lambda>c. c\<lparr>rrequest := None, rrequest_size := 0, rlast_written_idx := 0\<rparr>) s else Some s"
    have "nat c < length (clients s1) \<and> rfd (clients s1 ! nat c) = rfd x" if "?a = Some s1" for s1
      using x that by (auto simp: on_client_def bind_eq_Some_conv split: if_splits)
    then show "post (do {
        s \<leftarrow> ?a;
        s \<leftarrow> (if rfd x \<noteq> -1 then do { s \<leftarrow> on_fds (DeleteFromPoll (rfd x)) s; on_client (nat c) (\<lambda>c. c\<lparr>rfd := -1\<rparr>) s } else Some s);
        if rcache_idx x \<noteq> -1 then do { s \<leftarrow> DeleteSub c (rcache_idx x) s; on_client (nat c) (\<lambda>c. c\<lparr>rcache_idx := -1, rlast_written_idx := -1\<rparr>) s }
        else Some s }) (R s)"
      by (intro seq[OF on_client_if] seq[OF fd] sub) simp_all
  qed
qed

lemma disconnect_loop_frame: "post (disconnect_loop xs s) (R s)"
proof (induction xs arbitrary: s)
  case (Cons x xs)
  have "post (if x \<noteq> -1 then DisconnectClient x s else Some s) (R s)" by (simp add: DisconnectClient_frame)
  then show ?case by (simp add: seq Cons)
qed simp

lemma notify_hosts: "post (notify_loop xs e s) (\<lambda>s'. hosts s' = hosts s)"
proof (induction xs e s rule: notify_loop.induct)
  case (2 x xs ev s)
  show ?case
  proof (cases "x = -1")
    case False
    show ?thesis
    proof (rule postI)
      fix s' assume a: "notify_loop (x # xs) ev s = Some s'"
      obtain s1 s2 where s1: "on_fds (SetEventForFd (rfd (clients s ! nat x)) ev) s = Some s1" "get_at (clients s) (nat x) = Some (clients s ! nat x)"
          and s2: "(if rlast_written_idx (clients s ! nat x) < 0 then on_client (nat x) (\<lambda>c. c\<lparr>rlast_written_idx := 0\<rparr>) s1 else Some s1) = Some s2"
          and r: "notify_loop xs ev s2 = Some s'" "0 \<le> x"
        using a False by (auto simp: fault_simps simp del: get_at_Some split del: if_split) (metis get_at_Some)
      have "hosts s2 = hosts s" using s1 s2 by (auto simp: on_fds_def on_client_def bind_eq_Some_conv split: if_splits)
      then show "hosts s' = hosts s" using 2(2)[OF False _ s1(2,1) s2] r by (simp add: post_def assertm_def)
    qed
  qed (use 2 in simp)
qed simp

lemma NotifySub_hosts: "post (NotifySub k e s) (\<lambda>s'. hosts s' = hosts s)"
  unfolding NotifySub_def by (intro post_if post_pure notify_hosts) simp

lemma DisconnectHost_frame: "post (DisconnectHost n s) (R s)"
proof -
  have fd: "post (if hfd x \<noteq> -1 then on_fds (DeleteFromPoll (hfd x)) s1 \<bind> on_host i (\<lambda>h. h\<lparr>hfd := -1\<rparr>) else Some s1) (R s1)"
    if "i < length (hosts s1)" "hfd (hosts s1 ! i) = hfd x" for i s1 x
    using close_host[OF that(1)] that(2) by simp
  let ?b = "\<lambda>x s. if 0 \<le> hcache_idx x then do {
               s \<leftarrow> on_item (nat (hcache_idx x)) (\<lambda>r. r\<lparr>host_idx := -1\<rparr>) s;
               s \<leftarrow> NotifySub (hcache_idx x) (POLLIN OR POLLOUT) s;
               on_host (nat n) (\<lambda>h. h\<lparr>hcache_idx := -1\<rparr>) s }
             else Some s"
  have b: "post (?b x s1) (R s1)" for x s1
    by (intro post_if seq[OF item] seq[OF NotifySub_frame] host) (simp_all add: item_data_def)
  have h: "nat n < length (hosts s2) \<and> hfd (hosts s2 ! nat n) = hfd x" if "get_at (hosts s1) (nat n) = Some x" "?b x s1 = Some s2" for x s1 s2
    using that by (auto simp: on_host_def on_item_def bind_eq_Some_conv split: if_splits dest!: postD[OF NotifySub_hosts])
  show ?thesis unfolding DisconnectHost_def Let_def
    by (rule post_if, simp, rule seq[OF host], simp, rule post_pure, rule seq[OF b], rule fd) (use h in blast)+
qed

end

text \<open>The first instance: the records, the sizes and what was sent are left alone.\<close>

definition calm :: "rybalko \<Rightarrow> rybalko \<Rightarrow> bool" where
  "calm s s' \<longleftrightarrow> map item_data (cache s') = map item_data (cache s) \<and> MAX_CACHE s' = MAX_CACHE s \<and>
     CURRENT_CACHE_SIZE s' = CURRENT_CACHE_SIZE s \<and> sent s' = sent s \<and> opened s' = opened s \<and>
     length (clients s') = length (clients s) \<and> length (hosts s') = length (hosts s)"

interpretation ca: handler_frame calm
proof unfold_locales
  fix f i s
  show "(\<And>r. item_data (f r) = item_data r) \<Longrightarrow> post (on_item i f s) (calm s)"
    by (rule postI) (auto simp: calm_def on_item_def fault_simps map_upd_id)
qed (auto simp: calm_def post_def on_client_def on_host_def on_fds_def fault_simps)

subsection \<open>Descriptors\<close>

interpretation ro: fd_owner_events fds_ok polled AddFdTOServerFds DeleteFromPoll closed_fds SetEventForFd
proof unfold_locales
  fix t t' :: fd_array and fd :: int and e
  show "fds_ok t \<Longrightarrow> is_fd fd \<Longrightarrow> DeleteFromPoll fd t = Some t' \<Longrightarrow> polled t fd \<noteq> None \<Longrightarrow> closed_fds t' = fd # closed_fds t"
    using DeleteFromPoll_polled[of t fd] by auto
  show "AddFdTOServerFds fd e t = Some t' \<Longrightarrow> closed_fds t' = closed_fds t"
    by (auto simp: AddFdTOServerFds_def fault_simps ReallocServerFds_def Let_def split: if_splits)
next
  fix t fd e
  assume ok: "fds_ok t"
  show "\<exists>t'. SetEventForFd fd e t = Some t' \<and> fds_ok t' \<and> dom (polled t') = dom (polled t) \<and> closed_fds t' = closed_fds t"
    using SetEvent_any[OF ok, of fd e] by (auto simp: dom_def)
qed

definition links :: "rybalko \<Rightarrow> fd_array \<times> int list \<times> int list" where
  "links s = (fds s, map rfd (clients s), map hfd (hosts s))"

abbreviation stays :: "int set \<Rightarrow> int set \<Rightarrow> rybalko \<Rightarrow> rybalko \<Rightarrow> bool" where
  "stays B F s s' \<equiv> ro.kept B F (links s) (links s')"

lemma stays_trans: "stays B F a b \<Longrightarrow> stays B F b c \<Longrightarrow> stays B F a c"
  by (rule ro.kept_trans)

lemma stays_frame: "links s' = links s \<Longrightarrow> stays B F s s'"
  by simp

interpretation st: handler_frame "stays B F" for B F
proof unfold_locales
  fix i s
  show "i < length (clients s) \<Longrightarrow> rfd (clients s ! i) \<noteq> -1 \<Longrightarrow>
      post (on_fds (DeleteFromPoll (rfd (clients s ! i))) s \<bind> on_client i (\<lambda>c. c\<lparr>rfd := -1\<rparr>)) (stays B F s)"
    using ro.kept_close[of i "map rfd (clients s)"]
    by (auto simp: post_def on_fds_def on_client_def fault_simps links_def map_update)
  show "i < length (hosts s) \<Longrightarrow> hfd (hosts s ! i) \<noteq> -1 \<Longrightarrow>
      post (on_fds (DeleteFromPoll (hfd (hosts s ! i))) s \<bind> on_host i (\<lambda>h. h\<lparr>hfd := -1\<rparr>)) (stays B F s)"
    using ro.kept_close_right[of i "map hfd (hosts s)"]
    by (auto simp: post_def on_fds_def on_host_def fault_simps links_def map_update)
  fix fd e
  show "post (on_fds (SetEventForFd fd e) s) (stays B F s)"
    by (auto simp: post_def on_fds_def links_def intro: ro.kept_change)
  fix a b c
  show "stays B F a b \<Longrightarrow> stays B F b c \<Longrightarrow> stays B F a c" by (rule stays_trans)
qed (auto simp: post_def on_item_def on_client_def on_host_def fault_simps links_def map_upd_id)


text \<open>A record that is reset.\<close>

lemma on_item_stays: "post (on_item i f s) (stays B F s)"
  by (auto simp: post_def on_item_def fault_simps links_def)

lemma CleanCacheItem_stays: "post (CleanCacheItem k s) (stays B F s)"
proof -
  have h: "post (if b then do { s \<leftarrow> DisconnectHost n s; on_item i f s } else Some s) (stays B F s)" for b n i f s
    by (intro post_if st.seq[OF st.DisconnectHost_frame] on_item_stays) simp
  show ?thesis unfolding CleanCacheItem_def Let_def
    by (intro post_if post_option st.seq[OF on_item_stays] st.seq[OF h] post_pure
        st.seq[OF st.disconnect_loop_frame] on_item_stays) simp_all
qed

lemma free_loop_stays: "post (free_loop n tm needed s) (stays B F s)"
proof (induction n arbitrary: s)
  case (Suc n)
  have "post (CleanCacheItem k (s\<lparr>CURRENT_CACHE_SIZE := w\<rparr>)) (stays B F s)" for k w
    using CleanCacheItem_stays[of k "s\<lparr>CURRENT_CACHE_SIZE := w\<rparr>"] by (simp add: links_def)
  then show ?case by (auto intro!: post_pure st.seq[OF _ Suc])
qed simp


lemma FreeMemory_stays: "post (FreeMemoryForNewCacheRecord tm needed s) (\<lambda>(x, s'). stays B F s s')"
  unfolding FreeMemoryForNewCacheRecord_def by (rule post_bind[OF free_loop_stays]) simp

definition same_links :: "rybalko \<Rightarrow> rybalko \<Rightarrow> bool" where
  "same_links s s' \<longleftrightarrow> links s' = links s"

interpretation li: item_frame same_links
  by unfold_locales (auto simp: post_def on_item_def fault_simps same_links_def links_def)

lemma on_item_links: "post (on_item i f s) (\<lambda>s'. links s' = links s)"
  by (auto simp: post_def on_item_def fault_simps links_def)

lemma post_ret: "post m (\<lambda>s'. links s' = l) \<Longrightarrow> post (m \<bind> (\<lambda>s'. Some (x, s'))) (\<lambda>(x, s'). links s' = l)"
  by (cases m) auto

lemma TryToFind_links: "post (TryToFindAtCache tm req s) (\<lambda>(x, s'). links s' = links s)"
  unfolding TryToFindAtCache_def by (intro post_pure post_if post_ret on_item_links) simp

lemma AddToCache_links: "post (AddToCache oom req s) (\<lambda>(x, s'). links s' = links s)"
proof -
  have "links (if b then s else s\<lparr>cache := c\<rparr>) = links s" for b c by (simp add: links_def)
  note l = this
  have "post (do { s1 \<leftarrow> on_item i f s1; Some (x, s1) }) (\<lambda>(x, s'). links s' = links s)" if "links s1 = links s" for i f x s1
    using post_ret[OF on_item_links, of i f s1 x] that by simp
  note ret = this
  have "post (on_item i f s1) (\<lambda>s'. links s' = links s)" if "links s1 = links s" for i f s1
    using on_item_links[of i f s1] that by simp
  note set = this
  show ?thesis unfolding AddToCache_def
    by (rule post_pure, rule post_pure, rule post_Let, rule post_bind[OF set], simp add: l, rule post_pure, intro post_if ret) simp_all
qed

text \<open>A descriptor that the system hands out is not watched.\<close>

definition fresh :: "int set \<Rightarrow> int \<Rightarrow> rybalko \<Rightarrow> bool" where
  "fresh B fd s \<longleftrightarrow> fd = -1 \<or> is_fd fd \<and> (ro.held B (links s) \<longrightarrow> polled (fds s) fd = None)"

lemma fresh_links: "links s' = links s \<Longrightarrow> fresh B fd s' = fresh B fd s"
  by (simp add: fresh_def) (simp add: links_def)

lemma store_request_stays:
  "post (store_request e i bs s) (\<lambda>(b, s'). stays B F s s' \<and> (b \<noteq> None \<longrightarrow> links s' = links s))"
proof -
  have links: "post (on_client i f s) (\<lambda>s'. links s' = links s)" if "\<And>c. rfd (f c) = rfd c" for f s
    using that by (auto simp: post_def on_client_def fault_simps links_def map_upd_id)
  have gone: "post (do { s \<leftarrow> on_client i f s; s \<leftarrow> DisconnectClient (int i) s; Some (None, s) })
      (\<lambda>(b, s'). stays B F s s' \<and> (b \<noteq> None \<longrightarrow> links s' = links s))" if "\<And>c. rfd (f c) = rfd c" for f
    by (rule post_bind[OF links], rule that, rule post_bind[OF st.DisconnectClient_frame[of _ _ B F]]) simp
  have new: "post (if b then on_client i (\<lambda>c. c\<lparr>rrequest_size := n, rrequest := x\<rparr>) s else Some s) (\<lambda>s'. links s' = links s)" for b n x
    by (intro post_if links) simp_all
  have copy: "post (do { s' \<leftarrow> on_client i f s1; str \<leftarrow> x; Some (Some str, s') })
      (\<lambda>(b, s'). stays B F s s' \<and> (b \<noteq> None \<longrightarrow> links s' = links s))"
    if "links s1 = links s" "\<And>c. rfd (f c) = rfd c" for f x s1
    by (rule post_bind[OF links], rule that, rule post_pure) (simp add: that(1))
  show ?thesis unfolding store_request_def
    by (intro post_if post_pure gone post_bind[OF new] copy) simp_all
qed

lemma join_item_stays: "post (join_item e i k s) (stays B F s)"
  unfolding join_item_def
  by (intro st.seq[OF st.AddSub_frame] st.seq[OF st.client] post_pure post_if st.event) simp_all

lemma attach_host_stays:
  assumes "fresh B fd s" "fd \<noteq> -1"
  shows "post (attach_host e i k fd s) (stays B {fd} s)"
proof (rule postI)
  fix s' assume a: "attach_host e i k fd s = Some s'"
  have fd: "is_fd fd" "0 \<le> fd" using assms by (auto simp: fresh_def is_fd_def)
  obtain h hs s1 s2 s3 s4 where f: "SetForFreeHostId fd (hosts s) = Some (h, hs)"
      and s1: "on_host (nat h) (\<lambda>h. h\<lparr>hcache_idx := k, hlast_written_idx := 0\<rparr>) (s\<lparr>hosts := hs\<rparr>) = Some s1"
      and s2: "on_item (nat k) (\<lambda>r. r\<lparr>host_idx := h\<rparr>) s1 = Some s2"
      and s3: "AddSub (no_mem e ''subscribers'') (int i) k s2 = Some s3"
      and s4: "on_client i (\<lambda>c. c\<lparr>rcache_idx := k, rlast_written_idx := 0\<rparr>) s3 = Some s4"
      and r: "on_fds (AddFdTOServerFds fd (POLLIN OR POLLOUT)) s4 = Some s'"
    using a by (auto simp: attach_host_def bind_eq_Some_conv split: prod.splits)
  have "map hfd (hosts s) \<noteq> []" using f fd by (auto simp: SetForFreeHostId_def table_alloc_nil)
  then obtain j where j: "h = int j" "slot_taken fd j (map hfd (hosts s)) (map hfd hs)"
    using rh.alloc_slot[OF fd(2), of "hosts s"] f by auto
  have l: "fds s4 = fds s" "map rfd (clients s4) = map rfd (clients s)" "map hfd (hosts s4) = map hfd hs"
    using postD[OF li.AddSub_frame s3] s1 s2 s4
    by (auto simp: same_links_def links_def on_host_def on_item_def on_client_def fault_simps map_upd_id)
  show "stays B {fd} s s'"
    using ro.kept_open_right[of fd B "fds s" "map rfd (clients s)" "map hfd (hosts s)"] l r j(2) assms
    by (auto simp: links_def on_fds_def fresh_def is_fd_def)
qed


lemma ConnectToHost_new:
  "ConnectToHost e h p s = (fd, s') \<Longrightarrow> links s' = links s \<and> (fd = -1 \<or> fd = new_socket e)"
  by (auto simp: ConnectToHost_def links_def split: if_splits)

lemma serve_request_stays:
  assumes "fresh B (new_socket e) s"
  shows "post (serve_request e i buf s) (stays B {new_socket e} s)"
proof -
  have drop: "post (do { s \<leftarrow> DisconnectClient c s1; CleanCacheItem k s }) (stays B F s1)" for c k s1 F
    by (intro st.seq[OF st.DisconnectClient_frame] CleanCacheItem_stays)
  have ext: "post m (stays B {new_socket e} s)" if "links s1 = links s" "post m (stays B {new_socket e} s1)" for m s1
    using that by simp
  have conn: "post (let (fd, s) = ConnectToHost e host port s1 in
      if fd = -1 then do { s \<leftarrow> DisconnectClient (int i) s; CleanCacheItem k s } else attach_host e i k fd s)
      (stays B {new_socket e} s)" if l: "links s1 = links s" for host port k s1
  proof -
    obtain fd s2 where c: "ConnectToHost e host port s1 = (fd, s2)" by fastforce
    have l2: "links s2 = links s" and fd: "fd = -1 \<or> fd = new_socket e" using ConnectToHost_new[OF c] l by auto
    then have "fresh B (new_socket e) s2" using assms fresh_links by blast
    then show ?thesis using c fd ext[OF l2 drop] ext[OF l2 attach_host_stays] by auto
  qed
  have add: "post (AddToCache oom buf s1) (\<lambda>(x, s'). links s' = links s)" if "links s1 = links s" for oom s1
    using AddToCache_links[of oom buf s1] that by simp
  show ?thesis unfolding serve_request_def
    by (rule post_pure, rule post_option, rule st.DisconnectClient_frame, rule post_bind[OF TryToFind_links],
        simp only: split_paired_all prod.case, rule post_if, rule ext, assumption, rule join_item_stays,
        rule post_bind[OF add], assumption, simp only: split_paired_all prod.case,
        rule post_if, rule ext, assumption, rule st.DisconnectClient_frame,
        rule post_pure, rule post_prod, rule post_prod, rule post_pure, rule conn, assumption)
qed

lemma ReadFromClient_stays:
  assumes "fresh B (new_socket e) s"
  shows "post (ReadFromClient e n s) (stays B {new_socket e} s)"
proof -
  have "post (do { (buf, s) \<leftarrow> store_request e (nat n) bs s;
              case buf of None \<Rightarrow> Some s | Some buf \<Rightarrow> serve_request e (nat n) buf s }) (stays B {new_socket e} s)" for bs
  proof (rule post_bind[OF store_request_stays[of _ _ _ _ B "{new_socket e}"]], clarify)
    fix b :: "string option" and s1 assume a: "stays B {new_socket e} s s1" "b \<noteq> None \<longrightarrow> links s1 = links s"
    have "fresh B (new_socket e) s1" if "links s1 = links s" using assms that fresh_links by blast
    then show "post (case b of None \<Rightarrow> Some s1 | Some buf \<Rightarrow> serve_request e (nat n) buf s1) (stays B {new_socket e} s)"
      using a serve_request_stays[of B e s1] by (cases b) auto
  qed
  note serve = this
  show ?thesis unfolding ReadFromClient_def
    by (rule post_if, simp, rule post_pure, rule post_option, rule st.DisconnectClient_frame,
        rule post_if, rule st.DisconnectClient_frame, rule serve)
qed

lemma emit_stays: "post m (stays B F (s\<lparr>sent := x\<rparr>)) \<Longrightarrow> post m (stays B F s)"
  by (simp add: links_def)

lemma event_if: "post (if b then on_fds (SetEventForFd fd e) s else Some s) (stays B F s)"
  by (simp add: st.event)

lemma WriteToClient_stays: "post (WriteToClient e n s) (stays B F s)"
proof -
  have c: "post (if b then do { s \<leftarrow> CleanCacheItem k s; on_client i (\<lambda>c. c\<lparr>rcache_idx := -1\<rparr>) s } else Some s) (stays B F s)" for b k i s
    by (intro post_if st.seq[OF CleanCacheItem_stays] st.client) simp_all
  have w: "post (on_client i f (s\<lparr>sent := x\<rparr>)) (stays B F s)" if "\<And>c. rfd (f c) = rfd c" for i f x s
    by (rule emit_stays[where x = x]) (rule st.client, rule that)
  show ?thesis unfolding WriteToClient_def Let_def
    by (intro post_if post_pure CleanCacheItem_stays st.DisconnectClient_frame st.seq[OF w] st.seq[OF event_if] c) simp_all
qed

lemma WriteToHost_stays: "post (WriteToHost e n s) (stays B F s)"
proof -
  have w: "post (on_host i f (s\<lparr>sent := x\<rparr>)) (stays B F s)" if "\<And>c. hfd (f c) = hfd c" for i f x s
    by (rule emit_stays[where x = x]) (rule st.host, rule that)
  show ?thesis unfolding WriteToHost_def Let_def
    by (intro post_if post_pure st.DisconnectHost_frame st.seq[OF w] st.event) simp_all
qed

text \<open>Steps that end with a flag.\<close>

lemma stays_flag: "post m (stays B F s) \<Longrightarrow> post (m \<bind> (\<lambda>s'. Some (b, s'))) (\<lambda>(b, s'). stays B F s s')"
  by (cases m) auto

lemma stays_flag_bind:
  "post m (stays B F s) \<Longrightarrow> (\<And>s1. post (f s1) (\<lambda>(b, s'). stays B F s1 s')) \<Longrightarrow>
     post (m \<bind> f) (\<lambda>(b, s'). stays B F s s')"
  by (cases m) (auto simp: post_def intro: stays_trans)

lemma start_response_stays: "post (start_response e n k buf s) (\<lambda>(b, s'). stays B F s s')"
proof -
  have free: "post (if b then FreeMemoryForNewCacheRecord tm l s else Some (0, s)) (\<lambda>(x, s'). stays B F s s')" for b tm l
    by (simp add: FreeMemory_stays)
  have alloc: "post (on_item i f (s1\<lparr>CURRENT_CACHE_SIZE := w\<rparr>)) (stays B F s1)" for i f s1 w
    using on_item_stays[of i f "s1\<lparr>CURRENT_CACHE_SIZE := w\<rparr>" B F] by (simp add: links_def)
  have rest: "post (if err \<noteq> 0 then do { s \<leftarrow> DisconnectHost n s1; Some (False, s) }
        else do {
         s \<leftarrow> on_item i f (s1\<lparr>CURRENT_CACHE_SIZE := w\<rparr>);
         if b then do { s \<leftarrow> DisconnectHost n s; Some (False, s) } else Some (True, s) }) (\<lambda>(b, s'). stays B F s s')"
    if "stays B F s s1" for err i f s1 w b
  proof -
    have "post (if b then do { s \<leftarrow> DisconnectHost n s; Some (False, s) } else Some (True, s)) (\<lambda>(b, s'). stays B F s s')" for s
      by (intro post_if stays_flag st.DisconnectHost_frame) simp
    then have "post (if err \<noteq> 0 then do { s \<leftarrow> DisconnectHost n s1; Some (False, s) }
        else do {
         s \<leftarrow> on_item i f (s1\<lparr>CURRENT_CACHE_SIZE := w\<rparr>);
         if b then do { s \<leftarrow> DisconnectHost n s; Some (False, s) } else Some (True, s) }) (\<lambda>(b, s'). stays B F s1 s')"
      by (rule post_if[OF stays_flag[OF st.DisconnectHost_frame] stays_flag_bind[OF alloc]])
    then show ?thesis using stays_trans[OF that] by (auto simp: post_def)
  qed
  show ?thesis unfolding start_response_def
    by (rule post_pure, rule post_pure, rule post_if, rule stays_flag, rule st.DisconnectHost_frame,
        rule post_if, rule stays_flag, rule CleanCacheItem_stays, rule post_bind[OF free], clarify, rule rest)
qed

lemma grow_response_stays: "post (grow_response e n k m s) (\<lambda>(b, s'). stays B F s s')"
  unfolding grow_response_def
  by (intro post_pure post_if stays_flag_bind[OF on_item_stays] stays_flag st.DisconnectHost_frame) simp_all

lemma append_bytes_stays: "post (append_bytes n k bs buf s) (stays B F s)"
  unfolding append_bytes_def
  by (intro post_pure st.seq[OF on_item_stays] st.seq[OF st.NotifySub_frame] post_if st.seq[OF st.host] on_item_stays) simp_all

lemma ReadFromHost_stays: "post (ReadFromHost e n s) (stays B F s)"
proof -
  have more: "post (do { (go, s) \<leftarrow> m; if \<not> go then Some s
        else do { (go, s) \<leftarrow> grow_response e n k l s; if \<not> go then Some s else append_bytes n k bs buf s } }) (stays B F s)"
    if "post m (\<lambda>(b, s'). stays B F s s')" for m k l bs buf
    by (rule post_chain2[of "stays B F", OF stays_trans that], assumption+, rule post_if, simp,
        rule post_chain2[of "stays B F", OF stays_trans grow_response_stays], assumption+, rule post_if, simp, rule append_bytes_stays)
  have start: "post (if b then start_response e n k buf s else Some (True, s)) (\<lambda>(b, s'). stays B F s s')" for b k buf
    by (simp add: start_response_stays)
  show ?thesis unfolding ReadFromHost_def Let_def
    by (intro post_if post_pure post_option st.seq[OF on_item_stays] st.seq[OF st.NotifySub_frame] st.DisconnectHost_frame
        more start) simp_all
qed

lemma AcceptClient_stays:
  assumes "fresh B fd s"
  shows "post (AcceptClient fd s) (stays B {fd} s)"
proof (cases "fd = -1")
  case False
  then have fd: "is_fd fd" "0 \<le> fd" using assms by (auto simp: fresh_def is_fd_def)
  show ?thesis
  proof (rule postI)
    fix s' assume a: "AcceptClient fd s = Some s'"
    then obtain i cs where f: "SetForFreeClientId fd (clients s) = Some (i, cs)"
        and r: "on_fds (AddFdTOServerFds fd POLLIN) (s\<lparr>clients := cs, opened := fd # opened s\<rparr>) = Some s'"
      using False by (auto simp: AcceptClient_def bind_eq_Some_conv)
    have "map rfd (clients s) \<noteq> []" using f fd by (auto simp: SetForFreeClientId_def table_alloc_nil)
    then obtain j where "i = int j" "slot_taken fd j (map rfd (clients s)) (map rfd cs)"
      using rc.alloc_slot[OF fd(2), of "clients s"] f by auto
    then show "stays B {fd} s s'"
      using ro.kept_open[of fd B "fds s" "map rfd (clients s)" "map hfd (hosts s)"] r assms False
      by (auto simp: links_def on_fds_def fresh_def)
  qed
qed (simp add: AcceptClient_def)


subsection \<open>Every reachable state\<close>

lemma Delete_unwatched:
  assumes "fds_ok t" "0 \<le> fd" "polled t fd = None"
  shows "\<exists>t'. DeleteFromPoll fd t = Some t' \<and> fds_ok t' \<and> polled t' = polled t \<and> closed_fds t' = closed_fds t"
  using assms(1)
proof (cases rule: find_in_use[where fd = fd, consumes 1, case_names found missing])
  case (found a p b)
  then show ?thesis using assms(2,3) by (auto simp: polled_None)
next
  case missing
  have "0 < CURRENT_POLL_FDS t" using assms(1) by (simp add: fds_ok_def)
  then show ?thesis using fds_shrink[OF assms(1)] missing assms(2) by (simp add: DeleteFromPoll_def)
qed

lemma handle_slot_stays:
  assumes h: "ro.held {pipe, listen} (links s)"
    and fr: "fresh {pipe, listen} new_fd s" "fresh {pipe, listen} (new_socket e) s"
  shows "post (handle_slot pipe listen e e' new_fd i s)
    (\<lambda>(go, b, s'). stays {pipe, listen} {new_fd, new_socket e} s s')"
proof -
  let ?B = "{pipe, listen}" and ?F = "{new_fd, new_socket e}"
  have acc: "post (AcceptClient new_fd s \<bind> (\<lambda>s. Some (True, True, s))) (\<lambda>(go, b, s'). stays ?B ?F s s')"
    by (rule post_bind[OF AcceptClient_stays[OF fr(1)]]) (auto intro: ro.kept_more)
  have rd: "post (ReadFromClient e c s) (stays ?B ?F s)" for c
    by (rule post_weaken[OF ReadFromClient_stays[OF fr(2)]]) (auto intro: ro.kept_more)
  have inp: "post (if b then Some s else if c \<noteq> -1 then ReadFromClient e c s
      else if h \<noteq> -1 then ReadFromHost e h s else Some s)
      (\<lambda>s'. stays ?B ?F s s' \<and> (c = -1 \<and> h = -1 \<longrightarrow> s' = s))" for b c h
    using rd[of c] ReadFromHost_stays[of e h s ?B ?F] by (auto simp: post_def)
  have outp: "post (if b then Some s1 else if c \<noteq> -1 then WriteToClient e' c s1
      else if h \<noteq> -1 then WriteToHost e' h s1 else Some s1)
      (\<lambda>s'. stays ?B ?F s s' \<and> (c = -1 \<and> h = -1 \<longrightarrow> s' = s))"
    if "stays ?B ?F s s1" "c = -1 \<and> h = -1 \<longrightarrow> s1 = s" for b c h s1
    using stays_trans[OF that(1)] that WriteToClient_stays[of e' c s1 ?B ?F] WriteToHost_stays[of e' h s1 ?B ?F]
    by (auto simp: post_def)
  have del: "post (on_fds (DeleteFromPoll fd) s) (stays ?B ?F s)"
    if "0 \<le> fd" "GetClientId fd (clients s) = Some (-1)" "GetHostId fd (hosts s) = Some (-1)" "fd \<noteq> pipe" "fd \<noteq> listen" for fd
  proof -
    have "fd \<notin> set (map rfd (clients s))" "fd \<notin> set (map hfd (hosts s))"
      using rc.find_slot[OF that(1), of "clients s"] rh.find_slot[OF that(1), of "hosts s"] that(2,3) by (auto simp: first_index_def)
    then have "fd \<notin> dom (polled (fds s))" using h that(4,5) by (auto simp: ro.held_def links_def live_def)
    then have n: "polled (fds s) fd = None" by blast
    have ok: "fds_ok (fds s)" using h by (simp add: ro.held_def links_def)
    have z: "0 \<le> fd" by (rule that(1))
    obtain t' where "DeleteFromPoll fd (fds s) = Some t'" "fds_ok t'" "polled t' = polled (fds s)" "closed_fds t' = closed_fds (fds s)"
      using Delete_unwatched[OF ok z n] by blast
    then show ?thesis by (auto simp: post_def on_fds_def links_def ro.kept_def ro.held_def)
  qed
  have fin: "post (do { s \<leftarrow> (if 0 \<le> fd \<and> c = -1 \<and> h = -1 \<and> fd \<noteq> pipe \<and> fd \<noteq> listen
            then on_fds (DeleteFromPoll fd) s2 else Some s2);
       Some (True, x, s) }) (\<lambda>(go, b, s'). stays ?B ?F s s')"
    if "stays ?B ?F s s2" "c = -1 \<and> h = -1 \<longrightarrow> s2 = s" "GetClientId fd (clients s) = Some c" "GetHostId fd (hosts s) = Some h" for fd c h x s2
    using that del[of fd] by (auto simp: post_def bind_eq_Some_conv split: if_splits)
  show ?thesis unfolding handle_slot_def Let_def
    by (rule post_pure, rule post_if, simp, rule post_if, rule acc, rule post_pure, rule post_pure,
        rule post_bind[OF inp], elim conjE, rule post_pure, rule post_bind[OF outp], assumption, assumption, elim conjE,
        rule fin, assumption+)
qed

text \<open>\<open>poll\<close> writes the \<open>revents\<close> of the used slots.\<close>

definition poll_returns :: "(nat \<Rightarrow> 16 word) \<Rightarrow> fd_array \<Rightarrow> fd_array" where
  "poll_returns revs t = t\<lparr>server_fds := map (\<lambda>(i, p). if i < CURRENT_POLL_FDS t then p\<lparr>revents := revs i\<rparr> else p)
     (enumerate 0 (server_fds t))\<rparr>"

definition unused_descriptor :: "int \<Rightarrow> rybalko \<Rightarrow> bool" where
  "unused_descriptor fd s \<longleftrightarrow> fd = -1 \<or> is_fd fd \<and> polled (fds s) fd = None"

inductive rybalko_run :: "int \<Rightarrow> int \<Rightarrow> rybalko \<Rightarrow> rybalko \<Rightarrow> bool" for pipe_fd listen_fd s0 where
  start: "rybalko_run pipe_fd listen_fd s0 s0"
| poll: "rybalko_run pipe_fd listen_fd s0 s \<Longrightarrow>
    rybalko_run pipe_fd listen_fd s0 (s\<lparr>fds := poll_returns revs (UpdateRevents (fds s))\<rparr>)"
| slot: "rybalko_run pipe_fd listen_fd s0 s \<Longrightarrow>
    handle_slot pipe_fd listen_fd e e' new_fd i s = Some (True, b, s') \<Longrightarrow>
    unused_descriptor new_fd s \<Longrightarrow> unused_descriptor (new_socket e) s \<Longrightarrow> rybalko_run pipe_fd listen_fd s0 s'"

lemma pfds_map_cong: "map (\<lambda>p. (pfd p, events p)) ps = map (\<lambda>p. (pfd p, events p)) qs \<Longrightarrow> pfds_map ps = pfds_map qs"
  by (induction ps qs rule: list_induct2') (simp_all del: fun_upd_apply)

lemma same_watched:
  assumes "map (\<lambda>p. (pfd p, events p)) (server_fds t') = map (\<lambda>p. (pfd p, events p)) (server_fds t)"
    "CURRENT_POLL_FDS t' = CURRENT_POLL_FDS t" "closed_fds t' = closed_fds t"
  shows "ro.held B (t', xs, ys) = ro.held B (t, xs, ys)"
proof -
  have e: "map (\<lambda>p. (pfd p, events p)) (in_use t') = map (\<lambda>p. (pfd p, events p)) (in_use t)"
    using assms by (simp add: in_use_def flip: take_map)
  have "map pfd (in_use t') = map pfd (in_use t)" using arg_cong[OF e, of "map fst"] by (simp add: comp_def)
  then have "unique_fds (in_use t') = unique_fds (in_use t)" by (rule unique_fds_map)
  moreover have "length (server_fds t') = length (server_fds t)" using assms(1) by (metis length_map)
  moreover have "polled t' = polled t" using pfds_map_cong[OF e] by (simp add: polled_def)
  ultimately show ?thesis using assms(2) by (simp add: ro.held_def fds_ok_def)
qed

lemma poll_held: "ro.held B (links (s\<lparr>fds := poll_returns revs (UpdateRevents (fds s))\<rparr>)) = ro.held B (links s)"
proof -
  have "map (\<lambda>p. (pfd p, events p)) (server_fds (poll_returns revs (UpdateRevents (fds s)))) =
      map (\<lambda>p. (pfd p, events p)) (server_fds (fds s))"
    by (rule nth_equalityI) (simp_all add: nth_enumerate_eq poll_returns_def UpdateRevents_def)
  then have "ro.held B (poll_returns revs (UpdateRevents (fds s)), xs, ys) = ro.held B (fds s, xs, ys)" for xs ys
    by (rule same_watched) (simp_all add: poll_returns_def UpdateRevents_def)
  then show ?thesis by (simp add: links_def)
qed

lemma main_held:
  assumes "rybalko_main args fo pf lf oom pipe_fd listen_fd = Some (Go s)" "is_fd pipe_fd" "is_fd listen_fd" "pipe_fd \<noteq> listen_fd"
  shows "ro.held {pipe_fd, listen_fd} (links s)"
proof -
  obtain t0 t1 t2 where t: "InitServerFds False = Some t0" "AddFdTOServerFds pipe_fd POLLIN t0 = Some t1"
      "AddFdTOServerFds listen_fd POLLIN t1 = Some t2" "fds s = t2" "clients s = replicate 8 InitClient" "hosts s = replicate 8 InitHost"
    using assms(1) by (auto simp: rybalko_main_def fault_simps InitServerFds_def InitClients_def InitHosts_def InitCache_def
        split: list.splits if_splits option.splits)
  have "fds_ok t1" "polled t1 = [pipe_fd \<mapsto> POLLIN]" using first_watch[OF t(1) assms(2), of POLLIN] t(2) by auto
  moreover obtain t2' where "AddFdTOServerFds listen_fd POLLIN t1 = Some t2'" "fds_ok t2'" "polled t2' = (polled t1)(listen_fd \<mapsto> POLLIN)"
    using AddFd_polled[OF calculation(1) assms(3), of POLLIN] calculation(2) assms(4) by auto
  ultimately show ?thesis using t by (auto simp: ro.held_def links_def live_def InitClient_def InitHost_def)
qed

lemma run_held:
  assumes "ro.held {pipe_fd, listen_fd} (links s0)" "rybalko_run pipe_fd listen_fd s0 s"
  shows "ro.held {pipe_fd, listen_fd} (links s)"
  using assms(2,1)
proof induction
  case (slot s e e' new_fd i b s')
  have "fresh {pipe_fd, listen_fd} fd s" if "unused_descriptor fd s" for fd using that by (auto simp: fresh_def unused_descriptor_def)
  then show ?case using handle_slot_stays[of pipe_fd listen_fd s new_fd e e' i] slot by (auto simp: post_def ro.kept_def)
qed (auto simp: poll_held)


text \<open>
  C8: In every state that the main loop of \<open>rybalko/31\<close> can reach, whatever \<open>poll\<close>, \<open>read\<close>, \<open>write\<close>,
  \<open>accept\<close>, \<open>connect\<close>, the clock and the allocator return, no descriptor is in two slots of the clients and hosts, and
  the poll table watches exactly the pipe, the listening socket and the descriptors of the clients and hosts.
\<close>
theorem rybalko_descriptors:
  assumes "rybalko_main args fds_oom pipe_fails listen_fails oom pipe_fd listen_fd = Some (Go s0)"
    "is_fd pipe_fd" "is_fd listen_fd" "pipe_fd \<noteq> listen_fd" "rybalko_run pipe_fd listen_fd s0 s"
  shows "distinct (live (map rfd (clients s)) @ live (map hfd (hosts s))) \<and>
    dom (polled (fds s)) = {pipe_fd, listen_fd} \<union> set (live (map rfd (clients s)) @ live (map hfd (hosts s)))"
  using run_held[OF main_held[OF assms(1-4)] assms(5)] by (simp add: ro.held_def links_def)

text \<open>A start with pipe 3 and listening socket 4, and a first client with descriptor 5.\<close>

definition small_start :: rybalko where
  "small_start = \<lparr>fds = \<lparr>server_fds = (replicate 18 free_slot)[0 := \<lparr>pfd = 3, events = POLLIN, revents = 0\<rparr>,
       1 := \<lparr>pfd = 4, events = POLLIN, revents = 0\<rparr>], CURRENT_POLL_FDS = 2, closed_fds = []\<rparr>,
     clients = replicate 8 InitClient, hosts = replicate 8 InitHost, cache = replicate 16 InitCacheItem,
     MAX_CACHE = 1048576, CURRENT_CACHE_SIZE = 0, opened = [4, 3], sent = []\<rparr>"

definition quiet :: env where
  "quiet = \<lparr>bytes_read = None, junk = [], written = 0, now = 100, no_mem = (\<lambda>_. False), known_host = (\<lambda>_. True),
     new_socket = -1, connect_result = 0\<rparr>"

definition small_polled :: rybalko where
  "small_polled = small_start\<lparr>fds := poll_returns (\<lambda>i. if i = 1 then POLLIN else 0) (UpdateRevents (fds small_start))\<rparr>"

lemma small_start: "rybalko_main [''8080'', ''1''] False False False False 3 4 = Some (Go small_start)"
  by code_simp

lemma small_accepts: "\<exists>s b. handle_slot 3 4 quiet quiet 5 1 small_polled = Some (True, b, s) \<and> map rfd (take 1 (clients s)) = [5]"
proof -
  have "case handle_slot 3 4 quiet quiet 5 1 small_polled of Some (go, b, s) \<Rightarrow> go \<and> map rfd (take 1 (clients s)) = [5] | None \<Rightarrow> False"
    by code_simp
  then show ?thesis by (auto simp: case_True)
qed

lemma small_run: "\<exists>s. rybalko_run 3 4 small_start s \<and> map rfd (take 1 (clients s)) = [5]"
proof -
  have u: "unused_descriptor 5 small_polled" "unused_descriptor (new_socket quiet) small_polled" by code_simp+
  have run: "rybalko_run 3 4 small_start small_polled" unfolding small_polled_def by (rule rybalko_run.poll[OF rybalko_run.start])
  from small_accepts obtain s b where h: "handle_slot 3 4 quiet quiet 5 1 small_polled = Some (True, b, s)"
      "map rfd (take 1 (clients s)) = [5]" by (elim exE conjE)
  have "rybalko_run 3 4 small_start s" by (rule rybalko_run.slot[OF run h(1) u])
  then show ?thesis using h(2) by (intro exI conjI)
qed

lemma small_fds: "is_fd 3" "is_fd 4" "(3::int) \<noteq> 4"
  by (simp_all add: is_fd_def INT_MAX_def)

theorem rybalko_descriptors_witness:
  "\<exists>s :: rybalko. map rfd (take 1 (clients s)) = [5] \<and> distinct (live (map rfd (clients s)) @ live (map hfd (hosts s))) \<and>
    dom (polled (fds s)) = {3, 4} \<union> set (live (map rfd (clients s)) @ live (map hfd (hosts s)))"
proof -
  obtain s where s: "rybalko_run 3 4 small_start s" "map rfd (take 1 (clients s)) = [5]" using small_run by (elim exE conjE)
  show ?thesis by (rule exI[of _ s], rule conjI[OF s(2)], rule rybalko_descriptors[OF small_start small_fds s(1)])
qed

subsection \<open>The end of the program\<close>

definition freed :: "fd_array \<Rightarrow> fd_array \<Rightarrow> bool" where
  "freed t t' \<longleftrightarrow> (fds_ok t \<longrightarrow> fds_ok t') \<and> dom (polled t) \<subseteq> dom (polled t') \<union> set (closed_fds t') \<and>
     set (closed_fds t) \<subseteq> set (closed_fds t')"

lemma freed_trans: "freed a b \<Longrightarrow> freed b c \<Longrightarrow> freed a c"
  unfolding freed_def by blast

lemma freed_delete:
  assumes "fds_ok t" "is_fd fd"
  shows "\<exists>t'. DeleteFromPoll fd t = Some t' \<and> fds_ok t' \<and> freed t t'"
proof -
  obtain t' where t': "DeleteFromPoll fd t = Some t'" "fds_ok t'" "polled t' = (polled t)(fd := None)"
      "closed_fds t' = (if polled t fd = None then closed_fds t else fd # closed_fds t)"
    using DeleteFromPoll_polled[OF assms] by blast
  have "freed t t'" using t'(2-4) by (auto simp: freed_def domIff)
  then show ?thesis using t' by blast
qed

lemma free_column:
  "fds_ok t \<Longrightarrow> \<forall>x \<in> set xs. g x = -1 \<or> is_fd (g x) \<Longrightarrow>
   \<exists>t'. fold (\<lambda>x t. t \<bind> (\<lambda>t. if g x \<noteq> -1 then DeleteFromPoll (g x) t else Some t)) xs (Some t) = Some t' \<and> fds_ok t' \<and> freed t t'"
proof (induction xs arbitrary: t)
  case (Cons x xs)
  obtain t1 where t1: "(if g x \<noteq> -1 then DeleteFromPoll (g x) t else Some t) = Some t1" "fds_ok t1" "freed t t1"
    using Cons.prems freed_delete[of t "g x"] by (cases "g x = -1") (auto simp: freed_def)
  obtain t' where "fold (\<lambda>x t. t \<bind> (\<lambda>t. if g x \<noteq> -1 then DeleteFromPoll (g x) t else Some t)) xs (Some t1) = Some t'" "fds_ok t'" "freed t1 t'"
    using Cons.IH[OF t1(2)] Cons.prems(2) by auto
  then show ?case using t1 freed_trans by (auto simp del: not_None_eq)
qed (simp add: freed_def)

lemma FreeServerFds_closes:
  assumes "fds_ok t"
  shows "\<exists>t'. FreeServerFds t = Some t' \<and> {fd \<in> dom (polled t). 0 < fd} \<union> set (closed_fds t) \<subseteq> set (closed_fds t')"
proof -
  let ?cl = "rev (filter (\<lambda>fd. 0 < fd) (map pfd (in_use t))) @ closed_fds t"
  have "close_all (CURRENT_POLL_FDS t) (server_fds t) (closed_fds t) = Some ?cl"
    using close_all_spec assms by (simp add: in_use_def fds_ok_def)
  moreover have "{fd \<in> dom (polled t). 0 < fd} \<subseteq> set ?cl" using polled_None[of t] by (auto simp: dom_def)
  ultimately show ?thesis by (auto simp: FreeServerFds_def)
qed



end
