(* ===== verification/RybLaws.thy ===== *)
theory RybLaws
  imports RybDescriptors
begin

text \<open>
  What \<open>rybalko/31/server.c\<close> does with requests and responses: it confuses requests of one hash
  (\<open>rybalko_wrong_page\<close>), it has undefined behaviour on two inputs (\<open>rybalko_undefined_input\<close>), the loop that gives up old
  records ends (\<open>free_loop_more\<close>, with the number of records that were used before as variant), and a response is
  passed on to a subscribed client (\<open>streaming\<close> is the invariant, \<open>arrives_ok\<close> and \<open>takes_ok\<close> its steps).
\<close>

subsection \<open>Two requests with one hash\<close>

lemma djb2_append: "djb2 h (xs @ ys) = djb2 (djb2 h xs) ys"
  by (induction xs arbitrary: h) auto

lemma djb2_twins: "djb2 h (p @ ''b!'' @ q) = djb2 h (p @ ''aB'' @ q)"
proof -
  have "push_bit 5 h + h = 33 * h" for h :: "64 word" by (simp add: push_bit_eq_mult)
  then have "djb2 h ''b!'' = djb2 h ''aB''" for h by (simp add: schar_def algebra_simps)
  then show ?thesis by (simp add: djb2_append del: djb2.simps append_Cons)
qed

text \<open>
  C39: The cache of \<open>rybalko/31\<close> compares requests by a 64-bit hash only, and the hash maps every two requests that
  differ in \<open>b!\<close> against \<open>aB\<close> at one place to the same number: after the first was added, the second
  is answered with the record of the first.
\<close>
theorem rybalko_wrong_page:
  assumes room: "length p + length q + 3 \<le> URL_SIZE" and ne: "cache s \<noteq> []"
    and new: "\<And>r. r \<in> set (cache s) \<Longrightarrow> valid r \<Longrightarrow> request_hash r \<noteq> djb2 5381 (p @ ''b!'' @ q)"
    and free: "\<And>r. r \<in> set (cache s) \<Longrightarrow> \<not> valid r \<Longrightarrow> irequest r = None"
  shows "\<exists>k s1 s2. AddToCache False (p @ ''b!'' @ q) s = Some (int k, s1) \<and>
    TryToFindAtCache t (p @ ''aB'' @ q) s1 = Some (int k, s2) \<and> irequest (cache s2 ! k) = Some (p @ ''b!'' @ q)"
proof -
  let ?H = "djb2 5381 (p @ ''b!'' @ q)" and ?n = "length (cache s)"
  have h: "hash (Some (p @ ''b!'' @ q)) = Some ?H" "hash (Some (p @ ''aB'' @ q)) = Some ?H"
    using room djb2_twins[of 5381 p q] by (simp_all add: hash_def)
  obtain k where k: "loop_find (\<lambda>r. \<not> valid r) ?n (cache s) = Some k" using loop_find_total by blast
  define cs where "cs = (if k < ?n then cache s else ReallocCache (cache s))"
  have g: "ReallocCache (cache s) = cache s @ replicate ?n InitCacheItem"
    by (simp add: ReallocCache_def grow_table_def realloc_list_grow mult_2_right)
  have kn: "k \<le> ?n" by (rule loop_find_le[OF k])
  have l: "k < length cs" using kn ne by (auto simp: cs_def g)
  have before: "cs ! j = cache s ! j \<and> valid (cache s ! j) \<and> cache s ! j \<in> set (cache s)" if "j < k" for j
    using that kn loop_find_before[OF k that] by (auto simp: cs_def g nth_append)
  have nr: "irequest (cs ! k) = None"
    using loop_find_hit[OF k] kn free ne by (auto simp: cs_def g nth_append InitCacheItem_def)
  let ?r = "(cs ! k)\<lparr>request_hash := ?H, valid := True, irequest_size := length (p @ ''b!'' @ q), irequest := Some (p @ ''b!'' @ q)\<rparr>"
  have sc: "(if k < ?n then s else s\<lparr>cache := ReallocCache (cache s)\<rparr>) = s\<lparr>cache := cs\<rparr>" by (simp add: cs_def)
  have add: "AddToCache False (p @ ''b!'' @ q) s = Some (int k, s\<lparr>cache := cs[k := ?r]\<rparr>)"
    unfolding AddToCache_def h(1) Option.bind_lunit k Let_def sc using l nr by (simp add: on_item_def)
  have "loop_find (\<lambda>r. valid r \<and> request_hash r = ?H) (length (cs[k := ?r])) (cs[k := ?r]) = Some k"
    by (rule loop_find_eqI) (use l before new in auto)
  then have "TryToFindAtCache t (p @ ''aB'' @ q) (s\<lparr>cache := cs[k := ?r]\<rparr>) =
      Some (int k, s\<lparr>cache := cs[k := ?r\<lparr>full_time := t\<rparr>]\<rparr>)"
    using l h(2) by (simp add: TryToFindAtCache_def on_item_def)
  then show ?thesis using add l by (intro exI conjI) auto
qed

theorem rybalko_wrong_page_witness:
  "\<exists>k s1 s2. AddToCache False (''GET http://h/'' @ ''b!'' @ '' HTTP/1.0'') small_start = Some (int k, s1) \<and>
    TryToFindAtCache 100 (''GET http://h/'' @ ''aB'' @ '' HTTP/1.0'') s1 = Some (int k, s2) \<and>
    irequest (cache s2 ! k) = Some (''GET http://h/'' @ ''b!'' @ '' HTTP/1.0'')"
  by (rule rybalko_wrong_page) (simp_all add: small_start_def InitCacheItem_def)

subsection \<open>Undefined inputs\<close>

text \<open>
  Two inputs from the network on which \<open>rybalko/31\<close> has undefined behaviour: a client whose bytes fill the buffer of 1024
  (the NUL is written behind it), and a host whose first bytes have no \<open>Content-Length\<close> header (the search goes on from NULL).
\<close>
theorem rybalko_undefined_input:
  assumes "0 \<le> i" "i < int (length (clients s))" "bytes_read e = Some bs" "length bs = URL_SIZE"
    and "0 \<le> j" "j < int (length (hosts s))" "hcache_idx (hosts s ! nat j) = int k"
    "k < length (cache s)" "response_size (cache s ! k) = 0"
    "bytes_read e' = Some head" "head \<noteq> []" "c_string (head @ junk e') = Some str" "strstr str ''Content-Length: '' = None"
  shows "ReadFromClient e i s = None \<and> ReadFromHost e' j s = None"
proof -
  have "store_request e n bs s = None" for n
    using assms(4) by (cases "junk e") (simp_all add: store_request_def)
  then have "ReadFromClient e i s = None" using assms(1-4) by (auto simp: ReadFromClient_def)
  moreover have "ReadFromHost e' j s = None"
    using assms(5-13) by (auto simp: ReadFromHost_def start_response_def GetResponseLenght_def item_def bind_assertm_if Let_def)
  ultimately show ?thesis by blast
qed

text \<open>A client that sends 1024 bytes at once, and a host that answers without \<open>Content-Length\<close>.\<close>

theorem rybalko_undefined_input_witness:
  "ReadFromClient (quiet\<lparr>bytes_read := Some (replicate 1024 (CHR ''A''))\<rparr>) 0
       (small_start\<lparr>hosts := (hosts small_start)[0 := InitHost\<lparr>hfd := 6, hcache_idx := 0\<rparr>]\<rparr>) = None \<and>
   ReadFromHost (quiet\<lparr>bytes_read := Some ''HTTP/1.0 200 OK'', junk := replicate (BUFSIZ - 15) (CHR 0x00)\<rparr>) 0
       (small_start\<lparr>hosts := (hosts small_start)[0 := InitHost\<lparr>hfd := 6, hcache_idx := 0\<rparr>]\<rparr>) = None"
  by (rule rybalko_undefined_input[where bs = "replicate 1024 (CHR ''A'')" and k = 0 and head = "''HTTP/1.0 200 OK''" and str = "''HTTP/1.0 200 OK''"])
    (simp_all add: small_start_def quiet_def InitCacheItem_def c_string_def takeWhile_append BUFSIZ_def)

subsection \<open>Making room\<close>

lemma oldest_loop_cases:
  "oldest_loop i rs m res = res \<or> (\<exists>j < length rs. oldest_loop i rs m res = int (i + j) \<and> full_time (rs ! j) \<noteq> -1)"
proof (induction i rs m res rule: oldest_loop.induct)
  case (2 i r rs m res)
  show ?case
  proof (cases "full_time r < m \<and> full_time r \<noteq> -1")
    case True
    then show ?thesis using 2(1)[OF True] by (auto intro: exI[of _ 0] exI[of _ "Suc _"])
  next
    case False
    then show ?thesis using 2(2)[OF False] by (auto intro: exI[of _ "Suc _"])
  qed
qed simp


lemma oldest_slot:
  "GetOldestRecord t s \<noteq> -1 \<Longrightarrow>
     \<exists>j. GetOldestRecord t s = int j \<and> j < length (cache s) \<and> full_time (cache s ! j) \<noteq> -1"
  using oldest_loop_cases[of 0 "cache s" t "-1"] by (auto simp: GetOldestRecord_def)

definition times :: "rybalko \<Rightarrow> int list" where
  "times s = map full_time (cache s)"

lemma item_data_time: "map full_time rs = map (\<lambda>r. fst (snd (snd (item_data r)))) rs"
  by (simp add: item_data_def)

lemma calm_times: "calm s s' \<Longrightarrow> times s' = times s"
proof -
  assume "calm s s'"
  then have "map (\<lambda>d. fst (snd (snd d))) (map item_data (cache s')) = map (\<lambda>d. fst (snd (snd d))) (map item_data (cache s))"
    by (simp only: calm_def)
  then show ?thesis by (simp add: times_def item_data_def comp_def)
qed

lemma CleanCacheItem_times:
  assumes "k < length (cache s)"
  shows "post (CleanCacheItem (int k) s) (\<lambda>s'. times s' = (times s)[k := -1])"
proof -
  let ?T = "\<lambda>s1 s2. times s2 = times s1"
  have set: "post (on_item i f s1) (?T s1)" if "\<And>r. full_time (f r) = full_time r" for i f s1
    using that by (auto simp: post_def on_item_def fault_simps times_def map_upd_id)
  have via: "post m (?T s1)" if "post m (calm s1)" for m s1
    by (rule post_weaken[OF that]) (rule calm_times)
  have reset: "post (on_item k f s) (\<lambda>s'. times s' = (times s)[k := -1])" if "\<And>r. full_time (f r) = -1" for f
    using that by (auto simp: post_def on_item_def fault_simps times_def map_update)
  have chain: "post (m \<bind> g) (?T s1)" if "post m (?T s1)" "\<And>s2. post (g s2) (?T s2)" for m g s1
    by (rule post_bind[OF that(1)]) (use that(2) in \<open>auto simp: post_def\<close>)
  have h: "post (if b then do { s \<leftarrow> DisconnectHost n s1; on_item i f s } else Some s1) (?T s1)" if "\<And>r. full_time (f r) = full_time r" for b n i f s1
    by (rule post_if, rule chain, rule via, rule ca.DisconnectHost_frame, rule set, rule that, simp)
  have rest: "post (do {
        s \<leftarrow> (if b then do { s \<leftarrow> DisconnectHost n s1; on_item k (\<lambda>r. r\<lparr>host_idx := -1\<rparr>) s } else Some s1);
        r \<leftarrow> get_at (cache s) k;
        case subscribers r of
          None \<Rightarrow> Some s
        | Some xs \<Rightarrow> do {
            s \<leftarrow> on_item k (\<lambda>r. r\<lparr>subs_size := 0\<rparr>) s;
            assertm (subs_size r \<le> length xs);
            s \<leftarrow> disconnect_loop (take (subs_size r) xs) s;
            on_item k (\<lambda>r. r\<lparr>subscribers := None, curr_subs := 0\<rparr>) s } }) (?T s1)" for b n s1
    by (rule chain, rule h, simp, rule post_pure, rule post_option, simp, rule chain, rule set, simp, rule post_pure,
        rule chain, rule via, rule ca.disconnect_loop_frame, rule set, simp)
  show ?thesis unfolding CleanCacheItem_def Let_def nat_int
    by (rule post_if, use assms in simp, rule post_bind[OF reset], simp, rule post_pure, rule post_weaken[OF rest], simp)
qed

definition timed :: "rybalko \<Rightarrow> nat" where
  "timed s = length (filter (\<lambda>t. t \<noteq> -1) (times s))"

lemma filter_reset: "j < length ts \<Longrightarrow> ts ! j \<noteq> -1 \<Longrightarrow> Suc (length (filter (\<lambda>t. t \<noteq> -1) (ts[j := -1]))) = length (filter (\<lambda>t. t \<noteq> (-1::int)) ts)"
proof -
  assume a: "j < length ts" "ts ! j \<noteq> -1"
  have "ts = take j ts @ ts ! j # drop (Suc j) ts" "ts[j := -1] = take j ts @ (-1) # drop (Suc j) ts"
    using a(1) by (simp_all add: id_take_nth_drop upd_conv_take_nth_drop)
  then obtain us x vs where x: "ts = us @ x # vs" "ts[j := -1] = us @ (-1) # vs" "x = ts ! j" by blast
  show ?thesis unfolding x(2) using a(2) unfolding x(3)[symmetric] unfolding x(1) by simp
qed

lemma free_loop_more:
  "timed s \<le> n \<Longrightarrow> n \<le> m \<Longrightarrow> free_loop m t needed s = free_loop n t needed s"
proof (induction n arbitrary: m s)
  case 0
  have "\<not> too_little t needed s"
  proof
    assume "too_little t needed s"
    then obtain j where j: "j < length (cache s)" "full_time (cache s ! j) \<noteq> -1"
      using oldest_slot by (auto simp: too_little_def)
    then have "full_time (cache s ! j) \<in> set (times s)" by (simp add: times_def)
    then show False using 0(1) j(2) by (auto simp: timed_def filter_empty_conv)
  qed
  then show ?case by (cases m) auto
next
  case (Suc n)
  then obtain m' where m: "m = Suc m'" "n \<le> m'" by (cases m) auto
  show ?case
  proof (cases "too_little t needed s")
    case True
    then obtain j where j: "GetOldestRecord t s = int j" "j < length (cache s)" "full_time (cache s ! j) \<noteq> -1"
      using oldest_slot by (auto simp: too_little_def)
    let ?s = "\<lambda>r. s\<lparr>CURRENT_CACHE_SIZE := CURRENT_CACHE_SIZE s - of_nat (response_size r)\<rparr>"
    have "free_loop m' t needed s' = free_loop n t needed s'" if c: "CleanCacheItem (int j) (?s r) = Some s'" for r :: cache_item and s'
    proof -
      have "times s' = (times s)[j := -1]"
        using postD[OF CleanCacheItem_times c] j(2) by (simp add: times_def)
      then have "Suc (timed s') = timed s" using filter_reset[of j "times s"] j(2,3) by (simp add: timed_def times_def)
      then show ?thesis using Suc.IH[of s' m'] Suc.prems(1) m(2) by simp
    qed
    then have "CleanCacheItem (int j) (?s r) \<bind> free_loop m' t needed = CleanCacheItem (int j) (?s r) \<bind> free_loop n t needed" for r :: cache_item
      by (cases "CleanCacheItem (int j) (?s r)") auto
    then show ?thesis using True j(1) m(1) by simp
  qed (simp add: m(1))
qed

lemma free_loop_stops: "free_loop n t needed s = Some s' \<Longrightarrow> \<not> too_little t needed s'"
  by (induction n arbitrary: s) (auto simp: bind_eq_Some_conv split: if_splits)


subsection \<open>Passing a response on\<close>

text \<open>What notifying the clients \<open>xs\<close> does: they are armed, and nothing else that matters changes.\<close>

definition notified :: "16 word \<Rightarrow> int list \<Rightarrow> rybalko \<Rightarrow> rybalko \<Rightarrow> bool" where
  "notified ev xs s s' \<longleftrightarrow> fds_ok (fds s') \<and> s' = s\<lparr>fds := fds s', clients := clients s'\<rparr> \<and>
     length (clients s') = length (clients s) \<and>
     (\<forall>i < length (clients s). rfd (clients s' ! i) = rfd (clients s ! i) \<and> rcache_idx (clients s' ! i) = rcache_idx (clients s ! i) \<and>
        (0 \<le> rlast_written_idx (clients s ! i) \<longrightarrow> rlast_written_idx (clients s' ! i) = rlast_written_idx (clients s ! i))) \<and>
     (\<forall>fd. polled (fds s') fd = polled (fds s) fd \<or> polled (fds s) fd \<noteq> None \<and> polled (fds s') fd = Some ev) \<and>
     (\<forall>i < length (clients s). int i \<in> set xs \<longrightarrow> polled (fds s) (rfd (clients s ! i)) \<noteq> None \<longrightarrow>
        polled (fds s') (rfd (clients s ! i)) = Some ev)"

lemma notified_refl: "fds_ok (fds s) \<Longrightarrow> notified ev [] s s"
  by (simp add: notified_def)

lemma notified_trans:
  assumes "notified ev xs a b" "notified ev ys b c"
  shows "notified ev (xs @ ys) a c"
proof -
  have 1: "c = b\<lparr>fds := fds c, clients := clients c\<rparr>" "b = a\<lparr>fds := fds b, clients := clients b\<rparr>"
    using assms by (simp_all add: notified_def)
  have "c = a\<lparr>fds := fds c, clients := clients c\<rparr>" by (subst 1(1), subst 1(2)) simp
  then show ?thesis using assms unfolding notified_def by (metis UnE set_append)
qed

lemma notify_one:
  assumes "fds_ok (fds s)" "i < length (clients s)"
  shows "\<exists>s1 s2. on_fds (SetEventForFd (rfd (clients s ! i)) ev) s = Some s1 \<and>
    (if rlast_written_idx (clients s ! i) < 0 then on_client i (\<lambda>c. c\<lparr>rlast_written_idx := 0\<rparr>) s1 else Some s1) = Some s2 \<and>
    notified ev [int i] s s2"
proof -
  obtain t where t: "SetEventForFd (rfd (clients s ! i)) ev (fds s) = Some t" "fds_ok t"
      "polled t = (\<lambda>x. if x = rfd (clients s ! i) \<and> polled (fds s) x \<noteq> None then Some ev else polled (fds s) x)"
    using SetEvent_any[OF assms(1)] by blast
  let ?c = "clients s ! i"
  let ?cs = "if rlast_written_idx ?c < 0 then (clients s)[i := ?c\<lparr>rlast_written_idx := 0\<rparr>] else clients s"
  have "notified ev [int i] s (s\<lparr>fds := t, clients := ?cs\<rparr>)"
    using t(2,3) assms(2) by (auto simp: notified_def nth_list_update)
  then show ?thesis using t(1) assms(2)
    by (intro exI[of _ "s\<lparr>fds := t\<rparr>"] exI[of _ "s\<lparr>fds := t, clients := ?cs\<rparr>"]) (auto simp: on_fds_def on_client_def)
qed

lemma notify_loop_ok:
  "fds_ok (fds s) \<Longrightarrow> \<forall>x \<in> set xs. x = -1 \<or> 0 \<le> x \<and> nat x < length (clients s) \<Longrightarrow>
     \<exists>s'. notify_loop xs ev s = Some s' \<and> notified ev xs s s'"
proof (induction xs arbitrary: s)
  case (Cons x xs)
  show ?case
  proof (cases "x = -1")
    case True
    obtain s' where s': "notify_loop xs ev s = Some s'" "notified ev xs s s'" using Cons by auto
    have "notified ev [x] s s" using Cons.prems(1) True by (auto simp: notified_def)
    then have "notified ev (x # xs) s s'" using notified_trans[of ev "[x]" s s xs s'] s'(2) by simp
    then show ?thesis using True s'(1) by simp
  next
    case False
    then have x: "0 \<le> x" "nat x < length (clients s)" "int (nat x) = x" using Cons.prems(2) by auto
    obtain s1 s2 where 1: "on_fds (SetEventForFd (rfd (clients s ! nat x)) ev) s = Some s1"
        "(if rlast_written_idx (clients s ! nat x) < 0 then on_client (nat x) (\<lambda>c. c\<lparr>rlast_written_idx := 0\<rparr>) s1 else Some s1) = Some s2"
        "notified ev [x] s s2"
      using notify_one[OF Cons.prems(1) x(2), of ev] x(3) by auto
    have 2: "fds_ok (fds s2)" "length (clients s2) = length (clients s)" using 1(3) by (simp_all add: notified_def)
    obtain s' where s': "notify_loop xs ev s2 = Some s'" "notified ev xs s2 s'" using Cons.IH[of s2] 2 Cons.prems(2) by auto
    have "notified ev (x # xs) s s'" using notified_trans[OF 1(3) s'(2)] by simp
    moreover have "notify_loop (x # xs) ev s = Some s'" using False x(1,2) 1(1,2) s'(1) by (simp add: assertm_def)
    ultimately show ?thesis by blast
  qed
qed (simp add: notified_refl)


definition subs_in_range :: "rybalko \<Rightarrow> cache_item \<Rightarrow> nat \<Rightarrow> bool" where
  "subs_in_range s r i \<longleftrightarrow> (\<exists>xs. subscribers r = Some xs \<and> 0 < subs_size r \<and> subs_size r \<le> length xs \<and>
     int i \<in> set (take (subs_size r) xs) \<and>
     (\<forall>x \<in> set (take (subs_size r) xs). x = -1 \<or> 0 \<le> x \<and> nat x < length (clients s)))"

definition holds_bytes :: "cache_item \<Rightarrow> string \<Rightarrow> bool" where
  "holds_bytes r got \<longleftrightarrow> (\<exists>block. response r = Some block \<and> length block = response_size r \<and> BUFSIZ \<le> response_size r \<and>
     length got \<le> response_size r \<and> response_idx r = length got \<and> take (length got) block = got)"

text \<open>
  Host \<open>j\<close> fills record \<open>k\<close>, of which \<open>got\<close> arrived so far, and client \<open>i\<close>, a subscriber, was sent \<open>n\<close> bytes.
\<close>

definition streaming :: "nat \<Rightarrow> nat \<Rightarrow> nat \<Rightarrow> string \<Rightarrow> nat \<Rightarrow> rybalko \<Rightarrow> bool" where
  "streaming i j k got n s \<longleftrightarrow> fds_ok (fds s) \<and>
     i < length (clients s) \<and> polled (fds s) (rfd (clients s ! i)) \<noteq> None \<and>
     rcache_idx (clients s ! i) = int k \<and> rlast_written_idx (clients s ! i) = int n \<and> n \<le> length got \<and>
     (n < length got \<longrightarrow> polled (fds s) (rfd (clients s ! i)) = Some (POLLIN OR POLLOUT)) \<and>
     j < length (hosts s) \<and> hcache_idx (hosts s ! j) = int k \<and> header_parsed (hosts s ! j) \<and>
     k < length (cache s) \<and> host_idx (cache s ! k) \<noteq> -1 \<and> (successful_request (cache s ! k) \<or> \<not> full (cache s ! k)) \<and>
     holds_bytes (cache s ! k) got \<and> subs_in_range s (cache s ! k) i"

definition sent_to :: "int \<Rightarrow> rybalko \<Rightarrow> string" where
  "sent_to fd s = concat (map snd (filter (\<lambda>(f, _). f = fd) (sent s)))"

text \<open>A chunk of the response arrives, or the client's \<open>write\<close> takes some bytes.\<close>

datatype relay_event = Arrives string | Takes nat

fun relay_step :: "nat \<Rightarrow> nat \<Rightarrow> relay_event \<Rightarrow> rybalko \<Rightarrow> rybalko option" where
  "relay_step i j (Arrives bs) s =
     ReadFromHost (quiet\<lparr>bytes_read := Some bs, junk := replicate (BUFSIZ - length bs) (CHR 0x00)\<rparr>) (int j) s"
| "relay_step i j (Takes n) s = WriteToClient (quiet\<lparr>written := int n\<rparr>) (int i) s"

fun relay_run :: "nat \<Rightarrow> nat \<Rightarrow> relay_event list \<Rightarrow> rybalko \<Rightarrow> rybalko option" where
  "relay_run i j [] s = Some s"
| "relay_run i j (x # xs) s = relay_step i j x s \<bind> relay_run i j xs"

fun arrivals :: "relay_event list \<Rightarrow> string" where
  "arrivals [] = []"
| "arrivals (Arrives bs # xs) = bs @ arrivals xs"
| "arrivals (Takes n # xs) = arrivals xs"

fun taken :: "relay_event list \<Rightarrow> nat" where
  "taken [] = 0"
| "taken (Arrives bs # xs) = taken xs"
| "taken (Takes n # xs) = n + taken xs"

text \<open>\<open>read\<close> returns at most its buffer, \<open>write\<close> takes at most what it is given, the response stays below 512 MB.\<close>

fun relay_allowed :: "relay_event list \<Rightarrow> nat \<Rightarrow> nat \<Rightarrow> bool" where
  "relay_allowed [] a t \<longleftrightarrow> True"
| "relay_allowed (Arrives bs # xs) a t \<longleftrightarrow>
     bs \<noteq> [] \<and> length bs \<le> BUFSIZ \<and> a + length bs < 2 ^ 29 \<and> relay_allowed xs (a + length bs) t"
| "relay_allowed (Takes n # xs) a t \<longleftrightarrow> t + n \<le> a \<and> relay_allowed xs a (t + n)"

lemma grow_ok:
  assumes "item (int k) s = Some r" "k < length (cache s)" "holds_bytes r got" "n \<le> BUFSIZ" "length got + n < 2 ^ 29"
  shows "\<exists>r'. grow_response (quiet\<lparr>bytes_read := x, junk := y\<rparr>) idx (int k) n s = Some (True, s\<lparr>cache := (cache s)[k := r']\<rparr>) \<and>
    holds_bytes r' got \<and> length got + n \<le> response_size r' \<and>
    r' = r\<lparr>response := response r', response_size := response_size r'\<rparr>"
proof -
  have r: "cache s ! k = r" using assms(1,2) by (simp add: item_def)
  obtain block where b: "response r = Some block" "length block = response_size r" "BUFSIZ \<le> response_size r"
      "length got \<le> response_size r" "response_idx r = length got" "take (length got) block = got"
    using assms(3) by (auto simp: holds_bytes_def)
  show ?thesis
  proof (cases "n + response_idx r < response_size r")
    case True
    have "s\<lparr>cache := (cache s)[k := r]\<rparr> = s" using r by (simp add: list_update_same_conv assms(2))
    then show ?thesis using True assms(1,3) b(5) by (intro exI[of _ r]) (simp add: grow_response_def)
  next
    case False
    let ?r = "r\<lparr>response_size := response_size r * 2, response := Some (realloc_list block (response_size r * 2) (CHR 0x00))\<rparr>"
    have "int (response_size r * 2) \<le> INT_MAX" using False b(5) assms(5) by (simp add: INT_MAX_def)
    then have "grow_response (quiet\<lparr>bytes_read := x, junk := y\<rparr>) idx (int k) n s = Some (True, s\<lparr>cache := (cache s)[k := ?r]\<rparr>)"
      using False assms(1,2) r b(1) by (simp add: grow_response_def on_item_def quiet_def)
    moreover have "holds_bytes ?r got" using b by (simp add: holds_bytes_def take_realloc_list)
    ultimately show ?thesis using b(3,4) assms(4) by (intro exI[of _ ?r]) simp
  qed
qed


lemma holds_append:
  assumes "holds_bytes r got" "length got + length bs \<le> response_size r" "response r = Some block"
    "memcpy_to block (response_idx r) bs = Some block'"
  shows "holds_bytes (r\<lparr>response := Some block', response_idx := response_idx r + length bs\<rparr>) (got @ bs)"
  using assms by (auto simp: holds_bytes_def)

lemma append_ok:
  assumes "item (int k) s = Some r" "k < length (cache s)" "holds_bytes r got" "length got + length bs \<le> response_size r"
    "subs_in_range s r i" "j < length (hosts s)" "header_parsed (hosts s ! j)" "fds_ok (fds s)"
  shows "\<exists>s' r' xs. append_bytes (int j) (int k) bs buf s = Some s' \<and>
    notified (POLLIN OR POLLOUT) xs (s\<lparr>cache := (cache s)[k := r']\<rparr>) s' \<and> int i \<in> set xs \<and>
    holds_bytes r' (got @ bs) \<and> r' = r\<lparr>response := response r', response_idx := response_idx r'\<rparr>"
proof -
  have r: "cache s ! k = r" using assms(1,2) by (simp add: item_def)
  obtain block where b: "response r = Some block" "length block = response_size r" "response_idx r = length got"
    using assms(3) by (auto simp: holds_bytes_def)
  obtain block' where b': "memcpy_to block (response_idx r) bs = Some block'" using b assms(4) by (simp add: memcpy_to_def)
  let ?r = "r\<lparr>response := Some block', response_idx := response_idx r + length bs\<rparr>"
  let ?s = "s\<lparr>cache := (cache s)[k := ?r]\<rparr>"
  obtain xs where xs: "subscribers r = Some xs" "0 < subs_size r" "subs_size r \<le> length xs" "int i \<in> set (take (subs_size r) xs)"
      "\<forall>x \<in> set (take (subs_size r) xs). x = -1 \<or> 0 \<le> x \<and> nat x < length (clients ?s)"
    using assms(5) by (auto simp: subs_in_range_def)
  obtain s' where s': "notify_loop (take (subs_size r) xs) (POLLIN OR POLLOUT) ?s = Some s'"
      "notified (POLLIN OR POLLOUT) (take (subs_size r) xs) ?s s'"
    using notify_loop_ok[OF _ xs(5)] assms(8) by auto
  have n: "NotifySub (int k) (POLLIN OR POLLOUT) ?s = Some s'"
    using s'(1) xs assms(2) by (simp add: NotifySub_def item_def)
  have "s' = ?s\<lparr>fds := fds s', clients := clients s'\<rparr>" using s'(2) by (simp add: notified_def)
  then have "hosts s' = hosts s" by (metis rybalko.select_convs(3) rybalko.surjective rybalko.update_convs(1,2,4))
  then have "append_bytes (int j) (int k) bs buf s = Some s'"
    using assms(1,2,6,7) b(1) b' n r by (simp add: append_bytes_def on_item_def del: memcpy_to_Some)
  then show ?thesis using s'(2) xs(4) holds_append[OF assms(3,4) b(1) b'] by (intro exI conjI) auto
qed

lemma arrives_ok:
  assumes st: "streaming i j k got n s" and bs: "bs \<noteq> []" "length bs \<le> BUFSIZ" "length got + length bs < 2 ^ 29"
  shows "\<exists>s'. relay_step i j (Arrives bs) s = Some s' \<and> streaming i j k (got @ bs) n s' \<and> sent s' = sent s \<and>
    rfd (clients s' ! i) = rfd (clients s ! i)"
proof -
  let ?e = "quiet\<lparr>bytes_read := Some bs, junk := replicate (BUFSIZ - length bs) (CHR 0x00)\<rparr>"
  let ?r = "cache s ! k" and ?buf = "bs @ replicate (BUFSIZ - length bs) (CHR 0x00)"
  have f: "fds_ok (fds s)" "i < length (clients s)" "j < length (hosts s)" "hcache_idx (hosts s ! j) = int k"
      "header_parsed (hosts s ! j)" "k < length (cache s)" "holds_bytes ?r got" "subs_in_range s ?r i"
    using st by (auto simp: streaming_def)
  have it: "item (int k) s = Some ?r" using f(6) by (simp add: item_def)
  obtain r1 where g: "grow_response ?e (int j) (int k) (length bs) s = Some (True, s\<lparr>cache := (cache s)[k := r1]\<rparr>)"
      "holds_bytes r1 got" "length got + length bs \<le> response_size r1" "r1 = ?r\<lparr>response := response r1, response_size := response_size r1\<rparr>"
    using grow_ok[OF it f(6,7) bs(2,3)] by blast
  let ?s1 = "s\<lparr>cache := (cache s)[k := r1]\<rparr>"
  have same1: "subscribers r1 = subscribers ?r" "subs_size r1 = subs_size ?r" "host_idx r1 = host_idx ?r" "full r1 = full ?r"
      "successful_request r1 = successful_request ?r"
    by (subst g(4), simp)+
  have sub1: "subs_in_range ?s1 r1 i" using f(8) same1 by (simp add: subs_in_range_def)
  have "item (int k) ?s1 = Some r1" "k < length (cache ?s1)" using f(6) by (simp_all add: item_def)
  then obtain s' r' xs where a: "append_bytes (int j) (int k) bs ?buf ?s1 = Some s'"
      "notified (POLLIN OR POLLOUT) xs (?s1\<lparr>cache := (cache ?s1)[k := r']\<rparr>) s'" "int i \<in> set xs"
      "holds_bytes r' (got @ bs)" "r' = r1\<lparr>response := response r', response_idx := response_idx r'\<rparr>"
    using append_ok[of k ?s1 r1 got bs i j ?buf] g(2,3) sub1 f(1,3,5) by auto
  have same2: "subscribers r' = subscribers r1" "subs_size r' = subs_size r1" "host_idx r' = host_idx r1" "full r' = full r1"
      "successful_request r' = successful_request r1"
    by (subst a(5), simp)+
  have "response_size ?r \<noteq> 0" using f(7) by (auto simp: holds_bytes_def BUFSIZ_def)
  then have run: "relay_step i j (Arrives bs) s = Some s'"
    using bs(1,2) f(3,4) it g(1) a(1) by (simp add: ReadFromHost_def quiet_def)
  have n: "notified (POLLIN OR POLLOUT) xs (s\<lparr>cache := (cache s)[k := r']\<rparr>) s'" using a(2) by simp
  then have s': "s' = s\<lparr>cache := (cache s)[k := r'], fds := fds s', clients := clients s'\<rparr>" by (simp add: notified_def)
  let ?fd = "rfd (clients s ! i)"
  have c: "length (clients s') = length (clients s)" "rfd (clients s' ! i) = ?fd" "rcache_idx (clients s' ! i) = int k"
      "rlast_written_idx (clients s' ! i) = int n" "fds_ok (fds s')"
    using n st f(2) by (auto simp: notified_def streaming_def)
  have p: "polled (fds s') ?fd = Some (POLLIN OR POLLOUT)"
    using n st f(2) a(3) by (auto simp: notified_def streaming_def)
  have h: "hosts s' = hosts s" "cache s' = (cache s)[k := r']" by (subst s', simp)+
  have sub: "subs_in_range s' r' i" using f(8) same1 same2 c(1) by (simp add: subs_in_range_def)
  have "streaming i j k (got @ bs) n s'"
    using st a(4) c p h sub same1 same2 by (auto simp: streaming_def)
  moreover have "sent s' = sent s" by (subst s') simp
  ultimately show ?thesis using run n f(2) by (auto simp: notified_def)
qed


lemma takes_ok:
  assumes st: "streaming i j k got n s" and m: "n + m \<le> length got"
  shows "\<exists>s'. relay_step i j (Takes m) s = Some s' \<and> streaming i j k got (n + m) s' \<and>
    rfd (clients s' ! i) = rfd (clients s ! i) \<and>
    sent s' = sent s @ [(rfd (clients s ! i), take m (drop n got))]"
proof -
  let ?c = "clients s ! i" and ?r = "cache s ! k"
  have f: "fds_ok (fds s)" "i < length (clients s)" "rcache_idx ?c = int k" "rlast_written_idx ?c = int n"
      "k < length (cache s)" "holds_bytes ?r got" "host_idx ?r \<noteq> -1" "successful_request ?r \<or> \<not> full ?r"
    using st by (auto simp: streaming_def)
  obtain block where b: "response ?r = Some block" "response_idx ?r = length got" "length got \<le> length block" "take (length got) block = got"
    using f(6) by (auto simp: holds_bytes_def)
  have "take m (drop n got) = take m (drop n (take (length got) block))" by (simp add: b(4))
  also have "\<dots> = take m (drop n block)" using m by (simp add: drop_take min_def)
  finally have "bytes_taken (response ?r) (int n) (int (length got) - int n) (int m) = Some (take m (drop n got))"
    using b(1,3) m by (auto simp: bytes_taken_def)
  note taken = this
  let ?s1 = "s\<lparr>sent := sent s @ [(rfd ?c, take m (drop n got))], clients := (clients s)[i := ?c\<lparr>rlast_written_idx := int n + int m\<rparr>]\<rparr>"
  obtain t where t: "SetEventForFd (rfd ?c) POLLIN (fds s) = Some t" "fds_ok t"
      "polled t = (\<lambda>x. if x = rfd ?c \<and> polled (fds s) x \<noteq> None then Some POLLIN else polled (fds s) x)"
    using SetEvent_any[OF f(1)] by blast
  let ?s2 = "if n + m = length got then ?s1\<lparr>fds := t\<rparr> else ?s1"
  have "relay_step i j (Takes m) s = Some ?s2"
    using f t(1) b(2) taken by (auto simp: WriteToClient_def item_def quiet_def on_client_def on_fds_def)
  moreover have "streaming i j k got (n + m) ?s2"
    using st m t(2,3) by (auto simp: streaming_def subs_in_range_def)
  moreover have "rfd (clients ?s2 ! i) = rfd ?c" "sent ?s2 = sent s @ [(rfd ?c, take m (drop n got))]" using f(2) by simp_all
  ultimately show ?thesis by blast
qed

lemma sent_to_add: "sent s' = sent s @ [(fd, bs)] \<Longrightarrow> sent_to fd s' = sent_to fd s @ bs"
  by (simp add: sent_to_def)



definition small_stream :: rybalko where
  "small_stream = small_start\<lparr>
     clients := (clients small_start)[0 := InitClient\<lparr>rfd := 5, rcache_idx := 0, rlast_written_idx := 0\<rparr>],
     hosts := (hosts small_start)[0 := \<lparr>hfd = 6, hcache_idx = 0, hlast_written_idx = 0, header_parsed = True\<rparr>],
     cache := (cache small_start)[0 := InitCacheItem\<lparr>valid := True, host_idx := 0, successful_request := True,
       subscribers := Some (0 # replicate 7 (-1)), subs_size := 8,
       response := Some (''HTTP'' @ replicate 8188 (CHR 0x00)), response_size := 8192, response_idx := 4\<rparr>],
     fds := (fds small_start)\<lparr>server_fds := (server_fds (fds small_start))[2 := \<lparr>pfd = 5, events = POLLIN OR POLLOUT, revents = 0\<rparr>,
       3 := \<lparr>pfd = 6, events = POLLIN, revents = 0\<rparr>], CURRENT_POLL_FDS := 4\<rparr>\<rparr>"

lemma small_stream_ok: "streaming 0 0 0 ''HTTP'' 0 small_stream"
proof -
  have u: "in_use (fds small_stream) = [\<lparr>pfd = 3, events = POLLIN, revents = 0\<rparr>, \<lparr>pfd = 4, events = POLLIN, revents = 0\<rparr>,
      \<lparr>pfd = 5, events = POLLIN OR POLLOUT, revents = 0\<rparr>, \<lparr>pfd = 6, events = POLLIN, revents = 0\<rparr>]"
    by code_simp
  then have "fds_ok (fds small_stream)" "polled (fds small_stream) 5 = Some (POLLIN OR POLLOUT)"
    by (simp_all add: fds_ok_def polled_def unique_fds_def is_fd_def INT_MAX_def)
      (simp_all add: small_stream_def small_start_def SERVICE_FDS_AMOUNT_def)
  moreover have "holds_bytes (cache small_stream ! 0) ''HTTP''" "subs_in_range small_stream (cache small_stream ! 0) 0"
    by (simp_all add: small_stream_def small_start_def holds_bytes_def subs_in_range_def BUFSIZ_def)
  ultimately show ?thesis by (simp add: streaming_def) (simp add: small_stream_def small_start_def)
qed



end
