(* ===== verification/ShuTables.thy ===== *)
theory ShuTables
  imports FdOwners
begin

text \<open>
  The tables of \<open>shuvalov/31\<close>, a proxy with one thread and a cache of ten nodes: the descriptors given to \<open>ppoll\<close>
  (\<open>proxy.c\<close>), the clients and the servers (\<open>http_socket/http_socket.c\<close>). \<open>size\<close> is the length of the list.
  The cells that \<open>realloc\<close> adds to the poll table hold arbitrary bytes (\<open>junk\<close>) but for the descriptor.
  The array of clients may move when it grows, and there are pointers into it: a pointer to a client is the pair of
  the number of moves at the time it was taken and the index (\<open>client_ptr\<close>); after a move it dangles.
  Failing allocations of the tables are not modelled.
\<close>

subsection \<open>The poll table\<close>

record poll_fds =
  pmembers :: "pollfd list"
  pnumber :: nat
  pclosed :: "int list"

definition init_poll_fds_members :: "pollfd list \<Rightarrow> pollfd list" where
  "init_poll_fds_members cells = map (\<lambda>p. p\<lparr>pfd := -1\<rparr>) cells"

definition init_poll_fds :: "bool \<Rightarrow> pollfd list \<Rightarrow> poll_fds option" where
  "init_poll_fds oom cells =
     (if oom then None else Some \<lparr>pmembers = init_poll_fds_members cells, pnumber = 0, pclosed = []\<rparr>)"

text \<open>The index is -1 if there is no free slot.\<close>

definition add_fd_to_poll :: "(nat \<Rightarrow> pollfd) \<Rightarrow> int \<Rightarrow> 16 word \<Rightarrow> poll_fds \<Rightarrow> (int \<times> poll_fds) option" where
  "add_fd_to_poll junk fd ev t = do {
     let t = (if pnumber t = length (pmembers t)
              then t\<lparr>pmembers := pmembers t @ init_poll_fds_members (map junk [0..<length (pmembers t)])\<rparr> else t);
     i \<leftarrow> loop_find (\<lambda>p. pfd p = -1) (length (pmembers t)) (pmembers t);
     if i < length (pmembers t)
     then Some (int i, t\<lparr>pmembers := (pmembers t)[i := (pmembers t ! i)\<lparr>pfd := fd, events := ev\<rparr>], pnumber := pnumber t + 1\<rparr>)
     else Some (-1, t) }"

definition remove_from_poll :: "int \<Rightarrow> poll_fds \<Rightarrow> poll_fds option" where
  "remove_from_poll fd t = do {
     i \<leftarrow> loop_find (\<lambda>p. pfd p = fd) (length (pmembers t)) (pmembers t);
     if i < length (pmembers t)
     then Some (t\<lparr>pmembers := (pmembers t)[i := (pmembers t ! i)\<lparr>pfd := -1\<rparr>], pnumber := size_dec (pnumber t)\<rparr>)
     else Some t }"

text \<open>\<open>close\<close> before \<open>remove_from_poll\<close>, as in all places that give a connection up.\<close>

definition close_fd :: "int \<Rightarrow> poll_fds \<Rightarrow> poll_fds option" where
  "close_fd fd t = remove_from_poll fd (t\<lparr>pclosed := fd # pclosed t\<rparr>)"

text \<open>\<open>poll_fds->members[i].events = ev\<close>\<close>

definition set_events :: "nat \<Rightarrow> 16 word \<Rightarrow> poll_fds \<Rightarrow> poll_fds option" where
  "set_events i ev t = do {
     p \<leftarrow> get_at (pmembers t) i;
     Some (t\<lparr>pmembers := (pmembers t)[i := p\<lparr>events := ev\<rparr>]\<rparr>) }"

fun close_fds :: "nat \<Rightarrow> pollfd list \<Rightarrow> int list \<Rightarrow> int list option" where
  "close_fds 0 ps cl = Some cl"
| "close_fds (Suc n) [] cl = None"
| "close_fds (Suc n) (p # ps) cl = close_fds n ps (if pfd p \<noteq> -1 then pfd p # cl else cl)"

definition seen :: "poll_fds \<Rightarrow> int \<Rightarrow> 16 word option" where
  "seen t = pfds_map (pmembers t)"

definition pfds_ok :: "poll_fds \<Rightarrow> bool" where
  "pfds_ok t \<longleftrightarrow> pmembers t \<noteq> [] \<and> unique_fds (pmembers t) \<and> length (filter (\<lambda>p. pfd p \<noteq> -1) (pmembers t)) = pnumber t"

lemma seen_None: "seen t fd = None \<longleftrightarrow> fd = -1 \<or> fd \<notin> pfd ` set (pmembers t)"
  by (simp add: seen_def pfds_map_None)

lemma split_at: "i < length xs \<Longrightarrow> \<exists>a b. xs = a @ xs ! i # b \<and> length a = i \<and> (\<forall>y. xs[i := y] = a @ y # b)"
  by (intro exI[of _ "take i xs"] exI[of _ "drop (Suc i) xs"]) (simp add: id_take_nth_drop upd_conv_take_nth_drop)

lemma put_fd_seen:
  assumes "i < length ps" "pfd (ps ! i) = -1" "unique_fds ps" "is_fd fd" "fd \<notin> pfd ` set ps"
  shows "unique_fds (ps[i := (ps ! i)\<lparr>pfd := fd, events := e\<rparr>]) \<and>
    pfds_map (ps[i := (ps ! i)\<lparr>pfd := fd, events := e\<rparr>]) = (pfds_map ps)(fd \<mapsto> e) \<and>
    length (filter (\<lambda>p. pfd p \<noteq> -1) (ps[i := (ps ! i)\<lparr>pfd := fd, events := e\<rparr>])) = Suc (length (filter (\<lambda>p. pfd p \<noteq> -1) ps))"
proof -
  obtain a b where s: "ps = a @ ps ! i # b" "\<And>y. ps[i := y] = a @ y # b" using split_at[OF assms(1)] by blast
  obtain p where p: "p = ps ! i" "pfd p = -1" using assms(2) by simp
  have q: "ps = a @ p # b" using s(1) p(1) by simp
  have fd: "fd \<noteq> -1" using assms(4) by (simp add: is_fd_def)
  have m: "pfds_map (a @ p\<lparr>pfd := fd, events := e\<rparr> # b) = (pfds_map (a @ b))(fd \<mapsto> e)" "pfds_map (a @ p # b) = pfds_map (a @ b)"
    using pfds_map_split[of "p\<lparr>pfd := fd, events := e\<rparr>" a b] pfds_map_split[of p a b] assms(5) p(2) fd
    by (auto simp: q simp del: fun_upd_apply)
  show ?thesis unfolding s(2) p(1)[symmetric] using assms(3,4,5) p(2) fd m unfolding q
    by (auto simp: unique_fds_split simp del: fun_upd_apply)
qed

lemma drop_fd_seen:
  assumes "i < length ps" "is_fd (pfd (ps ! i))" "unique_fds ps"
  shows "unique_fds (ps[i := (ps ! i)\<lparr>pfd := -1\<rparr>]) \<and>
    pfds_map (ps[i := (ps ! i)\<lparr>pfd := -1\<rparr>]) = (pfds_map ps)(pfd (ps ! i) := None) \<and>
    Suc (length (filter (\<lambda>p. pfd p \<noteq> -1) (ps[i := (ps ! i)\<lparr>pfd := -1\<rparr>]))) = length (filter (\<lambda>p. pfd p \<noteq> -1) ps)"
proof -
  obtain a b where s: "ps = a @ ps ! i # b" "\<And>y. ps[i := y] = a @ y # b" using split_at[OF assms(1)] by blast
  obtain p where p: "p = ps ! i" by simp
  have q: "ps = a @ p # b" using s(1) p(1) by simp
  have fd: "pfd p \<noteq> -1" "is_fd (pfd p)" using assms(2) p by (simp_all add: is_fd_def)
  have u: "unique_fds (a @ b)" "pfd p \<notin> pfd ` set (a @ b)" using assms(3) fd unfolding q by (auto simp: unique_fds_split)
  show ?thesis unfolding s(2) p(1)[symmetric] using u fd pfds_map_drop[of p a b] pfds_map_split[of "p\<lparr>pfd := -1\<rparr>" a b]
    unfolding q by (auto simp: unique_fds_split simp del: fun_upd_apply)
qed


text \<open>Where a new descriptor goes.\<close>

lemma free_slot_exists:
  "length (filter (\<lambda>p. pfd p \<noteq> -1) ps) < length ps \<Longrightarrow>
     \<exists>i < length ps. loop_find (\<lambda>p. pfd p = -1) (length ps) ps = Some i \<and> pfd (ps ! i) = -1"
proof -
  assume a: "length (filter (\<lambda>p. pfd p \<noteq> -1) ps) < length ps"
  obtain i where i: "loop_find (\<lambda>p. pfd p = -1) (length ps) ps = Some i" using loop_find_total by blast
  have "i \<noteq> length ps"
  proof
    assume "i = length ps"
    then have "\<forall>j < length ps. pfd (ps ! j) \<noteq> -1" using i loop_find_none[of "length ps" ps] by simp
    then have "filter (\<lambda>p. pfd p \<noteq> -1) ps = ps" by (simp add: filter_id_conv all_set_conv_all_nth)
    then show False using a by simp
  qed
  then have "i < length ps" using loop_find_le[OF i] by simp
  then show ?thesis using i loop_find_hit[OF i] by blast
qed

lemma add_fd_slot:
  assumes "pfds_ok t"
  shows "\<exists>i ps. add_fd_to_poll junk fd ev t = Some (int i, t\<lparr>pmembers := ps[i := (ps ! i)\<lparr>pfd := fd, events := ev\<rparr>], pnumber := pnumber t + 1\<rparr>) \<and>
    i < length ps \<and> pfd (ps ! i) = -1 \<and> (\<exists>k. map pfd ps = map pfd (pmembers t) @ replicate k (-1)) \<and>
    unique_fds ps \<and> pfds_map ps = seen t \<and> filter (\<lambda>p. pfd p \<noteq> -1) ps = filter (\<lambda>p. pfd p \<noteq> -1) (pmembers t)"
proof -
  let ?n = "length (pmembers t)"
  let ?new = "init_poll_fds_members (map junk [0..<?n])"
  define ps where "ps = (if pnumber t = ?n then pmembers t @ ?new else pmembers t)"
  have new: "\<forall>p \<in> set ?new. pfd p = -1" "map pfd ?new = replicate ?n (-1)"
    by (auto simp: init_poll_fds_members_def map_replicate_const comp_def)
  have t: "(if pnumber t = ?n then t\<lparr>pmembers := pmembers t @ ?new\<rparr> else t) = t\<lparr>pmembers := ps\<rparr>"
    by (simp add: ps_def)
  have f: "filter (\<lambda>p. pfd p \<noteq> -1) ps = filter (\<lambda>p. pfd p \<noteq> -1) (pmembers t)" using new by (auto simp: ps_def filter_empty_conv)
  have ok: "?n \<noteq> 0" "length (filter (\<lambda>p. pfd p \<noteq> -1) (pmembers t)) = pnumber t" "unique_fds (pmembers t)"
    using assms by (auto simp: pfds_ok_def)
  have "pnumber t \<le> ?n" using ok(2) length_filter_le by metis
  then have "length (filter (\<lambda>p. pfd p \<noteq> -1) ps) < length ps" using f ok(1,2) by (auto simp: ps_def init_poll_fds_members_def)
  then obtain i where i: "i < length ps" "loop_find (\<lambda>p. pfd p = -1) (length ps) ps = Some i" "pfd (ps ! i) = -1"
    using free_slot_exists by blast
  have "unique_fds ps" using ok(3) unique_fds_append_free[OF new(1)] by (auto simp: ps_def)
  moreover have "pfds_map ps = seen t" using pfds_map_all_free[OF new(1)] by (simp add: ps_def seen_def pfds_map_append)
  moreover have "\<exists>k. map pfd ps = map pfd (pmembers t) @ replicate k (-1)" using new(2) by (auto simp: ps_def)
  ultimately show ?thesis using i f unfolding add_fd_to_poll_def t by (intro exI[of _ i] exI[of _ ps]) simp
qed

lemma slot_taken_grown:
  "gs = fds @ replicate k (-1) \<Longrightarrow> i < length gs \<Longrightarrow> gs ! i = -1 \<Longrightarrow> slot_taken fd i fds (gs[i := fd])"
  by (auto simp: slot_taken_def nth_append nth_list_update)

interpretation sa: fd_alloc "\<lambda>t. map pfd (pmembers t)" pfds_ok "\<lambda>fd. add_fd_to_poll junk fd ev" for junk ev
proof unfold_locales
  fix fd :: int and t
  assume "pfds_ok t"
  then obtain i ps where a: "add_fd_to_poll junk fd ev t = Some (int i, t\<lparr>pmembers := ps[i := (ps ! i)\<lparr>pfd := fd, events := ev\<rparr>], pnumber := pnumber t + 1\<rparr>)"
      "i < length ps" "pfd (ps ! i) = -1" "\<exists>k. map pfd ps = map pfd (pmembers t) @ replicate k (-1)"
    using add_fd_slot by metis
  obtain k where k: "map pfd ps = map pfd (pmembers t) @ replicate k (-1)" using a(4) by blast
  have "slot_taken fd i (map pfd (pmembers t)) ((map pfd ps)[i := fd])" by (rule slot_taken_grown[OF k]) (use a(2,3) in simp_all)
  then show "\<exists>i t'. add_fd_to_poll junk fd ev t = Some (int i, t') \<and> slot_taken fd i (map pfd (pmembers t)) (map pfd (pmembers t'))"
    using a(1) by (auto simp: map_update)
qed

lemma add_fd_seen:
  assumes ok: "pfds_ok t" and fd: "is_fd fd" "seen t fd = None"
  shows "\<exists>i t'. add_fd_to_poll junk fd ev t = Some (int i, t') \<and> pfds_ok t' \<and> seen t' = (seen t)(fd \<mapsto> ev) \<and> pclosed t' = pclosed t"
proof -
  obtain i ps where a: "add_fd_to_poll junk fd ev t = Some (int i, t\<lparr>pmembers := ps[i := (ps ! i)\<lparr>pfd := fd, events := ev\<rparr>], pnumber := pnumber t + 1\<rparr>)"
      "i < length ps" "pfd (ps ! i) = -1" "unique_fds ps" "pfds_map ps = seen t"
      "filter (\<lambda>p. pfd p \<noteq> -1) ps = filter (\<lambda>p. pfd p \<noteq> -1) (pmembers t)"
    using add_fd_slot[OF ok] by metis
  have "fd \<notin> pfd ` set ps" using fd a(5) pfds_map_None[of ps fd] by (auto simp: is_fd_def)
  note p = put_fd_seen[OF a(2,3,4) fd(1) this, of ev]
  let ?t = "t\<lparr>pmembers := ps[i := (ps ! i)\<lparr>pfd := fd, events := ev\<rparr>], pnumber := pnumber t + 1\<rparr>"
  have "pmembers ?t \<noteq> []" using a(2) by auto
  then have "pfds_ok ?t" "seen ?t = (seen t)(fd \<mapsto> ev)" using p a(5,6) ok by (simp_all add: pfds_ok_def seen_def)
  then show ?thesis using a(1) by (intro exI[of _ i] exI[of _ ?t]) simp
qed

lemma close_fd_seen:
  assumes ok: "pfds_ok t" and fd: "is_fd fd"
  shows "\<exists>t'. close_fd fd t = Some t' \<and> pfds_ok t' \<and> seen t' = (seen t)(fd := None) \<and> pclosed t' = fd # pclosed t \<and>
    (\<forall>j < length (pmembers t). pfd (pmembers t ! j) \<noteq> fd \<longrightarrow> pmembers t' ! j = pmembers t ! j) \<and>
    length (pmembers t') = length (pmembers t)"
proof -
  let ?ps = "pmembers t"
  have n: "fd \<noteq> -1" using fd by (simp add: is_fd_def)
  obtain i where i: "loop_find (\<lambda>p. pfd p = fd) (length ?ps) ?ps = Some i" using loop_find_total by blast
  show ?thesis
  proof (cases "i < length ?ps")
    case True
    then have e: "pfd (?ps ! i) = fd" using loop_find_hit[OF i] by simp
    let ?t = "t\<lparr>pclosed := fd # pclosed t, pmembers := ?ps[i := (?ps ! i)\<lparr>pfd := -1\<rparr>], pnumber := pnumber t - 1\<rparr>"
    have d: "unique_fds (?ps[i := (?ps ! i)\<lparr>pfd := -1\<rparr>])" "pfds_map (?ps[i := (?ps ! i)\<lparr>pfd := -1\<rparr>]) = (pfds_map ?ps)(fd := None)"
        "Suc (length (filter (\<lambda>p. pfd p \<noteq> -1) (?ps[i := (?ps ! i)\<lparr>pfd := -1\<rparr>]))) = pnumber t"
      using drop_fd_seen[OF True] e fd ok by (auto simp: pfds_ok_def)
    have "close_fd fd t = Some ?t" using i True d(3) by (auto simp: close_fd_def remove_from_poll_def size_dec_def)
    moreover have "pfds_ok ?t" "seen ?t = (seen t)(fd := None)" using d ok by (auto simp: pfds_ok_def seen_def)
    ultimately show ?thesis using e True by (intro exI[of _ ?t]) (auto simp: nth_list_update)
  next
    case False
    then have m: "i = length ?ps" using loop_find_le[OF i] by simp
    then have "\<forall>j < length ?ps. pfd (?ps ! j) \<noteq> fd" using i loop_find_none[of "length ?ps" ?ps] by simp
    then have "seen t fd = None" by (auto simp: seen_None in_set_conv_nth)
    then have "(seen t)(fd := None) = seen t" by (rule fun_upd_idem)
    then show ?thesis using i m ok by (auto simp: close_fd_def remove_from_poll_def pfds_ok_def seen_def)
  qed
qed

interpretation so: fd_owner pfds_ok seen "\<lambda>fd e t. map_option snd (add_fd_to_poll junk fd e t)" close_fd pclosed for junk
proof unfold_locales
  fix t t' :: poll_fds and fd e
  show "pfds_ok t \<Longrightarrow> is_fd fd \<Longrightarrow> seen t fd = None \<Longrightarrow>
      \<exists>t'. map_option snd (add_fd_to_poll junk fd e t) = Some t' \<and> pfds_ok t' \<and> seen t' = (seen t)(fd \<mapsto> e)"
    using add_fd_seen[of t fd junk e] by fastforce
  show "pfds_ok t \<Longrightarrow> is_fd fd \<Longrightarrow> \<exists>t'. close_fd fd t = Some t' \<and> pfds_ok t' \<and> seen t' = (seen t)(fd := None)"
    using close_fd_seen[of t fd] by blast
  show "pfds_ok t \<Longrightarrow> is_fd fd \<Longrightarrow> close_fd fd t = Some t' \<Longrightarrow> seen t fd \<noteq> None \<Longrightarrow> pclosed t' = fd # pclosed t"
    using close_fd_seen[of t fd] by auto
  show "map_option snd (add_fd_to_poll junk fd e t) = Some t' \<Longrightarrow> pclosed t' = pclosed t"
    by (auto simp: add_fd_to_poll_def fault_simps Let_def split: if_splits)
qed


subsection \<open>Clients\<close>

text \<open>
  A request is a block of \<open>BUF_SIZE\<close> bytes, filled up to \<open>buf_len\<close>; what the parser stores in it is used within
  one handler only. \<open>sc_response\<close> is the index of the cache node that owns the response. What \<open>malloc\<close>
  leaves in a new client is the argument \<open>cells\<close> for the block and \<open>garbage\<close> for the fields that are not assigned.
\<close>

abbreviation BUF_SIZE :: nat where "BUF_SIZE \<equiv> 4096"

type_synonym client_ptr = "nat \<times> nat"

record sclient =
  sc_response :: "nat option"
  sc_buf :: string
  sc_len :: nat
  sc_prev :: nat
  sc_poll :: nat
  sc_written :: int
  sc_fd :: int
  sc_processed :: bool
  sc_node :: int

record sclients =
  smembers :: "sclient list"
  snumber :: nat
  moves :: nat

definition setup_client :: "sclient \<Rightarrow> sclient" where
  "setup_client c = c\<lparr>sc_fd := -1, sc_node := -1, sc_processed := False, sc_len := 0, sc_prev := 0,
     sc_written := 0, sc_response := None\<rparr>"

definition init_client :: "string \<Rightarrow> nat \<Rightarrow> sclient" where
  "init_client cells garbage = setup_client \<lparr>sc_response = None, sc_buf = cells, sc_len = 0, sc_prev = 0, sc_poll = garbage, sc_written = 0,
     sc_fd = 0, sc_processed = False, sc_node = 0\<rparr>"

definition init_clients_members :: "string \<Rightarrow> nat \<Rightarrow> nat \<Rightarrow> sclient list" where
  "init_clients_members cells garbage n = replicate n (init_client cells garbage)"

definition init_clients :: "bool \<Rightarrow> nat \<Rightarrow> string \<Rightarrow> nat \<Rightarrow> sclients option" where
  "init_clients oom n cells garbage =
     (if oom then None else Some \<lparr>smembers = init_clients_members cells garbage n, snumber = 0, moves = 0\<rparr>)"

definition add_fd_to_clients :: "string \<Rightarrow> nat \<Rightarrow> nat \<Rightarrow> int \<Rightarrow> sclients \<Rightarrow> (int \<times> sclients) option" where
  "add_fd_to_clients cells garbage poll_index fd t = do {
     let t = (if snumber t = length (smembers t)
              then t\<lparr>smembers := smembers t @ init_clients_members cells garbage (length (smembers t)), moves := moves t + 1\<rparr> else t);
     i \<leftarrow> loop_find (\<lambda>c. sc_fd c = -1) (length (smembers t)) (smembers t);
     if i < length (smembers t)
     then Some (int i, t\<lparr>smembers := (smembers t)[i := (smembers t ! i)\<lparr>sc_fd := fd, sc_processed := True, sc_poll := poll_index\<rparr>],
       snumber := snumber t + 1\<rparr>)
     else Some (-1, t) }"

text \<open>\<open>snumber\<close> may be larger than the number of clients, as one of the handlers does not lower it.\<close>

definition clients_ok :: "sclients \<Rightarrow> bool" where
  "clients_ok t \<longleftrightarrow> smembers t \<noteq> [] \<and> length (live (map sc_fd (smembers t))) \<le> snumber t \<and> snumber t \<le> length (smembers t)"

lemma free_index:
  assumes "length (live (map g xs)) < length xs"
  shows "\<exists>i < length xs. loop_find (\<lambda>x. g x = -1) (length xs) xs = Some i \<and> g (xs ! i) = -1"
proof -
  obtain i where i: "loop_find (\<lambda>x. g x = -1) (length xs) xs = Some i" using loop_find_total by blast
  have "i \<noteq> length xs"
  proof
    assume "i = length xs"
    then have "\<forall>j < length xs. g (xs ! j) \<noteq> -1" using i loop_find_none[of "length xs" xs] by simp
    then have "live (map g xs) = map g xs" by (simp add: live_def filter_id_conv all_set_conv_all_nth)
    then show False using assms by simp
  qed
  then have "i < length xs" using loop_find_le[OF i] by simp
  then show ?thesis using i loop_find_hit[OF i] by blast
qed

lemma live_put:
  "i < length xs \<Longrightarrow> xs ! i = -1 \<Longrightarrow> fd \<noteq> -1 \<Longrightarrow> length (live (xs[i := fd])) = Suc (length (live xs))"
  using split_at[of i xs] by (force simp: live_def)

lemma live_drop:
  "i < length xs \<Longrightarrow> xs ! i \<noteq> -1 \<Longrightarrow> Suc (length (live (xs[i := -1]))) = length (live xs)"
proof -
  assume a: "i < length xs" "xs ! i \<noteq> -1"
  obtain us vs where x: "xs = us @ xs ! i # vs" "xs[i := -1] = us @ (-1) # vs" using split_at[OF a(1)] by blast
  define f where f: "f = xs ! i"
  have e: "xs = us @ f # vs" using x(1) unfolding f .
  show ?thesis unfolding x(2) using a(2) unfolding f[symmetric] unfolding e by (simp add: live_def)
qed

lemma live_grown: "live (fds @ replicate k (-1)) = live fds"
  by (simp add: live_def)

lemma add_client_slot:
  assumes "clients_ok t" "fd \<noteq> -1"
  shows "\<exists>i cs t'. add_fd_to_clients b g p fd t = Some (int i, t') \<and> i < length cs \<and> sc_fd (cs ! i) = -1 \<and>
    smembers t' = cs[i := (cs ! i)\<lparr>sc_fd := fd, sc_processed := True, sc_poll := p\<rparr>] \<and>
    (\<exists>k. cs = smembers t @ init_clients_members b g k) \<and> clients_ok t'"
proof -
  let ?n = "length (smembers t)"
  define cs where "cs = (if snumber t = ?n then smembers t @ init_clients_members b g ?n else smembers t)"
  define m where "m = (if snumber t = ?n then moves t + 1 else moves t)"
  have t: "(if snumber t = ?n then t\<lparr>smembers := smembers t @ init_clients_members b g ?n, moves := moves t + 1\<rparr> else t) = t\<lparr>smembers := cs, moves := m\<rparr>"
    by (simp add: cs_def m_def)
  have k: "\<exists>k. cs = smembers t @ init_clients_members b g k" unfolding cs_def init_clients_members_def by (metis append_Nil2 replicate_0)
  then obtain k where k': "cs = smembers t @ init_clients_members b g k" by blast
  have l: "live (map sc_fd cs) = live (map sc_fd (smembers t))"
    using live_grown[of "map sc_fd (smembers t)" k] by (simp add: k' init_clients_members_def init_client_def setup_client_def)
  have ok: "?n \<noteq> 0" "length (live (map sc_fd cs)) \<le> snumber t" "snumber t < length cs" "snumber t \<le> ?n"
    using assms(1) l by (auto simp: clients_ok_def cs_def init_clients_members_def)
  then obtain i where i: "i < length cs" "loop_find (\<lambda>c. sc_fd c = -1) (length cs) cs = Some i" "sc_fd (cs ! i) = -1"
    using free_index[of sc_fd cs] by auto
  let ?c' = "(cs ! i)\<lparr>sc_fd := fd, sc_processed := True, sc_poll := p\<rparr>"
  let ?t = "t\<lparr>smembers := cs[i := ?c'], moves := m, snumber := snumber t + 1\<rparr>"
  have "add_fd_to_clients b g p fd t = Some (int i, ?t)" unfolding add_fd_to_clients_def t using i by simp
  moreover have "length (live (map sc_fd (cs[i := ?c']))) = Suc (length (live (map sc_fd cs)))"
    using live_put[of i "map sc_fd cs" fd] i assms(2) by (simp add: map_update)
  then have "clients_ok ?t" using ok i(1) by (auto simp: clients_ok_def)
  ultimately show ?thesis using i k by (intro exI[of _ i] exI[of _ cs] exI[of _ ?t]) simp
qed

interpretation sl: fd_alloc "\<lambda>t. map sc_fd (smembers t)" clients_ok "add_fd_to_clients b g p" for b g p
proof unfold_locales
  fix fd :: int and t
  assume "0 \<le> fd" "clients_ok t"
  then obtain i cs t' where a: "add_fd_to_clients b g p fd t = Some (int i, t')" "i < length cs" "sc_fd (cs ! i) = -1"
      "smembers t' = cs[i := (cs ! i)\<lparr>sc_fd := fd, sc_processed := True, sc_poll := p\<rparr>]"
      "\<exists>k. cs = smembers t @ init_clients_members b g k"
    using add_client_slot[of t fd b g p] by auto
  obtain k where k: "cs = smembers t @ init_clients_members b g k" using a(5) by blast
  have "map sc_fd cs = map sc_fd (smembers t) @ replicate k (-1)" by (simp add: k init_clients_members_def init_client_def setup_client_def)
  then have "slot_taken fd i (map sc_fd (smembers t)) ((map sc_fd cs)[i := fd])"
    by (rule slot_taken_grown) (use a(2,3) in simp_all)
  then show "\<exists>i t'. add_fd_to_clients b g p fd t = Some (int i, t') \<and> slot_taken fd i (map sc_fd (smembers t)) (map sc_fd (smembers t'))"
    using a(1,4) by (auto simp: map_update)
qed

subsection \<open>Servers\<close>

text \<open>The address is left out: what \<open>connect\<close> does with it is an argument. \<open>ss_request\<close> points to the client.\<close>

record sserver =
  ss_request :: "client_ptr option"
  ss_response :: "nat option"
  ss_poll :: nat
  ss_written :: int
  ss_fd :: int
  ss_processed :: bool

record sservers =
  vmembers :: "sserver list"
  vnumber :: nat

definition setup_server :: "sserver \<Rightarrow> sserver" where
  "setup_server v = v\<lparr>ss_fd := -1, ss_processed := False, ss_written := 0, ss_request := None, ss_response := None\<rparr>"

definition init_servers_members :: "nat \<Rightarrow> nat \<Rightarrow> sserver list" where
  "init_servers_members n garbage = replicate n (setup_server \<lparr>ss_request = None, ss_response = None, ss_poll = garbage,
     ss_written = 0, ss_fd = 0, ss_processed = False\<rparr>)"

definition init_servers :: "bool \<Rightarrow> nat \<Rightarrow> nat \<Rightarrow> sservers option" where
  "init_servers oom n garbage =
     (if oom then None else Some \<lparr>vmembers = init_servers_members n garbage, vnumber = 0\<rparr>)"

definition add_fd_to_servers :: "nat \<Rightarrow> nat \<Rightarrow> client_ptr \<Rightarrow> int \<Rightarrow> sservers \<Rightarrow> (int \<times> sservers) option" where
  "add_fd_to_servers garbage poll_index req fd t = do {
     let t = (if vnumber t = length (vmembers t)
              then t\<lparr>vmembers := vmembers t @ init_servers_members (length (vmembers t)) garbage\<rparr> else t);
     i \<leftarrow> loop_find (\<lambda>v. ss_fd v = -1) (length (vmembers t)) (vmembers t);
     if i < length (vmembers t)
     then Some (int i, t\<lparr>vmembers := (vmembers t)[i := (vmembers t ! i)\<lparr>ss_fd := fd, ss_processed := True, ss_poll := poll_index,
         ss_request := Some req\<rparr>], vnumber := vnumber t + 1\<rparr>)
     else Some (-1, t) }"

definition servers_ok :: "sservers \<Rightarrow> bool" where
  "servers_ok t \<longleftrightarrow> vmembers t \<noteq> [] \<and> length (live (map ss_fd (vmembers t))) \<le> vnumber t \<and> vnumber t \<le> length (vmembers t)"

lemma add_server_slot:
  assumes "servers_ok t" "fd \<noteq> -1"
  shows "\<exists>i vs t'. add_fd_to_servers g p q fd t = Some (int i, t') \<and> i < length vs \<and> ss_fd (vs ! i) = -1 \<and>
    vmembers t' = vs[i := (vs ! i)\<lparr>ss_fd := fd, ss_processed := True, ss_poll := p, ss_request := Some q\<rparr>] \<and>
    (\<exists>k. vs = vmembers t @ init_servers_members k g) \<and> servers_ok t'"
proof -
  let ?n = "length (vmembers t)"
  define vs where "vs = (if vnumber t = ?n then vmembers t @ init_servers_members ?n g else vmembers t)"
  have t: "(if vnumber t = ?n then t\<lparr>vmembers := vmembers t @ init_servers_members ?n g\<rparr> else t) = t\<lparr>vmembers := vs\<rparr>"
    by (simp add: vs_def)
  have k: "\<exists>k. vs = vmembers t @ init_servers_members k g" unfolding vs_def init_servers_members_def by (metis append_Nil2 replicate_0)
  then obtain k where k': "vs = vmembers t @ init_servers_members k g" by blast
  have l: "live (map ss_fd vs) = live (map ss_fd (vmembers t))"
    using live_grown[of "map ss_fd (vmembers t)" k] by (simp add: k' init_servers_members_def setup_server_def)
  have ok: "?n \<noteq> 0" "length (live (map ss_fd vs)) \<le> vnumber t" "vnumber t < length vs" "vnumber t \<le> ?n"
    using assms(1) l by (auto simp: servers_ok_def vs_def init_servers_members_def)
  then obtain i where i: "i < length vs" "loop_find (\<lambda>v. ss_fd v = -1) (length vs) vs = Some i" "ss_fd (vs ! i) = -1"
    using free_index[of ss_fd vs] by auto
  let ?v = "(vs ! i)\<lparr>ss_fd := fd, ss_processed := True, ss_poll := p, ss_request := Some q\<rparr>"
  let ?t = "t\<lparr>vmembers := vs[i := ?v], vnumber := vnumber t + 1\<rparr>"
  have "add_fd_to_servers g p q fd t = Some (int i, ?t)" unfolding add_fd_to_servers_def t using i by simp
  moreover have "length (live (map ss_fd (vs[i := ?v]))) = Suc (length (live (map ss_fd vs)))"
    using live_put[of i "map ss_fd vs" fd] i assms(2) by (simp add: map_update)
  then have "servers_ok ?t" using ok i(1) by (auto simp: servers_ok_def)
  ultimately show ?thesis using i k by (intro exI[of _ i] exI[of _ vs] exI[of _ ?t]) simp
qed

interpretation sv2: fd_alloc "\<lambda>t. map ss_fd (vmembers t)" servers_ok "add_fd_to_servers g p q" for g p q
proof unfold_locales
  fix fd :: int and t
  assume "0 \<le> fd" "servers_ok t"
  then obtain i vs t' where a: "add_fd_to_servers g p q fd t = Some (int i, t')" "i < length vs" "ss_fd (vs ! i) = -1"
      "vmembers t' = vs[i := (vs ! i)\<lparr>ss_fd := fd, ss_processed := True, ss_poll := p, ss_request := Some q\<rparr>]"
      "\<exists>k. vs = vmembers t @ init_servers_members k g"
    using add_server_slot[of t fd g p q] by auto
  obtain k where k: "vs = vmembers t @ init_servers_members k g" using a(5) by blast
  have "map ss_fd vs = map ss_fd (vmembers t) @ replicate k (-1)" by (simp add: k init_servers_members_def setup_server_def)
  then have "slot_taken fd i (map ss_fd (vmembers t)) ((map ss_fd vs)[i := fd])"
    by (rule slot_taken_grown) (use a(2,3) in simp_all)
  then show "\<exists>i t'. add_fd_to_servers g p q fd t = Some (int i, t') \<and> slot_taken fd i (map ss_fd (vmembers t)) (map ss_fd (vmembers t'))"
    using a(1,4) by (auto simp: map_update)
qed

end
