(* ===== verification/ShuCache.thy ===== *)
theory ShuCache
  imports ShuTables
begin

text \<open>
  The cache of \<open>shuvalov/31\<close> (\<open>http_socket/cache.c\<close>): ten nodes, each with a response that lives as long as the
  program and is used again for the next URL. A response has room for 100 pointers to the clients that
  wait for it. \<open>shuvalov\<close> is the state of the program; \<open>ssent\<close> records what \<open>write\<close> took. \<open>None\<close> is undefined behaviour
  or a failing \<open>assert\<close>. The headers of a response are used within one handler only, \<open>prev_buf_len\<close> is assigned
  right before its only use, and the sizes that are always 100 are constants here. The freeing functions
  change nothing that the model shows.
\<close>

subsection \<open>State\<close>

record sresponse =
  rs_subs :: "client_ptr option list"
  rs_buf :: string
  rs_size :: nat
  rs_len :: nat
  rs_count :: int
  rs_content :: int
  rs_head :: int
  rs_status :: int

record snode =
  sn_response :: sresponse
  sn_url :: "string option"
  sn_empty :: bool

record scache =
  snodes :: "snode list"
  last_node_set :: int

record shuvalov =
  spolls :: poll_fds
  sclis :: sclients
  ssrvs :: sservers
  scach :: scache
  ssent :: "(int \<times> string) list"

text \<open>\<open>*p\<close> for a pointer to a client: it dangles once the array of clients has moved.\<close>

definition deref :: "client_ptr \<Rightarrow> sclients \<Rightarrow> nat option" where
  "deref p t = (if fst p = moves t \<and> snd p < length (smembers t) then Some (snd p) else None)"

definition on_cli :: "nat \<Rightarrow> (sclient \<Rightarrow> sclient) \<Rightarrow> shuvalov \<Rightarrow> shuvalov option" where
  "on_cli i f s = do {
     c \<leftarrow> get_at (smembers (sclis s)) i;
     Some (s\<lparr>sclis := (sclis s)\<lparr>smembers := (smembers (sclis s))[i := f c]\<rparr>\<rparr>) }"

definition on_srv :: "nat \<Rightarrow> (sserver \<Rightarrow> sserver) \<Rightarrow> shuvalov \<Rightarrow> shuvalov option" where
  "on_srv j f s = do {
     v \<leftarrow> get_at (vmembers (ssrvs s)) j;
     Some (s\<lparr>ssrvs := (ssrvs s)\<lparr>vmembers := (vmembers (ssrvs s))[j := f v]\<rparr>\<rparr>) }"

definition on_node :: "nat \<Rightarrow> (snode \<Rightarrow> snode) \<Rightarrow> shuvalov \<Rightarrow> shuvalov option" where
  "on_node k f s = do {
     n \<leftarrow> get_at (snodes (scach s)) k;
     Some (s\<lparr>scach := (scach s)\<lparr>snodes := (snodes (scach s))[k := f n]\<rparr>\<rparr>) }"

definition on_resp :: "nat \<Rightarrow> (sresponse \<Rightarrow> sresponse) \<Rightarrow> shuvalov \<Rightarrow> shuvalov option" where
  "on_resp k f = on_node k (\<lambda>n. n\<lparr>sn_response := f (sn_response n)\<rparr>)"

definition on_polls :: "(poll_fds \<Rightarrow> poll_fds option) \<Rightarrow> shuvalov \<Rightarrow> shuvalov option" where
  "on_polls f s = do { t \<leftarrow> f (spolls s); Some (s\<lparr>spolls := t\<rparr>) }"

definition resp :: "nat \<Rightarrow> shuvalov \<Rightarrow> sresponse option" where
  "resp k s = do { n \<leftarrow> get_at (snodes (scach s)) k; Some (sn_response n) }"

subsection \<open>Nodes\<close>

definition init_cache_node :: "string \<Rightarrow> snode" where
  "init_cache_node cells = \<lparr>sn_response = \<lparr>rs_subs = replicate 100 None, rs_buf = cells, rs_size = BUF_SIZE, rs_len = 0,
     rs_count = 0, rs_content = -1, rs_head = -1, rs_status = -1\<rparr>, sn_url = None, sn_empty = True\<rparr>"

definition init_cache :: "bool \<Rightarrow> nat \<Rightarrow> string \<Rightarrow> scache option" where
  "init_cache oom n cells =
     (if oom then None else Some \<lparr>snodes = replicate n (init_cache_node cells), last_node_set = -1\<rparr>)"

text \<open>The bytes of the block and the subscribers stay.\<close>

definition clear_cache_node :: "snode \<Rightarrow> snode" where
  "clear_cache_node n = n\<lparr>sn_empty := True, sn_url := None,
     sn_response := (sn_response n)\<lparr>rs_count := 0, rs_size := BUF_SIZE, rs_len := 0, rs_content := -1, rs_head := -1, rs_status := -1\<rparr>\<rparr>"

definition set_cache_node :: "string \<Rightarrow> snode \<Rightarrow> snode" where
  "set_cache_node url n = (clear_cache_node n)\<lparr>sn_url := Some url, sn_empty := False\<rparr>"

text \<open>\<open>get\<close>: \<open>Some None\<close> is NULL.\<close>

fun get_loop :: "string \<Rightarrow> nat \<Rightarrow> snode list \<Rightarrow> nat option option" where
  "get_loop url i [] = Some None"
| "get_loop url i (n # ns) =
     (if sn_empty n then get_loop url (Suc i) ns
      else do { u \<leftarrow> sn_url n; if u = url then Some (Some i) else get_loop url (Suc i) ns })"

definition cache_get :: "scache \<Rightarrow> string \<Rightarrow> nat option option" where
  "cache_get c url = get_loop url 0 (snodes c)"

definition cache_set :: "string \<Rightarrow> scache \<Rightarrow> (nat \<times> scache) option" where
  "cache_set url c = do {
     i \<leftarrow> loop_find sn_empty (length (snodes c)) (snodes c);
     if i < length (snodes c) then Some (i, c\<lparr>snodes := (snodes c)[i := set_cache_node url (snodes c ! i)]\<rparr>)
     else do {
       l \<leftarrow> int_add (last_node_set c) 1;
       assertm (snodes c \<noteq> []);
       let k = int_to_size l mod length (snodes c);
       Some (k, c\<lparr>last_node_set := l, snodes := (snodes c)[k := set_cache_node url (snodes c ! k)]\<rparr>) } }"

subsection \<open>Subscribers\<close>

text \<open>The loop has no \<open>break\<close>: all free slots take the client.\<close>

definition subscribe :: "nat \<Rightarrow> nat \<Rightarrow> shuvalov \<Rightarrow> shuvalov option" where
  "subscribe i k s = do {
     r \<leftarrow> resp k s;
     let p = (moves (sclis s), i);
     n \<leftarrow> int_add (rs_count r) 1;
     s \<leftarrow> on_resp k (\<lambda>r. r\<lparr>rs_subs := map (\<lambda>x. if x = None then Some p else x) (rs_subs r), rs_count := n\<rparr>) s;
     on_cli i (\<lambda>c. c\<lparr>sc_node := int k, sc_response := Some k\<rparr>) s }"

fun drop_subs :: "sclients \<Rightarrow> int \<Rightarrow> client_ptr option list \<Rightarrow> client_ptr option list option" where
  "drop_subs t fd [] = Some []"
| "drop_subs t fd (None # xs) = map_option ((#) None) (drop_subs t fd xs)"
| "drop_subs t fd (Some p # xs) = do {
     i \<leftarrow> deref p t;
     ys \<leftarrow> drop_subs t fd xs;
     Some ((if sc_fd (smembers t ! i) = fd then None else Some p) # ys) }"

definition unsubscribe :: "nat \<Rightarrow> shuvalov \<Rightarrow> shuvalov option" where
  "unsubscribe i s = do {
     c \<leftarrow> get_at (smembers (sclis s)) i;
     case sc_response c of
       None \<Rightarrow> Some s
     | Some k \<Rightarrow> do {
         r \<leftarrow> resp k s;
         xs \<leftarrow> drop_subs (sclis s) (sc_fd c) (rs_subs r);
         n \<leftarrow> int_add (rs_count r) (-1);
         on_resp k (\<lambda>r. r\<lparr>rs_subs := xs, rs_count := n\<rparr>) s } }"

definition make_publisher :: "nat \<Rightarrow> nat \<Rightarrow> shuvalov \<Rightarrow> shuvalov option" where
  "make_publisher j k = on_srv j (\<lambda>v. v\<lparr>ss_response := Some k\<rparr>)"

subsection \<open>Laws of the cache\<close>

text \<open>A node that is in use has a URL; \<open>cache_get\<close> finds the first node with the URL.\<close>

definition node_has :: "string \<Rightarrow> snode \<Rightarrow> bool" where
  "node_has url n \<longleftrightarrow> \<not> sn_empty n \<and> sn_url n = Some url"

definition cache_ok :: "scache \<Rightarrow> bool" where
  "cache_ok c \<longleftrightarrow> snodes c \<noteq> [] \<and> (\<forall>n \<in> set (snodes c). sn_empty n \<or> sn_url n \<noteq> None) \<and> -1 \<le> last_node_set c"

lemma get_loop_first:
  "\<forall>n \<in> set ns. sn_empty n \<or> sn_url n \<noteq> None \<Longrightarrow>
   (\<exists>j < length ns. get_loop url i ns = Some (Some (i + j)) \<and> node_has url (ns ! j) \<and> (\<forall>m < j. \<not> node_has url (ns ! m))) \<or>
   get_loop url i ns = Some None \<and> (\<forall>n \<in> set ns. \<not> node_has url n)"
proof (induction ns arbitrary: i)
  case (Cons n ns)
  show ?case
  proof (cases "node_has url n")
    case True
    then show ?thesis by (intro disjI1 exI[of _ 0]) (simp add: node_has_def)
  next
    case False
    then have e: "get_loop url i (n # ns) = get_loop url (Suc i) ns" using Cons.prems by (auto simp: node_has_def)
    have "\<forall>n \<in> set ns. sn_empty n \<or> sn_url n \<noteq> None" using Cons.prems by simp
    from Cons.IH[OF this, of "Suc i"] show ?thesis
    proof (elim disjE)
      assume "\<exists>j < length ns. get_loop url (Suc i) ns = Some (Some (Suc i + j)) \<and> node_has url (ns ! j) \<and> (\<forall>m < j. \<not> node_has url (ns ! m))"
      then obtain j where "j < length ns" "get_loop url (Suc i) ns = Some (Some (Suc i + j))" "node_has url (ns ! j)" "\<forall>m < j. \<not> node_has url (ns ! m)" by blast
      then show ?thesis using False e by (intro disjI1 exI[of _ "Suc j"]) (auto simp: nth_Cons split: nat.split)
    qed (use e False in auto)
  qed
qed simp

lemma cache_get_first:
  assumes "cache_ok c"
  shows "(\<exists>j < length (snodes c). cache_get c url = Some (Some j) \<and> node_has url (snodes c ! j) \<and> (\<forall>m < j. \<not> node_has url (snodes c ! m))) \<or>
    cache_get c url = Some None \<and> (\<forall>j < length (snodes c). \<not> node_has url (snodes c ! j))"
  using get_loop_first[of "snodes c" url 0] assms by (fastforce simp: cache_ok_def cache_get_def)

lemma cache_get_eqI:
  assumes "cache_ok c" "j < length (snodes c)" "node_has url (snodes c ! j)" "\<And>m. m < j \<Longrightarrow> \<not> node_has url (snodes c ! m)"
  shows "cache_get c url = Some (Some j)"
  using cache_get_first[OF assms(1), of url] assms(2-4) by (metis linorder_neqE_nat)

lemma cache_get_cong:
  assumes "cache_ok c" "cache_ok c'" "length (snodes c') = length (snodes c)"
    "\<And>j. j < length (snodes c) \<Longrightarrow> node_has url (snodes c' ! j) = node_has url (snodes c ! j)"
  shows "cache_get c' url = cache_get c url"
  using cache_get_first[OF assms(1), of url]
proof (elim disjE exE conjE)
  fix j assume j: "j < length (snodes c)" "cache_get c url = Some (Some j)" "node_has url (snodes c ! j)"
    "\<forall>m < j. \<not> node_has url (snodes c ! m)"
  then have "cache_get c' url = Some (Some j)"
    using assms by (intro cache_get_eqI) auto
  then show ?thesis using j by simp
next
  assume n: "cache_get c url = Some None" "\<forall>j < length (snodes c). \<not> node_has url (snodes c ! j)"
  then show ?thesis using cache_get_first[OF assms(2), of url] assms(3,4) by auto
qed

lemma node_has_set [simp]: "node_has u (set_cache_node url n) \<longleftrightarrow> u = url"
  by (auto simp: node_has_def set_cache_node_def clear_cache_node_def)

lemma cache_set_node:
  assumes "cache_ok c" "last_node_set c < INT_MAX"
  shows "\<exists>k c'. cache_set url c = Some (k, c') \<and> k < length (snodes c) \<and> cache_ok c' \<and>
    snodes c' = (snodes c)[k := set_cache_node url (snodes c ! k)] \<and>
    (sn_empty (snodes c ! k) \<or> (\<forall>n \<in> set (snodes c). \<not> sn_empty n) \<and> k = nat (last_node_set c + 1) mod length (snodes c) \<and>
       last_node_set c' = last_node_set c + 1)"
proof -
  let ?ns = "snodes c" and ?l = "last_node_set c + 1"
  obtain i where i: "loop_find sn_empty (length ?ns) ?ns = Some i" using loop_find_total by blast
  have ne: "?ns \<noteq> []" "-1 \<le> last_node_set c" using assms(1) by (simp_all add: cache_ok_def)
  have ok: "cache_ok (c\<lparr>snodes := ?ns[k := set_cache_node url (?ns ! k)]\<rparr>)"
      "cache_ok (c\<lparr>last_node_set := ?l, snodes := ?ns[k := set_cache_node url (?ns ! k)]\<rparr>)" for k
    using assms(1) set_update_subset_insert[of ?ns k "set_cache_node url (?ns ! k)"]
    by (auto simp: cache_ok_def set_cache_node_def)
  show ?thesis
  proof (cases "i < length ?ns")
    case True
    then show ?thesis using i ok(1) loop_find_hit[OF i True] by (intro exI[of _ i] exI) (auto simp: cache_set_def)
  next
    case False
    then have "i = length ?ns" using loop_find_le[OF i] by simp
    then have "\<forall>n \<in> set ?ns. \<not> sn_empty n" using i loop_find_none[of "length ?ns" ?ns sn_empty] by (auto simp: in_set_conv_nth)
    moreover have l: "int_add (last_node_set c) 1 = Some ?l" "int_to_size ?l = nat ?l"
      using assms(2) ne by (simp_all add: int_add_def INT_MAX_def INT_MIN_def int_to_size_def)
    moreover have "cache_set url c = Some (nat ?l mod length ?ns, c\<lparr>last_node_set := ?l,
        snodes := ?ns[nat ?l mod length ?ns := set_cache_node url (?ns ! (nat ?l mod length ?ns))]\<rparr>)"
      unfolding cache_set_def Let_def i l(1) using False ne l(2) by simp
    ultimately show ?thesis using ok(2) ne by (intro exI[of _ "nat ?l mod length ?ns"] exI) auto
  qed
qed



end
