(* ===== verification/ShuProxy.thy ===== *)
theory ShuProxy
  imports ShuCache
begin

text \<open>
  The handlers of \<open>shuvalov/31/proxy.c\<close>, one turn of its main loop and its start. \<open>picohttpparser\<close> is fetched when the
  program is built, so it is an argument: \<open>parsers\<close> gives what it returns and stores for the bytes of a buffer and the
  number of bytes that were there at the last call. \<open>senv\<close> is what the calls of the system return to one
  handler: the bytes that \<open>read\<close> stored (\<open>None\<close> is an error other than \<open>EINTR\<close>, after which the code tries again), the
  result of \<open>write\<close>, which allocations fail (named by the variable that is assigned), which hosts are known, the new socket,
  whether it connects, and what new memory holds. The result codes of the handlers are left out: the callers
  ignore them. The result of \<open>get_substring\<close> is an \<open>int\<close>; responses are shorter than \<open>2 ^ 31\<close> bytes.
\<close>

definition POLLERR :: "16 word" where "POLLERR = 8"
definition POLLHUP :: "16 word" where "POLLHUP = 16"

record sreq =
  q_ret :: int
  q_method :: string
  q_path :: string
  q_headers :: "(string \<times> string) list"

record sans =
  a_ret :: int
  a_status :: int
  a_headers :: "(string \<times> string) list"

record parsers =
  p_request :: "string \<Rightarrow> nat \<Rightarrow> sreq"
  p_response :: "string \<Rightarrow> nat \<Rightarrow> sans"

record senv =
  s_read :: "string option"
  s_write :: int
  s_oom :: "string \<Rightarrow> bool"
  s_host :: "string \<Rightarrow> bool"
  s_socket :: "poll_fds \<Rightarrow> int"
  s_connects :: bool
  s_junk :: "nat \<Rightarrow> pollfd"
  s_noise :: "nat \<Rightarrow> char"
  s_garbage :: nat

text \<open>A loop over indices.\<close>

fun run_turns :: "('a \<Rightarrow> 's \<Rightarrow> 's option) \<Rightarrow> 'a list \<Rightarrow> 's \<Rightarrow> 's option" where
  "run_turns f [] s = Some s"
| "run_turns f (x # xs) s = f x s \<bind> run_turns f xs"

subsection \<open>Strings\<close>

text \<open>The string that a terminated array of characters stands for, and \<open>strncpy\<close>.\<close>

definition until_NUL :: "string \<Rightarrow> string" where
  "until_NUL xs = takeWhile (\<lambda>c. c \<noteq> CHR 0x00) xs"

definition strncpy :: "string \<Rightarrow> string" where
  "strncpy xs = until_NUL xs @ replicate (length xs - length (until_NUL xs)) (CHR 0x00)"

text \<open>\<open>buffer_to_string\<close>; the test for a failing allocation looks at the wrong pointer.\<close>

definition buffer_to_string :: "bool \<Rightarrow> string \<Rightarrow> string option" where
  "buffer_to_string oom buf = do { assertm (\<not> oom); Some (until_NUL (strncpy buf @ [CHR 0x00])) }"

text \<open>The inner loop, and the outer one with \<open>n\<close> rounds left; the memory ends with the list.\<close>

fun match_sub :: "string \<Rightarrow> string \<Rightarrow> bool option" where
  "match_sub [] mem = Some True"
| "match_sub (x # xs) [] = None"
| "match_sub (x # xs) (y # ys) = (if y = x then match_sub xs ys else Some False)"

fun substring_loop :: "string \<Rightarrow> nat \<Rightarrow> nat \<Rightarrow> string \<Rightarrow> int option" where
  "substring_loop sub i 0 mem = Some (-1)"
| "substring_loop sub i (Suc n) [] = None"
| "substring_loop sub i (Suc n) (c # cs) =
     (if c = hd (c_str sub) then do {
        m \<leftarrow> match_sub sub (c # cs);
        if m then Some (int i) else substring_loop sub (Suc i) n cs }
      else substring_loop sub (Suc i) n cs)"

definition get_substring :: "string \<Rightarrow> string \<Rightarrow> nat \<Rightarrow> int option" where
  "get_substring sub mem n = substring_loop sub 0 n mem"

text \<open>\<open>strncmp\<close> with the length of the header's name; 1 is no such header, 2 a failing allocation.\<close>

fun get_header_value :: "bool \<Rightarrow> string \<Rightarrow> (string \<times> string) list \<Rightarrow> (nat + string) option" where
  "get_header_value oom header_name [] = Some (Inl 1)"
| "get_header_value oom header_name ((nm, v) # hs) = do {
     same \<leftarrow> strncmp_eq nm (c_str header_name) (length nm);
     if same then Some (if oom then Inl 2 else Inr (strncpy v)) else get_header_value oom header_name hs }"

text \<open>\<open>strtol\<close> with base 0, clamped to a \<open>long\<close>.\<close>

definition digit_of :: "char \<Rightarrow> int" where
  "digit_of c = (let b = int (byte c) in
     if 48 \<le> b \<and> b \<le> 57 then b - 48 else if 97 \<le> b \<and> b \<le> 122 then b - 87 else if 65 \<le> b \<and> b \<le> 90 then b - 55 else 99)"

fun value_in :: "int \<Rightarrow> string \<Rightarrow> int \<Rightarrow> int" where
  "value_in b [] acc = acc"
| "value_in b (c # cs) acc = (if digit_of c < b then value_in b cs (acc * b + digit_of c) else acc)"

definition strtol0 :: "string \<Rightarrow> int" where
  "strtol0 s =
     (let s1 = dropWhile (\<lambda>c. c = CHR 0x20 \<or> (9 \<le> byte c \<and> byte c \<le> 13)) s;
          neg = (s1 \<noteq> [] \<and> hd s1 = CHR ''-'');
          s2 = (if s1 \<noteq> [] \<and> (hd s1 = CHR ''-'' \<or> hd s1 = CHR ''+'') then tl s1 else s1);
          v = (case s2 of
                 a # x # d # ds \<Rightarrow> if a = CHR ''0'' \<and> (x = CHR ''x'' \<or> x = CHR ''X'') \<and> digit_of d < 16 then value_in 16 (d # ds) 0
                                  else value_in (if a = CHR ''0'' then 8 else 10) s2 0
               | _ \<Rightarrow> value_in (if s2 \<noteq> [] \<and> hd s2 = CHR ''0'' then 8 else 10) s2 0) in
      max (- (2 ^ 63)) (min (2 ^ 63 - 1) (if neg then - v else v)))"

subsection \<open>Giving connections up\<close>

text \<open>\<open>close\<close>, \<open>remove_from_poll\<close> and \<open>setup_client\<close>\<close>

definition release_client :: "int \<Rightarrow> nat \<Rightarrow> shuvalov \<Rightarrow> shuvalov option" where
  "release_client fd i s = do {
     s \<leftarrow> on_polls (close_fd fd) s;
     on_cli i setup_client s }"

definition close_client :: "nat \<Rightarrow> shuvalov \<Rightarrow> shuvalov option" where
  "close_client i s = do {
     c \<leftarrow> get_at (smembers (sclis s)) i;
     if 0 \<le> sc_fd c then do {
       s \<leftarrow> unsubscribe i s;
       s \<leftarrow> release_client (sc_fd c) i s;
       Some (s\<lparr>sclis := (sclis s)\<lparr>snumber := size_dec (snumber (sclis s))\<rparr>\<rparr>) }
     else Some s }"

definition close_server :: "int \<Rightarrow> nat \<Rightarrow> shuvalov \<Rightarrow> shuvalov option" where
  "close_server fd j s = do {
     s \<leftarrow> on_polls (close_fd fd) s;
     s \<leftarrow> on_srv j setup_server s;
     Some (s\<lparr>ssrvs := (ssrvs s)\<lparr>vnumber := size_dec (vnumber (ssrvs s))\<rparr>\<rparr>) }"

text \<open>The body of a loop over the subscribers of response \<open>k\<close>.\<close>

definition with_sub :: "(nat \<Rightarrow> shuvalov \<Rightarrow> shuvalov option) \<Rightarrow> nat \<Rightarrow> nat \<Rightarrow> shuvalov \<Rightarrow> shuvalov option" where
  "with_sub f k x s = do {
     r \<leftarrow> resp k s;
     sub \<leftarrow> get_at (rs_subs r) x;
     case sub of None \<Rightarrow> Some s | Some p \<Rightarrow> do { i \<leftarrow> deref p (sclis s); f i s } }"

definition close_server_and_subscribers :: "nat \<Rightarrow> shuvalov \<Rightarrow> shuvalov option" where
  "close_server_and_subscribers j s = do {
     v \<leftarrow> get_at (vmembers (ssrvs s)) j;
     k \<leftarrow> ss_response v;
     s \<leftarrow> run_turns (with_sub close_client k) [0..<100] s;
     close_server (ss_fd v) j s }"

subsection \<open>Clients\<close>

text \<open>Lines 198 to 208.\<close>

definition join_node :: "nat \<Rightarrow> nat \<Rightarrow> shuvalov \<Rightarrow> shuvalov option" where
  "join_node i k s = do {
     r \<leftarrow> resp k s;
     assertm (0 \<le> rs_count r);
     xs \<leftarrow> put_at (rs_subs r) (nat (rs_count r)) (Some (moves (sclis s), i));
     n \<leftarrow> int_add (rs_count r) 1;
     s \<leftarrow> on_resp k (\<lambda>r. r\<lparr>rs_subs := xs, rs_count := n\<rparr>) s;
     s \<leftarrow> on_cli i (\<lambda>c. c\<lparr>sc_response := Some k\<rparr>) s;
     c \<leftarrow> get_at (smembers (sclis s)) i;
     on_polls (set_events (sc_poll c) (if 0 < rs_len r then POLLOUT else 0)) s }"

text \<open>Lines 263 to 268, with the pointers that the arguments of \<open>log_debug\<close> follow.\<close>

definition publish :: "nat \<Rightarrow> nat \<Rightarrow> string \<Rightarrow> shuvalov \<Rightarrow> shuvalov option" where
  "publish i j path s = do {
     (k, ca) \<leftarrow> cache_set path (scach s);
     s \<leftarrow> subscribe i k (s\<lparr>scach := ca\<rparr>);
     s \<leftarrow> make_publisher j k s;
     c \<leftarrow> get_at (smembers (sclis s)) i;
     s \<leftarrow> on_polls (set_events (sc_poll c) 0) s;
     r \<leftarrow> resp k s;
     sub \<leftarrow> get_at (rs_subs r) 0;
     p \<leftarrow> sub;
     _ \<leftarrow> deref p (sclis s);
     Some s }"

text \<open>Lines 251 to 262: a server for a new socket.\<close>

definition open_server :: "senv \<Rightarrow> nat \<Rightarrow> int \<Rightarrow> string \<Rightarrow> shuvalov \<Rightarrow> shuvalov option" where
  "open_server e i fd path s = do {
     (pi, t) \<leftarrow> add_fd_to_poll (s_junk e) fd POLLOUT (spolls s);
     if pi < 0 then Some (s\<lparr>spolls := t\<rparr>)
     else do {
       (j, v) \<leftarrow> add_fd_to_servers (s_garbage e) (nat pi) (moves (sclis s), i) fd (ssrvs s);
       if j < 0 then Some (s\<lparr>spolls := t, ssrvs := v\<rparr>) else publish i (nat j) path (s\<lparr>spolls := t, ssrvs := v\<rparr>) } }"

text \<open>Lines 210 to 262. A request without the header leaves the client as it is.\<close>

definition fetch :: "senv \<Rightarrow> nat \<Rightarrow> sreq \<Rightarrow> string \<Rightarrow> shuvalov \<Rightarrow> shuvalov option" where
  "fetch e i q path s = do {
     h \<leftarrow> get_header_value (s_oom e ''value'') ''Host'' (q_headers q);
     case h of
       Inl _ \<Rightarrow> Some s
     | Inr hostname \<Rightarrow>
         if s_oom e ''ip'' then close_client i s
         else do {
           host \<leftarrow> buffer_to_string (s_oom e ''hostname_str'') hostname;
           if \<not> s_host e host then close_client i s
           else if s_socket e (spolls s) = -1 then close_client i s
           else open_server e i (s_socket e (spolls s)) path s } }"

text \<open>Lines 190 to 209.\<close>

definition serve :: "senv \<Rightarrow> nat \<Rightarrow> sreq \<Rightarrow> shuvalov \<Rightarrow> shuvalov option" where
  "serve e i q s = do {
     path \<leftarrow> buffer_to_string (s_oom e ''url'') (q_path q);
     n \<leftarrow> cache_get (scach s) path;
     case n of
       None \<Rightarrow> fetch e i q path s
     | Some k \<Rightarrow> do {
         r \<leftarrow> resp k s;
         if rs_status r = 200 \<or> rs_status r = -1 then join_node i k s else fetch e i q path s } }"

definition receive_from_client :: "parsers \<Rightarrow> senv \<Rightarrow> nat \<Rightarrow> shuvalov \<Rightarrow> shuvalov option" where
  "receive_from_client P e i s = do {
     c \<leftarrow> get_at (smembers (sclis s)) i;
     case s_read e of
       None \<Rightarrow> close_client i s
     | Some bs \<Rightarrow> do {
         assertm (sc_len c + length bs \<le> BUF_SIZE);
         buf \<leftarrow> memcpy_to (sc_buf c) (sc_len c) bs;
         let n = sc_len c + length bs;
         s \<leftarrow> on_cli i (\<lambda>c. c\<lparr>sc_buf := buf, sc_prev := sc_len c, sc_len := n\<rparr>) s;
         if n = 0 then close_client i s
         else do {
           let q = p_request P (take n buf) (sc_len c);
           if q_ret q = -1 then close_client i s
           else if q_ret q = 2 then Some s
           else if n = BUF_SIZE then close_client i s
           else do {
             ok \<leftarrow> strncmp_eq (c_str ''GET'') (q_method q) (length (q_method q));
             if \<not> ok then close_client i s else serve e i q s } } } }"

text \<open>The bytes that \<open>write(fd, buf + from, n)\<close> takes when it returns \<open>w\<close>; \<open>n\<close> is a \<open>size_t\<close>.\<close>

definition write_taken :: "string \<Rightarrow> int \<Rightarrow> int \<Rightarrow> int \<Rightarrow> string option" where
  "write_taken buf from n w = do {
     assertm (0 \<le> from \<and> w \<le> n mod 2 ^ 64);
     read_bytes buf (nat from) (nat w) }"

text \<open>Lines 295 to 308: is the response complete, and the end of the client then.\<close>

definition answered :: "sresponse \<Rightarrow> int \<Rightarrow> int \<Rightarrow> bool option" where
  "answered r written w = do {
     n \<leftarrow> int_add (rs_content r) (rs_head r);
     Some ((n = written \<and> rs_content r \<noteq> 1 \<and> rs_head r \<noteq> 1) \<or> w = 0) }"

definition finish_client :: "nat \<Rightarrow> sclient \<Rightarrow> sresponse \<Rightarrow> shuvalov \<Rightarrow> shuvalov option" where
  "finish_client i c r s = do {
     s \<leftarrow> unsubscribe i s;
     s \<leftarrow> (if rs_status r \<noteq> 200 then do {
             assertm (0 \<le> sc_node c \<and> sc_node c < int (length (snodes (scach s))));
             on_node (nat (sc_node c)) clear_cache_node s }
           else Some s);
     release_client (sc_fd c) i s }"

text \<open>The number of clients is not lowered here.\<close>

definition send_to_client :: "senv \<Rightarrow> nat \<Rightarrow> shuvalov \<Rightarrow> shuvalov option" where
  "send_to_client e i s = do {
     c \<leftarrow> get_at (smembers (sclis s)) i;
     k \<leftarrow> sc_response c;
     r \<leftarrow> resp k s;
     let w = s_write e;
     bs \<leftarrow> write_taken (rs_buf r) (sc_written c) (int (rs_len r) - sc_written c) w;
     if w < 0 then release_client (sc_fd c) i s
     else do {
       let written = sc_written c + w;
       s \<leftarrow> on_cli i (\<lambda>c. c\<lparr>sc_written := written\<rparr>) (s\<lparr>ssent := ssent s @ [(sc_fd c, bs)]\<rparr>);
       s \<leftarrow> (if int (rs_len r) = written then on_polls (set_events (sc_poll c) 0) s else Some s);
       done \<leftarrow> answered r written w;
       if done then finish_client i c r s else Some s } }"

definition client_turn :: "parsers \<Rightarrow> (nat \<Rightarrow> senv) \<Rightarrow> nat \<Rightarrow> shuvalov \<Rightarrow> shuvalov option" where
  "client_turn P es i s = do {
     c \<leftarrow> get_at (smembers (sclis s)) i;
     if sc_fd c = -1 \<or> sc_processed c then Some s
     else do {
       p \<leftarrow> get_at (pmembers (spolls s)) (sc_poll c);
       if revents p AND POLLHUP = POLLHUP then close_client i s
       else if revents p AND POLLERR = POLLERR then close_client i s
       else if revents p AND POLLIN = POLLIN then receive_from_client P (es i) i s
       else if revents p AND POLLOUT = POLLOUT then send_to_client (es i) i s
       else Some s } }"

definition process_clients :: "parsers \<Rightarrow> (nat \<Rightarrow> senv) \<Rightarrow> shuvalov \<Rightarrow> shuvalov option" where
  "process_clients P es s = run_turns (client_turn P es) [0..<length (smembers (sclis s))] s"

subsection \<open>Servers\<close>

definition connect_to_server :: "senv \<Rightarrow> nat \<Rightarrow> shuvalov \<Rightarrow> shuvalov option" where
  "connect_to_server e j s =
     (if s_connects e then on_srv j (\<lambda>v. v\<lparr>ss_processed := True\<rparr>) s else close_server_and_subscribers j s)"

definition send_to_server :: "senv \<Rightarrow> nat \<Rightarrow> shuvalov \<Rightarrow> shuvalov option" where
  "send_to_server e j s = do {
     v \<leftarrow> get_at (vmembers (ssrvs s)) j;
     p \<leftarrow> ss_request v;
     i \<leftarrow> deref p (sclis s);
     let c = smembers (sclis s) ! i;
     let w = s_write e;
     bs \<leftarrow> write_taken (sc_buf c) (ss_written v) (int (sc_len c) - ss_written v) w;
     if w < 0 then close_server_and_subscribers j s
     else do {
       s \<leftarrow> (if w = 0 then on_polls (set_events (ss_poll v) POLLIN) s else Some s);
       on_srv j (\<lambda>v. v\<lparr>ss_written := ss_written v + w\<rparr>) (s\<lparr>ssent := ssent s @ [(ss_fd v, bs)]\<rparr>) } }"

text \<open>Lines 406 to 416; a failing \<open>realloc\<close> leaves NULL, here the empty block. The result says whether to go on.\<close>

definition store_answer :: "senv \<Rightarrow> nat \<Rightarrow> nat \<Rightarrow> string \<Rightarrow> shuvalov \<Rightarrow> (bool \<times> shuvalov) option" where
  "store_answer e j k bs s = do {
     r \<leftarrow> resp k s;
     assertm (rs_len r + length bs \<le> rs_size r);
     buf \<leftarrow> memcpy_to (rs_buf r) (rs_len r) bs;
     let n = rs_len r + length bs;
     let size = rs_size r * 2;
     if n < rs_size r then do {
       s \<leftarrow> on_resp k (\<lambda>r. r\<lparr>rs_buf := buf, rs_len := n\<rparr>) s;
       Some (True, s) }
     else if s_oom e ''buf'' then do {
       s \<leftarrow> on_resp k (\<lambda>r. r\<lparr>rs_buf := [], rs_len := n, rs_size := size\<rparr>) s;
       s \<leftarrow> close_server_and_subscribers j s;
       Some (False, s) }
     else do {
       s \<leftarrow> on_resp k (\<lambda>r. r\<lparr>rs_buf := take size buf @ map (s_noise e) [0..<size - length buf], rs_len := n, rs_size := size\<rparr>) s;
       Some (True, s) } }"

text \<open>Lines 426 to 445: the length that the header gives.\<close>

definition find_length :: "senv \<Rightarrow> nat \<Rightarrow> nat \<Rightarrow> (string \<times> string) list \<Rightarrow> shuvalov \<Rightarrow> (bool \<times> shuvalov) option" where
  "find_length e j k hs s = do {
     r \<leftarrow> resp k s;
     if rs_content r \<noteq> -1 then Some (True, s)
     else do {
       h \<leftarrow> get_header_value (s_oom e ''value'') ''Content-Length'' hs;
       case h of
         Inl n \<Rightarrow> if n = 2 then do { s \<leftarrow> close_server_and_subscribers j s; Some (False, s) } else Some (True, s)
       | Inr v \<Rightarrow> do {
           v \<leftarrow> buffer_to_string (s_oom e ''content_length_str'') v;
           s \<leftarrow> on_resp k (\<lambda>r. r\<lparr>rs_content := int_of_long (strtol0 v)\<rparr>) s;
           Some (True, s) } } }"

text \<open>Lines 447 to 455: where the body starts.\<close>

definition find_head :: "nat \<Rightarrow> shuvalov \<Rightarrow> shuvalov option" where
  "find_head k s = do {
     r \<leftarrow> resp k s;
     n \<leftarrow> get_substring [CHR 0x0d, CHR 0x0a, CHR 0x0d, CHR 0x0a] (rs_buf r) (rs_len r);
     if 0 \<le> n then on_resp k (\<lambda>r. r\<lparr>rs_head := n + 4, rs_content := (if rs_content r = -1 then 0 else rs_content r)\<rparr>) s
     else Some s }"

text \<open>Lines 417 to 456; \<open>prev\<close> is the length before the last \<open>read\<close>.\<close>

definition parse_head :: "parsers \<Rightarrow> senv \<Rightarrow> nat \<Rightarrow> nat \<Rightarrow> nat \<Rightarrow> shuvalov \<Rightarrow> (bool \<times> shuvalov) option" where
  "parse_head P e j k prev s = do {
     r \<leftarrow> resp k s;
     if rs_head r \<noteq> -1 then Some (True, s)
     else do {
       let a = p_response P (take (rs_len r) (rs_buf r)) prev;
       s \<leftarrow> on_resp k (\<lambda>r. r\<lparr>rs_status := a_status a\<rparr>) s;
       (go, s) \<leftarrow> find_length e j k (a_headers a) s;
       if go then do { s \<leftarrow> find_head k s; Some (True, s) } else Some (False, s) } }"

text \<open>Lines 457 to 467: the subscribers may write, and the server is closed when the response is complete.\<close>

definition wake_sub :: "nat \<Rightarrow> shuvalov \<Rightarrow> shuvalov option" where
  "wake_sub i s = on_polls (set_events (sc_poll (smembers (sclis s) ! i)) POLLOUT) s"

definition finish_answer :: "nat \<Rightarrow> nat \<Rightarrow> shuvalov \<Rightarrow> shuvalov option" where
  "finish_answer j k s = do {
     s \<leftarrow> run_turns (with_sub wake_sub k) [0..<100] s;
     r \<leftarrow> resp k s;
     n \<leftarrow> int_add (rs_content r) (rs_head r);
     v \<leftarrow> get_at (vmembers (ssrvs s)) j;
     if rs_len r = int_to_size n then close_server (ss_fd v) j s else Some s }"

definition receive_from_server :: "parsers \<Rightarrow> senv \<Rightarrow> nat \<Rightarrow> shuvalov \<Rightarrow> shuvalov option" where
  "receive_from_server P e j s = do {
     v \<leftarrow> get_at (vmembers (ssrvs s)) j;
     k \<leftarrow> ss_response v;
     r \<leftarrow> resp k s;
     case s_read e of
       None \<Rightarrow> close_server_and_subscribers j s
     | Some bs \<Rightarrow>
         if bs = [] then close_server_and_subscribers j s
         else do {
           (go, s) \<leftarrow> store_answer e j k bs s;
           if \<not> go then Some s
           else do {
             (go, s) \<leftarrow> parse_head P e j k (rs_len r) s;
             if go then finish_answer j k s else Some s } } }"

definition server_turn :: "parsers \<Rightarrow> (nat \<Rightarrow> senv) \<Rightarrow> nat \<Rightarrow> shuvalov \<Rightarrow> shuvalov option" where
  "server_turn P es j s = do {
     v \<leftarrow> get_at (vmembers (ssrvs s)) j;
     if ss_fd v = -1 \<or> ss_processed v then Some s
     else do {
       p \<leftarrow> get_at (pmembers (spolls s)) (ss_poll v);
       if revents p AND POLLERR = POLLERR then close_server_and_subscribers j s
       else if revents p AND (POLLOUT OR POLLHUP) = POLLOUT OR POLLHUP then connect_to_server (es j) j s
       else if revents p AND POLLHUP = POLLHUP then close_server_and_subscribers j s
       else if revents p AND POLLOUT = POLLOUT then send_to_server (es j) j s
       else if revents p AND POLLIN = POLLIN then receive_from_server P (es j) j s
       else Some s } }"

definition process_servers :: "parsers \<Rightarrow> (nat \<Rightarrow> senv) \<Rightarrow> shuvalov \<Rightarrow> shuvalov option" where
  "process_servers P es s = run_turns (server_turn P es) [0..<length (vmembers (ssrvs s))] s"

subsection \<open>The main loop\<close>

definition accept_client :: "senv \<Rightarrow> shuvalov \<Rightarrow> shuvalov option" where
  "accept_client e s = do {
     p \<leftarrow> get_at (pmembers (spolls s)) 0;
     let fd = s_socket e (spolls s);
     if revents p AND POLLIN = 0 \<or> fd < 0 then Some s
     else do {
       (pi, t) \<leftarrow> add_fd_to_poll (s_junk e) fd POLLIN (spolls s);
       if pi < 0 then Some (s\<lparr>spolls := t\<rparr>)
       else do {
         (_, c) \<leftarrow> add_fd_to_clients (map (s_noise e) [0..<BUF_SIZE]) (s_garbage e) (nat pi) fd (sclis s);
         Some (s\<lparr>spolls := t, sclis := c\<rparr>) } } }"

definition SIGINT :: nat where "SIGINT = 2"
definition SIGPIPE :: nat where "SIGPIPE = 13"

text \<open>The only signal that is blocked and read from the descriptor.\<close>

definition signal_mask :: nat where
  "signal_mask = SIGINT OR SIGPIPE"

text \<open>\<open>sig\<close> is the number of the signal, \<open>None\<close> a short read.\<close>

definition process_signal :: "pollfd \<Rightarrow> nat option \<Rightarrow> int" where
  "process_signal p sig = (if revents p AND POLLIN = POLLIN then (if sig = Some SIGINT then 1 else 2) else 0)"

datatype spoll = PollFails | PollInterrupted | PollReady "nat \<Rightarrow> 16 word"

abbreviation INIT_FDS_SIZE :: nat where "INIT_FDS_SIZE \<equiv> 200"

text \<open>\<open>ppoll\<close> is always given the first 200 cells; an interrupted call leaves the old \<open>revents\<close>.\<close>

definition ppoll_returns :: "(nat \<Rightarrow> 16 word) \<Rightarrow> poll_fds \<Rightarrow> poll_fds" where
  "ppoll_returns revs t = t\<lparr>pmembers := map (\<lambda>(i, p). if i < INIT_FDS_SIZE then p\<lparr>revents := (if pfd p < 0 then 0 else revs i)\<rparr> else p)
     (enumerate 0 (pmembers t))\<rparr>"

definition clear_processed :: "nat \<Rightarrow> shuvalov \<Rightarrow> shuvalov option" where
  "clear_processed i s = do {
     s \<leftarrow> on_srv i (\<lambda>v. v\<lparr>ss_processed := False\<rparr>) s;
     on_cli i (\<lambda>c. c\<lparr>sc_processed := False\<rparr>) s }"

record turn =
  t_poll :: spoll
  t_signal :: "nat option"
  t_accept :: senv
  t_clients :: "nat \<Rightarrow> senv"
  t_servers :: "nat \<Rightarrow> senv"

text \<open>One turn of the loop: the exit status when it ends.\<close>

definition shuvalov_turn :: "parsers \<Rightarrow> turn \<Rightarrow> shuvalov \<Rightarrow> (int option \<times> shuvalov) option" where
  "shuvalov_turn P x s =
     (if t_poll x = PollFails then Some (Some 1, s)
      else do {
        let s = (case t_poll x of PollReady revs \<Rightarrow> s\<lparr>spolls := ppoll_returns revs (spolls s)\<rparr> | _ \<Rightarrow> s);
        p \<leftarrow> get_at (pmembers (spolls s)) 1;
        if process_signal p (t_signal x) \<noteq> 0 then Some (Some (if process_signal p (t_signal x) = 2 then 1 else 0), s)
        else do {
          s \<leftarrow> accept_client (t_accept x) s;
          s \<leftarrow> process_clients P (t_clients x) s;
          s \<leftarrow> process_servers P (t_servers x) s;
          s \<leftarrow> run_turns clear_processed [0..<INIT_FDS_SIZE] s;
          Some (None, s) } })"

text \<open>The label \<open>CLEANUP\<close>: only the first 200 cells are looked at.\<close>

definition cleanup :: "shuvalov \<Rightarrow> int list option" where
  "cleanup s = close_fds INIT_FDS_SIZE (pmembers (spolls s)) (pclosed (spolls s))"

definition parse_args :: "string list \<Rightarrow> (string \<times> int) option" where
  "parse_args args = (case args of
     [] \<Rightarrow> Some (''0.0.0.0'', 8080)
   | [ip, port] \<Rightarrow> if strtol0 port = - (2 ^ 63) \<or> strtol0 port = 2 ^ 63 - 1 then None else Some (ip, strtol0 port)
   | _ \<Rightarrow> None)"

text \<open>
  \<open>main\<close> up to its loop. A failing \<open>init_poll_fds\<close> runs into \<open>close_all\<close> on NULL, and a node that \<open>init_cache\<close> cannot
  allocate into freeing nodes that were never assigned.
\<close>

definition shuvalov_main :: "string list \<Rightarrow> senv \<Rightarrow> bool \<Rightarrow> bool \<Rightarrow> int \<Rightarrow> int \<Rightarrow> shuvalov outcome option" where
  "shuvalov_main args e listen_fails signal_fails listen_fd signal_fd =
     (let cells = map (s_noise e) [0..<BUF_SIZE] in
      case (parse_args args, init_clients (s_oom e ''clients'') INIT_FDS_SIZE cells (s_garbage e),
            init_servers (s_oom e ''servers'') INIT_FDS_SIZE (s_garbage e)) of
        (Some _, Some cs, Some vs) \<Rightarrow> do {
          t \<leftarrow> init_poll_fds (s_oom e ''poll_fds'') (map (s_junk e) [0..<INIT_FDS_SIZE]);
          if listen_fails then Some (Exit 1)
          else do {
            (_, t) \<leftarrow> add_fd_to_poll (s_junk e) listen_fd POLLIN t;
            if signal_fails then Some (Exit 1)
            else do {
              (_, t) \<leftarrow> add_fd_to_poll (s_junk e) signal_fd POLLIN t;
              case init_cache (s_oom e ''nodes'') 10 cells of
                None \<Rightarrow> Some (Exit 1)
              | Some ca \<Rightarrow> do {
                  assertm (\<not> s_oom e ''node'');
                  Some (Go \<lparr>spolls = t, sclis = cs, ssrvs = vs, scach = ca, ssent = []\<rparr>) } } } }
      | _ \<Rightarrow> Some (Exit 1))"

end
