(* ===== verification/ShuDescriptors.thy ===== *)
theory ShuDescriptors
  imports ShuProxy
begin

text \<open>
  The descriptors of \<open>shuvalov/31\<close>. Most steps are \<open>mild\<close>: they change no descriptor, no index of a poll slot
  and none of the numbers, so that the invariant \<open>sinv\<close> stays; the others open or close one connection, and there
  \<open>fd_owner\<close> says what happens to the table.
\<close>

subsection \<open>The invariant\<close>

abbreviation cli_links :: "shuvalov \<Rightarrow> (int \<times> nat) list" where
  "cli_links s \<equiv> map (\<lambda>c. (sc_fd c, sc_poll c)) (smembers (sclis s))"

abbreviation srv_links :: "shuvalov \<Rightarrow> (int \<times> nat) list" where
  "srv_links s \<equiv> map (\<lambda>v. (ss_fd v, ss_poll v)) (vmembers (ssrvs s))"

text \<open>The index that a connection keeps is the slot of its descriptor.\<close>

definition points :: "int list \<Rightarrow> (int \<times> nat) list \<Rightarrow> bool" where
  "points fds xs \<longleftrightarrow> (\<forall>(fd, i) \<in> set xs. fd \<noteq> -1 \<longrightarrow> i < length fds \<and> fds ! i = fd)"

definition polled_fds :: "shuvalov \<Rightarrow> int list" where
  "polled_fds s = map pfd (pmembers (spolls s))"

definition sinv :: "int set \<Rightarrow> shuvalov \<Rightarrow> bool" where
  "sinv B s \<longleftrightarrow> so.held B (spolls s, map fst (cli_links s), map fst (srv_links s)) \<and>
     clients_ok (sclis s) \<and> servers_ok (ssrvs s) \<and> points (polled_fds s) (cli_links s) \<and> points (polled_fds s) (srv_links s)"

definition mild :: "shuvalov \<Rightarrow> shuvalov \<Rightarrow> bool" where
  "mild s s' \<longleftrightarrow> cli_links s' = cli_links s \<and> srv_links s' = srv_links s \<and>
     snumber (sclis s') = snumber (sclis s) \<and> moves (sclis s') = moves (sclis s) \<and> vnumber (ssrvs s') = vnumber (ssrvs s) \<and>
     polled_fds s' = polled_fds s \<and> pnumber (spolls s') = pnumber (spolls s) \<and> pclosed (spolls s') = pclosed (spolls s)"

lemma dom_seen: "dom (seen t) = {fd \<in> set (map pfd (pmembers t)). fd \<noteq> -1}"
  using seen_None[of t] by (auto simp: dom_def)

lemma pfds_ok_fds:
  "pfds_ok t \<longleftrightarrow> map pfd (pmembers t) \<noteq> [] \<and> unique_fds (pmembers t) \<and> length (live (map pfd (pmembers t))) = pnumber t"
  by (simp add: pfds_ok_def live_def filter_map comp_def)

lemma mild_sinv: "mild s s' \<Longrightarrow> sinv B s' = sinv B s"
proof -
  assume m: "mild s s'"
  then have fds: "map pfd (pmembers (spolls s')) = map pfd (pmembers (spolls s))" by (simp add: mild_def polled_fds_def)
  have "pfds_ok (spolls s') = pfds_ok (spolls s)"
    using m unfolding pfds_ok_fds fds by (simp add: mild_def unique_fds_map[OF fds])
  moreover have "dom (seen (spolls s')) = dom (seen (spolls s))" by (simp only: dom_seen fds)
  ultimately have h: "so.held B (spolls s', xs, ys) = so.held B (spolls s, xs, ys)" for xs ys
    by (simp add: so.held_def)
  have c: "cli_links s' = cli_links s" "srv_links s' = srv_links s" using m by (simp_all add: mild_def)
  have "map sc_fd (smembers (sclis s')) = map sc_fd (smembers (sclis s))" "map ss_fd (vmembers (ssrvs s')) = map ss_fd (vmembers (ssrvs s))"
    using arg_cong[OF c(1), of "map fst"] arg_cong[OF c(2), of "map fst"] by (simp_all add: comp_def)
  moreover from this have "length (smembers (sclis s')) = length (smembers (sclis s))" "length (vmembers (ssrvs s')) = length (vmembers (ssrvs s))"
    by (metis length_map)+
  ultimately have "clients_ok (sclis s') = clients_ok (sclis s)" "servers_ok (ssrvs s') = servers_ok (ssrvs s)"
    using m by (auto simp: mild_def clients_ok_def servers_ok_def)
  then show ?thesis using h m by (simp add: sinv_def mild_def)
qed

lemma mild_refl [simp]: "mild s s"
  by (simp add: mild_def)

lemma mild_trans: "mild a b \<Longrightarrow> mild b c \<Longrightarrow> mild a c"
  by (simp add: mild_def)

lemma mild_records [simp]: "mild s (s\<lparr>scach := c\<rparr>)" "mild s (s\<lparr>ssent := l\<rparr>)"
  by (simp_all add: mild_def polled_fds_def)

subsection \<open>Mild steps\<close>

lemma mild_seq:
  "post m (mild s) \<Longrightarrow> (\<And>s1. mild s s1 \<Longrightarrow> m = Some s1 \<Longrightarrow> post (f s1) (mild s1)) \<Longrightarrow> post (m \<bind> f) (mild s)"
  by (rule post_chain[of mild]) (auto intro: mild_trans)

lemma mild_from: "mild s s1 \<Longrightarrow> post m (mild s1) \<Longrightarrow> post m (mild s)"
  by (rule post_step[of mild]) (auto intro: mild_trans)

lemma on_cli_mild: "(\<And>c. sc_fd (f c) = sc_fd c \<and> sc_poll (f c) = sc_poll c) \<Longrightarrow> post (on_cli i f s) (mild s)"
  by (rule postI) (auto simp: on_cli_def fault_simps mild_def polled_fds_def map_upd_id)

lemma on_srv_mild: "(\<And>v. ss_fd (f v) = ss_fd v \<and> ss_poll (f v) = ss_poll v) \<Longrightarrow> post (on_srv j f s) (mild s)"
  by (rule postI) (auto simp: on_srv_def fault_simps mild_def polled_fds_def map_upd_id)

lemma on_node_mild: "post (on_node k f s) (mild s)"
  by (rule postI) (auto simp: on_node_def fault_simps)

lemma on_resp_mild: "post (on_resp k f s) (mild s)"
  unfolding on_resp_def by (rule on_node_mild)

lemma events_mild: "post (on_polls (set_events i e) s) (mild s)"
  by (rule postI) (auto simp: on_polls_def set_events_def fault_simps mild_def polled_fds_def map_upd_id)

lemmas mild_intros = on_resp_mild on_node_mild events_mild

lemma subscribe_mild: "post (subscribe i k s) (mild s)"
  unfolding subscribe_def Let_def by (intro post_pure mild_seq mild_intros on_cli_mild) simp

lemma unsubscribe_mild: "post (unsubscribe i s) (mild s)"
  unfolding unsubscribe_def by (intro post_pure post_option mild_intros) simp_all

lemma unsubscribe_scach: "post (unsubscribe i s) (\<lambda>s'. s' = s\<lparr>scach := scach s'\<rparr>)"
  unfolding unsubscribe_def
  by (intro post_pure post_option) (auto simp: on_resp_def on_node_def post_def fault_simps)

lemma make_publisher_mild: "post (make_publisher j k s) (mild s)"
  unfolding make_publisher_def by (rule on_srv_mild) simp

lemma join_node_mild: "post (join_node i k s) (mild s)"
  unfolding join_node_def by (intro post_pure mild_seq mild_intros on_cli_mild) simp

lemma publish_mild: "post (publish i j path s) (mild s)"
  unfolding publish_def
  by (rule post_pure, rule post_prod, simp only: prod.case, rule mild_from[OF mild_records(1)], rule mild_seq[OF subscribe_mild],
      rule mild_seq[OF make_publisher_mild], rule post_pure, rule mild_seq[OF events_mild], (rule post_pure)+) simp

lemma run_turns_mild: "(\<And>x s. post (f x s) (mild s)) \<Longrightarrow> post (run_turns f xs s) (mild s)"
  by (induction xs arbitrary: s) (auto intro: mild_seq)

lemma wake_mild: "post (run_turns (with_sub wake_sub k) xs s) (mild s)"
  by (rule run_turns_mild) (auto simp: with_sub_def wake_sub_def intro!: post_pure post_option events_mild)

lemma find_head_mild: "post (find_head k s) (mild s)"
  unfolding find_head_def by (intro post_pure post_if mild_intros) simp

lemma clear_processed_mild: "post (clear_processed i s) (mild s)"
  unfolding clear_processed_def by (intro mild_seq on_srv_mild on_cli_mild) simp_all

lemma ppoll_mild: "mild s (s\<lparr>spolls := ppoll_returns revs (spolls s)\<rparr>)"
proof -
  have "map pfd (pmembers (ppoll_returns revs t)) = map pfd (pmembers t)" for t
    by (rule nth_equalityI) (simp_all add: ppoll_returns_def nth_enumerate_eq)
  then show ?thesis by (simp add: mild_def polled_fds_def ppoll_returns_def)
qed

text \<open>Connections that are open stay open.\<close>

definition cli_open :: "nat \<Rightarrow> int \<Rightarrow> shuvalov \<Rightarrow> bool" where
  "cli_open i fd s \<longleftrightarrow> fd \<noteq> -1 \<and> i < length (smembers (sclis s)) \<and> sc_fd (smembers (sclis s) ! i) = fd"

definition srv_open :: "nat \<Rightarrow> int \<Rightarrow> shuvalov \<Rightarrow> bool" where
  "srv_open j fd s \<longleftrightarrow> fd \<noteq> -1 \<and> j < length (vmembers (ssrvs s)) \<and> ss_fd (vmembers (ssrvs s) ! j) = fd"

lemma links_open:
  "cli_open i fd s \<longleftrightarrow> fd \<noteq> -1 \<and> i < length (cli_links s) \<and> fst (cli_links s ! i) = fd"
  "srv_open j fd s \<longleftrightarrow> fd \<noteq> -1 \<and> j < length (srv_links s) \<and> fst (srv_links s ! j) = fd"
  by (auto simp: cli_open_def srv_open_def)

lemma mild_open: "mild s s' \<Longrightarrow> cli_open i fd s' = cli_open i fd s" "mild s s' \<Longrightarrow> srv_open j fd s' = srv_open j fd s"
  unfolding links_open mild_def by metis+

subsection \<open>Closing\<close>

lemma points_update: "points fds xs \<Longrightarrow> (fd \<noteq> -1 \<Longrightarrow> i < length fds \<and> fds ! i = fd) \<Longrightarrow> points fds (xs[k := (fd, i)])"
  unfolding points_def by (auto dest!: subsetD[OF set_update_subset_insert])

lemma points_other:
  "points fds xs \<Longrightarrow> (\<And>fd i. (fd, i) \<in> set xs \<Longrightarrow> fd \<noteq> -1 \<Longrightarrow> i < length fds \<Longrightarrow> fds ! i = fd \<Longrightarrow> i < length fds' \<and> fds' ! i = fd) \<Longrightarrow>
   points fds' xs"
  unfolding points_def by (simp add: case_prod_beta) (metis prod.collapse)

lemma close_points:
  assumes "close_fd fd t = Some t'" "pfds_ok t" "is_fd fd" "points (map pfd (pmembers t)) xs" "fd \<notin> fst ` set xs"
  shows "points (map pfd (pmembers t')) xs"
proof (rule points_other[OF assms(4)])
  fix fd' i assume a: "(fd', i) \<in> set xs" "i < length (map pfd (pmembers t))" "map pfd (pmembers t) ! i = fd'"
  then have "pfd (pmembers t ! i) \<noteq> fd" using assms(5) by force
  then show "i < length (map pfd (pmembers t')) \<and> map pfd (pmembers t') ! i = fd'"
    using close_fd_seen[OF assms(2,3)] assms(1) a by auto
qed

text \<open>Clearing a slot of a column and closing its descriptor.\<close>

lemma distinct_clear:
  assumes "distinct (live fds)" "i < length fds" "fds ! i \<noteq> -1"
  shows "fds ! i \<notin> set (fds[i := -1])"
proof -
  have "fds ! i \<notin> set (live (fds[i := -1]))" using live_clear[OF assms(2,3,1)] by simp
  then show ?thesis using assms(3) by (simp add: live_mem)
qed

lemma close_links:
  assumes t: "close_fd fd t = Some t'" and held: "so.held B (t, map fst xs, map fst ys)"
    and p: "points (map pfd (pmembers t)) xs" "points (map pfd (pmembers t)) ys"
    and i: "i < length xs" "fst (xs ! i) = fd" "fd \<noteq> -1"
  shows "so.held B (t', map fst (xs[i := (-1, n)]), map fst ys) \<and>
    points (map pfd (pmembers t')) (xs[i := (-1, n)]) \<and> points (map pfd (pmembers t')) ys"
proof -
  let ?fds = "map fst xs"
  have k: "?fds ! i = fd" "i < length ?fds" using i by simp_all
  have m: "fd \<in> set (live ?fds)" using k i(3) nth_mem[OF k(2)] by (simp add: live_mem)
  then have o: "distinct (live ?fds)" "pfds_ok t" "fd \<in> set (live ?fds)" "set (live ?fds) \<inter> set (live (map fst ys)) = {}" "is_fd fd"
    using held by (auto simp: so.held_def)
  have h: "so.held B (t', ?fds[i := -1], map fst ys)"
    using so.kept_close[of i ?fds t t' B B] t k i(3) held by (auto simp: so.kept_def)
  have n: "fd \<notin> fst ` set (xs[i := (-1, n)])"
    using distinct_clear[OF o(1) k(2)] k(1) i(3) by (metis fst_conv list.set_map map_update)
  have m: "fd \<notin> fst ` set ys" using o(3,4) i(3) live_mem[of fd "map fst ys"] by auto
  have "points (map pfd (pmembers t)) (xs[i := (-1, n)])" by (rule points_update[OF p(1)]) simp
  then show ?thesis using h close_points[OF t o(2,5) _ n] close_points[OF t o(2,5) p(2) m] by (simp add: map_update)
qed

lemma live_less: "i < length fds \<Longrightarrow> fds ! i \<noteq> -1 \<Longrightarrow> length (live (fds[i := -1])) < length (live fds)"
  using live_drop[of i fds] by simp

lemma release_client_sinv:
  assumes "sinv B s" "cli_open i fd s"
  shows "post (release_client fd i s) (\<lambda>s'. sinv B s' \<and> ssrvs s' = ssrvs s \<and>
    length (live (map sc_fd (smembers (sclis s')))) < snumber (sclis s'))"
proof (rule postI)
  fix s' assume "release_client fd i s = Some s'"
  then obtain t' where t: "close_fd fd (spolls s) = Some t'"
      and s': "s' = s\<lparr>spolls := t', sclis := (sclis s)\<lparr>smembers := (smembers (sclis s))[i := setup_client (smembers (sclis s) ! i)]\<rparr>\<rparr>"
    by (auto simp: release_client_def on_polls_def on_cli_def fault_simps)
  let ?cs = "smembers (sclis s)"
  have i: "i < length ?cs" "sc_fd (?cs ! i) = fd" "fd \<noteq> -1" using assms(2) by (auto simp: cli_open_def)
  have l: "cli_links s' = (cli_links s)[i := (-1, sc_poll (?cs ! i))]" "srv_links s' = srv_links s"
    using i by (simp_all add: s' map_update setup_client_def)
  have f: "map sc_fd (smembers (sclis s')) = (map sc_fd ?cs)[i := -1]" by (simp add: s' map_update setup_client_def)
  have d: "length (live (map sc_fd (smembers (sclis s')))) < length (live (map sc_fd ?cs))"
    unfolding f by (rule live_less) (use i in auto)
  have "so.held B (spolls s', map fst (cli_links s'), map fst (srv_links s')) \<and> points (polled_fds s') (cli_links s') \<and>
      points (polled_fds s') (srv_links s')"
    unfolding l using close_links[OF t, of B "cli_links s" "srv_links s" i] assms(1) i
    by (simp add: sinv_def polled_fds_def s')
  moreover have "clients_ok (sclis s')" "servers_ok (ssrvs s')" using assms(1) d by (auto simp: sinv_def clients_ok_def s')
  ultimately show "sinv B s' \<and> ssrvs s' = ssrvs s \<and> length (live (map sc_fd (smembers (sclis s')))) < snumber (sclis s')"
    using assms(1) d by (auto simp: sinv_def clients_ok_def s')
qed

lemma sinv_dec_clients:
  "sinv B s \<Longrightarrow> length (live (map sc_fd (smembers (sclis s)))) < snumber (sclis s) \<Longrightarrow>
     sinv B (s\<lparr>sclis := (sclis s)\<lparr>snumber := size_dec (snumber (sclis s))\<rparr>\<rparr>)"
  by (auto simp: sinv_def clients_ok_def size_dec_def polled_fds_def)

lemma close_client_sinv:
  assumes "sinv B s"
  shows "post (close_client i s) (\<lambda>s'. sinv B s' \<and> ssrvs s' = ssrvs s)"
  unfolding close_client_def
proof (rule post_pure, rule post_if)
  fix c assume c: "get_at (smembers (sclis s)) i = Some c" "0 \<le> sc_fd c"
  show "post (do {
      s \<leftarrow> unsubscribe i s;
      s \<leftarrow> release_client (sc_fd c) i s;
      Some (s\<lparr>sclis := (sclis s)\<lparr>snumber := size_dec (snumber (sclis s))\<rparr>\<rparr>) }) (\<lambda>s'. sinv B s' \<and> ssrvs s' = ssrvs s)"
  proof (rule post_bind[OF unsubscribe_scach])
    fix s1 assume s1: "s1 = s\<lparr>scach := scach s1\<rparr>" "unsubscribe i s = Some s1"
    then have m: "mild s s1" by (metis mild_records(1))
    have "cli_open i (sc_fd c) s" using c by (auto simp: cli_open_def)
    then have "sinv B s1" "cli_open i (sc_fd c) s1" "ssrvs s1 = ssrvs s"
      using mild_sinv[OF m] mild_open(1)[OF m] assms arg_cong[OF s1(1), of ssrvs] by simp_all
    then show "post (release_client (sc_fd c) i s1 \<bind> (\<lambda>s. Some (s\<lparr>sclis := (sclis s)\<lparr>snumber := size_dec (snumber (sclis s))\<rparr>\<rparr>)))
        (\<lambda>s'. sinv B s' \<and> ssrvs s' = ssrvs s)"
      by (intro post_bind[OF release_client_sinv]) (auto intro: sinv_dec_clients)
  qed
qed (simp add: assms)

lemma run_turns_post:
  assumes "\<And>x s. I s \<Longrightarrow> post (f x s) I" "I s"
  shows "post (run_turns f xs s) I"
  using assms(2) by (induction xs arbitrary: s) (auto intro: post_bind[OF assms(1)])

lemma close_subs_sinv:
  assumes "sinv B s"
  shows "post (run_turns (with_sub close_client k) xs s) (\<lambda>s'. sinv B s' \<and> ssrvs s' = ssrvs s)"
proof (rule run_turns_post)
  fix x s1 assume I: "sinv B s1 \<and> ssrvs s1 = ssrvs s"
  have "post (close_client i s1) (\<lambda>s'. sinv B s' \<and> ssrvs s' = ssrvs s)" for i
    using close_client_sinv[of B s1 i] I by simp
  then show "post (with_sub close_client k x s1) (\<lambda>s'. sinv B s' \<and> ssrvs s' = ssrvs s)"
    unfolding with_sub_def using I by (intro post_pure post_option) auto
qed (use assms in simp)

lemma close_server_sinv:
  assumes "sinv B s" "srv_open j fd s"
  shows "post (close_server fd j s) (sinv B)"
proof (rule postI)
  fix s' assume "close_server fd j s = Some s'"
  then obtain t' where t: "close_fd fd (spolls s) = Some t'"
      and s': "s' = s\<lparr>spolls := t', ssrvs := (ssrvs s)\<lparr>vmembers := (vmembers (ssrvs s))[j := setup_server (vmembers (ssrvs s) ! j)],
        vnumber := size_dec (vnumber (ssrvs s))\<rparr>\<rparr>"
    by (auto simp: close_server_def on_polls_def on_srv_def fault_simps)
  let ?vs = "vmembers (ssrvs s)"
  have j: "j < length ?vs" "ss_fd (?vs ! j) = fd" "fd \<noteq> -1" using assms(2) by (auto simp: srv_open_def)
  have l: "srv_links s' = (srv_links s)[j := (-1, ss_poll (?vs ! j))]" "cli_links s' = cli_links s"
    using j by (simp_all add: s' map_update setup_server_def)
  have f: "map ss_fd (vmembers (ssrvs s')) = (map ss_fd ?vs)[j := -1]" by (simp add: s' map_update setup_server_def)
  have d: "length (live (map ss_fd (vmembers (ssrvs s')))) < length (live (map ss_fd ?vs))"
    unfolding f by (rule live_less) (use j in auto)
  have "so.held B (spolls s', map fst (srv_links s'), map fst (cli_links s')) \<and> points (polled_fds s') (srv_links s') \<and>
      points (polled_fds s') (cli_links s')"
    unfolding l using close_links[OF t, of B "srv_links s" "cli_links s" j] assms(1) j
    by (simp add: sinv_def polled_fds_def s' so.held_swap)
  moreover have "clients_ok (sclis s')" "servers_ok (ssrvs s')" using assms(1) d by (auto simp: sinv_def servers_ok_def size_dec_def s')
  ultimately show "sinv B s'" by (simp add: sinv_def so.held_swap)
qed

lemma close_server_and_subscribers_sinv:
  assumes "sinv B s" "srv_open j fd s"
  shows "post (close_server_and_subscribers j s) (sinv B)"
  unfolding close_server_and_subscribers_def
  by (intro post_pure post_bind[OF close_subs_sinv[OF assms(1)]] close_server_sinv)
    (use assms(2) in \<open>auto simp: srv_open_def\<close>)

subsection \<open>Opening\<close>

text \<open>What is assumed of \<open>socket\<close> and \<open>accept\<close>: a new descriptor is not in use.\<close>

definition new_fds :: "senv \<Rightarrow> bool" where
  "new_fds e \<longleftrightarrow> (\<forall>t. s_socket e t = -1 \<or> is_fd (s_socket e t) \<and> seen t (s_socket e t) = None)"

lemma points_slot:
  assumes "points fds xs" "slot_taken fd i fds fds'" "fd \<noteq> -1"
  shows "points fds' xs" "points fds' (xs[k := (fd, i)])"
proof -
  have t: "i < length fds \<longrightarrow> fds ! i = -1" "i < length fds'" "length fds \<le> length fds'" "fds' ! i = fd"
      "\<And>j. j < length fds' \<Longrightarrow> j \<noteq> i \<Longrightarrow> fds' ! j = (if j < length fds then fds ! j else -1)"
    using assms(2) by (auto simp: slot_taken_def)
  show p: "points fds' xs"
  proof (rule points_other[OF assms(1)])
    fix f j assume j: "f \<noteq> -1" "j < length fds" "fds ! j = f"
    then have "j \<noteq> i" using t(1) by auto
    then show "j < length fds' \<and> fds' ! j = f" using t(5)[of j] t(3) j by simp
  qed
  show "points fds' (xs[k := (fd, i)])" by (rule points_update[OF p]) (use assms(2) in \<open>simp add: slot_taken_def\<close>)
qed

lemma points_grown: "points fds xs \<Longrightarrow> points fds (xs @ replicate k (-1, n))"
  by (auto simp: points_def)

lemma add_fd_links:
  assumes "pfds_ok t" "is_fd fd" "add_fd_to_poll junk fd ev t = Some (pi, t')"
  shows "\<exists>i. pi = int i \<and> slot_taken fd i (map pfd (pmembers t)) (map pfd (pmembers t'))"
  using sa.alloc_slot[of fd t junk ev] assms by (auto simp: is_fd_def)

lemma open_sinv:
  assumes s: "sinv B s" and fd: "is_fd fd" "seen (spolls s) fd = None"
    and t: "add_fd_to_poll junk fd ev (spolls s) = Some (pi, t')"
  shows "add_fd_to_clients b g (nat pi) fd (sclis s) = Some (k, c') \<Longrightarrow> sinv B (s\<lparr>spolls := t', sclis := c'\<rparr>)"
    "add_fd_to_servers g (nat pi) q fd (ssrvs s) = Some (k, v') \<Longrightarrow> sinv B (s\<lparr>spolls := t', ssrvs := v'\<rparr>)"
proof -
  have ok: "pfds_ok (spolls s)" "clients_ok (sclis s)" "servers_ok (ssrvs s)" using s by (auto simp: sinv_def so.held_def)
  obtain i where i: "pi = int i" "slot_taken fd i (polled_fds s) (map pfd (pmembers t'))"
    using add_fd_links[OF ok(1) fd(1) t] by (auto simp: polled_fds_def)
  have n: "fd \<noteq> -1" "0 \<le> fd" using fd(1) by (auto simp: is_fd_def)
  have a: "map_option snd (add_fd_to_poll junk fd ev (spolls s)) = Some t'" using t by simp
  have p: "points (map pfd (pmembers t')) (cli_links s)" "points (map pfd (pmembers t')) (srv_links s)"
    using points_slot(1)[OF _ i(2) n(1)] s by (auto simp: sinv_def)
  let ?h = "so.held B (spolls s, map fst (cli_links s), map fst (srv_links s))"
  have h: "?h" using s by (simp add: sinv_def)
  show "sinv B (s\<lparr>spolls := t', sclis := c'\<rparr>)" if c: "add_fd_to_clients b g (nat pi) fd (sclis s) = Some (k, c')"
  proof -
    obtain m cs where m: "m < length cs" "smembers c' = cs[m := (cs ! m)\<lparr>sc_fd := fd, sc_processed := True, sc_poll := i\<rparr>]"
        "\<exists>n. cs = smembers (sclis s) @ init_clients_members b g n" "clients_ok c'"
      using add_client_slot[OF ok(2) n(1), of b g i] c i(1) by auto
    then obtain q where q: "map (\<lambda>c. (sc_fd c, sc_poll c)) cs = cli_links s @ replicate q (-1, g)"
      by (auto simp: init_clients_members_def init_client_def setup_client_def)
    obtain j where "slot_taken fd j (map sc_fd (smembers (sclis s))) (map sc_fd (smembers c'))"
      using sl.alloc_slot[OF n(2) ok(2), of b g "nat pi"] c by auto
    then have "so.held B (t', map sc_fd (smembers c'), map fst (srv_links s))"
      using so.kept_open[OF fd(1) _ a, of B "map fst (cli_links s)" "map fst (srv_links s)" j] fd(2) h by (simp add: so.kept_def comp_def)
    moreover have "map (\<lambda>c. (sc_fd c, sc_poll c)) (smembers c') = (cli_links s @ replicate q (-1, g))[m := (fd, i)]"
      unfolding m(2) q[symmetric] by (simp add: map_update)
    then have "points (map pfd (pmembers t')) (map (\<lambda>c. (sc_fd c, sc_poll c)) (smembers c'))"
      using points_slot(2)[OF points_grown i(2) n(1)] s by (simp add: sinv_def)
    ultimately show ?thesis using m(4) ok p by (simp add: sinv_def polled_fds_def comp_def)
  qed
  show "sinv B (s\<lparr>spolls := t', ssrvs := v'\<rparr>)" if v: "add_fd_to_servers g (nat pi) q fd (ssrvs s) = Some (k, v')"
  proof -
    obtain m vs where m: "m < length vs" "vmembers v' = vs[m := (vs ! m)\<lparr>ss_fd := fd, ss_processed := True, ss_poll := i, ss_request := Some q\<rparr>]"
        "\<exists>n. vs = vmembers (ssrvs s) @ init_servers_members n g" "servers_ok v'"
      using add_server_slot[OF ok(3) n(1), of g i q] v i(1) by auto
    then obtain r where r: "map (\<lambda>v. (ss_fd v, ss_poll v)) vs = srv_links s @ replicate r (-1, g)"
      by (auto simp: init_servers_members_def setup_server_def)
    obtain j where "slot_taken fd j (map ss_fd (vmembers (ssrvs s))) (map ss_fd (vmembers v'))"
      using sv2.alloc_slot[OF n(2) ok(3), of g "nat pi" q] v by auto
    then have "so.held B (t', map fst (cli_links s), map ss_fd (vmembers v'))"
      using so.kept_open_right[OF fd(1) _ a, of B "map fst (cli_links s)" "map fst (srv_links s)" j] fd(2) h by (simp add: so.kept_def comp_def)
    moreover have "map (\<lambda>v. (ss_fd v, ss_poll v)) (vmembers v') = (srv_links s @ replicate r (-1, g))[m := (fd, i)]"
      unfolding m(2) r[symmetric] by (simp add: map_update)
    then have "points (map pfd (pmembers t')) (map (\<lambda>v. (ss_fd v, ss_poll v)) (vmembers v'))"
      using points_slot(2)[OF points_grown i(2) n(1)] s by (simp add: sinv_def)
    ultimately show ?thesis using m(4) ok p by (simp add: sinv_def polled_fds_def comp_def)
  qed
qed

subsection \<open>The handlers of clients\<close>

lemma sinv_mild: "sinv B s \<Longrightarrow> post m (mild s) \<Longrightarrow> post m (sinv B)"
  by (erule post_weaken) (simp add: mild_sinv)

lemma sinv_bind: "sinv B s \<Longrightarrow> post m (sinv B) \<Longrightarrow> (\<And>s1. sinv B s1 \<Longrightarrow> post (f s1) (sinv B)) \<Longrightarrow> post (m \<bind> f) (sinv B)"
  by (rule post_bind)

lemma mild_bind:
  assumes "sinv B s" "post m (mild s)" "\<And>s1. sinv B s1 \<Longrightarrow> mild s s1 \<Longrightarrow> post (f s1) (sinv B)"
  shows "post (m \<bind> f) (sinv B)"
  by (rule post_bind[OF assms(2)], rule assms(3)) (simp_all add: mild_sinv assms(1))

lemma close_client_keeps: "sinv B s \<Longrightarrow> post (close_client i s) (sinv B)"
  by (erule post_weaken[OF close_client_sinv]) simp

lemma release_client_keeps: "sinv B s \<Longrightarrow> cli_open i fd s \<Longrightarrow> post (release_client fd i s) (sinv B)"
  by (erule (1) post_weaken[OF release_client_sinv]) simp

lemma sinv_full_table:
  assumes "sinv B s" "is_fd fd" "seen (spolls s) fd = None" "add_fd_to_poll junk fd ev (spolls s) = Some (pi, t')"
  shows "0 \<le> pi"
  using add_fd_links[of "spolls s" fd junk ev pi t'] assms by (auto simp: sinv_def so.held_def)

lemma open_server_sinv:
  assumes "sinv B s" "is_fd fd" "seen (spolls s) fd = None"
  shows "post (open_server e i fd path s) (sinv B)"
  unfolding open_server_def
proof (rule post_pure, rule post_prod, rule post_if)
  fix x pi t assume a: "add_fd_to_poll (s_junk e) fd POLLOUT (spolls s) = Some x" "x = (pi, t)"
  then have add: "add_fd_to_poll (s_junk e) fd POLLOUT (spolls s) = Some (pi, t)" by simp
  show "post (Some (s\<lparr>spolls := t\<rparr>)) (sinv B)" if "pi < 0"
    using sinv_full_table[OF assms add] that by simp
  show "post (do {
      (j, v) \<leftarrow> add_fd_to_servers (s_garbage e) (nat pi) (moves (sclis s), i) fd (ssrvs s);
      if j < 0 then Some (s\<lparr>spolls := t, ssrvs := v\<rparr>) else publish i (nat j) path (s\<lparr>spolls := t, ssrvs := v\<rparr>) }) (sinv B)"
    by (rule post_pure, rule post_prod)
      (use open_sinv(2)[OF assms add] in \<open>auto intro: sinv_mild[OF _ publish_mild]\<close>)
qed

lemma fetch_sinv:
  assumes "sinv B s" "new_fds e"
  shows "post (fetch e i q path s) (sinv B)"
proof -
  have "s_socket e (spolls s) = -1 \<or> is_fd (s_socket e (spolls s)) \<and> seen (spolls s) (s_socket e (spolls s)) = None"
    using assms(2) by (simp add: new_fds_def)
  then have "post (if s_socket e (spolls s) = -1 then close_client i s else open_server e i (s_socket e (spolls s)) path s) (sinv B)"
    using close_client_keeps[OF assms(1)] open_server_sinv[OF assms(1)] by auto
  then show ?thesis unfolding fetch_def
    using assms(1) close_client_keeps[OF assms(1)] by (intro post_pure) (simp split: sum.split, auto intro!: post_pure)
qed

lemma serve_sinv: "sinv B s \<Longrightarrow> new_fds e \<Longrightarrow> post (serve e i q s) (sinv B)"
  unfolding serve_def
  by (intro post_pure post_option post_if) (auto intro: fetch_sinv sinv_mild[OF _ join_node_mild])

lemma receive_from_client_sinv:
  assumes "sinv B s" "new_fds e"
  shows "post (receive_from_client P e i s) (sinv B)"
  unfolding receive_from_client_def Let_def
  by (rule post_pure, rule post_option, rule close_client_keeps[OF assms(1)], rule post_pure, rule post_pure,
      rule mild_bind[OF assms(1) on_cli_mild], simp)
    (intro post_if post_pure close_client_keeps serve_sinv assms(2), simp_all)

lemma finish_client_sinv:
  assumes "sinv B s" "cli_open i (sc_fd c) s"
  shows "post (finish_client i c r s) (sinv B)"
  unfolding finish_client_def
proof (rule mild_bind[OF assms(1) unsubscribe_mild])
  fix s1 assume s1: "sinv B s1" "mild s s1"
  have m: "post (if rs_status r \<noteq> 200 then do {
      assertm (0 \<le> sc_node c \<and> sc_node c < int (length (snodes (scach s1))));
      on_node (nat (sc_node c)) clear_cache_node s1 } else Some s1) (mild s1)"
    by (intro post_if post_pure on_node_mild) simp
  show "post (do {
      s \<leftarrow> (if rs_status r \<noteq> 200 then do {
              assertm (0 \<le> sc_node c \<and> sc_node c < int (length (snodes (scach s1))));
              on_node (nat (sc_node c)) clear_cache_node s1 } else Some s1);
      release_client (sc_fd c) i s }) (sinv B)"
    by (rule mild_bind[OF s1(1) m], rule release_client_keeps) (use assms(2) s1(2) in \<open>simp_all add: mild_open\<close>)
qed

lemma send_to_client_sinv:
  assumes "sinv B s" "cli_open i (sc_fd (smembers (sclis s) ! i)) s"
  shows "post (send_to_client e i s) (sinv B)"
  unfolding send_to_client_def Let_def
proof (rule post_pure, rule post_pure, rule post_pure, rule post_pure, rule post_if)
  fix c k r bs assume "get_at (smembers (sclis s)) i = Some c"
  then have o: "cli_open i (sc_fd c) s" using assms(2) by auto
  show "post (release_client (sc_fd c) i s) (sinv B)" by (rule release_client_keeps[OF assms(1) o])
  have i: "sinv B (s\<lparr>ssent := l\<rparr>)" "cli_open i (sc_fd c) (s\<lparr>ssent := l\<rparr>)" for l
    using assms(1) o mild_sinv[OF mild_records(2)] mild_open(1)[OF mild_records(2)] by blast+
  have ev: "post (if b then on_polls (set_events p ev) s1 else Some s1) (mild s1)" for b p ev s1
    by (simp add: events_mild)
  show "post (do {
      s \<leftarrow> on_cli i (\<lambda>c. c\<lparr>sc_written := w\<rparr>) (s\<lparr>ssent := l\<rparr>);
      s \<leftarrow> (if b then on_polls (set_events p 0) s else Some s);
      done \<leftarrow> q;
      if done then finish_client i c r s else Some s }) (sinv B)" for w l b p q
    by (rule mild_bind[OF i(1) on_cli_mild], simp, rule mild_bind[OF _ ev], assumption, rule post_pure, rule post_if,
        rule finish_client_sinv) (use i(2)[of l] in \<open>simp_all add: mild_open\<close>)
qed

lemma client_turn_sinv:
  assumes "sinv B s" "new_fds (es i)"
  shows "post (client_turn P es i s) (sinv B)"
  unfolding client_turn_def
  by (intro post_pure post_if close_client_keeps receive_from_client_sinv send_to_client_sinv assms)
    (use assms(1) in \<open>auto simp: cli_open_def\<close>)

subsection \<open>The handlers of servers\<close>

lemma send_to_server_sinv:
  assumes "sinv B s" "srv_open j (ss_fd (vmembers (ssrvs s) ! j)) s"
  shows "post (send_to_server e j s) (sinv B)"
proof -
  have m: "post (if b then on_polls (set_events p ev) s else Some s) (mild s)" for b p ev
    by (simp add: events_mild)
  have i: "sinv B s1 \<Longrightarrow> sinv B (s1\<lparr>ssent := l\<rparr>)" for s1 l
    using mild_sinv[OF mild_records(2)] by blast
  show ?thesis unfolding send_to_server_def Let_def
    by (rule post_pure, rule post_pure, rule post_pure, rule post_pure, rule post_if,
        rule close_server_and_subscribers_sinv[OF assms], rule mild_bind[OF assms(1) m],
        rule sinv_mild[OF i on_srv_mild]) simp_all
qed

text \<open>Steps with a result that says whether to go on: the state is mild then.\<close>

definition gentle :: "int set \<Rightarrow> nat \<Rightarrow> int \<Rightarrow> shuvalov \<Rightarrow> bool \<times> shuvalov \<Rightarrow> bool" where
  "gentle B j fd s x \<longleftrightarrow> sinv B (snd x) \<and> (fst x \<longrightarrow> mild s (snd x))"

lemma gentle_stop:
  assumes "sinv B s" "srv_open j fd s"
  shows "post (close_server_and_subscribers j s \<bind> (\<lambda>s. Some (False, s))) (gentle B j fd s0)"
  by (rule post_bind[OF close_server_and_subscribers_sinv[OF assms]]) (simp add: gentle_def)

lemma gentle_go: "sinv B s \<Longrightarrow> mild s0 s \<Longrightarrow> post (Some (True, s)) (gentle B j fd s0)"
  by (simp add: gentle_def)

lemma gentle_resp:
  assumes "sinv B s" "mild s0 s" "\<And>s1. sinv B s1 \<Longrightarrow> mild s0 s1 \<Longrightarrow> post (f s1) (gentle B j fd s0)"
  shows "post (on_resp k g s \<bind> f) (gentle B j fd s0)"
  by (rule post_bind[OF on_resp_mild], rule assms(3)) (use assms(1,2) mild_sinv mild_trans in blast)+

lemma store_answer_gentle:
  assumes "sinv B s" "srv_open j fd s"
  shows "post (store_answer e j k bs s) (gentle B j fd s)"
  unfolding store_answer_def Let_def
  by (intro post_pure post_if gentle_resp[OF assms(1) mild_refl] gentle_go gentle_stop) (use assms(2) in \<open>simp_all add: mild_open\<close>)

lemma find_length_gentle:
  assumes "sinv B s" "srv_open j fd s"
  shows "post (find_length e j k hs s) (gentle B j fd s)"
proof -
  have "post (case h of Inl n \<Rightarrow> if n = 2 then do { s \<leftarrow> close_server_and_subscribers j s; Some (False, s) } else Some (True, s)
      | Inr v \<Rightarrow> do {
          v \<leftarrow> buffer_to_string b v;
          s \<leftarrow> on_resp k (\<lambda>r. r\<lparr>rs_content := int_of_long (strtol0 v)\<rparr>) s;
          Some (True, s) }) (gentle B j fd s)" for h :: "nat + string" and b
    using gentle_stop[OF assms] gentle_go[OF assms(1) mild_refl]
    by (cases h) (auto intro!: post_pure gentle_resp[OF assms(1) mild_refl] gentle_go)
  then show ?thesis unfolding find_length_def
    by (intro post_pure post_if gentle_go[OF assms(1) mild_refl])
qed

lemma gentle_weaken: "gentle B j fd s x \<Longrightarrow> mild s0 s \<Longrightarrow> gentle B j fd s0 x"
  unfolding gentle_def using mild_trans by blast

lemma parse_head_gentle:
  assumes "sinv B s" "srv_open j fd s"
  shows "post (parse_head P e j k prev s) (gentle B j fd s)"
  unfolding parse_head_def Let_def
proof (rule post_pure, rule post_if, rule gentle_go[OF assms(1) mild_refl], rule gentle_resp[OF assms(1) mild_refl])
  fix s1 :: shuvalov and r :: sresponse assume s1: "sinv B s1" "mild s s1"
  then have o: "srv_open j fd s1" using assms(2) by (simp add: mild_open)
  let ?rest = "\<lambda>(go, s). if go then do { s \<leftarrow> find_head k s; Some (True, s) } else Some (False, s)"
  have "post (?rest x) (gentle B j fd s)" if "gentle B j fd s1 x" for x
  proof (cases x)
    case (Pair go s2)
    have "post (find_head k s2 \<bind> (\<lambda>s. Some (True, s))) (gentle B j fd s)" if "mild s s2" "sinv B s2"
      by (rule post_bind[OF find_head_mild]) (use that in \<open>auto simp: gentle_def mild_sinv intro: mild_trans\<close>)
    moreover have "mild s s2" if go using that \<open>gentle B j fd s1 x\<close> s1(2) mild_trans by (auto simp: Pair gentle_def)
    ultimately show ?thesis using that by (auto simp: Pair gentle_def)
  qed
  then show "post (find_length e j k (a_headers (p_response P (take (rs_len r) (rs_buf r)) prev)) s1 \<bind> ?rest) (gentle B j fd s)"
    by (rule post_bind[OF find_length_gentle[OF s1(1) o]])
qed

lemma finish_answer_sinv:
  assumes "sinv B s" "srv_open j (ss_fd (vmembers (ssrvs s) ! j)) s"
  shows "post (finish_answer j k s) (sinv B)"
  unfolding finish_answer_def
proof (rule mild_bind[OF assms(1) wake_mild], rule post_pure, rule post_pure, rule post_pure, rule post_if)
  fix s1 v assume s1: "sinv B s1" "mild s s1" and v: "get_at (vmembers (ssrvs s1)) j = Some v"
  have "srv_open j (ss_fd (vmembers (ssrvs s) ! j)) s1" using assms(2) s1(2) by (simp add: mild_open)
  then have "srv_open j (ss_fd v) s1" using v by (auto simp: srv_open_def)
  then show "post (close_server (ss_fd v) j s1) (sinv B)" by (rule close_server_sinv[OF s1(1)])
qed simp

lemma finish_answer_open:
  "sinv B s \<Longrightarrow> srv_open j fd s \<Longrightarrow> post (finish_answer j k s) (sinv B)"
  by (rule finish_answer_sinv) (auto simp: srv_open_def)

lemma receive_from_server_sinv:
  assumes "sinv B s" "srv_open j fd s"
  shows "post (receive_from_server P e j s) (sinv B)"
proof -
  have fin: "post (if go then finish_answer j k s2 else Some s2) (sinv B)" if "gentle B j fd s (go, s2)" for go s2 k
    using that assms(2) by (auto simp: gentle_def mild_open intro: finish_answer_open)
  have parse: "post (if \<not> go then Some s1 else do {
      (go, s) \<leftarrow> parse_head P e j k n s1;
      if go then finish_answer j k s else Some s }) (sinv B)" if g: "gentle B j fd s (go, s1)" for go s1 k n
  proof (cases go)
    case True
    then have m: "mild s s1" "sinv B s1" using g by (auto simp: gentle_def)
    then have o: "srv_open j fd s1" using assms(2) by (simp add: mild_open)
    have "post (parse_head P e j k n s1) (gentle B j fd s)"
      by (rule post_weaken[OF parse_head_gentle[OF m(2) o]]) (rule gentle_weaken[OF _ m(1)])
    then show ?thesis using True by (auto intro!: post_bind post_prod fin)
  qed (use g in \<open>simp add: gentle_def\<close>)
  show ?thesis unfolding receive_from_server_def
    by (rule post_pure, rule post_pure, rule post_pure, rule post_option, rule close_server_and_subscribers_sinv[OF assms],
        rule post_if, rule close_server_and_subscribers_sinv[OF assms], rule post_bind[OF store_answer_gentle[OF assms]],
        rule post_prod) (simp only: prod.case, rule parse, simp)
qed

lemma server_turn_sinv:
  assumes "sinv B s"
  shows "post (server_turn P es j s) (sinv B)"
  unfolding server_turn_def
proof (rule post_pure, rule post_if)
  fix v assume v: "get_at (vmembers (ssrvs s)) j = Some v" "\<not> (ss_fd v = -1 \<or> ss_processed v)"
  then have o: "srv_open j (ss_fd v) s" "srv_open j (ss_fd (vmembers (ssrvs s) ! j)) s" by (auto simp: srv_open_def)
  have "post (connect_to_server (es j) j s) (sinv B)" unfolding connect_to_server_def
    by (intro post_if sinv_mild[OF assms on_srv_mild] close_server_and_subscribers_sinv[OF assms o(1)]) simp
  then show "post (do {
      p \<leftarrow> get_at (pmembers (spolls s)) (ss_poll v);
      if revents p AND POLLERR = POLLERR then close_server_and_subscribers j s
      else if revents p AND (POLLOUT OR POLLHUP) = POLLOUT OR POLLHUP then connect_to_server (es j) j s
      else if revents p AND POLLHUP = POLLHUP then close_server_and_subscribers j s
      else if revents p AND POLLOUT = POLLOUT then send_to_server (es j) j s
      else if revents p AND POLLIN = POLLIN then receive_from_server P (es j) j s
      else Some s }) (sinv B)"
    by (intro post_pure post_if close_server_and_subscribers_sinv[OF assms o(1)] send_to_server_sinv[OF assms o(2)]
        receive_from_server_sinv[OF assms o(1)]) (simp_all add: assms)
qed (simp add: assms)

subsection \<open>The main loop\<close>

lemma accept_client_sinv:
  assumes "sinv B s" "new_fds e"
  shows "post (accept_client e s) (sinv B)"
  unfolding accept_client_def Let_def
proof (rule post_pure, rule post_if, simp add: assms(1), rule post_pure, rule post_prod, rule post_if)
  fix q :: pollfd and x pi t
  assume "\<not> (revents q AND POLLIN = 0 \<or> s_socket e (spolls s) < 0)"
    and a: "add_fd_to_poll (s_junk e) (s_socket e (spolls s)) POLLIN (spolls s) = Some x" "x = (pi, t)"
  then have fd: "is_fd (s_socket e (spolls s))" "seen (spolls s) (s_socket e (spolls s)) = None"
    and add: "add_fd_to_poll (s_junk e) (s_socket e (spolls s)) POLLIN (spolls s) = Some (pi, t)"
    using assms(2) by (auto simp: new_fds_def dest: spec[of _ "spolls s"])
  show "post (Some (s\<lparr>spolls := t\<rparr>)) (sinv B)" if "pi < 0" using sinv_full_table[OF assms(1) fd add] that by simp
  show "post (do {
      (_, c) \<leftarrow> add_fd_to_clients (map (s_noise e) [0..<BUF_SIZE]) (s_garbage e) (nat pi) (s_socket e (spolls s)) (sclis s);
      Some (s\<lparr>spolls := t, sclis := c\<rparr>) }) (sinv B)"
    by (rule post_pure, rule post_prod) (use open_sinv(1)[OF assms(1) fd add] in auto)
qed

lemma process_clients_sinv: "sinv B s \<Longrightarrow> (\<And>i. new_fds (es i)) \<Longrightarrow> post (process_clients P es s) (sinv B)"
  unfolding process_clients_def by (rule run_turns_post[OF client_turn_sinv])

lemma process_servers_sinv: "sinv B s \<Longrightarrow> post (process_servers P es s) (sinv B)"
  unfolding process_servers_def by (rule run_turns_post[OF server_turn_sinv])

lemma shuvalov_turn_sinv:
  assumes "sinv B s" "new_fds (t_accept x)" "\<And>i. new_fds (t_clients x i)"
  shows "post (shuvalov_turn P x s) (\<lambda>(_, s'). sinv B s')"
proof -
  let ?s = "case t_poll x of PollReady revs \<Rightarrow> s\<lparr>spolls := ppoll_returns revs (spolls s)\<rparr> | _ \<Rightarrow> s"
  have s: "sinv B ?s" using assms(1) mild_sinv[OF ppoll_mild] by (cases "t_poll x") simp_all
  have c: "post (run_turns clear_processed [0..<INIT_FDS_SIZE] s1 \<bind> (\<lambda>s. Some (None, s))) (\<lambda>(_, s'). sinv B s')" if "sinv B s1" for s1
    by (rule post_bind[OF sinv_mild[OF that run_turns_mild[OF clear_processed_mild]]]) simp
  show ?thesis unfolding shuvalov_turn_def Let_def
    by (rule post_if, simp add: assms(1), rule post_pure, rule post_if, simp add: s,
        rule post_bind[OF accept_client_sinv[OF s assms(2)]], rule post_bind[OF process_clients_sinv[OF _ assms(3)]], assumption,
        rule post_bind[OF process_servers_sinv], assumption, rule c)
qed

inductive shuvalov_run :: "parsers \<Rightarrow> shuvalov \<Rightarrow> shuvalov \<Rightarrow> bool" for P s0 where
  start: "shuvalov_run P s0 s0"
| turn: "shuvalov_run P s0 s \<Longrightarrow> shuvalov_turn P x s = Some (None, s') \<Longrightarrow> new_fds (t_accept x) \<Longrightarrow>
    (\<And>i. new_fds (t_clients x i)) \<Longrightarrow> shuvalov_run P s0 s'"

lemma run_sinv: "shuvalov_run P s0 s \<Longrightarrow> sinv B s0 \<Longrightarrow> sinv B s"
proof (induction rule: shuvalov_run.induct)
  case (turn s x s')
  then show ?case using shuvalov_turn_sinv[of B s x P] by (simp add: post_def)
qed

text \<open>The state that \<open>main\<close> starts with.\<close>

lemma main_start:
  assumes "shuvalov_main args e lf sf listen_fd signal_fd = Some (Go s)"
  obtains i j t0 t1 where "init_poll_fds False (map (s_junk e) [0..<INIT_FDS_SIZE]) = Some t0"
    "add_fd_to_poll (s_junk e) listen_fd POLLIN t0 = Some (i, t1)" "add_fd_to_poll (s_junk e) signal_fd POLLIN t1 = Some (j, spolls s)"
    "sclis s = \<lparr>smembers = init_clients_members (map (s_noise e) [0..<BUF_SIZE]) (s_garbage e) INIT_FDS_SIZE, snumber = 0, moves = 0\<rparr>"
    "ssrvs s = \<lparr>vmembers = init_servers_members INIT_FDS_SIZE (s_garbage e), vnumber = 0\<rparr>"
proof -
  note d = assms[unfolded shuvalov_main_def Let_def init_clients_def init_servers_def]
  from d obtain t0 where t0: "init_poll_fds (s_oom e ''poll_fds'') (map (s_junk e) [0..<INIT_FDS_SIZE]) = Some t0"
    by (auto simp: fault_simps simp del: upt_rec_numeral split: option.splits if_splits)
  then have t0': "init_poll_fds False (map (s_junk e) [0..<INIT_FDS_SIZE]) = Some t0" by (simp add: init_poll_fds_def split: if_splits)
  obtain i j t1 where "add_fd_to_poll (s_junk e) listen_fd POLLIN t0 = Some (i, t1)" "add_fd_to_poll (s_junk e) signal_fd POLLIN t1 = Some (j, spolls s)"
      "sclis s = \<lparr>smembers = init_clients_members (map (s_noise e) [0..<BUF_SIZE]) (s_garbage e) INIT_FDS_SIZE, snumber = 0, moves = 0\<rparr>"
      "ssrvs s = \<lparr>vmembers = init_servers_members INIT_FDS_SIZE (s_garbage e), vnumber = 0\<rparr>"
    using d t0 by (auto simp: fault_simps simp del: upt_rec_numeral split: option.splits if_splits prod.splits)
  with t0' show thesis by (rule that)
qed

lemma init_poll_seen:
  "init_poll_fds False cells = Some t \<Longrightarrow> cells \<noteq> [] \<Longrightarrow> pfds_ok t \<and> seen t = Map.empty"
  using pfds_map_all_free[of "pmembers t"]
  by (auto simp: init_poll_fds_def init_poll_fds_members_def pfds_ok_def unique_fds_def seen_def filter_map comp_def)

lemma main_sinv:
  assumes "shuvalov_main args e lf sf listen_fd signal_fd = Some (Go s)" "is_fd listen_fd" "is_fd signal_fd" "listen_fd \<noteq> signal_fd"
  shows "sinv {listen_fd, signal_fd} s"
proof -
  obtain i j t0 t1 where t: "init_poll_fds False (map (s_junk e) [0..<INIT_FDS_SIZE]) = Some t0"
      "add_fd_to_poll (s_junk e) listen_fd POLLIN t0 = Some (i, t1)" "add_fd_to_poll (s_junk e) signal_fd POLLIN t1 = Some (j, spolls s)"
      "sclis s = \<lparr>smembers = init_clients_members (map (s_noise e) [0..<BUF_SIZE]) (s_garbage e) INIT_FDS_SIZE, snumber = 0, moves = 0\<rparr>"
      "ssrvs s = \<lparr>vmembers = init_servers_members INIT_FDS_SIZE (s_garbage e), vnumber = 0\<rparr>"
    by (rule main_start[OF assms(1)])
  have t0: "pfds_ok t0" "seen t0 = Map.empty" using init_poll_seen[OF t(1)] by (simp_all del: upt_rec_numeral)
  have t1: "pfds_ok t1" "seen t1 = [listen_fd \<mapsto> POLLIN]"
    using add_fd_seen[OF t0(1) assms(2), of "s_junk e" POLLIN] t(2) t0(2) by auto
  have t2: "pfds_ok (spolls s)" "seen (spolls s) = [listen_fd \<mapsto> POLLIN, signal_fd \<mapsto> POLLIN]"
    using add_fd_seen[OF t1(1) assms(3), of "s_junk e" POLLIN] t(3) t1(2) assms(4) by auto
  have l: "cli_links s = replicate INIT_FDS_SIZE (-1, s_garbage e)" "srv_links s = replicate INIT_FDS_SIZE (-1, s_garbage e)"
    unfolding t(4,5) init_clients_members_def init_servers_members_def
    by (simp_all only: sclients.select_convs sservers.select_convs map_replicate) (simp_all add: init_client_def setup_client_def setup_server_def)
  have f: "map sc_fd (smembers (sclis s)) = replicate INIT_FDS_SIZE (-1)" "map ss_fd (vmembers (ssrvs s)) = replicate INIT_FDS_SIZE (-1)"
    using arg_cong[OF l(1), of "map fst"] arg_cong[OF l(2), of "map fst"] by (simp_all only: map_map map_replicate comp_def fst_conv)
  have n: "live (replicate m (-1)) = []" for m by (simp add: live_def)
  have "clients_ok (sclis s)" "servers_ok (ssrvs s)" using f unfolding clients_ok_def servers_ok_def n t(4,5)
    by (simp_all add: init_clients_members_def init_servers_members_def n)
  moreover have "points (polled_fds s) (replicate m (-1, g))" for m g by (simp add: points_def)
  ultimately show ?thesis unfolding sinv_def l so.held_def
    by (simp only: map_replicate fst_conv conn_fds_simp n) (use t2 in auto)
qed

lemma points_connections:
  "points (polled_fds s) (map (\<lambda>c. (f c, g c)) xs) \<Longrightarrow>
     \<forall>c \<in> set xs. f c \<noteq> -1 \<longrightarrow> g c < length (pmembers (spolls s)) \<and> pfd (pmembers (spolls s) ! g c) = f c"
  by (auto simp: points_def polled_fds_def)


text \<open>A turn in which the first client connects.\<close>

lemma run_turns_id: "(\<And>x. x \<in> set xs \<Longrightarrow> f x s = Some s) \<Longrightarrow> run_turns f xs s = Some s"
  by (induction xs) auto

lemma idle_clients:
  "\<forall>c \<in> set (smembers (sclis s)). sc_fd c = -1 \<or> sc_processed c \<Longrightarrow> process_clients P es s = Some s"
  unfolding process_clients_def by (rule run_turns_id) (use nth_mem in \<open>auto simp: client_turn_def\<close>)

lemma idle_servers:
  "\<forall>v \<in> set (vmembers (ssrvs s)). ss_fd v = -1 \<or> ss_processed v \<Longrightarrow> process_servers P es s = Some s"
  unfolding process_servers_def by (rule run_turns_id) (use nth_mem in \<open>auto simp: server_turn_def\<close>)

lemma clear_total:
  "\<forall>i \<in> set xs. i < length (smembers (sclis s)) \<and> i < length (vmembers (ssrvs s)) \<Longrightarrow>
   \<exists>s'. run_turns clear_processed xs s = Some s'"
proof (induction xs arbitrary: s)
  case (Cons x xs)
  then obtain s1 where s1: "clear_processed x s = Some s1" by (auto simp: clear_processed_def on_srv_def on_cli_def)
  have "mild s s1" using clear_processed_mild s1 by (auto simp: post_def)
  then have "length (cli_links s1) = length (cli_links s)" "length (srv_links s1) = length (srv_links s)" by (simp_all add: mild_def)
  then show ?case using Cons s1 by auto
qed simp

lemma add_fd_at:
  assumes "pnumber t \<noteq> length (pmembers t)" "i < length (pmembers t)" "pfd (pmembers t ! i) = -1" "\<And>j. j < i \<Longrightarrow> pfd (pmembers t ! j) \<noteq> -1"
  shows "add_fd_to_poll junk fd ev t =
    Some (int i, t\<lparr>pmembers := (pmembers t)[i := (pmembers t ! i)\<lparr>pfd := fd, events := ev\<rparr>], pnumber := pnumber t + 1\<rparr>)"
  using loop_find_eqI[of i "length (pmembers t)" "pmembers t" "\<lambda>p. pfd p = -1"] assms
  by (simp add: add_fd_to_poll_def Let_def)

definition calm_env :: senv where
  "calm_env = \<lparr>s_read = None, s_write = -1, s_oom = (\<lambda>_. False), s_host = (\<lambda>_. True),
     s_socket = (\<lambda>t. if seen t 5 = None then 5 else -1), s_connects = True,
     s_junk = (\<lambda>_. \<lparr>pfd = 0, events = 0, revents = 0\<rparr>), s_noise = (\<lambda>_. CHR 0x00), s_garbage = 0\<rparr>"

definition no_parser :: parsers where
  "no_parser = \<lparr>p_request = (\<lambda>_ _. \<lparr>q_ret = -2, q_method = [], q_path = [], q_headers = []\<rparr>),
     p_response = (\<lambda>_ _. \<lparr>a_ret = -2, a_status = 0, a_headers = []\<rparr>)\<rparr>"

definition first_turn :: turn where
  "first_turn = \<lparr>t_poll = PollReady (\<lambda>i. if i = 0 then POLLIN else 0), t_signal = None, t_accept = calm_env,
     t_clients = (\<lambda>_. calm_env), t_servers = (\<lambda>_. calm_env)\<rparr>"

lemma calm_new_fds: "new_fds calm_env"
  by (simp add: new_fds_def calm_env_def is_fd_def INT_MAX_def)

lemma main_runs:
  "\<exists>s. shuvalov_main [] calm_env False False 3 4 = Some (Go s) \<and> pnumber (spolls s) = 2 \<and> length (pmembers (spolls s)) = INIT_FDS_SIZE \<and>
    pfd (pmembers (spolls s) ! 0) = 3 \<and> pfd (pmembers (spolls s) ! 1) = 4"
proof -
  define cells where "cells = map (s_junk calm_env) [0..<INIT_FDS_SIZE]"
  define ps where "ps = init_poll_fds_members cells"
  let ?t0 = "\<lparr>pmembers = ps, pnumber = 0, pclosed = []\<rparr>"
  have l: "length ps = INIT_FDS_SIZE" "\<And>i. i < INIT_FDS_SIZE \<Longrightarrow> pfd (ps ! i) = -1"
    by (simp_all add: ps_def cells_def init_poll_fds_members_def del: upt_rec_numeral)
  have c: "init_poll_fds False cells = Some ?t0" by (simp add: init_poll_fds_def ps_def)
  obtain t1 where t1: "add_fd_to_poll (s_junk calm_env) 3 POLLIN ?t0 = Some (0, t1)"
      "t1 = \<lparr>pmembers = ps[0 := (ps ! 0)\<lparr>pfd := 3, events := POLLIN\<rparr>], pnumber = 1, pclosed = []\<rparr>"
    using add_fd_at[of ?t0 0 "s_junk calm_env" 3 POLLIN] l by simp
  obtain t2 where t2: "add_fd_to_poll (s_junk calm_env) 4 POLLIN t1 = Some (1, t2)" "pnumber t2 = 2" "length (pmembers t2) = INIT_FDS_SIZE"
      "pfd (pmembers t2 ! 0) = 3" "pfd (pmembers t2 ! 1) = 4"
    using add_fd_at[of t1 1 "s_junk calm_env" 4 POLLIN] l by (simp add: t1(2))
  have o: "s_oom calm_env x = False" for x by (simp add: calm_env_def)
  have "\<exists>s. shuvalov_main [] calm_env False False 3 4 = Some (Go s) \<and> spolls s = t2"
    unfolding shuvalov_main_def Let_def cells_def[symmetric] o c init_clients_def init_servers_def init_cache_def parse_args_def
    using t1(1) t2(1) by simp
  then show ?thesis using t2 by metis
qed

lemma first_client: "\<exists>s0 s. shuvalov_main [] calm_env False False 3 4 = Some (Go s0) \<and> shuvalov_run P s0 s \<and>
    5 \<in> set (map sc_fd (smembers (sclis s)))"
proof -
  have f: "is_fd 3" "is_fd 4" "is_fd 5" "(3::int) \<noteq> 4" "(5::int) \<noteq> -1" by (simp_all add: is_fd_def INT_MAX_def)
  obtain s0 where m: "shuvalov_main [] calm_env False False 3 4 = Some (Go s0)" "length (pmembers (spolls s0)) = INIT_FDS_SIZE"
      "pfd (pmembers (spolls s0) ! 0) = 3" "pfd (pmembers (spolls s0) ! 1) = 4"
    using main_runs by blast
  obtain i j t0 t1 where c: "sclis s0 = \<lparr>smembers = init_clients_members (map (s_noise calm_env) [0..<BUF_SIZE]) (s_garbage calm_env) INIT_FDS_SIZE, snumber = 0, moves = 0\<rparr>"
      "ssrvs s0 = \<lparr>vmembers = init_servers_members INIT_FDS_SIZE (s_garbage calm_env), vnumber = 0\<rparr>"
    by (rule main_start[OF m(1)])
  define s1 where "s1 = s0\<lparr>spolls := ppoll_returns (\<lambda>i. if i = 0 then POLLIN else 0) (spolls s0)\<rparr>"
  let ?B = "{3, 4} :: int set"
  have i0: "sinv ?B s0" by (rule main_sinv[OF m(1) f(1,2,4)])
  then have i1: "sinv ?B s1" unfolding s1_def by (simp only: mild_sinv[OF ppoll_mild])
  have p: "revents (pmembers (spolls s1) ! 0) = POLLIN" "revents (pmembers (spolls s1) ! 1) = 0" "length (pmembers (spolls s1)) = INIT_FDS_SIZE"
    using m(2-4) by (simp_all add: s1_def ppoll_returns_def nth_enumerate_eq)
  have q: "sclis s1 = sclis s0" "ssrvs s1 = ssrvs s0" by (simp_all add: s1_def)
  have n: "seen (spolls s1) 5 = None"
  proof -
    have "map fst (cli_links s1) = replicate INIT_FDS_SIZE (-1)" "map fst (srv_links s1) = replicate INIT_FDS_SIZE (-1)"
      unfolding q c init_clients_members_def init_servers_members_def
      by (simp_all only: sclients.select_convs sservers.select_convs map_replicate fst_conv)
        (simp_all add: init_client_def setup_client_def setup_server_def)
    then have "dom (seen (spolls s1)) = ?B" using i1 by (simp add: sinv_def so.held_def live_def)
    then have "5 \<notin> dom (seen (spolls s1))" by simp
    then show ?thesis by (simp add: domIff)
  qed
  then have k: "s_socket calm_env (spolls s1) = 5" by (simp add: calm_env_def)
  have ok: "pfds_ok (spolls s1)" "clients_ok (sclis s1)" using i1 by (auto simp: sinv_def so.held_def)
  obtain pi t where t: "add_fd_to_poll (s_junk calm_env) 5 POLLIN (spolls s1) = Some (int pi, t)"
    using add_fd_slot[OF ok(1)] by blast
  obtain ci cs c' where a: "add_fd_to_clients (map (s_noise calm_env) [0..<BUF_SIZE]) (s_garbage calm_env) pi 5 (sclis s1) = Some (int ci, c')"
      "ci < length cs" "smembers c' = cs[ci := (cs ! ci)\<lparr>sc_fd := 5, sc_processed := True, sc_poll := pi\<rparr>]"
      "\<exists>k. cs = smembers (sclis s1) @ init_clients_members (map (s_noise calm_env) [0..<BUF_SIZE]) (s_garbage calm_env) k"
    using add_client_slot[OF ok(2) f(5)] by meson
  define s2 where "s2 = s1\<lparr>spolls := t, sclis := c'\<rparr>"
  have acc: "accept_client calm_env s1 = Some s2"
    unfolding accept_client_def Let_def k using p(1,3) t a(1) by (simp add: s2_def POLLIN_def del: upt_rec_numeral)
  have free: "\<forall>c \<in> set cs. sc_fd c = -1" using a(4)
    by (auto simp: q c init_clients_members_def init_client_def setup_client_def simp del: upt_rec_numeral)
  have idle: "\<forall>c \<in> set (smembers (sclis s2)). sc_fd c = -1 \<or> sc_processed c"
    using free by (auto simp: s2_def a(3) simp del: upt_rec_numeral dest!: subsetD[OF set_update_subset_insert])
  have idle': "\<forall>v \<in> set (vmembers (ssrvs s2)). ss_fd v = -1 \<or> ss_processed v"
    by (simp add: s2_def q c init_servers_members_def setup_server_def)
  have len: "INIT_FDS_SIZE \<le> length (smembers (sclis s2))" "INIT_FDS_SIZE \<le> length (vmembers (ssrvs s2))"
    using a(4) by (auto simp: s2_def a(3) q c init_servers_members_def init_clients_members_def simp del: upt_rec_numeral)
  obtain s3 where s3: "run_turns clear_processed [0..<INIT_FDS_SIZE] s2 = Some s3"
    using clear_total[of "[0..<INIT_FDS_SIZE]" s2] len by (auto simp del: upt_rec_numeral)
  have "mild s2 s3" using run_turns_mild[of clear_processed, OF clear_processed_mild, where xs = "[0..<INIT_FDS_SIZE]" and s = s2] s3 by (simp only: post_Some)
  then have "map fst (cli_links s3) = map fst (cli_links s2)" by (simp add: mild_def)
  then have c3: "map sc_fd (smembers (sclis s3)) = map sc_fd (smembers (sclis s2))" by (simp add: comp_def)
  have five: "5 \<in> set (map sc_fd (smembers (sclis s2)))"
    using a(2) set_update_memI[OF a(2), of "(cs ! ci)\<lparr>sc_fd := 5, sc_processed := True, sc_poll := pi\<rparr>"] by (force simp: s2_def a(3))
  have "shuvalov_turn P first_turn s0 = Some (None, s3)"
    unfolding shuvalov_turn_def Let_def first_turn_def
    using p(2,3) acc idle_clients[OF idle] idle_servers[OF idle'] s3
    by (simp add: s1_def[symmetric] process_signal_def POLLIN_def del: upt_rec_numeral)
  then have "shuvalov_run P s0 s3"
    by (rule shuvalov_run.turn[OF shuvalov_run.start]) (simp_all add: first_turn_def calm_new_fds)
  then show ?thesis using m(1) five c3 by metis
qed


end
