(* ===== verification/ShuLaws.thy ===== *)
theory ShuLaws
  imports ShuDescriptors "HOL-Library.Sublist"
begin

text \<open>
  More about \<open>shuvalov/31\<close>: the search for the end of a head is the search for the first occurrence, in the memory and not only
  in the bytes that were read; pointers to clients dangle once the table of clients has moved; and a client that
  shares a response may end the program.
\<close>

subsection \<open>The end of a head\<close>

lemma match_sub_prefix: "length sub \<le> length mem \<Longrightarrow> match_sub sub mem = Some (prefix sub mem)"
  by (induction sub mem rule: match_sub.induct) auto

lemma substring_loop_first:
  "sub \<noteq> [] \<Longrightarrow> n + length sub \<le> Suc (length mem) \<Longrightarrow>
   \<exists>r. substring_loop sub k n mem = Some r \<and>
     (r = -1 \<and> (\<forall>i < n. \<not> prefix sub (drop i mem)) \<or>
      (\<exists>i < n. r = int (k + i) \<and> prefix sub (drop i mem) \<and> (\<forall>j < i. \<not> prefix sub (drop j mem))))"
proof (induction sub k n mem rule: substring_loop.induct)
  case (3 sub k n c cs)
  have h: "hd (c_str sub) = hd sub" "length sub \<le> length (c # cs)" using 3(3,4) by (simp_all add: c_str_def)
  show ?case
  proof (cases "prefix sub (c # cs)")
    case True
    then have "c = hd sub" using 3(3) by (cases sub) auto
    then have "substring_loop sub k (Suc n) (c # cs) = Some (int k)" using True h match_sub_prefix[OF h(2)] by simp
    then show ?thesis using True by (intro exI[of _ "int k"] conjI disjI2 exI[of _ 0]) simp_all
  next
    case False
    have m: "match_sub sub (c # cs) = Some False" using match_sub_prefix[OF h(2)] False by simp
    have e: "substring_loop sub k (Suc n) (c # cs) = substring_loop sub (Suc k) n cs"
      using m by (cases "c = hd (c_str sub)") auto
    have "\<exists>r. substring_loop sub (Suc k) n cs = Some r \<and>
        (r = -1 \<and> (\<forall>i < n. \<not> prefix sub (drop i cs)) \<or>
         (\<exists>i < n. r = int (Suc k + i) \<and> prefix sub (drop i cs) \<and> (\<forall>j < i. \<not> prefix sub (drop j cs))))"
      using 3(1)[OF _ m _ 3(3)] 3(2)[OF _ 3(3)] 3(4) by (cases "c = hd (c_str sub)") simp_all
    then obtain r where r: "substring_loop sub (Suc k) n cs = Some r"
        "r = -1 \<and> (\<forall>i < n. \<not> prefix sub (drop i cs)) \<or>
         (\<exists>i < n. r = int (Suc k + i) \<and> prefix sub (drop i cs) \<and> (\<forall>j < i. \<not> prefix sub (drop j cs)))" by blast
    show ?thesis using r(2)
    proof (elim disjE exE conjE)
      assume "r = -1" "\<forall>i < n. \<not> prefix sub (drop i cs)"
      then show ?thesis using r(1) e False by (intro exI[of _ r]) (auto simp: drop_Cons split: nat.split)
    next
      fix i assume "i < n" "r = int (Suc k + i)" "prefix sub (drop i cs)" "\<forall>j < i. \<not> prefix sub (drop j cs)"
      then show ?thesis using r(1) e False
        by (intro exI[of _ r] conjI disjI2 exI[of _ "Suc i"]) (auto simp: drop_Cons split: nat.split)
    qed
  qed
qed auto

text \<open>
  C36: \<open>get_substring\<close> of \<open>shuvalov/31\<close> finds the first place among the \<open>n\<close> bytes where the string begins, and -1 says
  that there is none; it never reads outside of the block if the block goes on for the length of the string behind
  the last of these places. The string need not end within the \<open>n\<close> bytes: what lies behind them counts too.
\<close>
theorem shuvalov_substring:
  assumes "sub \<noteq> []" "n + length sub \<le> length mem + 1"
  shows "\<exists>r. get_substring sub mem n = Some r \<and>
    (r = -1 \<and> (\<forall>i < n. \<not> prefix sub (drop i mem)) \<or>
     (\<exists>i < n. r = int i \<and> prefix sub (drop i mem) \<and> (\<forall>j < i. \<not> prefix sub (drop j mem))))"
  using substring_loop_first[of sub n mem 0] assms by (simp add: get_substring_def)

lemma stale_place: "get_substring ''cd'' ''abcd'' 3 = Some 2"
  by code_simp

theorem shuvalov_substring_witness:
  "\<exists>i. get_substring ''cd'' ''abcd'' 3 = Some (int i) \<and> i < 3 \<and> prefix ''cd'' (drop i ''abcd'')"
  using shuvalov_substring[of "''cd''" 3 "''abcd''"] stale_place by auto

subsection \<open>Clients that move\<close>

text \<open>Response \<open>k\<close> has subscribers, and all pointers to them were taken before the last move.\<close>

definition dangles :: "nat \<Rightarrow> shuvalov \<Rightarrow> bool" where
  "dangles k s \<longleftrightarrow> (\<exists>r. resp k s = Some r \<and> length (rs_subs r) = 100 \<and> (\<exists>x < 100. rs_subs r ! x \<noteq> None) \<and>
     (\<forall>x p. x < 100 \<and> rs_subs r ! x = Some p \<longrightarrow> fst p \<noteq> moves (sclis s)))"

lemma dangling_loop:
  assumes "resp k s = Some r" "\<forall>x \<in> set xs. x < length (rs_subs r)" "\<exists>x \<in> set xs. rs_subs r ! x \<noteq> None"
    "\<And>x p. x \<in> set xs \<Longrightarrow> rs_subs r ! x = Some p \<Longrightarrow> fst p \<noteq> moves (sclis s)"
  shows "run_turns (with_sub f k) xs s = None"
  using assms(2-)
proof (induction xs)
  case (Cons x xs)
  show ?case
  proof (cases "rs_subs r ! x")
    case None
    have "with_sub f k x s = Some s" using None Cons.prems(1) by (simp add: with_sub_def assms(1))
    moreover have "run_turns (with_sub f k) xs s = None"
    proof (rule Cons.IH)
      show "\<forall>x \<in> set xs. x < length (rs_subs r)" using Cons.prems(1) by simp
      show "\<exists>x \<in> set xs. rs_subs r ! x \<noteq> None" using Cons.prems(2) None by simp
      show "fst p \<noteq> moves (sclis s)" if "y \<in> set xs" "rs_subs r ! y = Some p" for y p
        using Cons.prems(3)[of y p] that by simp
    qed
    ultimately show ?thesis by simp
  next
    case (Some p)
    then have "deref p (sclis s) = None" using Cons.prems(3)[of x p] by (simp add: deref_def)
    then have "with_sub f k x s = None" using Some Cons.prems(1) by (simp add: with_sub_def assms(1))
    then show ?thesis by simp
  qed
qed simp

lemma dangles_loop: "dangles k s \<Longrightarrow> run_turns (with_sub f k) [0..<100] s = None"
  unfolding dangles_def
proof (elim exE conjE)
  fix r x assume r: "resp k s = Some r" "length (rs_subs r) = 100" "\<forall>x p. x < 100 \<and> rs_subs r ! x = Some p \<longrightarrow> fst p \<noteq> moves (sclis s)"
    and x: "x < 100" "rs_subs r ! x \<noteq> None"
  have l: "y \<in> set [0..<100] \<longleftrightarrow> y < 100" for y by (simp del: upt_rec_numeral)
  show ?thesis
  proof (rule dangling_loop[OF r(1)])
    show "\<forall>y \<in> set [0..<100]. y < length (rs_subs r)" using r(2) l by simp
    show "\<exists>y \<in> set [0..<100]. rs_subs r ! y \<noteq> None" using x l by blast
    show "fst p \<noteq> moves (sclis s)" if "y \<in> set [0..<100]" "rs_subs r ! y = Some p" for y p
      using r(3) that l by blast
  qed
qed

definition publishes :: "nat \<Rightarrow> nat \<Rightarrow> shuvalov \<Rightarrow> bool" where
  "publishes j k s \<longleftrightarrow> j < length (vmembers (ssrvs s)) \<and> ss_response (vmembers (ssrvs s) ! j) = Some k"

lemma dangles_close: "publishes j k s \<Longrightarrow> dangles k s \<Longrightarrow> close_server_and_subscribers j s = None"
  by (simp add: close_server_and_subscribers_def publishes_def dangles_loop del: upt_rec_numeral)

lemma dangles_finish: "dangles k s \<Longrightarrow> finish_answer j k s = None"
  by (simp add: finish_answer_def dangles_loop del: upt_rec_numeral)

lemma dangles_on_resp:
  assumes "dangles k s" "publishes j k s" "\<And>r. rs_subs (f r) = rs_subs r"
  shows "post (on_resp k f s) (\<lambda>s'. dangles k s' \<and> publishes j k s')"
  using assms by (auto simp: post_def on_resp_def on_node_def fault_simps dangles_def publishes_def resp_def)

text \<open>Steps that either run into the dangling pointer or leave it where it is.\<close>

definition doomed :: "nat \<Rightarrow> nat \<Rightarrow> bool \<times> shuvalov \<Rightarrow> bool" where
  "doomed j k x \<longleftrightarrow> fst x \<and> dangles k (snd x) \<and> publishes j k (snd x)"

lemma doomed_go: "dangles k s \<Longrightarrow> publishes j k s \<Longrightarrow> post (Some (True, s)) (doomed j k)"
  by (simp add: doomed_def)

lemma doomed_resp:
  assumes "dangles k s" "publishes j k s" "\<And>r. rs_subs (f r) = rs_subs r" "\<And>s1. dangles k s1 \<Longrightarrow> publishes j k s1 \<Longrightarrow> post (g s1) (doomed j k)"
  shows "post (on_resp k f s \<bind> g) (doomed j k)"
  by (rule post_bind[OF dangles_on_resp[OF assms(1-3)]]) (use assms(4) in blast)

lemma doomed_close: "dangles k s \<Longrightarrow> publishes j k s \<Longrightarrow> post (close_server_and_subscribers j s \<bind> g) Q"
  by (simp add: dangles_close)

lemma store_answer_doomed:
  assumes "dangles k s" "publishes j k s"
  shows "post (store_answer e j k bs s) (doomed j k)"
  unfolding store_answer_def Let_def
  by (intro post_pure post_if doomed_resp[OF assms] doomed_go doomed_close) simp_all

lemma find_length_doomed:
  assumes "dangles k s" "publishes j k s"
  shows "post (find_length e j k hs s) (doomed j k)"
  unfolding find_length_def
proof (intro post_pure post_if doomed_go[OF assms])
  fix h :: "nat + string"
  show "post (case h of Inl n \<Rightarrow> if n = 2 then do { s \<leftarrow> close_server_and_subscribers j s; Some (False, s) } else Some (True, s)
      | Inr v \<Rightarrow> do {
          v \<leftarrow> buffer_to_string (s_oom e ''content_length_str'') v;
          s \<leftarrow> on_resp k (\<lambda>r. r\<lparr>rs_content := int_of_long (strtol0 v)\<rparr>) s;
          Some (True, s) }) (doomed j k)"
  proof (cases h)
    case (Inl n)
    show ?thesis unfolding Inl sum.case by (intro post_if doomed_close[OF assms] doomed_go[OF assms])
  next
    case (Inr v)
    show ?thesis unfolding Inr sum.case by (rule post_pure, rule doomed_resp[OF assms], simp, rule doomed_go)
  qed
qed

lemma find_head_doomed:
  assumes "dangles k s" "publishes j k s"
  shows "post (find_head k s) (\<lambda>s'. dangles k s' \<and> publishes j k s')"
  unfolding find_head_def by (intro post_pure post_if dangles_on_resp[OF assms]) (simp_all add: assms)

lemma parse_head_doomed:
  assumes "dangles k s" "publishes j k s"
  shows "post (parse_head P e j k prev s) (doomed j k)"
  unfolding parse_head_def Let_def
proof (rule post_pure, rule post_if, rule doomed_go[OF assms], rule doomed_resp[OF assms], simp)
  fix r :: sresponse and s1
  assume s1: "dangles k s1" "publishes j k s1"
  show "post (do {
      (go, s) \<leftarrow> find_length e j k (a_headers (p_response P (take (rs_len r) (rs_buf r)) prev)) s1;
      if go then do { s \<leftarrow> find_head k s; Some (True, s) } else Some (False, s) }) (doomed j k)"
    by (rule post_bind[OF find_length_doomed[OF s1]], rule post_prod)
      (auto simp: doomed_def intro!: post_bind[OF find_head_doomed])
qed

lemma receive_from_server_doomed:
  assumes "dangles k s" "publishes j k s"
  shows "receive_from_server P e j s = None"
proof -
  have fin: "post (if go then finish_answer j k s2 else Some s2) (\<lambda>_. False)" if "doomed j k (go, s2)" for go s2
    using that by (simp add: doomed_def dangles_finish)
  have parse: "post (if \<not> go then Some s1 else do {
      (go, s) \<leftarrow> parse_head P e j k n s1;
      if go then finish_answer j k s else Some s }) (\<lambda>_. False)" if "doomed j k (go, s1)" for go s1 n
    using that by (auto simp: doomed_def intro!: post_bind[OF parse_head_doomed] post_prod fin)
  have c: "post (close_server_and_subscribers j s) (\<lambda>_. False)" by (simp add: dangles_close[OF assms(2,1)])
  have "post (receive_from_server P e j s) (\<lambda>_. False)"
    unfolding receive_from_server_def
  proof (rule post_pure, rule post_pure, rule post_pure)
    fix v k' r assume "get_at (vmembers (ssrvs s)) j = Some v" "ss_response v = Some k'"
    then have k: "k' = k" using assms(2) by (auto simp: publishes_def)
    show "post (case s_read e of
        None \<Rightarrow> close_server_and_subscribers j s
      | Some bs \<Rightarrow>
          if bs = [] then close_server_and_subscribers j s
          else do {
            (go, s) \<leftarrow> store_answer e j k' bs s;
            if \<not> go then Some s
            else do {
              (go, s) \<leftarrow> parse_head P e j k' (rs_len r) s;
              if go then finish_answer j k' s else Some s } }) (\<lambda>_. False)"
      unfolding k by (rule post_option, rule c, rule post_if, rule c, rule post_bind[OF store_answer_doomed[OF assms]], rule post_prod)
        (simp only: prod.case, rule parse, simp)
  qed
  then show ?thesis by (cases "receive_from_server P e j s") simp_all
qed

lemma release_number: "post (release_client fd i s) (\<lambda>s'. snumber (sclis s') = snumber (sclis s))"
  by (auto simp: post_def release_client_def on_polls_def on_cli_def fault_simps)

lemma finish_number: "post (finish_client i c r s) (\<lambda>s'. snumber (sclis s') = snumber (sclis s))"
  unfolding finish_client_def
proof (rule post_bind[OF unsubscribe_mild])
  fix s1 assume s1: "mild s s1"
  have m: "post (if rs_status r \<noteq> 200 then do {
      assertm (0 \<le> sc_node c \<and> sc_node c < int (length (snodes (scach s1))));
      on_node (nat (sc_node c)) clear_cache_node s1 } else Some s1) (mild s1)"
    by (intro post_if post_pure on_node_mild) simp
  show "post (do {
      s \<leftarrow> (if rs_status r \<noteq> 200 then do {
              assertm (0 \<le> sc_node c \<and> sc_node c < int (length (snodes (scach s1))));
              on_node (nat (sc_node c)) clear_cache_node s1 } else Some s1);
      release_client (sc_fd c) i s }) (\<lambda>s'. snumber (sclis s') = snumber (sclis s))"
    by (rule post_bind[OF m], rule post_weaken[OF release_number]) (use s1 in \<open>simp add: mild_def\<close>)
qed

lemma send_number: "post (send_to_client e i s) (\<lambda>s'. snumber (sclis s') = snumber (sclis s))"
  unfolding send_to_client_def Let_def
proof (rule post_pure, rule post_pure, rule post_pure, rule post_pure, rule post_if, rule release_number)
  have ev: "post (if b then on_polls (set_events p ev) s1 else Some s1) (mild s1)" for b p ev s1
    by (simp add: events_mild)
  show "post (do {
      s \<leftarrow> on_cli i (\<lambda>c. c\<lparr>sc_written := w\<rparr>) (s\<lparr>ssent := l\<rparr>);
      s \<leftarrow> (if b then on_polls (set_events p 0) s else Some s);
      done \<leftarrow> q;
      if done then finish_client i c r s else Some s }) (\<lambda>s'. snumber (sclis s') = snumber (sclis s))" for w l b p q c r
  proof (rule post_bind[OF on_cli_mild], simp, rule post_bind[OF ev], rule post_pure, rule post_if)
    fix s1 s2 assume "mild (s\<lparr>ssent := l\<rparr>) s1" "mild s1 s2"
    then have n: "snumber (sclis s2) = snumber (sclis s)" by (simp add: mild_def)
    then show "post (Some s2) (\<lambda>s'. snumber (sclis s') = snumber (sclis s))" by simp
    show "post (finish_client i c r s2) (\<lambda>s'. snumber (sclis s') = snumber (sclis s))"
      by (rule post_weaken[OF finish_number]) (simp add: n)
  qed
qed

lemma accept_moves:
  assumes "accept_client e s = Some s'" "clients_ok (sclis s)" "snumber (sclis s) = length (smembers (sclis s))"
    "pfds_ok (spolls s)" "revents (pmembers (spolls s) ! 0) AND POLLIN \<noteq> 0" "0 \<le> s_socket e (spolls s)"
  shows "moves (sclis s') = Suc (moves (sclis s)) \<and> ssrvs s' = ssrvs s \<and> scach s' = scach s"
proof -
  obtain pi t where t: "add_fd_to_poll (s_junk e) (s_socket e (spolls s)) POLLIN (spolls s) = Some (int pi, t)"
    using add_fd_slot[OF assms(4)] by blast
  have "(x, c) = y \<Longrightarrow> add_fd_to_clients b g p fd (sclis s) = Some y \<Longrightarrow> moves c = Suc (moves (sclis s))" for x c y b g p fd
    using assms(3) by (auto simp: add_fd_to_clients_def fault_simps Let_def split: if_splits)
  then show ?thesis using assms(1,5,6) t
    by (auto simp: accept_client_def Let_def fault_simps simp del: upt_rec_numeral split: prod.splits)
qed

text \<open>
  C12: The table of clients of \<open>shuvalov/31\<close> moves when a client connects and the table is full by the count of clients, and
  sending to a client, also the last piece before it is closed, never lowers this count. A response that has
  subscribers when the table moves cannot be served any more: whatever the server sends or does not send, reading from it,
  giving it up and passing on the request all follow a dangling pointer.
\<close>
theorem shuvalov_dangling:
  assumes "accept_client e s = Some s'" "clients_ok (sclis s)" "snumber (sclis s) = length (smembers (sclis s))"
    "pfds_ok (spolls s)" "revents (pmembers (spolls s) ! 0) AND POLLIN \<noteq> 0" "0 \<le> s_socket e (spolls s)"
    "j < length (vmembers (ssrvs s))" "ss_response (vmembers (ssrvs s) ! j) = Some k" "ss_request (vmembers (ssrvs s) ! j) = Some q"
    "resp k s = Some r" "length (rs_subs r) = 100" "x < 100" "rs_subs r ! x \<noteq> None" "fst q \<le> moves (sclis s)"
    "\<And>y p. y < 100 \<Longrightarrow> rs_subs r ! y = Some p \<Longrightarrow> fst p \<le> moves (sclis s)"
  shows "receive_from_server P e' j s' = None \<and> close_server_and_subscribers j s' = None \<and> send_to_server e' j s' = None \<and>
    post (send_to_client e'' i s) (\<lambda>s''. snumber (sclis s'') = snumber (sclis s))"
proof -
  have m: "moves (sclis s') = Suc (moves (sclis s))" "ssrvs s' = ssrvs s" "scach s' = scach s"
    using accept_moves[OF assms(1-6)] by auto
  have p: "publishes j k s'" using assms(7,8) m(2) by (simp add: publishes_def)
  have "resp k s' = Some r" using assms(10) m(3) by (simp add: resp_def)
  moreover have "fst p \<noteq> moves (sclis s')" if "y < 100 \<and> rs_subs r ! y = Some p" for y p
    using assms(15)[of y p] that m(1) by simp
  ultimately have d: "dangles k s'" unfolding dangles_def using assms(11-13) by blast
  have "send_to_server e' j s' = None" using assms(7,9,14) m by (simp add: send_to_server_def deref_def)
  then show ?thesis using receive_from_server_doomed[OF d p] dangles_close[OF p d] send_number by blast
qed

lemma accept_defined:
  assumes "pfds_ok (spolls s)" "clients_ok (sclis s)" "s_socket e (spolls s) = fd" "fd \<noteq> -1"
  shows "\<exists>s'. accept_client e s = Some s'"
proof -
  have "pmembers (spolls s) \<noteq> []" using assms(1) by (simp add: pfds_ok_def)
  then obtain p where p: "get_at (pmembers (spolls s)) 0 = Some p" by simp
  obtain pi t where t: "add_fd_to_poll (s_junk e) fd POLLIN (spolls s) = Some (int pi, t)" using add_fd_slot[OF assms(1)] by blast
  obtain x where "add_fd_to_clients (map (s_noise e) [0..<BUF_SIZE]) (s_garbage e) pi fd (sclis s) = Some x"
    using add_client_slot[OF assms(2,4)] by blast
  then show ?thesis using p t assms(3) by (cases x) (simp add: accept_client_def Let_def del: upt_rec_numeral get_at_Some)
qed

text \<open>A table with one client, which waits for a response, and with a server that fetches it.\<close>

definition one_client :: sclient where
  "one_client = \<lparr>sc_response = Some 0, sc_buf = [], sc_len = 0, sc_prev = 0, sc_poll = 2, sc_written = 0, sc_fd = 5,
     sc_processed = False, sc_node = 0\<rparr>"

definition one_response :: sresponse where
  "one_response = (sn_response (init_cache_node ''ab''))\<lparr>rs_subs := Some (0, 0) # replicate 99 None, rs_count := 1\<rparr>"

definition one_house :: shuvalov where
  "one_house = \<lparr>spolls = \<lparr>pmembers = [\<lparr>pfd = 3, events = 1, revents = 1\<rparr>, \<lparr>pfd = 4, events = 1, revents = 0\<rparr>,
       \<lparr>pfd = 5, events = 0, revents = 0\<rparr>, \<lparr>pfd = 6, events = 4, revents = 0\<rparr>], pnumber = 4, pclosed = []\<rparr>,
     sclis = \<lparr>smembers = [one_client], snumber = 1, moves = 0\<rparr>,
     ssrvs = \<lparr>vmembers = [\<lparr>ss_request = Some (0, 0), ss_response = Some 0, ss_poll = 3, ss_written = 0, ss_fd = 6, ss_processed = False\<rparr>], vnumber = 1\<rparr>,
     scach = \<lparr>snodes = [\<lparr>sn_response = one_response, sn_url = Some ''/a'', sn_empty = False\<rparr>], last_node_set = -1\<rparr>, ssent = []\<rparr>"

lemma one_house_ok: "pfds_ok (spolls one_house)" "clients_ok (sclis one_house)"
  by (simp_all add: one_house_def one_client_def pfds_ok_def unique_fds_def clients_ok_def is_fd_def INT_MAX_def live_def)

lemma one_house_call: "s_socket (calm_env\<lparr>s_socket := \<lambda>_. 7\<rparr>) (spolls one_house) = 7"
  by simp

theorem shuvalov_dangling_witness:
  "\<exists>s'. accept_client (calm_env\<lparr>s_socket := \<lambda>_. 7\<rparr>) one_house = Some s' \<and> receive_from_server no_parser calm_env 0 s' = None \<and>
    close_server_and_subscribers 0 s' = None \<and> send_to_server calm_env 0 s' = None"
proof -
  obtain s' where s': "accept_client (calm_env\<lparr>s_socket := \<lambda>_. 7\<rparr>) one_house = Some s'"
    using accept_defined[OF one_house_ok one_house_call] by auto
  have p: "fst p \<le> moves (sclis one_house)" if "rs_subs one_response ! y = Some p" "y < 100" for y p
    using that by (cases y) (auto simp: one_response_def one_house_def)
  have "receive_from_server no_parser calm_env 0 s' = None \<and> close_server_and_subscribers 0 s' = None \<and> send_to_server calm_env 0 s' = None \<and>
      post (send_to_client calm_env 0 one_house) (\<lambda>s''. snumber (sclis s'') = snumber (sclis one_house))"
    by (rule shuvalov_dangling[OF s' one_house_ok(2) _ one_house_ok(1), where r = one_response and k = 0 and q = "(0, 0)" and x = 0])
      (use p in \<open>simp_all add: one_house_def one_response_def init_cache_node_def resp_def POLLIN_def\<close>)
  then show ?thesis using s' by blast
qed

subsection \<open>A response that ends the program\<close>

text \<open>
  C38: A client that finds its URL in the cache of \<open>shuvalov/31\<close> shares the response, and unlike the client that asked first it
  is not told the index of the node. When the response turns out to have a status other than 200 and this
  client has taken all of it, the program runs into its \<open>assert\<close> on this index: no such call of \<open>send_to_client\<close> returns.
\<close>
theorem shuvalov_abort:
  assumes "i < length (smembers (sclis s))" "sc_node (smembers (sclis s) ! i) = -1" "sc_response (smembers (sclis s) ! i) = Some k"
    "resp k s = Some r" "rs_status r \<noteq> 200" "0 \<le> s_write e" "rs_content r \<noteq> 1" "rs_head r \<noteq> 1"
    "rs_content r + rs_head r = sc_written (smembers (sclis s) ! i) + s_write e"
  shows "send_to_client e i s = None \<and>
    post (join_node j k' s0) (\<lambda>s1. map sc_node (smembers (sclis s1)) = map sc_node (smembers (sclis s0)))"
proof -
  let ?c = "smembers (sclis s) ! i"
  have f: "finish_client i ?c r s1 = None" for s1
    using assms(2,5) by (cases "unsubscribe i s1") (simp_all add: finish_client_def)
  have a: "answered r (sc_written ?c + s_write e) (s_write e) = Some b \<Longrightarrow> b" for b
    using assms(7-9) by (auto simp: answered_def fault_simps)
  have "send_to_client e i s \<noteq> Some s'" for s'
    using assms(1,3,4,6) f a by (auto simp: send_to_client_def Let_def fault_simps split: if_splits)
  moreover have "post (join_node j k' s0) (\<lambda>s1. map sc_node (smembers (sclis s1)) = map sc_node (smembers (sclis s0)))"
    by (auto simp: post_def join_node_def on_resp_def on_node_def on_cli_def on_polls_def fault_simps map_upd_id)
  ultimately show ?thesis by blast
qed

text \<open>Two clients with one response, of status 404 and a head of two bytes.\<close>

definition two_house :: shuvalov where
  "two_house = one_house\<lparr>sclis := \<lparr>smembers = [one_client, one_client\<lparr>sc_fd := 7, sc_node := -1\<rparr>], snumber = 2, moves = 0\<rparr>,
     scach := \<lparr>snodes = [\<lparr>sn_response = one_response\<lparr>rs_len := 2, rs_content := 0, rs_head := 2, rs_status := 404\<rparr>,
       sn_url = Some ''/a'', sn_empty = False\<rparr>], last_node_set = -1\<rparr>\<rparr>"

theorem shuvalov_abort_witness:
  "send_to_client (calm_env\<lparr>s_write := 2\<rparr>) 1 two_house = None \<and>
    (\<exists>s1. join_node 0 0 one_house = Some s1 \<and> map sc_node (smembers (sclis s1)) = [0])"
proof -
  have "send_to_client (calm_env\<lparr>s_write := 2\<rparr>) 1 two_house = None \<and>
      post (join_node 0 0 one_house) (\<lambda>s1. map sc_node (smembers (sclis s1)) = map sc_node (smembers (sclis one_house)))"
    by (rule shuvalov_abort[where k = 0 and r = "one_response\<lparr>rs_len := 2, rs_content := 0, rs_head := 2, rs_status := 404\<rparr>"])
      (simp_all add: two_house_def one_client_def resp_def)
  moreover have "\<exists>s1. join_node 0 0 one_house = Some s1"
    by (simp add: join_node_def one_house_def one_client_def one_response_def resp_def on_resp_def on_node_def on_cli_def on_polls_def
        set_events_def init_cache_node_def int_add_def INT_MIN_def INT_MAX_def)
  ultimately show ?thesis by (auto simp: post_def one_house_def one_client_def)
qed

end
