(* ===== verification/ShuTypes.thy ===== *)
theory ShuTypes
  imports ShuDescriptors
begin

text \<open>
  The sizes and indices in the state of \<open>shuvalov/31\<close>: \<open>well_formed\<close> says that what is filled of a buffer lies inside
  its block, that pointers to responses are those of nodes, and that the head of a response ends where its bytes are.
  Every handler keeps this, also those that give up connections in the middle of a response.
\<close>

definition client_ok :: "nat \<Rightarrow> sclient \<Rightarrow> bool" where
  "client_ok n c \<longleftrightarrow> length (sc_buf c) = BUF_SIZE \<and> sc_len c \<le> BUF_SIZE \<and>
     (sc_response c = None \<or> the (sc_response c) < n)"

definition server_ok :: "nat \<Rightarrow> sserver \<Rightarrow> bool" where
  "server_ok n v \<longleftrightarrow> ss_response v = None \<or> the (ss_response v) < n"

text \<open>The empty block is the NULL of a failed \<open>realloc\<close>.\<close>

definition resp_ok :: "sresponse \<Rightarrow> bool" where
  "resp_ok r \<longleftrightarrow> length (rs_subs r) = 100 \<and> BUF_SIZE \<le> rs_size r \<and> rs_len r < rs_size r \<and> (rs_buf r = [] \<or> rs_size r \<le> length (rs_buf r)) \<and>
     rs_head r \<le> int (rs_len r) + 3"

definition well_formed :: "shuvalov \<Rightarrow> bool" where
  "well_formed s \<longleftrightarrow> (\<forall>c \<in> set (smembers (sclis s)). client_ok (length (snodes (scach s))) c) \<and>
     (\<forall>v \<in> set (vmembers (ssrvs s)). server_ok (length (snodes (scach s))) v) \<and>
     (\<forall>n \<in> set (snodes (scach s)). resp_ok (sn_response n)) \<and> length (snodes (scach s)) = 10"

subsection \<open>Steps\<close>

lemma in_update: "x \<in> set (xs[i := y]) \<Longrightarrow> x \<in> set xs \<or> i < length xs \<and> x = y"
  using set_update_subset_insert[of xs i y] by (cases "i < length xs") (auto simp: not_less list_update_beyond)

lemma on_cli_wf:
  assumes "well_formed s" "\<And>c. client_ok 10 c \<Longrightarrow> client_ok 10 (f c)"
  shows "post (on_cli i f s) well_formed"
  using assms by (auto simp: post_def on_cli_def fault_simps well_formed_def dest!: in_update)

lemma on_srv_wf:
  assumes "well_formed s" "\<And>v. server_ok 10 v \<Longrightarrow> server_ok 10 (f v)"
  shows "post (on_srv i f s) well_formed"
  using assms by (auto simp: post_def on_srv_def fault_simps well_formed_def dest!: in_update)

lemma on_node_wf:
  assumes "well_formed s" "\<And>n. resp_ok (sn_response n) \<Longrightarrow> resp_ok (sn_response (f n))"
  shows "post (on_node k f s) well_formed"
  using assms by (auto simp: post_def on_node_def fault_simps well_formed_def dest!: in_update)

lemma on_resp_wf:
  assumes "well_formed s" "\<And>r. resp k s = Some r \<Longrightarrow> resp_ok r \<Longrightarrow> resp_ok (f r)"
  shows "post (on_resp k f s) well_formed"
  using assms by (auto simp: post_def on_resp_def on_node_def resp_def fault_simps well_formed_def dest!: in_update)

lemma on_polls_wf: "well_formed s \<Longrightarrow> post (on_polls f s) well_formed"
  by (auto simp: post_def on_polls_def fault_simps well_formed_def)

lemma wf_records [simp]:
  "well_formed (s\<lparr>spolls := t\<rparr>) = well_formed s"
  "well_formed (s\<lparr>ssent := l\<rparr>) = well_formed s"
  "well_formed (s\<lparr>sclis := (sclis s)\<lparr>snumber := n\<rparr>\<rparr>) = well_formed s"
  "well_formed (s\<lparr>ssrvs := (ssrvs s)\<lparr>vnumber := n\<rparr>\<rparr>) = well_formed s"
  by (simp_all add: well_formed_def)

lemma resp_wf: "well_formed s \<Longrightarrow> resp k s = Some r \<Longrightarrow> resp_ok r \<and> k < 10"
  by (auto simp: well_formed_def resp_def fault_simps)

lemma wf_seq: "post m well_formed \<Longrightarrow> (\<And>s1. well_formed s1 \<Longrightarrow> post (f s1) Q) \<Longrightarrow> post (m \<bind> f) Q"
  by (rule post_bind)

lemma resp_ok_subs: "resp_ok r \<Longrightarrow> length xs = length (rs_subs r) \<Longrightarrow> resp_ok (r\<lparr>rs_subs := xs, rs_count := n\<rparr>)"
  by (simp add: resp_ok_def)

lemma drop_subs_length: "drop_subs t fd xs = Some ys \<Longrightarrow> length ys = length xs"
  by (induction xs arbitrary: ys rule: drop_subs.induct) (auto simp: fault_simps)

lemma setup_ok [simp]: "client_ok n c \<Longrightarrow> client_ok n (setup_client c)" "server_ok n (setup_server v)"
  by (simp_all add: client_ok_def server_ok_def setup_client_def setup_server_def)

lemma clear_ok: "resp_ok (sn_response n) \<Longrightarrow> resp_ok (sn_response (clear_cache_node n))"
  by (auto simp: resp_ok_def clear_cache_node_def)

subsection \<open>Handlers\<close>

lemma run_turns_wf: "(\<And>x s. well_formed s \<Longrightarrow> post (f x s) well_formed) \<Longrightarrow> well_formed s \<Longrightarrow> post (run_turns f xs s) well_formed"
  by (rule run_turns_post)

lemma unsubscribe_wf: "well_formed s \<Longrightarrow> post (unsubscribe i s) well_formed"
  unfolding unsubscribe_def
  by (rule post_pure, rule post_option, simp, rule post_pure, rule post_pure, rule post_pure, rule on_resp_wf)
    (auto simp: resp_ok_subs drop_subs_length)

lemma subscribe_wf: "well_formed s \<Longrightarrow> post (subscribe i k s) well_formed"
  unfolding subscribe_def Let_def
proof (rule post_pure, rule post_pure)
  fix r n assume s: "well_formed s" "resp k s = Some r"
  then have k: "k < 10" using resp_wf by blast
  show "post (do {
      s \<leftarrow> on_resp k (\<lambda>r. r\<lparr>rs_subs := map (\<lambda>x. if x = None then Some (moves (sclis s), i) else x) (rs_subs r), rs_count := n\<rparr>) s;
      on_cli i (\<lambda>c. c\<lparr>sc_node := int k, sc_response := Some k\<rparr>) s }) well_formed"
    by (rule wf_seq[OF on_resp_wf[OF s(1)]], simp add: resp_ok_subs, rule on_cli_wf, assumption) (simp add: client_ok_def k)
qed

lemma join_node_wf: "well_formed s \<Longrightarrow> post (join_node i k s) well_formed"
  unfolding join_node_def
proof (rule post_pure, rule post_pure, rule post_pure, rule post_pure)
  fix r xs n p assume s: "well_formed s" "resp k s = Some r" "put_at (rs_subs r) (nat (rs_count r)) p = Some xs"
  then have k: "k < 10" and l: "length xs = length (rs_subs r)" using resp_wf by auto
  show "post (do {
      s \<leftarrow> on_resp k (\<lambda>r. r\<lparr>rs_subs := xs, rs_count := n\<rparr>) s;
      s \<leftarrow> on_cli i (\<lambda>c. c\<lparr>sc_response := Some k\<rparr>) s;
      c \<leftarrow> get_at (smembers (sclis s)) i;
      on_polls (set_events (sc_poll c) (if 0 < rs_len r then POLLOUT else 0)) s }) well_formed"
    by (rule wf_seq[OF on_resp_wf[OF s(1)]], use s(2) l in \<open>simp add: resp_ok_subs\<close>, rule wf_seq[OF on_cli_wf], assumption,
        simp add: client_ok_def k, rule post_pure, rule on_polls_wf)
qed

lemma set_wf:
  assumes "well_formed s" "cache_set path (scach s) = Some (k, ca)"
  shows "well_formed (s\<lparr>scach := ca\<rparr>) \<and> k < 10"
proof -
  have k: "k < length (snodes (scach s))" "snodes ca = (snodes (scach s))[k := set_cache_node path (snodes (scach s) ! k)]"
    using assms(2) by (auto simp: cache_set_def Let_def fault_simps split: if_splits)
  have "resp_ok (sn_response (set_cache_node path (snodes (scach s) ! k)))"
    using assms(1) nth_mem[OF k(1)] clear_ok by (auto simp: set_cache_node_def well_formed_def)
  then show ?thesis using assms(1) k by (auto simp: well_formed_def dest!: in_update)
qed

lemma make_publisher_wf: "well_formed s \<Longrightarrow> k < 10 \<Longrightarrow> post (make_publisher j k s) well_formed"
  unfolding make_publisher_def by (rule on_srv_wf) (simp_all add: server_ok_def)

lemma publish_wf: "well_formed s \<Longrightarrow> post (publish i j path s) well_formed"
  unfolding publish_def
proof (rule post_pure, rule post_prod, simp only: prod.case)
  fix k ca assume "well_formed s" "cache_set path (scach s) = Some (k, ca)"
  then have s: "well_formed (s\<lparr>scach := ca\<rparr>)" "k < 10" using set_wf by blast+
  show "post (do {
      s \<leftarrow> subscribe i k (s\<lparr>scach := ca\<rparr>);
      s \<leftarrow> make_publisher j k s;
      c \<leftarrow> get_at (smembers (sclis s)) i;
      s \<leftarrow> on_polls (set_events (sc_poll c) 0) s;
      r \<leftarrow> resp k s;
      sub \<leftarrow> get_at (rs_subs r) 0;
      p \<leftarrow> sub;
      _ \<leftarrow> deref p (sclis s);
      Some s }) well_formed"
    by (rule wf_seq[OF subscribe_wf[OF s(1)]], rule wf_seq[OF make_publisher_wf], assumption, rule s(2), rule post_pure,
        rule wf_seq[OF on_polls_wf], assumption, (rule post_pure)+) simp
qed

lemma release_client_wf: "well_formed s \<Longrightarrow> post (release_client fd i s) well_formed"
  unfolding release_client_def by (rule wf_seq[OF on_polls_wf], assumption, rule on_cli_wf) simp_all

lemma close_client_wf: "well_formed s \<Longrightarrow> post (close_client i s) well_formed"
  unfolding close_client_def
  by (rule post_pure, rule post_if, rule wf_seq[OF unsubscribe_wf], assumption, rule wf_seq[OF release_client_wf], assumption) simp_all

lemma close_server_wf: "well_formed s \<Longrightarrow> post (close_server fd j s) well_formed"
  unfolding close_server_def
  by (rule wf_seq[OF on_polls_wf], assumption, rule wf_seq[OF on_srv_wf], assumption) simp_all

lemma with_sub_wf: "(\<And>i s. well_formed s \<Longrightarrow> post (f i s) well_formed) \<Longrightarrow> well_formed s \<Longrightarrow> post (with_sub f k x s) well_formed"
  unfolding with_sub_def by (intro post_pure post_option) auto

lemma close_server_and_subscribers_wf: "well_formed s \<Longrightarrow> post (close_server_and_subscribers j s) well_formed"
  unfolding close_server_and_subscribers_def
  by (rule post_pure, rule post_pure, rule wf_seq[OF run_turns_wf[OF with_sub_wf[OF close_client_wf]]], assumption+, rule close_server_wf)

lemma add_server_wf:
  assumes "well_formed s" "add_fd_to_servers g pi q fd (ssrvs s) = Some (j, v)"
  shows "well_formed (s\<lparr>ssrvs := v\<rparr>)"
proof -
  have n: "server_ok n (setup_server w)" "server_ok n (w\<lparr>ss_fd := a, ss_processed := b, ss_poll := c, ss_request := d\<rparr>) = server_ok n w" for n w a b c d
    by (simp_all add: server_ok_def setup_server_def)
  define vs where "vs = (if vnumber (ssrvs s) = length (vmembers (ssrvs s))
    then vmembers (ssrvs s) @ init_servers_members (length (vmembers (ssrvs s))) g else vmembers (ssrvs s))"
  have o: "\<forall>w \<in> set vs. server_ok 10 w" using assms(1) by (auto simp: vs_def well_formed_def init_servers_members_def n)
  have "vmembers v = vs \<or> (\<exists>i < length vs. vmembers v = vs[i := (vs ! i)\<lparr>ss_fd := fd, ss_processed := True, ss_poll := pi, ss_request := Some q\<rparr>])"
    using assms(2) by (auto simp: add_fd_to_servers_def vs_def Let_def fault_simps split: if_splits)
  then have "\<forall>w \<in> set (vmembers v). server_ok 10 w" using o by (auto simp: n dest!: in_update)
  then show ?thesis using assms(1) by (auto simp: well_formed_def)
qed

lemma add_client_wf:
  assumes "well_formed s" "add_fd_to_clients cells g pi fd (sclis s) = Some (j, c)" "length cells = BUF_SIZE"
  shows "well_formed (s\<lparr>sclis := c\<rparr>)"
proof -
  have n: "client_ok n (init_client cells g)" "client_ok n (w\<lparr>sc_fd := a, sc_processed := b, sc_poll := d\<rparr>) = client_ok n w" for n w a b d
    using assms(3) by (simp_all add: client_ok_def init_client_def setup_client_def)
  define cs where "cs = (if snumber (sclis s) = length (smembers (sclis s))
    then smembers (sclis s) @ init_clients_members cells g (length (smembers (sclis s))) else smembers (sclis s))"
  have o: "\<forall>w \<in> set cs. client_ok 10 w" using assms(1) by (auto simp: cs_def well_formed_def init_clients_members_def n)
  have "smembers c = cs \<or> (\<exists>i < length cs. smembers c = cs[i := (cs ! i)\<lparr>sc_fd := fd, sc_processed := True, sc_poll := pi\<rparr>])"
    using assms(2) by (auto simp: add_fd_to_clients_def cs_def Let_def fault_simps split: if_splits)
  then have "\<forall>w \<in> set (smembers c). client_ok 10 w" using o by (auto simp: n dest!: in_update)
  then show ?thesis using assms(1) by (auto simp: well_formed_def)
qed

lemma wf_polls_srvs: "well_formed (s\<lparr>ssrvs := v\<rparr>) \<Longrightarrow> well_formed (s\<lparr>spolls := t, ssrvs := v\<rparr>)"
  by (auto simp: well_formed_def)

lemma open_server_wf: "well_formed s \<Longrightarrow> post (open_server e i fd path s) well_formed"
  unfolding open_server_def
  by (rule post_pure, rule post_prod, rule post_if, simp, rule post_pure, rule post_prod, rule post_if)
    (auto intro!: publish_wf wf_polls_srvs add_server_wf)

lemma fetch_wf: "well_formed s \<Longrightarrow> post (fetch e i q path s) well_formed"
  unfolding fetch_def
  by (rule post_pure) (auto split: sum.split intro!: post_pure post_if close_client_wf open_server_wf)

lemma serve_wf: "well_formed s \<Longrightarrow> post (serve e i q s) well_formed"
  unfolding serve_def by (intro post_pure post_option post_if fetch_wf join_node_wf) simp_all

lemma receive_from_client_wf: "well_formed s \<Longrightarrow> post (receive_from_client P e i s) well_formed"
  unfolding receive_from_client_def Let_def
proof (rule post_pure, rule post_option, erule close_client_wf, rule post_pure, rule post_pure)
  fix c bs u b assume s: "well_formed s" and c: "get_at (smembers (sclis s)) i = Some c"
    and b: "assertm (sc_len c + length bs \<le> BUF_SIZE) = Some u" "memcpy_to (sc_buf c) (sc_len c) bs = Some b"
  have "length (sc_buf c) = BUF_SIZE" using s c nth_mem[of i "smembers (sclis s)"] by (auto simp: well_formed_def client_ok_def)
  then have l: "length b = BUF_SIZE" "sc_len c + length bs \<le> BUF_SIZE" using b by auto
  show "post (do {
      s \<leftarrow> on_cli i (\<lambda>d. d\<lparr>sc_buf := b, sc_prev := sc_len d, sc_len := sc_len c + length bs\<rparr>) s;
      if m = 0 then close_client i s
      else if a = -1 then close_client i s
      else if a = 2 then Some s
      else if m = BUF_SIZE then close_client i s
      else do {
        ok \<leftarrow> x;
        if \<not> ok then close_client i s else serve e i q s } }) well_formed" for m x q and a :: int
    by (rule wf_seq[OF on_cli_wf[OF s]]) (auto simp: client_ok_def l intro!: post_pure post_if close_client_wf serve_wf)
qed

lemma finish_client_wf: "well_formed s \<Longrightarrow> post (finish_client i c r s) well_formed"
proof -
  have "post (if b then do { assertm q; on_node k clear_cache_node s } else Some s) well_formed" if "well_formed s" for b q k s
    using that by (intro post_if post_pure on_node_wf clear_ok) simp_all
  then show "well_formed s \<Longrightarrow> ?thesis" unfolding finish_client_def
    by (intro wf_seq[OF unsubscribe_wf] release_client_wf) (blast intro: wf_seq release_client_wf)+
qed

lemma send_to_client_wf: "well_formed s \<Longrightarrow> post (send_to_client e i s) well_formed"
proof -
  have ev: "post (if b then on_polls f s else Some s) well_formed" if "well_formed s" for b f s
    using that by (simp add: on_polls_wf)
  show "well_formed s \<Longrightarrow> ?thesis" unfolding send_to_client_def Let_def
    by (rule post_pure, rule post_pure, rule post_pure, rule post_pure, rule post_if, erule release_client_wf,
        rule wf_seq[OF on_cli_wf], simp, simp add: client_ok_def, rule wf_seq[OF ev], assumption, rule post_pure, rule post_if)
      (simp_all add: finish_client_wf)
qed

lemma client_turn_wf: "well_formed s \<Longrightarrow> post (client_turn P es i s) well_formed"
  unfolding client_turn_def
  by (intro post_pure post_if close_client_wf receive_from_client_wf send_to_client_wf) simp_all

lemma connect_to_server_wf: "well_formed s \<Longrightarrow> post (connect_to_server e j s) well_formed"
  unfolding connect_to_server_def
  by (rule post_if, rule on_srv_wf, assumption) (simp_all add: server_ok_def close_server_and_subscribers_wf)

lemma send_to_server_wf: "well_formed s \<Longrightarrow> post (send_to_server e j s) well_formed"
proof -
  have ev: "post (if b then on_polls f s else Some s) well_formed" if "well_formed s" for b f s
    using that by (simp add: on_polls_wf)
  show "well_formed s \<Longrightarrow> ?thesis" unfolding send_to_server_def Let_def
    by (rule post_pure, rule post_pure, rule post_pure, rule post_pure, rule post_if, erule close_server_and_subscribers_wf,
        rule wf_seq[OF ev], assumption, rule on_srv_wf) (simp_all add: server_ok_def)
qed

text \<open>What a handler returns with a flag.\<close>

abbreviation wf_snd :: "bool \<times> shuvalov \<Rightarrow> bool" where
  "wf_snd x \<equiv> well_formed (snd x)"

lemma wf_flag: "post m well_formed \<Longrightarrow> post (m \<bind> (\<lambda>s. Some (b, s))) wf_snd"
  by (rule post_bind) simp_all

lemma store_answer_wf: "well_formed s \<Longrightarrow> post (store_answer e j k bs s) wf_snd"
  unfolding store_answer_def Let_def
proof (rule post_pure, rule post_pure, rule post_pure, rule post_if, rule wf_flag, rule on_resp_wf, assumption)
  fix r u buf
  assume s: "well_formed s" and r: "resp k s = Some r" and le: "assertm (rs_len r + length bs \<le> rs_size r) = Some u"
    and buf: "memcpy_to (rs_buf r) (rs_len r) bs = Some buf"
  have ok: "resp_ok r" using resp_wf s r by blast
  have l: "length buf = length (rs_buf r)" using buf by auto
  have n: "bs = []" if "rs_buf r = []" using buf that by auto
  show "resp_ok (r'\<lparr>rs_buf := buf, rs_len := rs_len r + length bs\<rparr>)" if "rs_len r + length bs < rs_size r" "resp k s = Some r'" "resp_ok r'" for r'
    using that r ok l by (auto simp: resp_ok_def)
  show "post (if s_oom e ''buf'' then do {
        s \<leftarrow> on_resp k (\<lambda>r'. r'\<lparr>rs_buf := [], rs_len := rs_len r + length bs, rs_size := rs_size r * 2\<rparr>) s;
        s \<leftarrow> close_server_and_subscribers j s;
        Some (False, s) }
      else do {
        s \<leftarrow> on_resp k (\<lambda>r'. r'\<lparr>rs_buf := take (rs_size r * 2) buf @ map (s_noise e) [0..<rs_size r * 2 - length buf],
          rs_len := rs_len r + length bs, rs_size := rs_size r * 2\<rparr>) s;
        Some (True, s) }) wf_snd"
  proof (rule post_if)
    have "resp_ok (r'\<lparr>rs_buf := [], rs_len := rs_len r + length bs, rs_size := rs_size r * 2\<rparr>)" if "resp k s = Some r'" "resp_ok r'" for r'
      using that r ok le by (auto simp: resp_ok_def)
    then show "post (do {
        s \<leftarrow> on_resp k (\<lambda>r'. r'\<lparr>rs_buf := [], rs_len := rs_len r + length bs, rs_size := rs_size r * 2\<rparr>) s;
        s \<leftarrow> close_server_and_subscribers j s;
        Some (False, s) }) wf_snd"
      by (intro wf_seq[OF on_resp_wf[OF s]] wf_flag close_server_and_subscribers_wf) auto
    have "resp_ok (r'\<lparr>rs_buf := take (rs_size r * 2) buf @ map (s_noise e) [0..<rs_size r * 2 - length buf],
        rs_len := rs_len r + length bs, rs_size := rs_size r * 2\<rparr>)" if "resp k s = Some r'" "resp_ok r'" for r'
      using that r ok le by (auto simp: resp_ok_def)
    then show "post (do {
        s \<leftarrow> on_resp k (\<lambda>r'. r'\<lparr>rs_buf := take (rs_size r * 2) buf @ map (s_noise e) [0..<rs_size r * 2 - length buf],
          rs_len := rs_len r + length bs, rs_size := rs_size r * 2\<rparr>) s;
        Some (True, s) }) wf_snd"
      by (intro wf_flag on_resp_wf[OF s]) auto
  qed
qed

lemma find_length_wf: "well_formed s \<Longrightarrow> post (find_length e j k hs s) wf_snd"
proof -
  assume s: "well_formed s"
  have "post (on_resp k (\<lambda>r. r\<lparr>rs_content := c\<rparr>) s) well_formed" for c
    by (rule on_resp_wf[OF s]) (simp add: resp_ok_def)
  then show ?thesis unfolding find_length_def
    using s wf_flag[OF close_server_and_subscribers_wf[OF s]]
    by (intro post_pure post_if) (auto split: sum.split intro!: post_pure wf_flag)
qed

lemma substring_loop_less: "substring_loop sub k n mem = Some r \<Longrightarrow> r < int (k + n) \<or> n = 0"
proof (induction mem arbitrary: k n)
  case Nil
  then show ?case by (cases n) auto
next
  case (Cons c cs)
  then show ?case by (cases n) (fastforce simp: fault_simps split: if_splits)+
qed

lemma find_head_wf: "well_formed s \<Longrightarrow> post (find_head k s) well_formed"
  unfolding find_head_def
proof (rule post_pure, rule post_pure, rule post_if, rule on_resp_wf, assumption)
  fix r n r' assume "resp k s = Some r" "get_substring [CHR 0x0d, CHR 0x0a, CHR 0x0d, CHR 0x0a] (rs_buf r) (rs_len r) = Some n" "0 \<le> n"
    "resp k s = Some r'" "resp_ok r'"
  then show "resp_ok (r'\<lparr>rs_head := n + 4, rs_content := (if rs_content r' = -1 then 0 else rs_content r')\<rparr>)"
    using substring_loop_less[of "[CHR 0x0d, CHR 0x0a, CHR 0x0d, CHR 0x0a]" 0 "rs_len r" "rs_buf r" n]
    by (auto simp: resp_ok_def get_substring_def)
qed simp

lemma parse_head_wf: "well_formed s \<Longrightarrow> post (parse_head P e j k prev s) wf_snd"
  unfolding parse_head_def Let_def
proof (rule post_pure, rule post_if, simp)
  fix r assume s: "well_formed s"
  have st: "post (on_resp k (\<lambda>r. r\<lparr>rs_status := c\<rparr>) s) well_formed" for c
    by (rule on_resp_wf[OF s]) (simp add: resp_ok_def)
  show "post (do {
      s \<leftarrow> on_resp k (\<lambda>r. r\<lparr>rs_status := c\<rparr>) s;
      (go, s) \<leftarrow> find_length e j k hs s;
      if go then do { s \<leftarrow> find_head k s; Some (True, s) } else Some (False, s) }) wf_snd" for c hs
    by (rule wf_seq[OF st], rule post_bind[OF find_length_wf], assumption) (auto intro!: wf_flag find_head_wf)
qed

lemma finish_answer_wf: "well_formed s \<Longrightarrow> post (finish_answer j k s) well_formed"
proof -
  have w: "post (wake_sub i s) well_formed" if "well_formed s" for i s
    using that by (simp add: wake_sub_def on_polls_wf)
  show "well_formed s \<Longrightarrow> ?thesis" unfolding finish_answer_def
    by (rule wf_seq[OF run_turns_wf[OF with_sub_wf[OF w]]], assumption+, intro post_pure post_if close_server_wf) simp_all
qed

lemma receive_from_server_wf: "well_formed s \<Longrightarrow> post (receive_from_server P e j s) well_formed"
proof -
  assume s: "well_formed s"
  have fin: "post (if go then finish_answer j k s2 else Some s2) well_formed" if "well_formed s2" for go k s2
    using that by (simp add: finish_answer_wf)
  have "post (if \<not> go then Some s1 else do {
      (go, s) \<leftarrow> parse_head P e j k n s1;
      if go then finish_answer j k s else Some s }) well_formed" if "well_formed s1" for go k n s1
    using that by (intro post_if post_bind[OF parse_head_wf]) (auto intro!: fin)
  then show ?thesis unfolding receive_from_server_def
    by (intro post_pure post_option post_if close_server_and_subscribers_wf[OF s] post_bind[OF store_answer_wf[OF s]]) auto
qed

lemma server_turn_wf: "well_formed s \<Longrightarrow> post (server_turn P es j s) well_formed"
  unfolding server_turn_def
  by (intro post_pure post_if close_server_and_subscribers_wf connect_to_server_wf send_to_server_wf receive_from_server_wf) simp_all

lemma accept_client_wf: "well_formed s \<Longrightarrow> post (accept_client e s) well_formed"
proof -
  assume s: "well_formed s"
  have "well_formed (s\<lparr>spolls := t, sclis := c\<rparr>)"
    if "add_fd_to_clients (map (s_noise e) [0..<BUF_SIZE]) g pi fd (sclis s) = Some (j, c)" for t g pi fd j c
    using add_client_wf[OF s that] by (auto simp: well_formed_def simp del: upt_rec_numeral)
  then show ?thesis unfolding accept_client_def Let_def
    by (intro post_pure post_if post_prod) (auto simp: s simp del: upt_rec_numeral)
qed

lemma clear_processed_wf: "well_formed s \<Longrightarrow> post (clear_processed i s) well_formed"
  unfolding clear_processed_def
  by (rule wf_seq[OF on_srv_wf], assumption, simp add: server_ok_def, rule on_cli_wf) (simp_all add: client_ok_def)

lemma shuvalov_turn_wf: "well_formed s \<Longrightarrow> post (shuvalov_turn P x s) (\<lambda>(_, s'). well_formed s')"
proof -
  assume "well_formed s"
  then have s: "well_formed (case t_poll x of PollReady revs \<Rightarrow> s\<lparr>spolls := ppoll_returns revs (spolls s)\<rparr> | _ \<Rightarrow> s)"
    by (simp split: spoll.split)
  have c: "post (run_turns clear_processed xs s1 \<bind> (\<lambda>s. Some (None, s))) (\<lambda>(_, s'). well_formed s')" if "well_formed s1" for s1 xs
    by (rule post_bind[OF run_turns_wf[OF clear_processed_wf that]]) simp_all
  show ?thesis unfolding shuvalov_turn_def Let_def process_clients_def process_servers_def
    by (rule post_if, simp add: \<open>well_formed s\<close>, rule post_pure, rule post_if, simp add: s, rule wf_seq[OF accept_client_wf[OF s]],
        rule wf_seq[OF run_turns_wf[OF client_turn_wf]], assumption+, rule wf_seq[OF run_turns_wf[OF server_turn_wf]], assumption+, rule c)
qed

lemma main_wf:
  assumes "shuvalov_main args e lf sf listen_fd signal_fd = Some (Go s)"
  shows "well_formed s"
proof -
  define cells where "cells = map (s_noise e) [0..<BUF_SIZE]"
  have l: "length cells = BUF_SIZE" by (simp add: cells_def)
  have "snodes (scach s) = replicate 10 (init_cache_node cells) \<and> smembers (sclis s) = replicate INIT_FDS_SIZE (init_client cells (s_garbage e)) \<and>
      vmembers (ssrvs s) = init_servers_members INIT_FDS_SIZE (s_garbage e)"
    using assms unfolding shuvalov_main_def Let_def cells_def[symmetric] init_clients_def init_servers_def init_clients_members_def init_cache_def
    by (auto simp: fault_simps simp del: upt_rec_numeral split: option.splits if_splits prod.splits)
  then show ?thesis using l
    by (auto simp: well_formed_def client_ok_def init_client_def setup_client_def server_ok_def init_servers_members_def
        setup_server_def resp_ok_def init_cache_node_def)
qed

text \<open>
  C11: The sizes and indices of \<open>shuvalov/31\<close> are right in every state that its main loop can reach, whatever the calls of
  the system and the parser return: the bytes of a request or a response lie inside its block (which is NULL after a
  failed \<open>realloc\<close> only), a response has its 100 places for subscribers, clients and servers point to responses
  of the ten nodes, and the head of a response ends at most three bytes behind what was read.
\<close>
theorem shuvalov_types:
  assumes "shuvalov_main args e listen_fails signal_fails listen_fd signal_fd = Some (Go s0)" "shuvalov_run P s0 s"
  shows "(\<forall>c \<in> set (smembers (sclis s)). length (sc_buf c) = BUF_SIZE \<and> sc_len c \<le> BUF_SIZE \<and>
      (sc_response c = None \<or> the (sc_response c) < 10)) \<and>
    (\<forall>v \<in> set (vmembers (ssrvs s)). ss_response v = None \<or> the (ss_response v) < 10) \<and>
    length (snodes (scach s)) = 10 \<and>
    (\<forall>r \<in> sn_response ` set (snodes (scach s)). length (rs_subs r) = 100 \<and> rs_len r < rs_size r \<and>
      (rs_buf r = [] \<or> rs_size r \<le> length (rs_buf r)) \<and> rs_head r \<le> int (rs_len r) + 3)"
proof -
  have "well_formed s" using assms(2)
  proof (induction rule: shuvalov_run.induct)
    case start
    show ?case by (rule main_wf[OF assms(1)])
  next
    case (turn s x s')
    then show ?case using shuvalov_turn_wf[of s P x] by (simp add: post_def)
  qed
  then show ?thesis by (auto simp: well_formed_def client_ok_def server_ok_def resp_ok_def)
qed

theorem shuvalov_types_witness:
  "\<exists>s :: shuvalov. 5 \<in> set (map sc_fd (smembers (sclis s))) \<and> length (snodes (scach s)) = 10"
proof -
  obtain s0 s where s: "shuvalov_main [] calm_env False False 3 4 = Some (Go s0)" "shuvalov_run no_parser s0 s"
      "5 \<in> set (map sc_fd (smembers (sclis s)))"
    using first_client by metis
  note t = shuvalov_types[OF s(1,2)]
  show ?thesis by (rule exI[of _ s], rule conjI[OF s(3) conjunct1[OF conjunct2[OF conjunct2[OF t]]]])
qed

end
